(* ===== verification/Mdv_Prelude.thy ===== *)
theory Mdv_Prelude
  imports Main "HOL-Library.Word"
begin

text \<open>
  What the component theories share: the machine types of the C code, the error codes of
  src/mdv_platform/mdv_errno.h, byte buffers with \<open>memcpy\<close> as \<open>blit\<close>, the little-endian and
  big-endian layouts of integers in memory, and \<open>memcmp\<close>.

  Conventions of the development. An allocation (\<open>mdv_alloc\<close>, \<open>realloc\<close>) can fail: an operation
  that allocates takes the outcome of the allocation as a boolean argument. Where the C code
  divides by zero, dereferences a null pointer or reads outside an array, the model returns
  \<open>None\<close>, so undefined behaviour is a value that theorems can speak about. Sizes and indices of
  objects in memory are \<open>nat\<close>; identifiers, hashes, counters and wire fields, where the width
  matters, are words.
\<close>

type_synonym u8 = "8 word"
type_synonym u16 = "16 word"
type_synonym u32 = "32 word"
type_synonym u64 = "64 word"
type_synonym bytes = "8 word list"

text \<open>The error codes of mdv_errno.h; \<open>MDV_SYS n\<close> stands for a system error number that
  \<open>mdv_error\<close> hands through unchanged.\<close>

datatype mdv_errno =
    MDV_OK | MDV_FALSE | MDV_FAILED | MDV_INVALID_ARG | MDV_INVALID_TYPE | MDV_ENOENT
  | MDV_EAGAIN | MDV_CLOSED | MDV_EEXIST | MDV_NO_MEM | MDV_INPROGRESS | MDV_ETIMEDOUT
  | MDV_BUSY | MDV_NO_IMPL | MDV_STACK_OVERFLOW | MDV_SYS int

named_theorems blit_simps "length and lookup facts about memcpy into a buffer"
named_theorems codec_simps "round trips of integer layouts in memory"

lemma option_eqI: "(\<And>x. a = Some x \<longleftrightarrow> b = Some x) \<Longrightarrow> a = b"
  by (cases a; cases b) auto

section \<open>Buffers\<close>

text \<open>\<open>blit off src buf\<close> is \<open>memcpy (buf + off, src, length src)\<close> inside a buffer.\<close>

definition blit :: "nat \<Rightarrow> 'a list \<Rightarrow> 'a list \<Rightarrow> 'a list" where
  "blit off src buf = take off buf @ src @ drop (off + length src) buf"

text \<open>\<open>slice off n buf\<close> reads \<open>n\<close> elements at \<open>off\<close>.\<close>

definition slice :: "nat \<Rightarrow> nat \<Rightarrow> 'a list \<Rightarrow> 'a list" where
  "slice off n buf = take n (drop off buf)"

lemma length_blit [blit_simps]:
  "off + length src \<le> length buf \<Longrightarrow> length (blit off src buf) = length buf"
  by (simp add: blit_def)

lemma length_slice [blit_simps]:
  "off + n \<le> length buf \<Longrightarrow> length (slice off n buf) = n"
  by (simp add: slice_def)

lemma nth_blit:
  assumes "off + length src \<le> length buf" and "i < length buf"
  shows "blit off src buf ! i =
    (if i < off then buf ! i else if i < off + length src then src ! (i - off) else buf ! i)"
  using assms by (auto simp: blit_def nth_append min_def)

lemma nth_slice: "off + n \<le> length buf \<Longrightarrow> i < n \<Longrightarrow> slice off n buf ! i = buf ! (off + i)"
  by (simp add: slice_def)

lemma slice_blit_same [blit_simps]:
  "off + length src \<le> length buf \<Longrightarrow> n = length src \<Longrightarrow> slice off n (blit off src buf) = src"
  by (simp add: slice_def blit_def)

lemma slice_blit_other [blit_simps]:
  assumes "off + length src \<le> length buf" and "o2 + n \<le> length buf"
    and "o2 + n \<le> off \<or> off + length src \<le> o2"
  shows "slice o2 n (blit off src buf) = slice o2 n buf"
  using assms by (intro nth_equalityI) (auto simp: length_slice length_blit nth_slice nth_blit)

lemma slice_blit_inside [blit_simps]:
  assumes "off + length src \<le> length buf" and "off \<le> o2" and "o2 + n \<le> off + length src"
  shows "slice o2 n (blit off src buf) = slice (o2 - off) n src"
  using assms by (intro nth_equalityI) (auto simp: length_slice length_blit nth_slice nth_blit)

lemma slice_whole [simp]: "slice 0 (length xs) xs = xs"
  by (simp add: slice_def)

lemma slice_append_left: "off + n \<le> length xs \<Longrightarrow> slice off n (xs @ ys) = slice off n xs"
  by (simp add: slice_def)

lemma slice_append_right: "off = length xs \<Longrightarrow> slice off n (xs @ ys) = take n ys"
  by (simp add: slice_def)

section \<open>Arrays of items in a buffer\<close>

text \<open>Item \<open>i\<close> of a buffer that holds items of \<open>s\<close> bytes, and the items of a buffer.\<close>

definition slot :: "nat \<Rightarrow> bytes \<Rightarrow> nat \<Rightarrow> bytes" where
  "slot s buf i = slice (i * s) s buf"

definition chunks :: "nat \<Rightarrow> bytes \<Rightarrow> bytes list" where
  "chunks s d = map (slot s d) [0..<length d div s]"

lemma slot_fits: "i < n \<Longrightarrow> i * s + s \<le> n * (s::nat)"
  by (metis Suc_leI add.commute mult_Suc mult_le_mono1)

lemma slot_blit:
  assumes "0 < s" and "length d = m * s" and "t + m \<le> n" and "length buf = n * s" and "i < n"
  shows "slot s (blit (t * s) d buf) i = (if t \<le> i \<and> i < t + m then slot s d (i - t) else slot s buf i)"
proof -
  have len: "t * s + length d \<le> length buf"
    using assms by (metis add_mult_distrib mult_le_mono1)
  have fit: "i * s + s \<le> length buf"
    using slot_fits [of i n s] assms by simp
  consider "i < t" | "t \<le> i" "i < t + m" | "t + m \<le> i" by linarith
  then show ?thesis
  proof cases
    case 1
    then have "i * s + s \<le> t * s" using slot_fits by blast
    with 1 len fit show ?thesis by (simp add: slot_def slice_blit_other)
  next
    case 2
    then have "(i - t) * s + s \<le> m * s" using slot_fits [of "i - t" m s] by simp
    moreover have "i * s = t * s + (i - t) * s" using 2 by (metis add_mult_distrib le_add_diff_inverse)
    ultimately show ?thesis using 2 len assms by (simp add: slot_def slice_blit_inside)
  next
    case 3
    then have "t * s + m * s \<le> i * s" by (metis add_mult_distrib mult_le_mono1)
    with 3 len fit assms show ?thesis by (simp add: slot_def slice_blit_other)
  qed
qed

lemma slot_drop: "slot s (drop (f * s) d) i = slot s d (f + i)"
  by (simp add: slot_def slice_def add_mult_distrib add.commute)

lemma slot_take: "i < f \<Longrightarrow> slot s (take (f * s) d) i = slot s d i"
  using slot_fits [of i f s] by (simp add: slot_def slice_def drop_take min_def)

section \<open>Integers in memory\<close>

primrec le_bytes :: "nat \<Rightarrow> nat \<Rightarrow> bytes" where
  "le_bytes 0 v = []"
| "le_bytes (Suc n) v = word_of_nat (v mod 256) # le_bytes n (v div 256)"

primrec le_val :: "bytes \<Rightarrow> nat" where
  "le_val [] = 0"
| "le_val (b # bs) = unat b + 256 * le_val bs"

definition be_bytes :: "nat \<Rightarrow> nat \<Rightarrow> bytes" where
  "be_bytes n v = rev (le_bytes n v)"

definition be_val :: "bytes \<Rightarrow> nat" where
  "be_val bs = le_val (rev bs)"

lemma length_le_bytes [simp]: "length (le_bytes n v) = n"
  by (induction n arbitrary: v) auto

lemma length_be_bytes [simp]: "length (be_bytes n v) = n"
  by (simp add: be_bytes_def)

lemma unat_lt_256 [simp]: "unat (b :: u8) < 256"
  using unsigned_less [of b] by simp

lemma le_val_bound: "le_val bs < 256 ^ length bs"
proof (induction bs)
  case Nil
  then show ?case by simp
next
  case (Cons b bs)
  have "unat b < 256" by simp
  with Cons have "unat b + 256 * le_val bs < 256 * (le_val bs + 1)" by simp
  also have "\<dots> \<le> 256 * 256 ^ length bs" using Cons by (intro mult_le_mono2) simp
  finally show ?case by simp
qed

lemma le_val_le_bytes [codec_simps]: "le_val (le_bytes n v) = v mod 256 ^ n"
proof (induction n arbitrary: v)
  case 0
  then show ?case by simp
next
  case (Suc n)
  have "unat (word_of_nat (v mod 256) :: u8) = v mod 256"
    by (simp add: unat_of_nat)
  with Suc show ?case by (simp add: mod_mult2_eq)
qed

lemma le_bytes_le_val [codec_simps]: "n = length bs \<Longrightarrow> le_bytes n (le_val bs) = bs"
proof (induction bs arbitrary: n)
  case Nil
  then show ?case by simp
next
  case (Cons b bs)
  have "(unat b + 256 * le_val bs) mod 256 = unat b" and
    "(unat b + 256 * le_val bs) div 256 = le_val bs"
    by (simp_all add: mod_less div_less)
  with Cons show ?case by simp
qed

lemma be_val_be_bytes [codec_simps]: "be_val (be_bytes n v) = v mod 256 ^ n"
  by (simp add: be_val_def be_bytes_def le_val_le_bytes)

lemma be_bytes_be_val [codec_simps]: "n = length bs \<Longrightarrow> be_bytes n (be_val bs) = bs"
  by (simp add: be_val_def be_bytes_def le_bytes_le_val)

lemma le_bytes_inj: "le_val bs = le_val cs \<Longrightarrow> length bs = length cs \<Longrightarrow> bs = cs"
  by (metis le_bytes_le_val)

section \<open>memcmp\<close>

text \<open>The sign of the C library's \<open>memcmp\<close>: unsigned bytes, first difference decides.\<close>

fun memcmp :: "bytes \<Rightarrow> bytes \<Rightarrow> int" where
  "memcmp (x # xs) (y # ys) = (if x < y then -1 else if y < x then 1 else memcmp xs ys)"
| "memcmp _ _ = 0"

lemma memcmp_eq_0: "length xs = length ys \<Longrightarrow> memcmp xs ys = 0 \<longleftrightarrow> xs = ys"
  by (induction xs ys rule: memcmp.induct) auto

lemma memcmp_swap: "memcmp ys xs = - memcmp xs ys"
  by (induction xs ys rule: memcmp.induct) auto

end
