(* ===== verification/Mdv_Queue.thy ===== *)
theory Mdv_Queue
  imports Mdv_Prelude
begin

text \<open>
  The ring buffer of src/mdv_platform/generic/mdv_queue.c and mdv_queue.h, at the level of bytes:
  the record holds the fields of \<open>mdv_queue_base\<close>, \<open>data\<close> is the array of \<open>capacity + 1\<close> items of
  \<open>item_size\<close> bytes, and every \<open>memcpy\<close> is a \<open>blit\<close> or a \<open>slice\<close>. The operations are the
  single-threaded meaning of the code: each atomic load and store is a read or a write.

  The contract is the locale \<open>bounded_fifo\<close>: a first-in first-out sequence of at most \<open>cap\<close>
  items. Its laws are discharged for the ring buffer by the interpretation \<open>ring\<close>.
\<close>

section \<open>The code\<close>

record mdv_queue =
  q_capacity :: nat
  q_item_size :: nat
  q_head :: nat
  q_tail :: nat
  q_data :: bytes

text \<open>\<open>mdv_queue_clear\<close> on a queue whose storage is \<open>buf\<close>, an array of items of \<open>isz\<close> bytes.\<close>

definition mdv_queue_clear :: "nat \<Rightarrow> bytes \<Rightarrow> mdv_queue" where
  "mdv_queue_clear isz buf =
     \<lparr> q_capacity = length buf div isz - 1, q_item_size = isz, q_head = 0, q_tail = 0, q_data = buf \<rparr>"

definition mdv_queue_size :: "mdv_queue \<Rightarrow> nat" where
  "mdv_queue_size q =
     (if q_head q \<le> q_tail q then q_tail q - q_head q else q_capacity q + 1 + q_tail q - q_head q)"

definition mdv_queue_free_space :: "mdv_queue \<Rightarrow> nat" where
  "mdv_queue_free_space q = q_capacity q - mdv_queue_size q"

definition mdv_queue_empty :: "mdv_queue \<Rightarrow> bool" where
  "mdv_queue_empty q \<longleftrightarrow> q_head q = q_tail q"

definition mdv_queue_push_one :: "mdv_queue \<Rightarrow> bytes \<Rightarrow> mdv_queue \<times> bool" where
  "mdv_queue_push_one q d =
     (let sz = length d in
      if sz \<noteq> q_item_size q then (q, False)
      else
        let h = q_head q; t = q_tail q; cap = q_capacity q + 1;
            data_size = (if h \<le> t then t - h else cap + t - h);
            free_space = q_capacity q - data_size
        in if free_space = 0 then (q, False)
           else (q\<lparr>q_data := blit (t * q_item_size q) d (q_data q), q_tail := (t + 1) mod cap\<rparr>, True))"

definition mdv_queue_push_multiple :: "mdv_queue \<Rightarrow> bytes \<Rightarrow> mdv_queue \<times> bool" where
  "mdv_queue_push_multiple q d =
     (let sz = length d; items_count = sz div q_item_size q in
      if sz \<noteq> items_count * q_item_size q then (q, False)
      else
        let h = q_head q; t = q_tail q; cap = q_capacity q + 1 in
        if h \<le> t then
          let data_size = t - h; free_space = q_capacity q - data_size in
          if free_space < items_count then (q, False)
          else
            let free_space_0 = cap - t;
                first_block_size = free_space_0 * q_item_size q;
                buf = (if free_space_0 \<ge> items_count
                       then blit (t * q_item_size q) d (q_data q)
                       else blit 0 (drop first_block_size d)
                              (blit (t * q_item_size q) (take first_block_size d) (q_data q)))
            in (q\<lparr>q_data := buf, q_tail := (t + items_count) mod cap\<rparr>, True)
        else
          let data_size = cap + t - h; free_space = q_capacity q - data_size in
          if free_space < items_count then (q, False)
          else (q\<lparr>q_data := blit (t * q_item_size q) d (q_data q),
                  q_tail := (t + items_count) mod cap\<rparr>, True))"

definition mdv_queue_pop_one :: "mdv_queue \<Rightarrow> nat \<Rightarrow> mdv_queue \<times> bytes option" where
  "mdv_queue_pop_one q sz =
     (if sz \<noteq> q_item_size q then (q, None)
      else
        let h = q_head q; t = q_tail q; cap = q_capacity q + 1;
            data_size = (if h \<le> t then t - h else cap + t - h)
        in if data_size = 0 then (q, None)
           else (q\<lparr>q_head := (h + 1) mod cap\<rparr>, Some (slice (h * q_item_size q) sz (q_data q))))"

definition mdv_queue_pop_multiple :: "mdv_queue \<Rightarrow> nat \<Rightarrow> mdv_queue \<times> bytes option" where
  "mdv_queue_pop_multiple q sz =
     (let items_count = sz div q_item_size q in
      if sz \<noteq> items_count * q_item_size q then (q, None)
      else
        let h = q_head q; t = q_tail q; cap = q_capacity q + 1 in
        if h \<le> t then
          let data_size = t - h in
          if items_count > data_size then (q, None)
          else (q\<lparr>q_head := (h + items_count) mod cap\<rparr>,
                Some (slice (h * q_item_size q) sz (q_data q)))
        else
          let data_size = cap + t - h in
          if items_count > data_size then (q, None)
          else
            let data_block_0 = cap - h;
                first_block_size = data_block_0 * q_item_size q;
                out = (if data_block_0 \<ge> items_count
                       then slice (h * q_item_size q) sz (q_data q)
                       else slice (h * q_item_size q) first_block_size (q_data q)
                            @ slice 0 (sz - first_block_size) (q_data q))
            in (q\<lparr>q_head := (h + items_count) mod cap\<rparr>, Some out))"

section \<open>The contract\<close>

text \<open>
  What a client of the queue relies on. \<open>items\<close> is the abstract content, \<open>fits\<close> says that an
  item has the queue's item size, \<open>cap\<close> is the number of items the queue holds.
\<close>

datatype 'x queue_op = Push 'x | Pop

text \<open>A sequence of operations on a queue, with the items popped on the way in order.\<close>

fun queue_run :: "('q \<Rightarrow> 'x \<Rightarrow> 'q \<times> bool) \<Rightarrow> ('q \<Rightarrow> 'q \<times> 'x option) \<Rightarrow> 'q \<Rightarrow> 'x queue_op list \<Rightarrow> 'q \<times> 'x list" where
  "queue_run push pop q [] = (q, [])"
| "queue_run push pop q (Push x # ops) = queue_run push pop (fst (push q x)) ops"
| "queue_run push pop q (Pop # ops) =
     (case pop q of (q', r) \<Rightarrow>
        (case queue_run push pop q' ops of (q'', out) \<Rightarrow>
           (q'', (case r of None \<Rightarrow> out | Some x \<Rightarrow> x # out))))"

text \<open>The same sequence on a list of at most \<open>n\<close> items.\<close>

fun fifo_run :: "nat \<Rightarrow> ('x \<Rightarrow> bool) \<Rightarrow> 'x list \<Rightarrow> 'x queue_op list \<Rightarrow> 'x list \<times> 'x list" where
  "fifo_run n ok xs [] = (xs, [])"
| "fifo_run n ok xs (Push x # ops) =
     fifo_run n ok (if ok x \<and> length xs < n then xs @ [x] else xs) ops"
| "fifo_run n ok xs (Pop # ops) =
     (case xs of [] \<Rightarrow> fifo_run n ok [] ops
      | y # ys \<Rightarrow> (case fifo_run n ok ys ops of (zs, out) \<Rightarrow> (zs, y # out)))"

locale bounded_fifo =
  fixes invar :: "'q \<Rightarrow> bool"
    and items :: "'q \<Rightarrow> 'x list"
    and fits :: "'q \<Rightarrow> 'x \<Rightarrow> bool"
    and cap :: "'q \<Rightarrow> nat"
    and push :: "'q \<Rightarrow> 'x \<Rightarrow> 'q \<times> bool"
    and pop :: "'q \<Rightarrow> 'q \<times> 'x option"
  assumes push_full: "invar q \<Longrightarrow> \<not> (fits q x \<and> length (items q) < cap q) \<Longrightarrow> push q x = (q, False)"
    and push_room: "invar q \<Longrightarrow> fits q x \<Longrightarrow> length (items q) < cap q \<Longrightarrow>
      \<exists>q'. push q x = (q', True) \<and> invar q' \<and> items q' = items q @ [x]
           \<and> cap q' = cap q \<and> fits q' = fits q"
    and pop_empty: "invar q \<Longrightarrow> items q = [] \<Longrightarrow> pop q = (q, None)"
    and pop_front: "invar q \<Longrightarrow> items q = x # xs \<Longrightarrow>
      \<exists>q'. pop q = (q', Some x) \<and> invar q' \<and> items q' = xs \<and> cap q' = cap q \<and> fits q' = fits q"
begin

lemma run_refines:
  assumes "invar q"
  shows "(case queue_run push pop q ops of (q', out) \<Rightarrow> invar q' \<and> cap q' = cap q \<and> fits q' = fits q
           \<and> fifo_run (cap q) (fits q) (items q) ops = (items q', out))"
  using assms
proof (induction ops arbitrary: q)
  case Nil
  then show ?case by simp
next
  case (Cons op ops)
  show ?case
  proof (cases op)
    case (Push x)
    show ?thesis
    proof (cases "fits q x \<and> length (items q) < cap q")
      case True
      then obtain q' where "push q x = (q', True)" "invar q'" "items q' = items q @ [x]"
        "cap q' = cap q" "fits q' = fits q"
        using push_room [OF Cons.prems] by blast
      with Push True Cons.IH [of q'] show ?thesis by simp
    next
      case False
      with push_full [OF Cons.prems False] Push Cons.IH [OF Cons.prems] show ?thesis by auto
    qed
  next
    case Pop
    show ?thesis
    proof (cases "items q")
      case Nil
      with pop_empty [OF Cons.prems] Pop Cons.IH [OF Cons.prems] show ?thesis
        by (auto split: prod.splits)
    next
      case (Cons y ys)
      then obtain q' where "pop q = (q', Some y)" "invar q'" "items q' = ys"
        "cap q' = cap q" "fits q' = fits q"
        using pop_front [OF \<open>invar q\<close>] by blast
      with Pop \<open>items q = y # ys\<close> Cons.IH [of q'] show ?thesis by (auto split: prod.splits)
    qed
  qed
qed

end

section \<open>The ring buffer holds a sequence of items\<close>

definition queue_inv :: "mdv_queue \<Rightarrow> bool" where
  "queue_inv q \<longleftrightarrow> 0 < q_item_size q \<and> q_head q \<le> q_capacity q \<and> q_tail q \<le> q_capacity q
     \<and> length (q_data q) = (q_capacity q + 1) * q_item_size q"

definition queue_items :: "mdv_queue \<Rightarrow> bytes list" where
  "queue_items q =
     map (\<lambda>k. slot (q_item_size q) (q_data q) ((q_head q + k) mod (q_capacity q + 1)))
       [0..<mdv_queue_size q]"

lemma ring_index:
  "(h::nat) \<le> c \<Longrightarrow> k \<le> c \<Longrightarrow> (h + k) mod (c + 1) = (if h + k \<le> c then h + k else h + k - (c + 1))"
  by (auto simp: mod_if)

lemma queue_size_bound: "queue_inv q \<Longrightarrow> mdv_queue_size q \<le> q_capacity q"
  by (auto simp: queue_inv_def mdv_queue_size_def)

lemma length_queue_items [simp]: "length (queue_items q) = mdv_queue_size q"
  by (simp add: queue_items_def)

lemma queue_write:
  assumes inv: "queue_inv q" and len: "length d = m * q_item_size q"
    and room: "m \<le> mdv_queue_free_space q" and lb: "length buf = length (q_data q)"
    and new: "\<And>j. j < m \<Longrightarrow> slot (q_item_size q) buf ((q_tail q + j) mod (q_capacity q + 1))
                = slot (q_item_size q) d j"
    and old: "\<And>i. i \<le> q_capacity q \<Longrightarrow> (\<And>j. j < m \<Longrightarrow> i \<noteq> (q_tail q + j) mod (q_capacity q + 1)) \<Longrightarrow>
                slot (q_item_size q) buf i = slot (q_item_size q) (q_data q) i"
    and q': "q' = q\<lparr>q_data := buf, q_tail := (q_tail q + m) mod (q_capacity q + 1)\<rparr>"
  shows "queue_inv q' \<and> queue_items q' = queue_items q @ chunks (q_item_size q) d"
proof
  let ?c = "q_capacity q" and ?n = "mdv_queue_size q"
  have m: "m \<le> ?c" "?n + m \<le> ?c"
    using room queue_size_bound [OF inv] by (auto simp: mdv_queue_free_space_def)
  have tail': "(q_tail q + m) mod (?c + 1) = (if q_tail q + m \<le> ?c then q_tail q + m else q_tail q + m - (?c + 1))"
    using inv m by (intro ring_index) (auto simp: queue_inv_def)
  show "queue_inv q'"
    using inv q' lb tail' m by (auto simp: queue_inv_def)
  have size': "mdv_queue_size q' = ?n + m"
    using inv m q' tail' by (auto simp: queue_inv_def mdv_queue_size_def split: if_splits)
  have m_def: "length d div q_item_size q = m"
    using len inv by (simp add: queue_inv_def)
  show "queue_items q' = queue_items q @ chunks (q_item_size q) d"
  proof (rule nth_equalityI)
    show "length (queue_items q') = length (queue_items q @ chunks (q_item_size q) d)"
      using size' m_def by (simp add: chunks_def)
  next
    fix k assume "k < length (queue_items q')"
    then have k: "k < ?n + m" by (simp add: size')
    have hd: "q_head q \<le> ?c" "q_tail q \<le> ?c" using inv by (auto simp: queue_inv_def)
    have idx: "(q_head q + k) mod (?c + 1) = (if q_head q + k \<le> ?c then q_head q + k else q_head q + k - (?c + 1))"
      using hd k m by (intro ring_index) auto
    have tl: "(q_tail q + j) mod (?c + 1) = (if q_tail q + j \<le> ?c then q_tail q + j else q_tail q + j - (?c + 1))"
      if "j < m" for j using hd m that by (intro ring_index) auto
    have nth: "queue_items q' ! k = slot (q_item_size q) buf ((q_head q + k) mod (?c + 1))"
      using k size' q' by (simp add: queue_items_def)
    show "queue_items q' ! k = (queue_items q @ chunks (q_item_size q) d) ! k"
    proof (cases "k < ?n")
      case True
      have "(q_head q + k) mod (?c + 1) \<noteq> (q_tail q + j) mod (?c + 1)" if "j < m" for j
        using idx tl [OF that] True that hd m
        by (auto simp: mdv_queue_size_def split: if_splits)
      then have "slot (q_item_size q) buf ((q_head q + k) mod (?c + 1))
            = slot (q_item_size q) (q_data q) ((q_head q + k) mod (?c + 1))"
        using idx hd k m by (intro old) (auto split: if_splits)
      with nth True show ?thesis by (simp add: nth_append queue_items_def)
    next
      case False
      then obtain j where kj: "k = ?n + j" by (metis le_add_diff_inverse not_less)
      have j: "j < m" using kj k by simp
      have "q_head q + k = q_tail q + j \<or> q_head q + k = (q_tail q + j) + (?c + 1)"
        using hd kj by (auto simp: mdv_queue_size_def)
      then have "(q_head q + k) mod (?c + 1) = (q_tail q + j) mod (?c + 1)"
        by (elim disjE) (simp_all only: mod_add_self2)
      with nth new [OF j] kj j m_def show ?thesis by (simp add: nth_append chunks_def)
    qed
  qed
qed

lemma queue_drop:
  assumes inv: "queue_inv q" and m: "m \<le> mdv_queue_size q"
    and q': "q' = q\<lparr>q_head := (q_head q + m) mod (q_capacity q + 1)\<rparr>"
  shows "queue_inv q' \<and> queue_items q' = drop m (queue_items q)"
proof
  let ?c = "q_capacity q"
  have b: "m \<le> ?c" "q_head q \<le> ?c" "q_tail q \<le> ?c"
    using m queue_size_bound [OF inv] inv by (auto simp: queue_inv_def)
  have head': "(q_head q + m) mod (?c + 1) = (if q_head q + m \<le> ?c then q_head q + m else q_head q + m - (?c + 1))"
    using b by (intro ring_index) auto
  show "queue_inv q'" using inv q' head' b by (auto simp: queue_inv_def)
  have size': "mdv_queue_size q' = mdv_queue_size q - m"
    using b m q' head' by (auto simp: mdv_queue_size_def split: if_splits)
  have "((q_head q + m) mod (?c + 1) + k) mod (?c + 1) = (q_head q + (m + k)) mod (?c + 1)" for k
    by (simp add: mod_add_left_eq add.assoc)
  then show "queue_items q' = drop m (queue_items q)"
    using size' q' m by (intro nth_equalityI [where xs = "queue_items q'"]) (simp_all add: queue_items_def less_diff_conv add.commute)
qed

lemma queue_front:
  assumes inv: "queue_inv q" and m: "m \<le> mdv_queue_size q" and nowrap: "q_head q + m \<le> q_capacity q + 1"
  shows "slice (q_head q * q_item_size q) (m * q_item_size q) (q_data q) = concat (take m (queue_items q))"
  using m nowrap
proof (induction m)
  case 0
  then show ?case by (simp add: slice_def)
next
  case (Suc m)
  let ?s = "q_item_size q"
  have idx: "(q_head q + m) mod (q_capacity q + 1) = q_head q + m" using Suc.prems by simp
  have "slice (q_head q * ?s) (Suc m * ?s) (q_data q)
      = slice (q_head q * ?s) (m * ?s) (q_data q) @ slot ?s (q_data q) (q_head q + m)"
    using take_add [of "m * ?s" ?s "drop (q_head q * ?s) (q_data q)"]
    by (simp add: slot_def slice_def add.commute add_mult_distrib)
  moreover have "take (Suc m) (queue_items q) = take m (queue_items q) @ [queue_items q ! m]"
    using Suc.prems by (intro take_Suc_conv_app_nth) simp
  moreover have "queue_items q ! m = slot ?s (q_data q) (q_head q + m)"
    using Suc.prems idx by (simp add: queue_items_def)
  ultimately show ?case using Suc by simp
qed

section \<open>The operations\<close>

lemma push_one_room:
  assumes inv: "queue_inv q" and fit: "length d = q_item_size q" and room: "mdv_queue_size q < q_capacity q"
  shows "\<exists>q'. mdv_queue_push_one q d = (q', True) \<and> queue_inv q' \<and> queue_items q' = queue_items q @ [d]
           \<and> q_capacity q' = q_capacity q \<and> q_item_size q' = q_item_size q"
proof -
  let ?s = "q_item_size q" and ?c = "q_capacity q"
  let ?b = "blit (q_tail q * ?s) d (q_data q)"
  let ?q = "q\<lparr>q_data := ?b, q_tail := (q_tail q + 1) mod (?c + 1)\<rparr>"
  have i: "0 < ?s" "q_tail q \<le> ?c" "length (q_data q) = (?c + 1) * ?s"
    using inv by (auto simp: queue_inv_def)
  have sb: "slot ?s ?b i = (if i = q_tail q then slot ?s d 0 else slot ?s (q_data q) i)" if "i \<le> ?c" for i
    using slot_blit [of ?s d 1 "q_tail q" "?c + 1" "q_data q" i] i fit that by auto
  have "queue_inv ?q \<and> queue_items ?q = queue_items q @ chunks ?s d"
  proof (rule queue_write [where m = 1 and buf = ?b])
    show "length ?b = length (q_data q)"
      using i fit slot_fits [of "q_tail q" "?c + 1" ?s] by (simp add: length_blit)
  qed (use inv fit room i sb in \<open>auto simp: mdv_queue_free_space_def\<close>)
  moreover have "chunks ?s d = [d]"
    using fit i by (simp add: chunks_def slot_def slice_def)
  moreover have "mdv_queue_push_one q d = (?q, True)"
    using fit room by (auto simp: mdv_queue_push_one_def mdv_queue_size_def Let_def split: if_splits)
  ultimately show ?thesis by simp
qed

lemma push_one_refused:
  "\<not> (length d = q_item_size q \<and> mdv_queue_size q < q_capacity q) \<Longrightarrow> mdv_queue_push_one q d = (q, False)"
  by (auto simp: mdv_queue_push_one_def mdv_queue_size_def Let_def)

lemma pop_one_empty: "queue_items q = [] \<Longrightarrow> mdv_queue_pop_one q n = (q, None)"
  by (auto simp: mdv_queue_pop_one_def mdv_queue_size_def queue_items_def Let_def split: if_splits)

lemma pop_one_front:
  assumes inv: "queue_inv q" and it: "queue_items q = x # xs"
  shows "\<exists>q'. mdv_queue_pop_one q (q_item_size q) = (q', Some x) \<and> queue_inv q' \<and> queue_items q' = xs
           \<and> q_capacity q' = q_capacity q \<and> q_item_size q' = q_item_size q"
proof -
  let ?q = "q\<lparr>q_head := (q_head q + 1) mod (q_capacity q + 1)\<rparr>"
  have n: "1 \<le> mdv_queue_size q" using it length_queue_items [of q] by simp
  have "queue_inv ?q \<and> queue_items ?q = drop 1 (queue_items q)"
    by (rule queue_drop [OF inv n]) simp
  moreover have "slice (q_head q * q_item_size q) (1 * q_item_size q) (q_data q) = concat (take 1 (queue_items q))"
    using inv n by (intro queue_front) (auto simp: queue_inv_def)
  moreover have "mdv_queue_pop_one q (q_item_size q)
      = (?q, Some (slice (q_head q * q_item_size q) (q_item_size q) (q_data q)))"
    using n by (auto simp: mdv_queue_pop_one_def mdv_queue_size_def Let_def)
  ultimately show ?thesis using it by simp
qed

interpretation ring: bounded_fifo queue_inv queue_items "\<lambda>q x. length x = q_item_size q" q_capacity
    mdv_queue_push_one "\<lambda>q. mdv_queue_pop_one q (q_item_size q)"
proof (unfold_locales, goal_cases)
  case (1 q x)
  then show ?case using push_one_refused by simp
next
  case (2 q x)
  then show ?case using push_one_room [of q x] by auto
next
  case (3 q)
  then show ?case using pop_one_empty by simp
next
  case (4 q x xs)
  then show ?case using pop_one_front [of q x xs] by auto
qed

lemma push_multiple_straight:
  assumes inv: "queue_inv q" and len: "length d = m * q_item_size q" and room: "m \<le> mdv_queue_free_space q"
    and fit: "q_tail q + m \<le> q_capacity q + 1"
    and q': "q' = q\<lparr>q_data := blit (q_tail q * q_item_size q) d (q_data q),
                     q_tail := (q_tail q + m) mod (q_capacity q + 1)\<rparr>"
  shows "queue_inv q' \<and> queue_items q' = queue_items q @ chunks (q_item_size q) d"
proof -
  let ?s = "q_item_size q" and ?c = "q_capacity q" and ?t = "q_tail q"
  have i: "0 < ?s" "length (q_data q) = (?c + 1) * ?s" using inv by (auto simp: queue_inv_def)
  have sb: "slot ?s (blit (?t * ?s) d (q_data q)) k
      = (if ?t \<le> k \<and> k < ?t + m then slot ?s d (k - ?t) else slot ?s (q_data q) k)" if "k \<le> ?c" for k
    using slot_blit [OF i(1) len fit i(2)] that by simp
  have "?t * ?s + m * ?s \<le> length (q_data q)"
    using fit i(2) by (metis add_mult_distrib mult_le_mono1)
  then have lb: "length (blit (?t * ?s) d (q_data q)) = length (q_data q)"
    using len by (simp add: length_blit)
  show ?thesis
  proof (rule queue_write [OF inv len room lb _ _ q'])
    fix j assume "j < m"
    with fit have j: "(?t + j) mod (?c + 1) = ?t + j" "?t + j \<le> ?c" by simp_all
    show "slot ?s (blit (?t * ?s) d (q_data q)) ((?t + j) mod (?c + 1)) = slot ?s d j"
      unfolding j(1) using sb [OF j(2)] \<open>j < m\<close> by simp
  next
    fix k assume k: "k \<le> ?c" and other: "\<And>j. j < m \<Longrightarrow> k \<noteq> (?t + j) mod (?c + 1)"
    have "\<not> (?t \<le> k \<and> k < ?t + m)"
    proof
      assume "?t \<le> k \<and> k < ?t + m"
      with k other [of "k - ?t"] less_diff_conv2 [of ?t k m] show False by (auto simp: add.commute)
    qed
    with sb [OF k] show "slot ?s (blit (?t * ?s) d (q_data q)) k = slot ?s (q_data q) k" by auto
  qed
qed

lemma push_multiple_wrapped:
  fixes q :: mdv_queue and d :: bytes and m :: nat
  defines "f \<equiv> q_capacity q + 1 - q_tail q"
  defines "buf \<equiv> blit 0 (drop (f * q_item_size q) d)
                   (blit (q_tail q * q_item_size q) (take (f * q_item_size q) d) (q_data q))"
  assumes inv: "queue_inv q" and len: "length d = m * q_item_size q" and room: "m \<le> mdv_queue_free_space q"
    and wrap: "f < m" and order: "q_head q \<le> q_tail q"
    and q': "q' = q\<lparr>q_data := buf, q_tail := (q_tail q + m) mod (q_capacity q + 1)\<rparr>"
  shows "queue_inv q' \<and> queue_items q' = queue_items q @ chunks (q_item_size q) d"
proof -
  let ?s = "q_item_size q" and ?c = "q_capacity q" and ?t = "q_tail q"
  let ?b = "blit (?t * ?s) (take (f * ?s) d) (q_data q)"
  have i: "0 < ?s" "length (q_data q) = (?c + 1) * ?s" "?t \<le> ?c" using inv by (auto simp: queue_inv_def)
  have f: "?t + f = ?c + 1" "m - f < ?c + 1" "m - f \<le> ?t"
    using i(3) room order wrap by (auto simp: f_def mdv_queue_free_space_def mdv_queue_size_def)
  have lt: "length (take (f * ?s) d) = f * ?s" using len wrap by simp
  have ld: "length (drop (f * ?s) d) = (m - f) * ?s" using len by (simp add: diff_mult_distrib)
  have lb': "length ?b = (?c + 1) * ?s"
    using f(1) lt i(2) by (metis add_mult_distrib length_blit order_refl)
  have lb: "length buf = length (q_data q)"
    unfolding buf_def using lb' ld i(2) mult_le_mono1 [of "m - f" "?c + 1" ?s] f(2)
    by (simp add: length_blit)
  have sb: "slot ?s buf k = (if k < m - f then slot ?s d (f + k)
      else if ?t \<le> k then slot ?s d (k - ?t) else slot ?s (q_data q) k)" if k: "k \<le> ?c" for k
  proof -
    have "slot ?s ?b k = (if ?t \<le> k \<and> k < ?t + f then slot ?s (take (f * ?s) d) (k - ?t) else slot ?s (q_data q) k)"
      using slot_blit [OF i(1) lt _ i(2), of ?t k] f(1) k by simp
    moreover have "slot ?s buf k = (if k < m - f then slot ?s (drop (f * ?s) d) k else slot ?s ?b k)"
      using slot_blit [OF i(1) ld _ lb', of 0 k] f(2) k by (simp add: buf_def)
    ultimately show ?thesis using f(1) k by (auto simp: slot_drop slot_take)
  qed
  show ?thesis
  proof (rule queue_write [OF inv len room lb _ _ q'])
    fix j assume j: "j < m"
    show "slot ?s buf ((?t + j) mod (?c + 1)) = slot ?s d j"
    proof (cases "j < f")
      case True
      then have "(?t + j) mod (?c + 1) = ?t + j" "?t + j \<le> ?c" using f(1) by simp_all
      with sb [of "?t + j"] f(3) show ?thesis by simp
    next
      case False
      have e: "?t + j = j - f + (?c + 1)" using f(1) False by simp
      have "(?t + j) mod (?c + 1) = j - f"
        unfolding e mod_add_self2 using j f(2) False by simp
      moreover have "j - f < m - f" "j - f \<le> ?c" using f(2) j False by (simp_all add: diff_less_mono)
      ultimately show ?thesis using sb [of "j - f"] False by simp
    qed
  next
    fix k assume k: "k \<le> ?c" and other: "\<And>j. j < m \<Longrightarrow> k \<noteq> (?t + j) mod (?c + 1)"
    have "\<not> ?t \<le> k"
    proof
      assume "?t \<le> k"
      moreover from this have "k - ?t < m" using k wrap f(1) by linarith
      ultimately show False using other [of "k - ?t"] k by simp
    qed
    moreover have "\<not> k < m - f"
    proof
      assume "k < m - f"
      moreover have "?t + (f + k) = k + (?c + 1)" using f(1) by simp
      then have "(?t + (f + k)) mod (?c + 1) = k" using k by (simp only: mod_add_self2) simp
      moreover have "f + k < m" using \<open>k < m - f\<close> by linarith
      ultimately show False using other [of "f + k"] by simp
    qed
    ultimately show "slot ?s buf k = slot ?s (q_data q) k" using sb [OF k] by simp
  qed
qed

lemma push_multiple_ok:
  assumes inv: "queue_inv q" and len: "length d = m * q_item_size q" and room: "m \<le> mdv_queue_free_space q"
  shows "\<exists>q'. mdv_queue_push_multiple q d = (q', True) \<and> queue_inv q'
           \<and> queue_items q' = queue_items q @ chunks (q_item_size q) d"
proof -
  let ?s = "q_item_size q" and ?c = "q_capacity q" and ?t = "q_tail q" and ?h = "q_head q"
  let ?f = "?c + 1 - ?t"
  have i: "0 < ?s" "?h \<le> ?c" "?t \<le> ?c" using inv by (auto simp: queue_inv_def)
  have m: "length d div ?s = m" using len i(1) by simp
  show ?thesis
  proof (cases "?h \<le> ?t \<and> ?f < m")
    case True
    let ?b = "blit 0 (drop (?f * ?s) d) (blit (?t * ?s) (take (?f * ?s) d) (q_data q))"
    let ?q = "q\<lparr>q_data := ?b, q_tail := (?t + m) mod (?c + 1)\<rparr>"
    have "mdv_queue_push_multiple q d = (?q, True)"
      using True m len room
      by (simp add: mdv_queue_push_multiple_def Let_def mdv_queue_free_space_def mdv_queue_size_def)
    with True push_multiple_wrapped [OF inv len room _ _ refl] show ?thesis by simp
  next
    case False
    let ?q = "q\<lparr>q_data := blit (?t * ?s) d (q_data q), q_tail := (?t + m) mod (?c + 1)\<rparr>"
    have fit: "?t + m \<le> ?c + 1"
      using False i room by (auto simp: mdv_queue_free_space_def mdv_queue_size_def split: if_splits)
    have "mdv_queue_push_multiple q d = (?q, True)"
      using False m len room
      by (cases "?h \<le> ?t")
         (simp_all add: mdv_queue_push_multiple_def Let_def mdv_queue_free_space_def mdv_queue_size_def not_less)
    with push_multiple_straight [OF inv len room fit refl] show ?thesis by simp
  qed
qed

lemma push_multiple_refused:
  assumes "\<not> (q_item_size q dvd length d \<and> length d div q_item_size q \<le> mdv_queue_free_space q)"
  shows "mdv_queue_push_multiple q d = (q, False)"
proof (cases "q_item_size q dvd length d")
  case True
  with assms show ?thesis
    by (cases "q_head q \<le> q_tail q")
       (simp_all add: mdv_queue_push_multiple_def Let_def mdv_queue_free_space_def mdv_queue_size_def)
next
  case False
  then have "length d \<noteq> length d div q_item_size q * q_item_size q" by (metis dvd_triv_right)
  then show ?thesis by (simp add: mdv_queue_push_multiple_def Let_def)
qed

lemma pop_multiple_ok:
  assumes inv: "queue_inv q" and m: "m \<le> mdv_queue_size q"
  shows "\<exists>q'. mdv_queue_pop_multiple q (m * q_item_size q) = (q', Some (concat (take m (queue_items q))))
           \<and> queue_inv q' \<and> queue_items q' = drop m (queue_items q)"
proof -
  let ?s = "q_item_size q" and ?c = "q_capacity q" and ?t = "q_tail q" and ?h = "q_head q"
  let ?q = "q\<lparr>q_head := (?h + m) mod (?c + 1)\<rparr>" and ?f = "?c + 1 - ?h"
  have i: "0 < ?s" "?h \<le> ?c" "?t \<le> ?c" using inv by (auto simp: queue_inv_def)
  have dropped: "queue_inv ?q \<and> queue_items ?q = drop m (queue_items q)"
    by (rule queue_drop [OF inv m refl])
  show ?thesis
  proof (cases "?h + m \<le> ?c + 1")
    case True
    then have "m \<le> ?f" by linarith
    then have "mdv_queue_pop_multiple q (m * ?s) = (?q, Some (slice (?h * ?s) (m * ?s) (q_data q)))"
      using True i m
      by (cases "?h \<le> ?t") (simp_all add: mdv_queue_pop_multiple_def Let_def mdv_queue_size_def)
    with dropped queue_front [OF inv m True] show ?thesis by simp
  next
    case False
    let ?r = "q\<lparr>q_head := (?h + ?f) mod (?c + 1)\<rparr>"
    have r: "?r = q\<lparr>q_head := 0\<rparr>" using i by simp
    have f: "?f < m" "?f \<le> mdv_queue_size q" using False m i(2) by linarith+
    have wrapped: "\<not> ?h \<le> ?t" using False m i by (auto simp: mdv_queue_size_def split: if_splits)
    have rest: "queue_inv ?r \<and> queue_items ?r = drop ?f (queue_items q)"
      by (rule queue_drop [OF inv f(2) refl])
    have mr: "m - ?f \<le> mdv_queue_size ?r" using rest m by (metis diff_le_mono length_drop length_queue_items)
    have second: "slice 0 ((m - ?f) * ?s) (q_data q) = concat (take (m - ?f) (drop ?f (queue_items q)))"
      using queue_front [of ?r "m - ?f"] rest mr m queue_size_bound [OF inv] unfolding r by simp
    have first: "slice (?h * ?s) (?f * ?s) (q_data q) = concat (take ?f (queue_items q))"
      using i by (intro queue_front [OF inv f(2)]) simp
    have "take m (queue_items q) = take ?f (queue_items q) @ take (m - ?f) (drop ?f (queue_items q))"
      using take_add [of ?f "m - ?f"] f(1) by simp
    moreover have "mdv_queue_pop_multiple q (m * ?s)
        = (?q, Some (slice (?h * ?s) (?f * ?s) (q_data q) @ slice 0 ((m - ?f) * ?s) (q_data q)))"
      using wrapped f(1) i m
      by (simp add: mdv_queue_pop_multiple_def Let_def mdv_queue_size_def flip: diff_mult_distrib)
    ultimately show ?thesis using dropped first second by simp
  qed
qed

lemma pop_multiple_refused:
  assumes "\<not> (q_item_size q dvd n \<and> n div q_item_size q \<le> mdv_queue_size q)"
  shows "mdv_queue_pop_multiple q n = (q, None)"
proof (cases "q_item_size q dvd n")
  case True
  with assms show ?thesis
    by (cases "q_head q \<le> q_tail q") (simp_all add: mdv_queue_pop_multiple_def Let_def mdv_queue_size_def)
next
  case False
  then have "n \<noteq> n div q_item_size q * q_item_size q" by (metis dvd_triv_right)
  then show ?thesis by (simp add: mdv_queue_pop_multiple_def Let_def)
qed

section \<open>Properties\<close>

text \<open>
  C22. From every well-formed queue, every sequence of \<open>mdv_queue_push_one\<close> and
  \<open>mdv_queue_pop_one\<close> behaves as on a list of at most \<open>capacity\<close> items: the items leave in the
  order in which they entered, bit for bit, a full queue refuses, an empty one reports it, and the
  queue stays well-formed.
\<close>

theorem queue_refines_fifo:
  assumes "queue_inv q"
  shows "case queue_run mdv_queue_push_one (\<lambda>q. mdv_queue_pop_one q (q_item_size q)) q ops of
           (q', out) \<Rightarrow> queue_inv q' \<and>
             fifo_run (q_capacity q) (\<lambda>x. length x = q_item_size q) (queue_items q) ops = (queue_items q', out)"
  using ring.run_refines [OF assms, of ops] by (auto split: prod.splits)

theorem queue_refines_fifo_witness:
  "snd (queue_run mdv_queue_push_one (\<lambda>q. mdv_queue_pop_one q (q_item_size q)) (mdv_queue_clear 2 [0,0,0,0,0,0])
      [Push [1,2], Push [3,4], Push [5,6], Pop, Push [7,8], Pop, Pop]) = [[1,2],[3,4],[7,8]]"
proof -
  let ?q = "mdv_queue_clear 2 [0,0,0,0,0,0]"
  let ?ops = "[Push [1,2], Push [3,4], Push [5,6], Pop, Push [7,8], Pop, Pop]"
  have inv: "queue_inv ?q" by code_simp
  have "fifo_run (q_capacity ?q) (\<lambda>x. length x = q_item_size ?q) (queue_items ?q) ?ops
      = ([], [[1,2],[3,4],[7,8]])" by code_simp
  with queue_refines_fifo [OF inv, of ?ops] show ?thesis
    by (simp del: queue_run.simps fifo_run.simps split: prod.splits)
qed

text \<open>
  C25. The batch operations are all or nothing, across the wrap-around of the ring too:
  \<open>mdv_queue_push_multiple\<close> appends every item of the buffer when its length is a multiple of the
  item size and the items fit, and otherwise leaves the queue as it was;
  \<open>mdv_queue_pop_multiple\<close> returns the bytes of the first items and removes them when there are
  that many, and otherwise leaves the queue as it was.
\<close>

theorem queue_batches_atomic:
  assumes "queue_inv q"
  shows "(if q_item_size q dvd length d \<and> length d div q_item_size q \<le> mdv_queue_free_space q
          then \<exists>q'. mdv_queue_push_multiple q d = (q', True) \<and> queue_inv q'
                 \<and> queue_items q' = queue_items q @ chunks (q_item_size q) d
          else mdv_queue_push_multiple q d = (q, False))
       \<and> (if q_item_size q dvd n \<and> n div q_item_size q \<le> mdv_queue_size q
          then \<exists>q'. mdv_queue_pop_multiple q n = (q', Some (concat (take (n div q_item_size q) (queue_items q))))
                 \<and> queue_inv q' \<and> queue_items q' = drop (n div q_item_size q) (queue_items q)
          else mdv_queue_pop_multiple q n = (q, None))"
  using push_multiple_ok [OF assms, of d "length d div q_item_size q"] push_multiple_refused [of q d]
    pop_multiple_ok [OF assms, of "n div q_item_size q"] pop_multiple_refused [of q n]
  by (auto simp: dvd_div_mult_self)

text \<open>The free slots are the last one and the first one of the array.\<close>

theorem queue_batches_atomic_witness:
  "\<exists>q'. mdv_queue_push_multiple \<lparr>q_capacity = 3, q_item_size = 1, q_head = 1, q_tail = 3, q_data = [0,7,8,0]\<rparr> [9]
        = (q', True) \<and> queue_items q' = [[7],[8],[9]]"
proof -
  let ?q = "\<lparr>q_capacity = 3, q_item_size = 1, q_head = 1, q_tail = 3, q_data = [0,7,8,0]\<rparr>"
  have "queue_inv ?q" "length [9::u8] div q_item_size ?q \<le> mdv_queue_free_space ?q" by code_simp+
  moreover have "queue_items ?q @ chunks (q_item_size ?q) [9] = [[7],[8],[9]]" by code_simp
  ultimately show ?thesis using queue_batches_atomic [of ?q "[9]" 0] by auto
qed

end
