(* ===== verification/Mdv_Vm.thy ===== *)
theory Mdv_Vm
  imports Mdv_Prelude
begin

text \<open>
  The stack machine of src/mdv_platform/mdv_vm.c over the byte stack of generic/mdv_stack.h.
  Memory is a function from
  addresses to bytes; the byte stack is a region of it, so that the pointers the machine keeps on its
  stack, and the writes through them, mean what they mean in C.

  A function of the machine is specified by what it does to a list of byte strings. The locale
  \<open>vm_functions\<close> is that contract for a table of functions; in it the interpreter is proved to
  execute the encoding of every program exactly as the instruction-level semantics \<open>vm_exec\<close>. The
  contract is discharged for the functions of predicates in \<open>Mdv_Predicate\<close>.
\<close>

unbundle bit_operations_syntax

section \<open>Memory\<close>

type_synonym memory = "nat \<Rightarrow> u8"

definition load :: "memory \<Rightarrow> nat \<Rightarrow> nat \<Rightarrow> bytes" where
  "load m a n = map m [a..<a + n]"

definition store :: "memory \<Rightarrow> nat \<Rightarrow> bytes \<Rightarrow> memory" where
  "store m a bs = (\<lambda>x. if a \<le> x \<and> x < a + length bs then bs ! (x - a) else m x)"

lemma length_load [simp]: "length (load m a n) = n"
  by (simp add: load_def)

lemma load_0 [simp]: "load m a 0 = []"
  by (simp add: load_def)

lemma load_1 [simp]: "load m a (Suc 0) = [m a]"
  by (simp add: load_def)

lemma nth_load: "i < n \<Longrightarrow> load m a n ! i = m (a + i)"
  by (simp add: load_def)

lemma load_store_same [simp]: "n = length bs \<Longrightarrow> load (store m a bs) a n = bs"
  by (intro nth_equalityI) (simp_all add: nth_load store_def)

lemma load_store_other: "a + length bs \<le> b \<or> b + n \<le> a \<Longrightarrow> load (store m a bs) b n = load m b n"
  by (intro nth_equalityI) (auto simp: nth_load store_def)

lemma load_append: "load m a (i + j) = load m a i @ load m (a + i) j"
  by (intro nth_equalityI) (auto simp: nth_load nth_append)

lemma load_split: "load m a n = xs @ ys \<Longrightarrow> load m a (length xs) = xs \<and> load m (a + length xs) (length ys) = ys"
  by (metis append_eq_append_conv length_append length_load load_append)

lemma load_cong: "(\<And>x. a \<le> x \<Longrightarrow> x < a + n \<Longrightarrow> m x = m' x) \<Longrightarrow> load m a n = load m' a n"
  by (simp add: load_def)

section \<open>The byte stack\<close>

record vm_state =
  vm_mem :: memory
  st_capacity :: nat
  st_size :: nat
  st_data :: nat

definition mdv_stack_push_multiple :: "vm_state \<Rightarrow> bytes \<Rightarrow> vm_state \<times> bool" where
  "mdv_stack_push_multiple s items =
     (if st_size s + length items \<le> st_capacity s
      then (s\<lparr>vm_mem := store (vm_mem s) (st_data s + st_size s) items, st_size := st_size s + length items\<rparr>, True)
      else (s, False))"

text \<open>The result is the address of the items that left the stack.\<close>

definition mdv_stack_pop_multiple :: "vm_state \<Rightarrow> nat \<Rightarrow> vm_state \<times> nat option" where
  "mdv_stack_pop_multiple s count =
     (if count \<le> st_size s
      then (s\<lparr>st_size := st_size s - count\<rparr>, Some (st_data s + (st_size s - count)))
      else (s, None))"

section \<open>Data on the stack\<close>

record mdv_vm_datum =
  dm_external :: bool
  dm_size :: u32
  dm_data :: nat

definition MDV_VM_TRUE :: u8 where "MDV_VM_TRUE = 0xFF"
definition MDV_VM_FALSE :: u8 where "MDV_VM_FALSE = 0"

text \<open>
  \<open>mdv_vm_stack_push\<close> once the payload is known: the pointer itself for external data, the bytes
  otherwise. A push that fails half-way leaves what it has pushed.
\<close>

definition vm_push_frame :: "vm_state \<Rightarrow> bytes \<Rightarrow> u32 \<Rightarrow> bool \<Rightarrow> vm_state \<times> mdv_errno" where
  "vm_push_frame s payload sz external =
     (case mdv_stack_push_multiple s payload of (s1, ok1) \<Rightarrow>
      if \<not> ok1 then (s1, MDV_STACK_OVERFLOW) else
      case mdv_stack_push_multiple s1 (le_bytes 4 (unat sz)) of (s2, ok2) \<Rightarrow>
      if \<not> ok2 then (s2, MDV_STACK_OVERFLOW) else
      case mdv_stack_push_multiple s2 [if external then 1 else 0] of (s3, ok3) \<Rightarrow>
      if \<not> ok3 then (s3, MDV_STACK_OVERFLOW) else (s3, MDV_OK))"

definition mdv_vm_stack_push :: "vm_state \<Rightarrow> mdv_vm_datum \<Rightarrow> vm_state \<times> mdv_errno" where
  "mdv_vm_stack_push s d =
     vm_push_frame s
       (if dm_external d then le_bytes 8 (dm_data d) else load (vm_mem s) (dm_data d) (unat (dm_size d)))
       (dm_size d) (dm_external d)"

text \<open>The push of a result held in a local variable of the machine's functions.\<close>

definition vm_push_result :: "vm_state \<Rightarrow> bytes \<Rightarrow> vm_state \<times> mdv_errno" where
  "vm_push_result s res = vm_push_frame s res (of_nat (length res)) False"

definition mdv_vm_stack_pop :: "vm_state \<Rightarrow> vm_state \<times> (mdv_errno + mdv_vm_datum)" where
  "mdv_vm_stack_pop s =
     (case mdv_stack_pop_multiple s 1 of (s1, None) \<Rightarrow> (s1, Inl MDV_FAILED) | (s1, Some pe) \<Rightarrow>
      let external = vm_mem s1 pe \<noteq> 0 in
      case mdv_stack_pop_multiple s1 4 of (s2, None) \<Rightarrow> (s2, Inl MDV_FAILED) | (s2, Some ps) \<Rightarrow>
      let sz = word_of_nat (le_val (load (vm_mem s2) ps 4)) :: u32 in
      case mdv_stack_pop_multiple s2 (if external then 8 else unat sz) of
        (s3, None) \<Rightarrow> (s3, Inl MDV_FAILED)
      | (s3, Some ptr) \<Rightarrow>
          (s3, Inr \<lparr>dm_external = external, dm_size = sz,
                    dm_data = (if external then le_val (load (vm_mem s3) ptr 8) else ptr)\<rparr>))"

definition mdv_vm_stack_top :: "vm_state \<Rightarrow> mdv_errno + mdv_vm_datum" where
  "mdv_vm_stack_top s =
     (if st_size s < 1 + 4 then Inl MDV_FAILED
      else
        let top = st_data s + st_size s;
            external = vm_mem s (top - 1) \<noteq> 0;
            sz = word_of_nat (le_val (load (vm_mem s) (top - 1 - 4) 4)) :: u32;
            n = (if external then 8 else unat sz)
        in if n + 1 + 4 > st_size s then Inl MDV_FAILED
           else let ptr = top - 1 - 4 - n in
             Inr \<lparr>dm_external = external, dm_size = sz,
                  dm_data = (if external then le_val (load (vm_mem s) ptr 8) else ptr)\<rparr>)"

definition vm_data :: "vm_state \<Rightarrow> mdv_vm_datum \<Rightarrow> nat \<Rightarrow> bytes" where
  "vm_data s d n = load (vm_mem s) (dm_data d) n"

definition mdv_vm_result_as_bool :: "vm_state \<Rightarrow> mdv_errno + bool" where
  "mdv_vm_result_as_bool s =
     (case mdv_vm_stack_top s of Inl err \<Rightarrow> Inl err
      | Inr d \<Rightarrow> if dm_size d \<noteq> 1 then Inl MDV_INVALID_TYPE
                else Inr (vm_mem s (dm_data d) \<noteq> MDV_VM_FALSE))"

definition mdv_vm_stack_pop_pair :: "vm_state \<Rightarrow> vm_state \<times> (mdv_errno + mdv_vm_datum \<times> mdv_vm_datum)" where
  "mdv_vm_stack_pop_pair s =
     (case mdv_vm_stack_pop s of (s1, Inl err) \<Rightarrow> (s1, Inl err) | (s1, Inr op1) \<Rightarrow>
      case mdv_vm_stack_pop s1 of (s2, Inl err) \<Rightarrow> (s2, Inl err) | (s2, Inr op0) \<Rightarrow> (s2, Inr (op0, op1)))"

section \<open>The functions of the machine\<close>

definition mdv_vmop_equal :: "vm_state \<Rightarrow> vm_state \<times> mdv_errno" where
  "mdv_vmop_equal s =
     (case mdv_vm_stack_pop_pair s of (s1, Inl err) \<Rightarrow> (s1, err) | (s1, Inr (op0, op1)) \<Rightarrow>
        let res = (if dm_size op0 = dm_size op1
                     \<and> memcmp (vm_data s1 op0 (unat (dm_size op0))) (vm_data s1 op1 (unat (dm_size op0))) = 0
                    then MDV_VM_TRUE else MDV_VM_FALSE)
        in vm_push_result s1 [res])"

definition mdv_vmop_not_equal :: "vm_state \<Rightarrow> vm_state \<times> mdv_errno" where
  "mdv_vmop_not_equal s =
     (case mdv_vm_stack_pop_pair s of (s1, Inl err) \<Rightarrow> (s1, err) | (s1, Inr (op0, op1)) \<Rightarrow>
        let res = (if dm_size op0 \<noteq> dm_size op1
                     \<or> memcmp (vm_data s1 op0 (unat (dm_size op0))) (vm_data s1 op1 (unat (dm_size op0))) \<noteq> 0
                    then MDV_VM_TRUE else MDV_VM_FALSE)
        in vm_push_result s1 [res])"

definition mdv_vmop_greater :: "vm_state \<Rightarrow> vm_state \<times> mdv_errno" where
  "mdv_vmop_greater s =
     (case mdv_vm_stack_pop_pair s of (s1, Inl err) \<Rightarrow> (s1, err) | (s1, Inr (op0, op1)) \<Rightarrow>
        let n = (if dm_size op0 < dm_size op1 then dm_size op0 else dm_size op1);
            cmp_res = memcmp (vm_data s1 op0 (unat n)) (vm_data s1 op1 (unat n));
            res = (if cmp_res > 0 \<or> cmp_res = 0 \<and> dm_size op0 > dm_size op1 then MDV_VM_TRUE else MDV_VM_FALSE)
        in vm_push_result s1 [res])"

definition mdv_vmop_greater_or_equal :: "vm_state \<Rightarrow> vm_state \<times> mdv_errno" where
  "mdv_vmop_greater_or_equal s =
     (case mdv_vm_stack_pop_pair s of (s1, Inl err) \<Rightarrow> (s1, err) | (s1, Inr (op0, op1)) \<Rightarrow>
        let n = (if dm_size op0 < dm_size op1 then dm_size op0 else dm_size op1);
            cmp_res = memcmp (vm_data s1 op0 (unat n)) (vm_data s1 op1 (unat n));
            res = (if cmp_res > 0 \<or> cmp_res = 0 \<and> dm_size op0 \<ge> dm_size op1 then MDV_VM_TRUE else MDV_VM_FALSE)
        in vm_push_result s1 [res])"

definition mdv_vmop_less :: "vm_state \<Rightarrow> vm_state \<times> mdv_errno" where
  "mdv_vmop_less s =
     (case mdv_vm_stack_pop_pair s of (s1, Inl err) \<Rightarrow> (s1, err) | (s1, Inr (op0, op1)) \<Rightarrow>
        let n = (if dm_size op0 < dm_size op1 then dm_size op0 else dm_size op1);
            cmp_res = memcmp (vm_data s1 op0 (unat n)) (vm_data s1 op1 (unat n));
            res = (if cmp_res < 0 \<or> cmp_res = 0 \<and> dm_size op0 < dm_size op1 then MDV_VM_TRUE else MDV_VM_FALSE)
        in vm_push_result s1 [res])"

definition mdv_vmop_less_or_equal :: "vm_state \<Rightarrow> vm_state \<times> mdv_errno" where
  "mdv_vmop_less_or_equal s =
     (case mdv_vm_stack_pop_pair s of (s1, Inl err) \<Rightarrow> (s1, err) | (s1, Inr (op0, op1)) \<Rightarrow>
        let n = (if dm_size op0 < dm_size op1 then dm_size op0 else dm_size op1);
            cmp_res = memcmp (vm_data s1 op0 (unat n)) (vm_data s1 op1 (unat n));
            res = (if cmp_res < 0 \<or> cmp_res = 0 \<and> dm_size op0 \<le> dm_size op1 then MDV_VM_TRUE else MDV_VM_FALSE)
        in vm_push_result s1 [res])"

text \<open>
  The result array of \<open>mdv_vmop_and\<close> and \<open>mdv_vmop_or\<close> has the size of the operands; for two empty operands it
  is an array of length zero, which the compilers the project is built with accept.
\<close>

definition mdv_vmop_and :: "vm_state \<Rightarrow> vm_state \<times> mdv_errno" where
  "mdv_vmop_and s =
     (case mdv_vm_stack_pop_pair s of (s1, Inl err) \<Rightarrow> (s1, err) | (s1, Inr (op0, op1)) \<Rightarrow>
      if dm_size op0 \<noteq> dm_size op1 then (s1, MDV_INVALID_ARG)
      else
        let n = unat (dm_size op0);
            res = map2 (\<lambda>x y. x AND y) (vm_data s1 op0 n) (vm_data s1 op1 n)
        in vm_push_result s1 res)"

definition mdv_vmop_or :: "vm_state \<Rightarrow> vm_state \<times> mdv_errno" where
  "mdv_vmop_or s =
     (case mdv_vm_stack_pop_pair s of (s1, Inl err) \<Rightarrow> (s1, err) | (s1, Inr (op0, op1)) \<Rightarrow>
      if dm_size op0 \<noteq> dm_size op1 then (s1, MDV_INVALID_ARG)
      else
        let n = unat (dm_size op0);
            res = map2 (\<lambda>x y. x OR y) (vm_data s1 op0 n) (vm_data s1 op1 n)
        in vm_push_result s1 res)"

text \<open>The operand stays where it is: the bytes it points to are inverted in place.\<close>

definition mdv_vmop_not :: "vm_state \<Rightarrow> vm_state \<times> mdv_errno" where
  "mdv_vmop_not s =
     (case mdv_vm_stack_top s of Inl err \<Rightarrow> (s, err)
      | Inr d \<Rightarrow> (s\<lparr>vm_mem := store (vm_mem s) (dm_data d) (map (\<lambda>x. NOT x) (vm_data s d (unat (dm_size d))))\<rparr>, MDV_OK))"

section \<open>The interpreter\<close>

type_synonym mdv_vm_fn = "vm_state \<Rightarrow> vm_state \<times> mdv_errno"

definition MDV_VM_NOP :: u8 where "MDV_VM_NOP = 0"
definition MDV_VM_PUSH :: u8 where "MDV_VM_PUSH = 1"
definition MDV_VM_CALL :: u8 where "MDV_VM_CALL = 2"
definition MDV_VM_END :: u8 where "MDV_VM_END = 0xFF"

text \<open>One iteration of the loop of \<open>mdv_vm_run\<close>; no next instruction is the null \<open>ip\<close>.\<close>

definition vm_step :: "mdv_vm_fn list \<Rightarrow> vm_state \<Rightarrow> nat \<Rightarrow> vm_state \<times> mdv_errno \<times> nat option" where
  "vm_step fns s ip0 =
     (let opcode = vm_mem s ip0; ip = ip0 + 1 in
      if opcode = MDV_VM_NOP then (s, MDV_OK, Some ip)
      else if opcode = MDV_VM_PUSH then
        let datum = \<lparr>dm_external = (vm_mem s ip \<noteq> 0),
                     dm_size = word_of_nat (le_val (load (vm_mem s) (ip + 1) 4)),
                     dm_data = ip + 1 + 4\<rparr>;
            n = (if dm_external datum then 8 else unat (dm_size datum))
        in (case mdv_vm_stack_push s datum of (s', err) \<Rightarrow>
              if err \<noteq> MDV_OK then (s', err, None) else (s', err, Some (ip + (1 + 4 + n))))
      else if opcode = MDV_VM_END then (s, MDV_OK, None)
      else if opcode = MDV_VM_CALL then
        let id = le_val (load (vm_mem s) ip 2) in
        if id \<ge> length fns then (s, MDV_NO_IMPL, None)
        else (case (fns ! id) s of (s', err) \<Rightarrow>
                if err \<noteq> MDV_OK then (s', err, None) else (s', err, Some (ip + 2)))
      else (s, MDV_FAILED, None))"

text \<open>The loop may run forever, which is the value \<open>None\<close>.\<close>

partial_function (option) mdv_vm_run :: "mdv_vm_fn list \<Rightarrow> vm_state \<Rightarrow> nat \<Rightarrow> (vm_state \<times> mdv_errno) option" where
  [code]: "mdv_vm_run fns s ip =
     (case vm_step fns s ip of
        (s', err, None) \<Rightarrow> Some (s', err)
      | (s', err, Some ip') \<Rightarrow> mdv_vm_run fns s' ip')"

section \<open>What the byte stack holds\<close>

datatype vm_val = Inline bytes | External nat u32

fun val_size :: "vm_val \<Rightarrow> u32" where
  "val_size (Inline bs) = of_nat (length bs)"
| "val_size (External a n) = n"

fun val_bytes :: "memory \<Rightarrow> vm_val \<Rightarrow> bytes" where
  "val_bytes m (Inline bs) = bs"
| "val_bytes m (External a n) = load m a (unat n)"

fun frame_payload :: "vm_val \<Rightarrow> bytes" where
  "frame_payload (Inline bs) = bs"
| "frame_payload (External a n) = le_bytes 8 a"

fun is_external :: "vm_val \<Rightarrow> bool" where
  "is_external (Inline bs) = False"
| "is_external (External a n) = True"

definition frame :: "vm_val \<Rightarrow> bytes" where
  "frame v = frame_payload v @ le_bytes 4 (unat (val_size v)) @ [if is_external v then 1 else 0]"

text \<open>The bytes of a stack of values, the top of the stack last.\<close>

fun image_of :: "vm_val list \<Rightarrow> bytes" where
  "image_of [] = []"
| "image_of (v # vs) = image_of vs @ frame v"

text \<open>External data lives outside the stack.\<close>

fun val_ok :: "nat \<Rightarrow> nat \<Rightarrow> vm_val \<Rightarrow> bool" where
  "val_ok d c (Inline bs) \<longleftrightarrow> length bs < 2 ^ 32"
| "val_ok d c (External a n) \<longleftrightarrow> a < 2 ^ 64 \<and> (a + unat n \<le> d \<or> d + c \<le> a)"

definition stack_ok :: "vm_state \<Rightarrow> vm_val list \<Rightarrow> bool" where
  "stack_ok s vs \<longleftrightarrow> st_size s = length (image_of vs) \<and> st_size s \<le> st_capacity s
     \<and> load (vm_mem s) (st_data s) (st_size s) = image_of vs
     \<and> (\<forall>v \<in> set vs. val_ok (st_data s) (st_capacity s) v)"

text \<open>Nothing outside the stack has changed, and the stack is where it was.\<close>

definition vm_inside :: "vm_state \<Rightarrow> vm_state \<Rightarrow> bool" where
  "vm_inside s s' \<longleftrightarrow> st_data s' = st_data s \<and> st_capacity s' = st_capacity s \<and> st_size s' \<le> st_capacity s
     \<and> (\<forall>x. x < st_data s \<or> st_data s + st_capacity s \<le> x \<longrightarrow> vm_mem s' x = vm_mem s x)"

lemma vm_inside_trans: "vm_inside s1 s2 \<Longrightarrow> vm_inside s2 s3 \<Longrightarrow> vm_inside s1 s3"
  by (simp add: vm_inside_def)

lemma vm_inside_load:
  "vm_inside s s' \<Longrightarrow> a + n \<le> st_data s \<or> st_data s + st_capacity s \<le> a \<Longrightarrow>
     load (vm_mem s') a n = load (vm_mem s) a n"
  by (intro load_cong) (auto simp: vm_inside_def)

lemma val_bytes_inside:
  "vm_inside s s' \<Longrightarrow> val_ok (st_data s) (st_capacity s) v \<Longrightarrow> val_bytes (vm_mem s') v = val_bytes (vm_mem s) v"
  by (cases v) (simp_all add: vm_inside_load)

lemma length_val_bytes: "val_ok d c v \<Longrightarrow> length (val_bytes m v) = unat (val_size v)"
  by (cases v) (simp_all add: unat_of_nat)

lemma store_store: "store (store m a xs) (a + length xs) ys = store m a (xs @ ys)"
  by (auto simp: store_def fun_eq_iff nth_append)

lemma length_frame: "length (frame v) = length (frame_payload v) + 5"
  by (simp add: frame_def)

lemma push_frame_room:
  assumes "st_size s + length p + 5 \<le> st_capacity s"
  shows "vm_push_frame s p sz e =
    (s\<lparr>vm_mem := store (vm_mem s) (st_data s + st_size s) (p @ le_bytes 4 (unat sz) @ [if e then 1 else 0]),
       st_size := st_size s + (length p + 5)\<rparr>, MDV_OK)"
proof -
  have "store (store (store m a p) (a + length p) q) (a + length p + length q) r = store m a (p @ q @ r)" for m a q r
    by (metis add.assoc append.assoc length_append store_store)
  from this [of "vm_mem s" "st_data s + st_size s" "le_bytes 4 (unat sz)"] assms show ?thesis
    by (simp add: vm_push_frame_def mdv_stack_push_multiple_def add.assoc)
qed

lemma push_frame_ok:
  assumes ok: "stack_ok s vs" and v: "val_ok (st_data s) (st_capacity s) v"
    and room: "length (image_of vs) + length (frame v) \<le> st_capacity s"
  shows "\<exists>s'. vm_push_frame s (frame_payload v) (val_size v) (is_external v) = (s', MDV_OK)
           \<and> stack_ok s' (v # vs) \<and> vm_inside s s'"
proof -
  let ?m = "store (vm_mem s) (st_data s + st_size s) (frame v)"
  let ?s = "s\<lparr>vm_mem := ?m, st_size := st_size s + length (frame v)\<rparr>"
  have size_s: "st_size s = length (image_of vs)" using ok by (simp add: stack_ok_def)
  have "vm_push_frame s (frame_payload v) (val_size v) (is_external v) = (?s, MDV_OK)"
    using push_frame_room [of s "frame_payload v"] room size_s by (simp add: frame_def add.assoc)
  moreover have "stack_ok ?s (v # vs)"
    using ok v room size_s
    by (simp add: stack_ok_def load_append load_store_other)
  moreover have "vm_inside s ?s"
    using room size_s by (auto simp: vm_inside_def store_def)
  ultimately show ?thesis by blast
qed

lemma stack_push_inside: "st_size s \<le> st_capacity s \<Longrightarrow> vm_inside s (fst (mdv_stack_push_multiple s xs))"
  by (auto simp: mdv_stack_push_multiple_def vm_inside_def store_def)

lemma stack_push_no_room:
  "st_capacity s < st_size s + length xs \<Longrightarrow> mdv_stack_push_multiple s xs = (s, False)"
  by (simp add: mdv_stack_push_multiple_def)

lemma push_frame_overflow:
  assumes "st_size s \<le> st_capacity s" and "st_capacity s < st_size s + length payload + 5"
  shows "\<exists>s'. vm_push_frame s payload sz ext = (s', MDV_STACK_OVERFLOW) \<and> vm_inside s s'"
  using assms
  by (auto simp: vm_push_frame_def mdv_stack_push_multiple_def vm_inside_def store_def)

lemma frame_in_memory:
  assumes "stack_ok s (v # vs)"
  defines "b \<equiv> st_data s + length (image_of vs)"
  shows "load (vm_mem s) b (length (frame_payload v)) = frame_payload v"
    and "load (vm_mem s) (b + length (frame_payload v)) 4 = le_bytes 4 (unat (val_size v))"
    and "vm_mem s (b + length (frame_payload v) + 4) = (if is_external v then 1 else 0)"
    and "load (vm_mem s) (st_data s) (length (image_of vs)) = image_of vs"
    and "st_size s = length (image_of vs) + length (frame_payload v) + 5"
proof -
  show "st_size s = length (image_of vs) + length (frame_payload v) + 5"
    using assms(1) by (simp add: stack_ok_def length_frame)
  have "load (vm_mem s) (st_data s) (st_size s) = image_of vs @ frame v"
    using assms(1) by (auto simp: stack_ok_def)
  note 1 = load_split [OF this]
  then show "load (vm_mem s) (st_data s) (length (image_of vs)) = image_of vs" by blast
  have "load (vm_mem s) b (length (frame v))
      = frame_payload v @ le_bytes 4 (unat (val_size v)) @ [if is_external v then 1 else 0]"
    using 1 by (simp add: b_def frame_def)
  note 2 = load_split [OF this]
  then show "load (vm_mem s) b (length (frame_payload v)) = frame_payload v" by blast
  have "load (vm_mem s) (b + length (frame_payload v)) (4 + 1)
      = le_bytes 4 (unat (val_size v)) @ [if is_external v then 1 else 0]"
    using 2 by simp
  note 3 = load_split [OF this]
  then show "load (vm_mem s) (b + length (frame_payload v)) 4 = le_bytes 4 (unat (val_size v))" by simp
  from 3 have "[vm_mem s (b + length (frame_payload v) + 4)] = [if is_external v then 1 else 0]"
    by simp
  then show "vm_mem s (b + length (frame_payload v) + 4) = (if is_external v then 1 else 0)" by simp
qed

lemma size_read_back: "(word_of_nat (le_val (le_bytes 4 (unat (n :: u32)))) :: u32) = n"
proof -
  have "unat n < 256 ^ 4" using unsigned_less [of n] by simp
  then show ?thesis by (simp add: codec_simps)
qed

lemma payload_length:
  "val_ok d c v \<Longrightarrow> length (frame_payload v) = (if is_external v then 8 else unat (val_size v))"
  by (cases v) (simp_all add: unat_of_nat)

text \<open>The datum read back for a value that lies at address \<open>b\<close>.\<close>

definition datum_of :: "nat \<Rightarrow> vm_val \<Rightarrow> mdv_vm_datum" where
  "datum_of b v = \<lparr>dm_external = is_external v, dm_size = val_size v,
                  dm_data = (case v of Inline bs \<Rightarrow> b | External a n \<Rightarrow> a)\<rparr>"

lemma read_pointer:
  "is_external v \<Longrightarrow> val_ok d c v \<Longrightarrow> (case v of Inline bs \<Rightarrow> b | External a n \<Rightarrow> a) = le_val (frame_payload v)"
  by (cases v) (simp_all add: codec_simps)

lemma pop_ok:
  assumes ok: "stack_ok s (v # vs)"
  shows "mdv_vm_stack_pop s
      = (s\<lparr>st_size := length (image_of vs)\<rparr>, Inr (datum_of (st_data s + length (image_of vs)) v))"
    and "stack_ok (s\<lparr>st_size := length (image_of vs)\<rparr>) vs"
    and "vm_inside s (s\<lparr>st_size := length (image_of vs)\<rparr>)"
proof -
  let ?b = "length (image_of vs)" and ?p = "length (frame_payload v)"
  note mem = frame_in_memory [OF ok]
  have v: "val_ok (st_data s) (st_capacity s) v" using ok by (simp add: stack_ok_def)
  show "stack_ok (s\<lparr>st_size := ?b\<rparr>) vs" "vm_inside s (s\<lparr>st_size := ?b\<rparr>)"
    using ok mem(4,5) by (simp_all add: stack_ok_def vm_inside_def)
  have flag: "vm_mem s (st_data s + (?b + ?p + 4)) = (if is_external v then 1 else 0)"
    and size_bytes: "load (vm_mem s) (st_data s + (?b + ?p)) 4 = le_bytes 4 (unat (val_size v))"
    using mem(2,3) by (simp_all add: add.assoc)
  have sz: "word_of_nat (le_val (load (vm_mem s) (st_data s + (?b + ?p)) 4)) = val_size v"
    unfolding size_bytes by (rule size_read_back)
  show "mdv_vm_stack_pop s = (s\<lparr>st_size := ?b\<rparr>, Inr (datum_of (st_data s + ?b) v))"
  proof (cases "is_external v")
    case True
    then have p: "?p = 8" using payload_length [OF v] by simp
    from flag sz mem(1,5) True read_pointer [OF True v] show ?thesis unfolding p
      by (simp add: mdv_vm_stack_pop_def mdv_stack_pop_multiple_def datum_of_def ac_simps)
  next
    case False
    then have p: "unat (val_size v) = ?p" using payload_length [OF v] by simp
    have "(case v of Inline bs \<Rightarrow> b | External a n \<Rightarrow> a) = b" for b using False by (cases v) auto
    with flag sz mem(5) False p show ?thesis
      by (simp add: mdv_vm_stack_pop_def mdv_stack_pop_multiple_def datum_of_def ac_simps)
  qed
qed

lemma pop_empty: "stack_ok s [] \<Longrightarrow> mdv_vm_stack_pop s = (s, Inl MDV_FAILED)"
  by (simp add: stack_ok_def mdv_vm_stack_pop_def mdv_stack_pop_multiple_def)

lemma top_ok:
  assumes ok: "stack_ok s (v # vs)"
  shows "mdv_vm_stack_top s = Inr (datum_of (st_data s + length (image_of vs)) v)"
proof -
  let ?b = "length (image_of vs)" and ?p = "length (frame_payload v)"
  note mem = frame_in_memory [OF ok]
  have v: "val_ok (st_data s) (st_capacity s) v" using ok by (simp add: stack_ok_def)
  have flag: "vm_mem s (st_data s + st_size s - 1) = (if is_external v then 1 else 0)"
    and size_bytes: "load (vm_mem s) (st_data s + st_size s - 1 - 4) 4 = le_bytes 4 (unat (val_size v))"
    and ptr: "st_data s + st_size s - 1 - 4 - ?p = st_data s + ?b"
    using mem(2,3,5) by (simp_all add: ac_simps)
  show ?thesis
  proof (cases "is_external v")
    case True
    with flag size_bytes ptr mem(1,5) payload_length [OF v] read_pointer [OF True v] show ?thesis
      by (simp add: mdv_vm_stack_top_def Let_def size_read_back datum_of_def ac_simps)
  next
    case False
    then have "(case v of Inline bs \<Rightarrow> b | External a n \<Rightarrow> a) = b" for b by (cases v) auto
    with False flag size_bytes ptr mem(1,5) payload_length [OF v] show ?thesis
      by (simp add: mdv_vm_stack_top_def Let_def size_read_back datum_of_def ac_simps)
  qed
qed

lemma top_empty: "stack_ok s [] \<Longrightarrow> mdv_vm_stack_top s = Inl MDV_FAILED"
  by (simp add: stack_ok_def mdv_vm_stack_top_def)

section \<open>What the functions compute\<close>

definition truth :: "bool \<Rightarrow> bytes" where
  "truth b = [if b then MDV_VM_TRUE else MDV_VM_FALSE]"

lemma length_truth [simp]: "length (truth b) = 1"
  by (simp add: truth_def)

text \<open>\<open>memcmp\<close> on the common prefix, then the lengths: the lexicographic order.\<close>

lemma memcmp_prefix:
  "memcmp (take (min (length xs) (length ys)) xs) (take (min (length xs) (length ys)) ys) = memcmp xs ys"
  by (induction xs ys rule: memcmp.induct) (auto simp: neq_Nil_conv)

lemma lexordp_memcmp:
  "ord_class.lexordp xs ys \<longleftrightarrow> memcmp xs ys < 0 \<or> memcmp xs ys = 0 \<and> length xs < length ys"
  by (induction xs ys rule: memcmp.induct) (auto simp: neq_Nil_conv)

lemma lexordp_memcmp_gt:
  "ord_class.lexordp ys xs \<longleftrightarrow> memcmp xs ys > 0 \<or> memcmp xs ys = 0 \<and> length xs > length ys"
  using lexordp_memcmp [of ys xs] memcmp_swap [of ys xs] by simp

lemma datum_bytes:
  assumes ok: "stack_ok s (v # vs)" and n: "n \<le> unat (val_size v)"
  shows "load (vm_mem s) (dm_data (datum_of (st_data s + length (image_of vs)) v)) n
       = take n (val_bytes (vm_mem s) v)"
proof -
  have v: "val_ok (st_data s) (st_capacity s) v" using ok by (simp add: stack_ok_def)
  have "load (vm_mem s) (dm_data (datum_of (st_data s + length (image_of vs)) v)) (unat (val_size v))
      = val_bytes (vm_mem s) v"
    using frame_in_memory(1) [OF ok] v by (cases v) (simp_all add: datum_of_def unat_of_nat)
  then show ?thesis
    using load_append [of "vm_mem s" _ n "unat (val_size v) - n"] n
    by (metis append_eq_conv_conj le_add_diff_inverse length_load)
qed

lemma pop_pair_ok:
  assumes ok: "stack_ok s (b # a # vs)"
  shows "\<exists>s1 d0 d1. mdv_vm_stack_pop_pair s = (s1, Inr (d0, d1))
           \<and> stack_ok s1 vs \<and> vm_inside s s1 \<and> st_size s1 + 10 \<le> st_size s
           \<and> unat (dm_size d0) = length (val_bytes (vm_mem s) a) \<and> unat (dm_size d1) = length (val_bytes (vm_mem s) b)
           \<and> (\<forall>n \<le> unat (dm_size d0). vm_data s1 d0 n = take n (val_bytes (vm_mem s) a))
           \<and> (\<forall>n \<le> unat (dm_size d1). vm_data s1 d1 n = take n (val_bytes (vm_mem s) b))"
proof -
  let ?s1 = "s\<lparr>st_size := length (image_of (a # vs))\<rparr>" and ?s2 = "s\<lparr>st_size := length (image_of vs)\<rparr>"
  let ?d1 = "datum_of (st_data s + length (image_of (a # vs))) b"
  let ?d0 = "datum_of (st_data s + length (image_of vs)) a"
  note p1 = pop_ok [OF ok]
  note p2 = pop_ok [OF p1(2)]
  have v: "val_ok (st_data s) (st_capacity s) a" "val_ok (st_data s) (st_capacity s) b"
    using ok by (simp_all add: stack_ok_def)
  have "mdv_vm_stack_pop_pair s = (?s2, Inr (?d0, ?d1))"
    using p1(1) p2(1) by (simp add: mdv_vm_stack_pop_pair_def)
  moreover have "stack_ok ?s2 vs" using p2(2) by simp
  moreover have "vm_inside s ?s2" using vm_inside_trans [OF p1(3) p2(3)] by simp
  moreover have "st_size ?s2 + 10 \<le> st_size s" using ok by (simp add: stack_ok_def length_frame)
  moreover have "vm_data ?s2 ?d0 n = take n (val_bytes (vm_mem s) a)" if "n \<le> unat (val_size a)" for n
    using datum_bytes [OF p1(2) that] by (simp add: vm_data_def)
  moreover have "vm_data ?s2 ?d1 n = take n (val_bytes (vm_mem s) b)" if "n \<le> unat (val_size b)" for n
    using datum_bytes [OF ok that] by (simp add: vm_data_def)
  ultimately show ?thesis
    using length_val_bytes [OF v(1)] length_val_bytes [OF v(2)]
    by (intro exI [of _ ?s2] exI [of _ ?d0] exI [of _ ?d1]) (simp add: datum_of_def)
qed

lemma pop_pair_short:
  "length vs < 2 \<Longrightarrow> stack_ok s vs \<Longrightarrow> \<exists>s1. mdv_vm_stack_pop_pair s = (s1, Inl MDV_FAILED) \<and> vm_inside s s1"
proof (cases vs)
  case Nil
  assume "stack_ok s vs"
  with Nil show ?thesis
    by (simp add: mdv_vm_stack_pop_pair_def pop_empty) (simp add: vm_inside_def stack_ok_def)
next
  case (Cons v us)
  assume "length vs < 2" "stack_ok s vs"
  with Cons have "us = []" "stack_ok s [v]" by auto
  with pop_ok [of s v "[]"] show ?thesis
    by (simp add: mdv_vm_stack_pop_pair_def pop_empty)
qed

lemma push_result_ok:
  assumes "stack_ok s vs" and "length res < 2 ^ 32" and "st_size s + (length res + 5) \<le> st_capacity s"
  shows "\<exists>s'. vm_push_result s res = (s', MDV_OK) \<and> stack_ok s' (Inline res # vs) \<and> vm_inside s s'"
proof -
  have "length (image_of vs) = st_size s" using assms(1) by (simp add: stack_ok_def)
  with push_frame_ok [OF assms(1), of "Inline res"] assms(2,3) show ?thesis
    by (simp add: vm_push_result_def length_frame)
qed

text \<open>
  What the two popped operands are: their sizes are those of the byte strings, and the comparison of
  the common prefix in memory is the comparison of the strings.
\<close>

definition operands :: "vm_state \<Rightarrow> mdv_vm_datum \<Rightarrow> mdv_vm_datum \<Rightarrow> bytes \<Rightarrow> bytes \<Rightarrow> bool" where
  "operands s d0 d1 x y \<longleftrightarrow>
     unat (dm_size d0) = length x \<and> unat (dm_size d1) = length y
     \<and> (\<forall>n \<le> length x. vm_data s d0 n = take n x) \<and> (\<forall>n \<le> length y. vm_data s d1 n = take n y)"

lemma operands_size:
  assumes "operands s d0 d1 x y"
  shows "dm_size d0 = dm_size d1 \<longleftrightarrow> length x = length y"
    and "dm_size d0 < dm_size d1 \<longleftrightarrow> length x < length y"
    and "dm_size d1 < dm_size d0 \<longleftrightarrow> length y < length x"
    and "dm_size d0 \<le> dm_size d1 \<longleftrightarrow> length x \<le> length y"
    and "dm_size d1 \<le> dm_size d0 \<longleftrightarrow> length y \<le> length x"
  using assms by (auto simp: operands_def word_less_nat_alt word_le_nat_alt word_unat_eq_iff)

lemma operands_memcmp:
  assumes "operands s d0 d1 x y"
  defines "n \<equiv> (if dm_size d0 < dm_size d1 then dm_size d0 else dm_size d1)"
  shows "memcmp (vm_data s d0 (unat n)) (vm_data s d1 (unat n)) = memcmp x y"
proof -
  have "unat n = min (length x) (length y)"
    using assms(1) operands_size(2) [OF assms(1)] by (auto simp: n_def operands_def)
  with assms(1) memcmp_prefix [of x y] show ?thesis by (simp add: operands_def)
qed

lemma operands_eq:
  assumes "operands s d0 d1 x y"
  shows "dm_size d0 = dm_size d1 \<and> memcmp (vm_data s d0 (unat (dm_size d0))) (vm_data s d1 (unat (dm_size d0))) = 0
     \<longleftrightarrow> x = y"
  using assms operands_size(1) [OF assms] memcmp_eq_0 [of x y] by (auto simp: operands_def)

lemma pop_operands:
  assumes "stack_ok s (b # a # vs)"
  obtains s1 d0 d1 where "mdv_vm_stack_pop_pair s = (s1, Inr (d0, d1))"
    "operands s1 d0 d1 (val_bytes (vm_mem s) a) (val_bytes (vm_mem s) b)"
    "stack_ok s1 vs" "vm_inside s s1" "st_size s1 + 10 \<le> st_size s"
  using pop_pair_ok [OF assms] that by (auto simp: operands_def)

text \<open>A one-byte result always fits: two frames have just left the stack.\<close>

lemma push_truth:
  assumes "stack_ok s (b # a # vs)" and "stack_ok s1 vs" and "vm_inside s s1" and "st_size s1 + 10 \<le> st_size s"
    and f: "f s = vm_push_result s1 (truth r)"
  shows "\<exists>s'. f s = (s', MDV_OK) \<and> stack_ok s' (Inline (truth r) # vs) \<and> vm_inside s s'"
proof -
  have "st_size s1 + (length (truth r) + 5) \<le> st_capacity s1"
    using assms by (simp add: stack_ok_def vm_inside_def)
  then obtain s' where "vm_push_result s1 (truth r) = (s', MDV_OK)" "stack_ok s' (Inline (truth r) # vs)"
    "vm_inside s1 s'"
    using push_result_ok [OF assms(2), of "truth r"] by auto
  with f vm_inside_trans [OF assms(3)] show ?thesis by auto
qed

lemma vmop_equal_ok:
  assumes "stack_ok s (b # a # vs)"
  shows "\<exists>s'. mdv_vmop_equal s = (s', MDV_OK)
    \<and> stack_ok s' (Inline (truth (val_bytes (vm_mem s) a = val_bytes (vm_mem s) b)) # vs) \<and> vm_inside s s'"
proof -
  from pop_operands [OF assms] obtain s1 d0 d1 where p: "mdv_vm_stack_pop_pair s = (s1, Inr (d0, d1))"
    "operands s1 d0 d1 (val_bytes (vm_mem s) a) (val_bytes (vm_mem s) b)"
    "stack_ok s1 vs" "vm_inside s s1" "st_size s1 + 10 \<le> st_size s" .
  have "mdv_vmop_equal s = vm_push_result s1 (truth (val_bytes (vm_mem s) a = val_bytes (vm_mem s) b))"
    using operands_eq [OF p(2)] p(1) by (auto simp: mdv_vmop_equal_def truth_def)
  from push_truth [OF assms p(3,4,5), of mdv_vmop_equal, OF this] show ?thesis .
qed

lemma vmop_not_equal_ok:
  assumes "stack_ok s (b # a # vs)"
  shows "\<exists>s'. mdv_vmop_not_equal s = (s', MDV_OK)
    \<and> stack_ok s' (Inline (truth (val_bytes (vm_mem s) a \<noteq> val_bytes (vm_mem s) b)) # vs) \<and> vm_inside s s'"
proof -
  from pop_operands [OF assms] obtain s1 d0 d1 where p: "mdv_vm_stack_pop_pair s = (s1, Inr (d0, d1))"
    "operands s1 d0 d1 (val_bytes (vm_mem s) a) (val_bytes (vm_mem s) b)"
    "stack_ok s1 vs" "vm_inside s s1" "st_size s1 + 10 \<le> st_size s" .
  have "mdv_vmop_not_equal s = vm_push_result s1 (truth (val_bytes (vm_mem s) a \<noteq> val_bytes (vm_mem s) b))"
    using operands_eq [OF p(2)] p(1) by (auto simp: mdv_vmop_not_equal_def truth_def)
  from push_truth [OF assms p(3,4,5), of mdv_vmop_not_equal, OF this] show ?thesis .
qed

lemma vmop_greater_ok:
  assumes "stack_ok s (b # a # vs)"
  shows "\<exists>s'. mdv_vmop_greater s = (s', MDV_OK)
    \<and> stack_ok s' (Inline (truth (ord_class.lexordp (val_bytes (vm_mem s) b) (val_bytes (vm_mem s) a))) # vs) \<and> vm_inside s s'"
proof -
  from pop_operands [OF assms] obtain s1 d0 d1 where p: "mdv_vm_stack_pop_pair s = (s1, Inr (d0, d1))"
    "operands s1 d0 d1 (val_bytes (vm_mem s) a) (val_bytes (vm_mem s) b)"
    "stack_ok s1 vs" "vm_inside s s1" "st_size s1 + 10 \<le> st_size s" .
  have "mdv_vmop_greater s = vm_push_result s1 (truth (ord_class.lexordp (val_bytes (vm_mem s) b) (val_bytes (vm_mem s) a)))"
    using operands_memcmp [OF p(2)] operands_size [OF p(2)] lexordp_memcmp_gt [of "val_bytes (vm_mem s) b" "val_bytes (vm_mem s) a"] p(1)
    by (auto simp: mdv_vmop_greater_def truth_def Let_def)
  from push_truth [OF assms p(3,4,5), of mdv_vmop_greater, OF this] show ?thesis .
qed

lemma vmop_greater_or_equal_ok:
  assumes "stack_ok s (b # a # vs)"
  shows "\<exists>s'. mdv_vmop_greater_or_equal s = (s', MDV_OK)
    \<and> stack_ok s' (Inline (truth (\<not> ord_class.lexordp (val_bytes (vm_mem s) a) (val_bytes (vm_mem s) b))) # vs) \<and> vm_inside s s'"
proof -
  from pop_operands [OF assms] obtain s1 d0 d1 where p: "mdv_vm_stack_pop_pair s = (s1, Inr (d0, d1))"
    "operands s1 d0 d1 (val_bytes (vm_mem s) a) (val_bytes (vm_mem s) b)"
    "stack_ok s1 vs" "vm_inside s s1" "st_size s1 + 10 \<le> st_size s" .
  have "mdv_vmop_greater_or_equal s = vm_push_result s1 (truth (\<not> ord_class.lexordp (val_bytes (vm_mem s) a) (val_bytes (vm_mem s) b)))"
    using operands_memcmp [OF p(2)] operands_size [OF p(2)] lexordp_memcmp [of "val_bytes (vm_mem s) a" "val_bytes (vm_mem s) b"] p(1)
    by (auto simp: mdv_vmop_greater_or_equal_def truth_def Let_def)
  from push_truth [OF assms p(3,4,5), of mdv_vmop_greater_or_equal, OF this] show ?thesis .
qed

lemma vmop_less_ok:
  assumes "stack_ok s (b # a # vs)"
  shows "\<exists>s'. mdv_vmop_less s = (s', MDV_OK)
    \<and> stack_ok s' (Inline (truth (ord_class.lexordp (val_bytes (vm_mem s) a) (val_bytes (vm_mem s) b))) # vs) \<and> vm_inside s s'"
proof -
  from pop_operands [OF assms] obtain s1 d0 d1 where p: "mdv_vm_stack_pop_pair s = (s1, Inr (d0, d1))"
    "operands s1 d0 d1 (val_bytes (vm_mem s) a) (val_bytes (vm_mem s) b)"
    "stack_ok s1 vs" "vm_inside s s1" "st_size s1 + 10 \<le> st_size s" .
  have "mdv_vmop_less s = vm_push_result s1 (truth (ord_class.lexordp (val_bytes (vm_mem s) a) (val_bytes (vm_mem s) b)))"
    using operands_memcmp [OF p(2)] operands_size [OF p(2)] lexordp_memcmp [of "val_bytes (vm_mem s) a" "val_bytes (vm_mem s) b"] p(1)
    by (auto simp: mdv_vmop_less_def truth_def Let_def)
  from push_truth [OF assms p(3,4,5), of mdv_vmop_less, OF this] show ?thesis .
qed

lemma vmop_less_or_equal_ok:
  assumes "stack_ok s (b # a # vs)"
  shows "\<exists>s'. mdv_vmop_less_or_equal s = (s', MDV_OK)
    \<and> stack_ok s' (Inline (truth (\<not> ord_class.lexordp (val_bytes (vm_mem s) b) (val_bytes (vm_mem s) a))) # vs) \<and> vm_inside s s'"
proof -
  from pop_operands [OF assms] obtain s1 d0 d1 where p: "mdv_vm_stack_pop_pair s = (s1, Inr (d0, d1))"
    "operands s1 d0 d1 (val_bytes (vm_mem s) a) (val_bytes (vm_mem s) b)"
    "stack_ok s1 vs" "vm_inside s s1" "st_size s1 + 10 \<le> st_size s" .
  have "mdv_vmop_less_or_equal s = vm_push_result s1 (truth (\<not> ord_class.lexordp (val_bytes (vm_mem s) b) (val_bytes (vm_mem s) a)))"
    using operands_memcmp [OF p(2)] operands_size [OF p(2)] lexordp_memcmp_gt [of "val_bytes (vm_mem s) b" "val_bytes (vm_mem s) a"] p(1)
    by (auto simp: mdv_vmop_less_or_equal_def truth_def Let_def)
  from push_truth [OF assms p(3,4,5), of mdv_vmop_less_or_equal, OF this] show ?thesis .
qed

lemma binary_push:
  assumes ok: "stack_ok s (Inline y # Inline x # vs)" and len: "length x = length y"
    and ok1: "stack_ok s1 vs" and inside: "vm_inside s s1"
  shows "\<exists>s'. vm_push_result s1 (map2 f x y) = (s', MDV_OK) \<and> stack_ok s' (Inline (map2 f x y) # vs) \<and> vm_inside s s'"
proof -
  have "length (map2 f x y) < 2 ^ 32" "st_size s1 + (length (map2 f x y) + 5) \<le> st_capacity s1"
    using ok ok1 inside len by (simp_all add: stack_ok_def vm_inside_def length_frame)
  from push_result_ok [OF ok1 this] show ?thesis using vm_inside_trans [OF inside] by blast
qed

lemma vmop_and_ok:
  assumes ok: "stack_ok s (Inline y # Inline x # vs)" and len: "length x = length y"
  shows "\<exists>s'. mdv_vmop_and s = (s', MDV_OK)
    \<and> stack_ok s' (Inline (map2 (\<lambda>p q. p AND q) x y) # vs) \<and> vm_inside s s'"
proof -
  from pop_operands [OF ok, unfolded val_bytes.simps] obtain s1 d0 d1 where
    p: "mdv_vm_stack_pop_pair s = (s1, Inr (d0, d1))" "operands s1 d0 d1 x y" "stack_ok s1 vs" "vm_inside s s1"
    by blast
  have "mdv_vmop_and s = vm_push_result s1 (map2 (\<lambda>p q. p AND q) x y)"
    using p(1,2) operands_size(1) [OF p(2)] len by (simp add: mdv_vmop_and_def operands_def Let_def)
  with binary_push [OF ok len p(3,4)] show ?thesis by simp
qed

lemma vmop_and_mismatch:
  assumes ok: "stack_ok s (b # a # vs)" and len: "length (val_bytes (vm_mem s) a) \<noteq> length (val_bytes (vm_mem s) b)"
  shows "\<exists>s'. mdv_vmop_and s = (s', MDV_INVALID_ARG) \<and> vm_inside s s'"
proof -
  from pop_operands [OF ok] obtain s1 d0 d1 where p: "mdv_vm_stack_pop_pair s = (s1, Inr (d0, d1))"
    "operands s1 d0 d1 (val_bytes (vm_mem s) a) (val_bytes (vm_mem s) b)" "vm_inside s s1"
    by blast
  with operands_size(1) [OF p(2)] len show ?thesis by (simp add: mdv_vmop_and_def)
qed

lemma vmop_or_ok:
  assumes ok: "stack_ok s (Inline y # Inline x # vs)" and len: "length x = length y"
  shows "\<exists>s'. mdv_vmop_or s = (s', MDV_OK)
    \<and> stack_ok s' (Inline (map2 (\<lambda>p q. p OR q) x y) # vs) \<and> vm_inside s s'"
proof -
  from pop_operands [OF ok, unfolded val_bytes.simps] obtain s1 d0 d1 where
    p: "mdv_vm_stack_pop_pair s = (s1, Inr (d0, d1))" "operands s1 d0 d1 x y" "stack_ok s1 vs" "vm_inside s s1"
    by blast
  have "mdv_vmop_or s = vm_push_result s1 (map2 (\<lambda>p q. p OR q) x y)"
    using p(1,2) operands_size(1) [OF p(2)] len by (simp add: mdv_vmop_or_def operands_def Let_def)
  with binary_push [OF ok len p(3,4)] show ?thesis by simp
qed

lemma vmop_or_mismatch:
  assumes ok: "stack_ok s (b # a # vs)" and len: "length (val_bytes (vm_mem s) a) \<noteq> length (val_bytes (vm_mem s) b)"
  shows "\<exists>s'. mdv_vmop_or s = (s', MDV_INVALID_ARG) \<and> vm_inside s s'"
proof -
  from pop_operands [OF ok] obtain s1 d0 d1 where p: "mdv_vm_stack_pop_pair s = (s1, Inr (d0, d1))"
    "operands s1 d0 d1 (val_bytes (vm_mem s) a) (val_bytes (vm_mem s) b)" "vm_inside s s1"
    by blast
  with operands_size(1) [OF p(2)] len show ?thesis by (simp add: mdv_vmop_or_def)
qed

lemma vmop_not_ok:
  assumes ok: "stack_ok s (Inline x # vs)"
  shows "\<exists>s'. mdv_vmop_not s = (s', MDV_OK) \<and> stack_ok s' (Inline (map (\<lambda>p. NOT p) x) # vs) \<and> vm_inside s s'"
proof -
  let ?b = "st_data s + length (image_of vs)" and ?y = "map (\<lambda>p. NOT p) x"
  let ?s = "s\<lparr>vm_mem := store (vm_mem s) ?b ?y\<rparr>"
  let ?tail = "le_bytes 4 (unat (val_size (Inline x))) @ [0 :: u8]"
  note mem = frame_in_memory [OF ok]
  have lx: "length x < 2 ^ 32" using ok by (simp add: stack_ok_def)
  have "mdv_vmop_not s = (?s, MDV_OK)"
    using top_ok [OF ok] mem(1) lx by (simp add: mdv_vmop_not_def vm_data_def datum_of_def unat_of_nat)
  moreover have "stack_ok ?s (Inline ?y # vs)"
  proof -
    have "load (store (vm_mem s) ?b ?y) (?b + length x) (4 + 1) = load (vm_mem s) (?b + length x) (4 + 1)"
      by (rule load_store_other) simp
    also have "\<dots> = ?tail" unfolding load_append using mem(2,3) by simp
    finally have t: "load (store (vm_mem s) ?b ?y) (?b + length x) (4 + 1) = ?tail" .
    have "load (vm_mem ?s) (st_data s) (length (image_of vs) + (length x + (4 + 1))) = image_of vs @ (?y @ ?tail)"
      unfolding load_append [of _ _ "length (image_of vs)"] load_append [of _ _ "length x"]
      using mem(4) t by (simp add: load_store_other)
    with ok mem(5) show ?thesis by (auto simp: stack_ok_def frame_def length_frame add.assoc)
  qed
  moreover have "vm_inside s ?s"
    using ok mem(5) by (auto simp: vm_inside_def store_def stack_ok_def)
  ultimately show ?thesis by blast
qed

lemmas vmop_compare_ok = vmop_equal_ok vmop_not_equal_ok vmop_greater_ok vmop_greater_or_equal_ok
  vmop_less_ok vmop_less_or_equal_ok

text \<open>A binary function on a stack of fewer than two values reports an error.\<close>

lemma binary_short:
  assumes "length vs < 2" and "stack_ok s vs"
    and "f \<in> {mdv_vmop_equal, mdv_vmop_not_equal, mdv_vmop_greater, mdv_vmop_greater_or_equal,
               mdv_vmop_less, mdv_vmop_less_or_equal, mdv_vmop_and, mdv_vmop_or}"
  shows "\<exists>s'. f s = (s', MDV_FAILED) \<and> vm_inside s s'"
  using pop_pair_short [OF assms(1,2)] assms(3)
  by (auto simp: mdv_vmop_equal_def mdv_vmop_not_equal_def mdv_vmop_greater_def mdv_vmop_greater_or_equal_def
      mdv_vmop_less_def mdv_vmop_less_or_equal_def mdv_vmop_and_def mdv_vmop_or_def)

section \<open>Programs as instructions\<close>

datatype vm_instr = I_NOP | I_PUSH bytes | I_CALL u16

type_synonym vm_sem = "bytes list \<Rightarrow> mdv_errno + bytes list"

fun encode_instr :: "vm_instr \<Rightarrow> bytes" where
  "encode_instr I_NOP = [MDV_VM_NOP]"
| "encode_instr (I_PUSH bs) = MDV_VM_PUSH # 0 # le_bytes 4 (length bs) @ bs"
| "encode_instr (I_CALL fid) = MDV_VM_CALL # le_bytes 2 (unat fid)"

definition encode_program :: "vm_instr list \<Rightarrow> bytes" where
  "encode_program prog = concat (map encode_instr prog) @ [MDV_VM_END]"

fun instr_ok :: "vm_instr \<Rightarrow> bool" where
  "instr_ok (I_PUSH bs) \<longleftrightarrow> length bs < 2 ^ 32"
| "instr_ok _ \<longleftrightarrow> True"

text \<open>The bytes a stack of values takes, and the execution of a program on such a stack.\<close>

definition stack_bytes :: "bytes list \<Rightarrow> nat" where
  "stack_bytes vs = sum_list (map (\<lambda>v. length v + 5) vs)"

fun vm_exec :: "vm_sem list \<Rightarrow> nat \<Rightarrow> vm_instr list \<Rightarrow> bytes list \<Rightarrow> mdv_errno + bytes list" where
  "vm_exec sems c [] vs = Inr vs"
| "vm_exec sems c (I_NOP # prog) vs = vm_exec sems c prog vs"
| "vm_exec sems c (I_PUSH bs # prog) vs =
     (if stack_bytes vs + (length bs + 5) \<le> c then vm_exec sems c prog (bs # vs) else Inl MDV_STACK_OVERFLOW)"
| "vm_exec sems c (I_CALL fid # prog) vs =
     (if unat fid \<ge> length sems then Inl MDV_NO_IMPL
      else case (sems ! unat fid) vs of Inl err \<Rightarrow> Inl err | Inr vs' \<Rightarrow> vm_exec sems c prog vs')"

lemma length_image_inline: "length (image_of (map Inline vs)) = stack_bytes vs"
  by (induction vs) (simp_all add: stack_bytes_def length_frame)

definition code_at :: "vm_state \<Rightarrow> nat \<Rightarrow> bytes \<Rightarrow> bool" where
  "code_at s ip bs \<longleftrightarrow> load (vm_mem s) ip (length bs) = bs
     \<and> (ip + length bs \<le> st_data s \<or> st_data s + st_capacity s \<le> ip)"

lemma code_at_append:
  "code_at s ip (xs @ ys) \<Longrightarrow> code_at s ip xs \<and> code_at s (ip + length xs) ys"
  using load_split [of "vm_mem s" ip "length (xs @ ys)" xs ys] by (auto simp: code_at_def)

lemma code_at_Cons:
  "code_at s ip (x # xs) \<Longrightarrow> vm_mem s ip = x \<and> code_at s (ip + 1) xs"
  using code_at_append [of s ip "[x]" xs] by (simp add: code_at_def)

lemma code_at_inside: "code_at s ip bs \<Longrightarrow> vm_inside s s' \<Longrightarrow> code_at s' ip bs"
  using vm_inside_load [of s s' ip "length bs"] by (auto simp: code_at_def vm_inside_def)

lemma vm_opcodes:
  "MDV_VM_PUSH \<noteq> MDV_VM_NOP" "MDV_VM_CALL \<noteq> MDV_VM_NOP" "MDV_VM_CALL \<noteq> MDV_VM_PUSH"
  "MDV_VM_CALL \<noteq> MDV_VM_END" "MDV_VM_END \<noteq> MDV_VM_NOP" "MDV_VM_END \<noteq> MDV_VM_PUSH"
  by code_simp+

lemma step_nop: "code_at s ip (encode_instr I_NOP) \<Longrightarrow> vm_step fns s ip = (s, MDV_OK, Some (ip + 1))"
  by (simp add: code_at_def vm_step_def Let_def)

lemma step_end: "code_at s ip [MDV_VM_END] \<Longrightarrow> vm_step fns s ip = (s, MDV_OK, None)"
  by (simp add: code_at_def vm_step_def vm_opcodes Let_def)

lemma step_call:
  assumes "code_at s ip (encode_instr (I_CALL fid))"
  shows "vm_step fns s ip =
    (if unat fid \<ge> length fns then (s, MDV_NO_IMPL, None)
     else case (fns ! unat fid) s of (s', err) \<Rightarrow>
       if err \<noteq> MDV_OK then (s', err, None) else (s', err, Some (ip + 3)))"
proof -
  have "unat fid < 256 ^ 2" using unsigned_less [of fid] by simp
  then have "le_val (le_bytes 2 (unat fid)) = unat fid" by (simp add: codec_simps)
  with code_at_Cons [of s ip MDV_VM_CALL "le_bytes 2 (unat fid)"] assms show ?thesis
    by (simp add: vm_step_def vm_opcodes Let_def code_at_def split: prod.split)
qed

lemma step_push:
  assumes code: "code_at s ip (encode_instr (I_PUSH bs))" and len: "length bs < 2 ^ 32"
  shows "vm_step fns s ip =
    (case vm_push_frame s bs (of_nat (length bs)) False of (s', err) \<Rightarrow>
       if err \<noteq> MDV_OK then (s', err, None) else (s', err, Some (ip + (6 + length bs))))"
proof -
  have opcode: "vm_mem s ip = MDV_VM_PUSH" and r: "code_at s (ip + 1) (0 # le_bytes 4 (length bs) @ bs)"
    using code_at_Cons code by auto
  have flag: "vm_mem s (ip + 1) = 0" and r2: "code_at s (ip + 1 + 1) (le_bytes 4 (length bs) @ bs)"
    using code_at_Cons [OF r] by auto
  have "code_at s (ip + 1 + 1) (le_bytes 4 (length bs))" "code_at s (ip + 1 + 1 + 4) bs"
    using code_at_append [OF r2] by simp_all
  then have sz: "load (vm_mem s) (ip + 1 + 1) 4 = le_bytes 4 (length bs)"
    and data: "load (vm_mem s) (ip + 1 + 1 + 4) (length bs) = bs"
    by (simp_all add: code_at_def)
  have n: "le_val (le_bytes 4 (length bs)) = length bs" "unat (word_of_nat (length bs) :: u32) = length bs"
    using len by (simp_all add: codec_simps unat_of_nat)
  show ?thesis
    using opcode flag sz data n
    by (simp add: vm_step_def vm_opcodes Let_def mdv_vm_stack_push_def ac_simps split: prod.split)
qed

text \<open>
  A \<open>PUSH\<close> with the external flag skips the eight bytes of a pointer in the program, and pushes the
  address of those bytes instead of the pointer they hold.
\<close>

lemma step_push_external:
  assumes "vm_mem s ip = MDV_VM_PUSH" and "vm_mem s (ip + 1) = 1" and "load (vm_mem s) (ip + 2) 4 = le_bytes 4 (unat n)"
  shows "vm_step fns s ip =
    (case vm_push_frame s (le_bytes 8 (ip + 6)) n True of (s', err) \<Rightarrow>
       if err \<noteq> MDV_OK then (s', err, None) else (s', err, Some (ip + 14)))"
  using assms size_read_back [of n]
  by (simp add: vm_step_def vm_opcodes Let_def mdv_vm_stack_push_def ac_simps split: prod.split)

section \<open>The interpreter executes programs\<close>

text \<open>
  The contract of a table of functions: on a stack of byte strings, function \<open>i\<close> of the table does
  what \<open>sems ! i\<close> says, reports its error, and writes nothing outside the stack.
\<close>

locale vm_functions =
  fixes fns :: "mdv_vm_fn list" and sems :: "vm_sem list"
  assumes same_length: "length fns = length sems"
    and sem_ok: "i < length fns \<Longrightarrow> stack_ok s (map Inline vs) \<Longrightarrow> (sems ! i) vs = Inr vs' \<Longrightarrow>
      \<exists>s'. (fns ! i) s = (s', MDV_OK) \<and> stack_ok s' (map Inline vs') \<and> vm_inside s s'"
    and sem_err: "i < length fns \<Longrightarrow> stack_ok s (map Inline vs) \<Longrightarrow> (sems ! i) vs = Inl err \<Longrightarrow>
      err \<noteq> MDV_OK \<and> (\<exists>s'. (fns ! i) s = (s', err) \<and> vm_inside s s')"
begin

lemma run_exec:
  assumes "code_at s ip (encode_program prog)" and "stack_ok s (map Inline vs)" and "list_all instr_ok prog"
  shows "case vm_exec sems (st_capacity s) prog vs of
      Inr vs' \<Rightarrow> \<exists>s'. mdv_vm_run fns s ip = Some (s', MDV_OK) \<and> stack_ok s' (map Inline vs') \<and> vm_inside s s'
    | Inl err \<Rightarrow> \<exists>s'. mdv_vm_run fns s ip = Some (s', err) \<and> vm_inside s s'"
  using assms
proof (induction prog arbitrary: s ip vs)
  case Nil
  then have "code_at s ip [MDV_VM_END]" by (simp add: encode_program_def)
  from step_end [OF this] Nil show ?case
    by (simp add: mdv_vm_run.simps [of fns s]) (simp add: vm_inside_def stack_ok_def)
next
  case (Cons i prog)
  have code: "code_at s ip (encode_instr i)" "code_at s (ip + length (encode_instr i)) (encode_program prog)"
    using Cons.prems(1) code_at_append [of s ip "encode_instr i" "encode_program prog"]
    by (simp_all add: encode_program_def)
  have continue: ?case
    if step: "vm_step fns s ip = (s1, MDV_OK, Some (ip + length (encode_instr i)))"
      and s1: "stack_ok s1 (map Inline vs1)" "vm_inside s s1"
      and exec: "vm_exec sems (st_capacity s) (i # prog) vs = vm_exec sems (st_capacity s) prog vs1" for s1 vs1
  proof -
    have cap: "st_capacity s1 = st_capacity s" using s1 by (simp add: vm_inside_def)
    have run: "mdv_vm_run fns s ip = mdv_vm_run fns s1 (ip + length (encode_instr i))"
      by (simp add: mdv_vm_run.simps [of fns s] step)
    note IH = Cons.IH [OF code_at_inside [OF code(2) s1(2)] s1(1)]
    show ?thesis
      using IH Cons.prems(3) vm_inside_trans [OF s1(2)] unfolding exec run cap
      by (auto split: sum.splits)
  qed
  have stop: ?case
    if step: "vm_step fns s ip = (s1, err, None)" and "vm_inside s s1"
      and "vm_exec sems (st_capacity s) (i # prog) vs = Inl err" for s1 err
    using that by (simp add: mdv_vm_run.simps [of fns s])
  have here: "vm_inside s s" using Cons.prems(2) by (simp add: vm_inside_def stack_ok_def)
  show ?case
  proof (cases i)
    case I_NOP
    with continue [of s vs] step_nop code(1) Cons.prems(2) here show ?thesis by simp
  next
    case (I_PUSH bs)
    then have bs: "length bs < 2 ^ 32" using Cons.prems(3) by simp
    have step: "vm_step fns s ip = (case vm_push_frame s bs (of_nat (length bs)) False of (s', err) \<Rightarrow>
       if err \<noteq> MDV_OK then (s', err, None) else (s', err, Some (ip + (6 + length bs))))"
      using step_push [OF _ bs] code(1) I_PUSH by simp
    have top: "st_size s = stack_bytes vs" "st_size s \<le> st_capacity s"
      using Cons.prems(2) by (simp_all add: stack_ok_def length_image_inline)
    show ?thesis
    proof (cases "stack_bytes vs + (length bs + 5) \<le> st_capacity s")
      case True
      then obtain s1 where "vm_push_frame s bs (of_nat (length bs)) False = (s1, MDV_OK)"
        "stack_ok s1 (map Inline (bs # vs))" "vm_inside s s1"
        using push_result_ok [OF Cons.prems(2) bs] top by (auto simp: vm_push_result_def)
      with True continue [of s1 "bs # vs"] step I_PUSH show ?thesis by simp
    next
      case False
      then obtain s1 where "vm_push_frame s bs (of_nat (length bs)) False = (s1, MDV_STACK_OVERFLOW)" "vm_inside s s1"
        using push_frame_overflow [of s bs] top by auto
      with False stop [of s1 MDV_STACK_OVERFLOW] step I_PUSH show ?thesis by simp
    qed
  next
    case (I_CALL fid)
    note step = step_call [OF code(1) [unfolded I_CALL], of fns]
    show ?thesis
    proof (cases "unat fid < length fns")
      case False
      with stop [of s MDV_NO_IMPL] step here I_CALL same_length show ?thesis by simp
    next
      case True
      show ?thesis
      proof (cases "(sems ! unat fid) vs")
        case (Inl err)
        from sem_err [OF True Cons.prems(2) Inl] stop [of _ err] step True Inl I_CALL same_length
        show ?thesis by auto
      next
        case (Inr vs')
        from sem_ok [OF True Cons.prems(2) Inr] obtain s1 where
          "(fns ! unat fid) s = (s1, MDV_OK)" "stack_ok s1 (map Inline vs')" "vm_inside s s1" by blast
        with continue [of s1 vs'] step True Inr I_CALL same_length show ?thesis by simp
      qed
    qed
  qed
qed

end

section \<open>Properties\<close>

text \<open>
  C26. The six comparison functions decide equality and the lexicographic order of the two topmost
  values, wherever their bytes are: on the stack, or outside of it behind a pointer. They never
  overflow the stack, whatever its capacity, and change nothing outside of it.
\<close>

theorem vm_comparisons:
  assumes "stack_ok s (b # a # vs)"
  defines "x \<equiv> val_bytes (vm_mem s) a" and "y \<equiv> val_bytes (vm_mem s) b"
  shows "\<forall>(f, r) \<in> set [(mdv_vmop_equal, x = y), (mdv_vmop_not_equal, x \<noteq> y),
            (mdv_vmop_greater, ord_class.lexordp y x), (mdv_vmop_greater_or_equal, \<not> ord_class.lexordp x y),
            (mdv_vmop_less, ord_class.lexordp x y), (mdv_vmop_less_or_equal, \<not> ord_class.lexordp y x)].
          \<exists>s'. f s = (s', MDV_OK) \<and> stack_ok s' (Inline [if r then MDV_VM_TRUE else MDV_VM_FALSE] # vs) \<and> vm_inside s s'"
  using vmop_compare_ok [OF assms(1)] by (simp add: x_def y_def truth_def)

text \<open>The top value is a pointer to two bytes at address 10, the stack is at address 100.\<close>

definition vm_external_example :: vm_state where
  "vm_external_example = \<lparr>vm_mem = store (store (\<lambda>_. 0) 10 [5, 6]) 100 (image_of [External 10 2, Inline [5]]),
                         st_capacity = 19, st_size = 19, st_data = 100\<rparr>"

theorem vm_comparisons_witness:
  "\<exists>s'. mdv_vmop_less vm_external_example = (s', MDV_OK) \<and> stack_ok s' [Inline [MDV_VM_TRUE]]"
proof -
  let ?m = "vm_mem vm_external_example"
  have img: "length (image_of [External 10 2, Inline [5]]) = 19" by (simp add: length_frame)
  have ok: "stack_ok vm_external_example [External 10 2, Inline [5]]"
    using img by (simp add: stack_ok_def vm_external_example_def)
  have "val_bytes ?m (External 10 2) = [5, 6]"
    by (simp add: vm_external_example_def load_store_other)
  then have "ord_class.lexordp (val_bytes ?m (Inline [5])) (val_bytes ?m (External 10 2))" by simp
  with vm_comparisons [OF ok] show ?thesis by auto
qed

text \<open>
  \<open>mdv_vmop_not\<close> on external data inverts the caller's bytes in place: the memory behind the
  pointer is changed, outside the stack of the machine, and the stack is left as it was. Running
  a predicate twice over the same external field sees two different fields.
\<close>

theorem vmop_not_external:
  assumes "stack_ok s (External a n # vs)"
  shows "\<exists>s'. mdv_vmop_not s = (s', MDV_OK) \<and> stack_ok s' (External a n # vs)
           \<and> load (vm_mem s') a (unat n) = map (\<lambda>p. NOT p) (load (vm_mem s) a (unat n))"
proof -
  let ?y = "map (\<lambda>p. NOT p) (load (vm_mem s) a (unat n))"
  let ?s = "s\<lparr>vm_mem := store (vm_mem s) a ?y\<rparr>"
  have "mdv_vmop_not s = (?s, MDV_OK)"
    using top_ok [OF assms] by (simp add: mdv_vmop_not_def vm_data_def datum_of_def)
  moreover have "a + unat n \<le> st_data s \<or> st_data s + st_capacity s \<le> a" "st_size s \<le> st_capacity s"
    using assms by (simp_all add: stack_ok_def)
  then have "load (vm_mem ?s) (st_data s) (st_size s) = load (vm_mem s) (st_data s) (st_size s)"
    by (simp add: load_store_other) (intro load_store_other, auto)
  then have "stack_ok ?s (External a n # vs)" using assms by (auto simp: stack_ok_def)
  ultimately show ?thesis by (intro exI [of _ ?s]) simp
qed

theorem vmop_not_external_witness:
  "\<exists>s'. mdv_vmop_not vm_external_example = (s', MDV_OK) \<and> load (vm_mem s') 10 2 = [250, 249]"
proof -
  have img: "length (image_of [External 10 2, Inline [5]]) = 19" by (simp add: length_frame)
  have ok: "stack_ok vm_external_example [External 10 2, Inline [5]]"
    using img by (simp add: stack_ok_def vm_external_example_def)
  have "load (vm_mem vm_external_example) 10 2 = [5, 6]"
    by (simp add: vm_external_example_def load_store_other)
  with vmop_not_external [OF ok] show ?thesis by auto
qed

end
