(* ===== verification/Mdv_Predicate.thy ===== *)
theory Mdv_Predicate
  imports Mdv_Vm
begin

text \<open>
  The predicates of src/mdv_storage/mdv_predicate.c: a compiled program for the stack machine with
  the table of functions it may call, shared by a reference counter. The interpretation \<open>pred\<close>
  discharges the contract \<open>vm_functions\<close> for that table.
\<close>

unbundle bit_operations_syntax

section \<open>The code\<close>

definition MDV_EMPTY_PREDICATE :: bytes where
  "MDV_EMPTY_PREDICATE = [MDV_VM_PUSH, 0, 1, 0, 0, 0, MDV_VM_TRUE, MDV_VM_END]"

definition MDV_PREDICATE_FNS :: "mdv_vm_fn list" where
  "MDV_PREDICATE_FNS =
     [mdv_vmop_equal, mdv_vmop_not_equal, mdv_vmop_greater, mdv_vmop_greater_or_equal,
      mdv_vmop_less, mdv_vmop_less_or_equal, mdv_vmop_and, mdv_vmop_or, mdv_vmop_not]"

record mdv_predicate =
  pr_rc :: u32
  pr_expr :: bytes
  pr_fns :: "mdv_vm_fn list"

text \<open>
  The expression is not parsed: every expression compiles to the same program. \<open>alloc0\<close> and \<open>alloc1\<close>
  are the allocations of the object and of its vector; the rollback on failure frees what there is.
\<close>

definition mdv_predicate_parse :: "bool \<Rightarrow> bool \<Rightarrow> string \<Rightarrow> mdv_predicate option" where
  "mdv_predicate_parse alloc0 alloc1 expression =
     (if \<not> alloc0 then None
      else if \<not> alloc1 then None
      else Some \<lparr>pr_rc = 1, pr_expr = MDV_EMPTY_PREDICATE, pr_fns = MDV_PREDICATE_FNS\<rparr>)"

definition mdv_predicate_retain :: "mdv_predicate \<Rightarrow> mdv_predicate" where
  "mdv_predicate_retain p = p\<lparr>pr_rc := pr_rc p + 1\<rparr>"

text \<open>No predicate is left when the counter reaches zero.\<close>

definition mdv_predicate_release :: "mdv_predicate option \<Rightarrow> mdv_predicate option \<times> u32" where
  "mdv_predicate_release pred =
     (case pred of None \<Rightarrow> (None, 0)
      | Some p \<Rightarrow>
          let rc = pr_rc p - 1 in
          (if rc = 0 then None else Some (p\<lparr>pr_rc := rc\<rparr>), rc))"

section \<open>The functions of predicates\<close>

definition sem_binary :: "(bytes \<Rightarrow> bytes \<Rightarrow> mdv_errno + bytes) \<Rightarrow> vm_sem" where
  "sem_binary f vs = (case vs of
      y # x # us \<Rightarrow> (case f x y of Inl err \<Rightarrow> Inl err | Inr r \<Rightarrow> Inr (r # us))
    | _ \<Rightarrow> Inl MDV_FAILED)"

definition sem_unary :: "(bytes \<Rightarrow> bytes) \<Rightarrow> vm_sem" where
  "sem_unary f vs = (case vs of x # us \<Rightarrow> Inr (f x # us) | [] \<Rightarrow> Inl MDV_FAILED)"

definition same_size :: "(bytes \<Rightarrow> bytes \<Rightarrow> bytes) \<Rightarrow> bytes \<Rightarrow> bytes \<Rightarrow> mdv_errno + bytes" where
  "same_size f x y = (if length x = length y then Inr (f x y) else Inl MDV_INVALID_ARG)"

text \<open>
  What the nine functions mean on byte strings: equality, the lexicographic order, bitwise operations
  on operands of the same size.
\<close>

definition predicate_sems :: "vm_sem list" where
  "predicate_sems =
     [sem_binary (\<lambda>x y. Inr (truth (x = y))),
      sem_binary (\<lambda>x y. Inr (truth (x \<noteq> y))),
      sem_binary (\<lambda>x y. Inr (truth (ord_class.lexordp y x))),
      sem_binary (\<lambda>x y. Inr (truth (\<not> ord_class.lexordp x y))),
      sem_binary (\<lambda>x y. Inr (truth (ord_class.lexordp x y))),
      sem_binary (\<lambda>x y. Inr (truth (\<not> ord_class.lexordp y x))),
      sem_binary (same_size (map2 (\<lambda>p q. p AND q))),
      sem_binary (same_size (map2 (\<lambda>p q. p OR q))),
      sem_unary (map (\<lambda>p. NOT p))]"

definition implements_sem :: "mdv_vm_fn \<Rightarrow> vm_sem \<Rightarrow> bool" where
  "implements_sem f sem \<longleftrightarrow> (\<forall>s vs. stack_ok s (map Inline vs) \<longrightarrow>
     (case sem vs of
        Inr vs' \<Rightarrow> \<exists>s'. f s = (s', MDV_OK) \<and> stack_ok s' (map Inline vs') \<and> vm_inside s s'
      | Inl err \<Rightarrow> err \<noteq> MDV_OK \<and> (\<exists>s'. f s = (s', err) \<and> vm_inside s s')))"

lemma implements_binary:
  assumes f: "f \<in> {mdv_vmop_equal, mdv_vmop_not_equal, mdv_vmop_greater, mdv_vmop_greater_or_equal,
               mdv_vmop_less, mdv_vmop_less_or_equal, mdv_vmop_and, mdv_vmop_or}"
    and two: "\<And>s x y vs. stack_ok s (Inline y # Inline x # vs) \<Longrightarrow>
      (case g x y of
         Inr r \<Rightarrow> \<exists>s'. f s = (s', MDV_OK) \<and> stack_ok s' (Inline r # vs) \<and> vm_inside s s'
       | Inl err \<Rightarrow> err \<noteq> MDV_OK \<and> (\<exists>s'. f s = (s', err) \<and> vm_inside s s'))"
  shows "implements_sem f (sem_binary g)"
  unfolding implements_sem_def
proof (intro allI impI)
  fix s vs assume ok: "stack_ok s (map Inline vs)"
  consider "length vs < 2" | y x us where "vs = y # x # us"
    by (cases vs; cases "tl vs") auto
  then show "case sem_binary g vs of
        Inr vs' \<Rightarrow> \<exists>s'. f s = (s', MDV_OK) \<and> stack_ok s' (map Inline vs') \<and> vm_inside s s'
      | Inl err \<Rightarrow> err \<noteq> MDV_OK \<and> (\<exists>s'. f s = (s', err) \<and> vm_inside s s')"
  proof cases
    case 1
    with binary_short [OF _ ok f] show ?thesis by (auto simp: sem_binary_def split: list.split)
  next
    case 2
    with two [of s y x "map Inline us"] ok show ?thesis by (auto simp: sem_binary_def split: sum.splits)
  qed
qed

lemma implements_not: "implements_sem mdv_vmop_not (sem_unary (map (\<lambda>p. NOT p)))"
  unfolding implements_sem_def
proof (intro allI impI)
  fix s vs assume ok: "stack_ok s (map Inline vs)"
  show "case sem_unary (map (\<lambda>p. NOT p)) vs of
        Inr vs' \<Rightarrow> \<exists>s'. mdv_vmop_not s = (s', MDV_OK) \<and> stack_ok s' (map Inline vs') \<and> vm_inside s s'
      | Inl err \<Rightarrow> err \<noteq> MDV_OK \<and> (\<exists>s'. mdv_vmop_not s = (s', err) \<and> vm_inside s s')"
  proof (cases vs)
    case Nil
    with ok top_empty [of s] show ?thesis
      by (simp add: sem_unary_def mdv_vmop_not_def) (simp add: vm_inside_def stack_ok_def)
  next
    case (Cons x us)
    with ok vmop_not_ok [of s x "map Inline us"] show ?thesis by (simp add: sem_unary_def)
  qed
qed

lemma implements_same_size:
  "implements_sem mdv_vmop_and (sem_binary (same_size (map2 (\<lambda>p q. p AND q))))"
  "implements_sem mdv_vmop_or (sem_binary (same_size (map2 (\<lambda>p q. p OR q))))"
  using vmop_and_ok vmop_or_ok vmop_and_mismatch [of _ "Inline _" "Inline _"] vmop_or_mismatch [of _ "Inline _" "Inline _"]
  by (auto intro!: implements_binary simp: same_size_def)

lemma implements_compare:
  "implements_sem mdv_vmop_equal (sem_binary (\<lambda>x y. Inr (truth (x = y))))"
  "implements_sem mdv_vmop_not_equal (sem_binary (\<lambda>x y. Inr (truth (x \<noteq> y))))"
  "implements_sem mdv_vmop_greater (sem_binary (\<lambda>x y. Inr (truth (ord_class.lexordp y x))))"
  "implements_sem mdv_vmop_greater_or_equal (sem_binary (\<lambda>x y. Inr (truth (\<not> ord_class.lexordp x y))))"
  "implements_sem mdv_vmop_less (sem_binary (\<lambda>x y. Inr (truth (ord_class.lexordp x y))))"
  "implements_sem mdv_vmop_less_or_equal (sem_binary (\<lambda>x y. Inr (truth (\<not> ord_class.lexordp y x))))"
  using vmop_compare_ok [where a = "Inline _" and b = "Inline _", unfolded val_bytes.simps]
  by (intro implements_binary; simp)+

lemma predicate_table: "list_all2 implements_sem MDV_PREDICATE_FNS predicate_sems"
  by (simp add: MDV_PREDICATE_FNS_def predicate_sems_def implements_not implements_same_size implements_compare)

lemma implements_semD:
  assumes "implements_sem f sem" and "stack_ok s (map Inline vs)"
  shows "sem vs = Inr vs' \<Longrightarrow> \<exists>s'. f s = (s', MDV_OK) \<and> stack_ok s' (map Inline vs') \<and> vm_inside s s'"
    and "sem vs = Inl err \<Longrightarrow> err \<noteq> MDV_OK \<and> (\<exists>s'. f s = (s', err) \<and> vm_inside s s')"
proof -
  have *: "case sem vs of
        Inr vs' \<Rightarrow> \<exists>s'. f s = (s', MDV_OK) \<and> stack_ok s' (map Inline vs') \<and> vm_inside s s'
      | Inl err \<Rightarrow> err \<noteq> MDV_OK \<and> (\<exists>s'. f s = (s', err) \<and> vm_inside s s')"
    using assms unfolding implements_sem_def by blast
  { assume "sem vs = Inr vs'" with * show "\<exists>s'. f s = (s', MDV_OK) \<and> stack_ok s' (map Inline vs') \<and> vm_inside s s'" by simp }
  { assume "sem vs = Inl err" with * show "err \<noteq> MDV_OK \<and> (\<exists>s'. f s = (s', err) \<and> vm_inside s s')" by simp }
qed

interpretation pred: vm_functions MDV_PREDICATE_FNS predicate_sems
proof (unfold_locales, goal_cases)
  case 1
  show ?case by (rule list_all2_lengthD [OF predicate_table])
next
  case (2 i s vs vs')
  show ?case by (rule implements_semD(1) [OF list_all2_nthD [OF predicate_table 2(1)] 2(2,3)])
next
  case (3 i s vs err)
  show ?case by (rule implements_semD(2) [OF list_all2_nthD [OF predicate_table 3(1)] 3(2,3)])
qed

section \<open>Properties\<close>


text \<open>A program that compares two strings, with a stack of 64 bytes at address 1000.\<close>

definition vm_example :: vm_state where
  "vm_example = \<lparr>vm_mem = store (\<lambda>_. 0) 0 (encode_program [I_PUSH [1, 2], I_PUSH [1, 3, 0], I_NOP, I_CALL 4]),
                st_capacity = 64, st_size = 0, st_data = 1000\<rparr>"


text \<open>
  Whatever the expression, the predicate \<open>mdv_predicate_parse\<close> returns is true of everything: its
  program runs to the end on every machine whose stack is empty and has room for one value, and the result
  read with \<open>mdv_vm_result_as_bool\<close> is true.
\<close>

theorem predicate_accepts_everything:
  assumes "mdv_predicate_parse True True expression = Some p" and "code_at s ip (pr_expr p)"
    and "stack_ok s []" and "6 \<le> st_capacity s"
  shows "\<exists>s'. mdv_vm_run (pr_fns p) s ip = Some (s', MDV_OK) \<and> mdv_vm_result_as_bool s' = Inr True"
proof -
  let ?prog = "[I_PUSH [MDV_VM_TRUE]]"
  have "MDV_EMPTY_PREDICATE = encode_program ?prog" by code_simp
  then have p: "pr_expr p = encode_program ?prog" "pr_fns p = MDV_PREDICATE_FNS"
    using assms(1) by (auto simp: mdv_predicate_parse_def)
  have "code_at s ip (encode_program ?prog)" "stack_ok s (map Inline [])" "list_all instr_ok ?prog"
    using assms p by simp_all
  moreover have "vm_exec predicate_sems (st_capacity s) ?prog [] = Inr [[MDV_VM_TRUE]]"
    using assms by (simp add: stack_bytes_def)
  ultimately obtain s' where "mdv_vm_run MDV_PREDICATE_FNS s ip = Some (s', MDV_OK)" "stack_ok s' [Inline [MDV_VM_TRUE]]"
    using pred.run_exec [of s ip ?prog "[]"] by auto
  moreover from this(2) have "mdv_vm_result_as_bool s' = Inr True"
    using top_ok [of s' "Inline [MDV_VM_TRUE]" "[]"] frame_in_memory(1) [of s' "Inline [MDV_VM_TRUE]" "[]"]
    by (simp add: mdv_vm_result_as_bool_def datum_of_def MDV_VM_TRUE_def MDV_VM_FALSE_def)
  ultimately show ?thesis using p by auto
qed

definition vm_predicate_example :: vm_state where
  "vm_predicate_example = \<lparr>vm_mem = store (\<lambda>_. 0) 0 MDV_EMPTY_PREDICATE, st_capacity = 8, st_size = 0, st_data = 32\<rparr>"

theorem predicate_accepts_everything_witness:
  "\<exists>p s'. mdv_predicate_parse True True ''id < 0'' = Some p
      \<and> mdv_vm_run (pr_fns p) vm_predicate_example 0 = Some (s', MDV_OK) \<and> mdv_vm_result_as_bool s' = Inr True"
proof -
  let ?p = "\<lparr>pr_rc = 1, pr_expr = MDV_EMPTY_PREDICATE, pr_fns = MDV_PREDICATE_FNS\<rparr>"
  have parse: "mdv_predicate_parse True True ''id < 0'' = Some ?p" by (simp add: mdv_predicate_parse_def)
  have "length MDV_EMPTY_PREDICATE = 8" by (simp add: MDV_EMPTY_PREDICATE_def)
  then have "code_at vm_predicate_example 0 (pr_expr ?p)" "stack_ok vm_predicate_example []"
    "6 \<le> st_capacity vm_predicate_example"
    by (simp_all add: code_at_def vm_predicate_example_def stack_ok_def)
  from predicate_accepts_everything [OF parse this] parse show ?thesis by auto
qed

end
