(* ===== verification/Mdv_List.thy ===== *)
theory Mdv_List
  imports Mdv_Prelude
begin

text \<open>
  The doubly linked list of src/mdv_platform/generic/mdv_list.c, with its pointers: a heap maps the
  addresses of entries to entries, the null pointer is the address 0, and reading or writing through a pointer to nothing is
  undefined (\<open>None\<close>). The entries of a list are the list of their addresses: \<open>dlist h l as\<close>.
  Every operation is proved to do on the heap what the operation of the same name does on that list,
  and to leave all other entries of the heap alone. Components that keep values in such lists
  are modelled over HOL lists on the strength of these lemmas.
\<close>

section \<open>The code\<close>

type_synonym addr = nat

record 'a list_entry =
  le_next :: addr
  le_prev :: addr
  le_data :: 'a

record mdv_list =
  l_next :: addr
  l_last :: addr

type_synonym 'a list_heap = "addr \<Rightarrow> 'a list_entry option"

definition set_next :: "'a list_heap \<Rightarrow> addr \<Rightarrow> addr \<Rightarrow> 'a list_heap option" where
  "set_next h a n = (case h a of None \<Rightarrow> None | Some e \<Rightarrow> Some (h(a \<mapsto> e\<lparr>le_next := n\<rparr>)))"

definition set_prev :: "'a list_heap \<Rightarrow> addr \<Rightarrow> addr \<Rightarrow> 'a list_heap option" where
  "set_prev h a p = (case h a of None \<Rightarrow> None | Some e \<Rightarrow> Some (h(a \<mapsto> e\<lparr>le_prev := p\<rparr>)))"

definition mdv_list_emplace_back :: "'a list_heap \<Rightarrow> mdv_list \<Rightarrow> addr \<Rightarrow> ('a list_heap \<times> mdv_list) option" where
  "mdv_list_emplace_back h l entry =
     (if l_next l = 0 then
        case set_prev h entry 0 of None \<Rightarrow> None | Some h1 \<Rightarrow>
        case set_next h1 entry 0 of None \<Rightarrow> None | Some h2 \<Rightarrow>
        Some (h2, l\<lparr>l_next := entry, l_last := entry\<rparr>)
      else
        case set_prev h entry (l_last l) of None \<Rightarrow> None | Some h1 \<Rightarrow>
        case set_next h1 entry 0 of None \<Rightarrow> None | Some h2 \<Rightarrow>
        case set_next h2 (l_last l) entry of None \<Rightarrow> None | Some h3 \<Rightarrow>
        Some (h3, l\<lparr>l_last := entry\<rparr>))"

text \<open>\<open>cell\<close> is the address \<open>mdv_alloc\<close> returns, 0 when there is no memory.\<close>

definition mdv_list_push_back_data ::
  "addr \<Rightarrow> 'a list_heap \<Rightarrow> mdv_list \<Rightarrow> 'a \<Rightarrow> ('a list_heap \<times> mdv_list \<times> addr) option" where
  "mdv_list_push_back_data cell h l val =
     (if cell = 0 then Some (h, l, 0)
      else
        case mdv_list_emplace_back (h(cell \<mapsto> \<lparr>le_next = 0, le_prev = 0, le_data = val\<rparr>)) l cell of
          None \<Rightarrow> None | Some (h', l') \<Rightarrow> Some (h', l', cell))"

text \<open>The two conditionals of \<open>mdv_list_exclude\<close>: what comes before the entry, and what comes after.\<close>

definition unlink_prev :: "'a list_heap \<Rightarrow> mdv_list \<Rightarrow> 'a list_entry \<Rightarrow> ('a list_heap \<times> mdv_list) option" where
  "unlink_prev h l e =
     (if le_prev e \<noteq> 0
      then map_option (\<lambda>h'. (h', l)) (set_next h (le_prev e) (le_next e))
      else Some (h, l\<lparr>l_next := le_next e\<rparr>))"

definition unlink_next :: "'a list_heap \<Rightarrow> mdv_list \<Rightarrow> 'a list_entry \<Rightarrow> ('a list_heap \<times> mdv_list) option" where
  "unlink_next h l e =
     (if le_next e \<noteq> 0
      then map_option (\<lambda>h'. (h', l)) (set_prev h (le_next e) (le_prev e))
      else Some (h, l\<lparr>l_last := le_prev e\<rparr>))"

definition mdv_list_exclude :: "'a list_heap \<Rightarrow> mdv_list \<Rightarrow> addr \<Rightarrow> ('a list_heap \<times> mdv_list) option" where
  "mdv_list_exclude h l entry =
     (case h entry of None \<Rightarrow> None | Some e \<Rightarrow>
      case unlink_prev h l e of None \<Rightarrow> None | Some (h1, l1) \<Rightarrow> unlink_next h1 l1 e)"

definition mdv_list_remove :: "'a list_heap \<Rightarrow> mdv_list \<Rightarrow> addr \<Rightarrow> ('a list_heap \<times> mdv_list) option" where
  "mdv_list_remove h l entry =
     (case mdv_list_exclude h l entry of None \<Rightarrow> None | Some (h', l') \<Rightarrow> Some (h'(entry := None), l'))"

definition mdv_list_pop_back :: "'a list_heap \<Rightarrow> mdv_list \<Rightarrow> ('a list_heap \<times> mdv_list) option" where
  "mdv_list_pop_back h l = mdv_list_remove h l (l_last l)"

definition mdv_list_move :: "mdv_list \<Rightarrow> mdv_list \<times> mdv_list" where
  "mdv_list_move l = (l\<lparr>l_next := 0, l_last := 0\<rparr>, \<lparr>l_next = l_next l, l_last = l_last l\<rparr>)"

definition mdv_list_empty :: "mdv_list \<Rightarrow> bool" where
  "mdv_list_empty l \<longleftrightarrow> l_next l = 0"

text \<open>The loop of \<open>mdv_list_clear\<close>: on a list that is not well-formed it may not end.\<close>

partial_function (option) list_free_from :: "'a list_heap \<Rightarrow> addr \<Rightarrow> 'a list_heap option" where
  [code]: "list_free_from h entry =
     (if entry = 0 then Some h
      else case h entry of None \<Rightarrow> None
         | Some e \<Rightarrow> list_free_from (h(entry := None)) (le_next e))"

definition mdv_list_clear :: "'a list_heap \<Rightarrow> mdv_list \<Rightarrow> ('a list_heap \<times> mdv_list) option" where
  "mdv_list_clear h l = map_option (\<lambda>h'. (h', l\<lparr>l_next := 0, l_last := 0\<rparr>)) (list_free_from h (l_next l))"

section \<open>Well-formed lists\<close>

text \<open>
  \<open>dlseg h p prev as q lst\<close>: following \<open>next\<close> from \<open>p\<close> visits the entries \<open>as\<close> and arrives at \<open>q\<close>; the
  \<open>prev\<close> pointers lead back to \<open>prev\<close>, and \<open>lst\<close> is the last address before \<open>q\<close>.
\<close>

fun dlseg :: "'a list_heap \<Rightarrow> addr \<Rightarrow> addr \<Rightarrow> addr list \<Rightarrow> addr \<Rightarrow> addr \<Rightarrow> bool" where
  "dlseg h p prev [] q lst \<longleftrightarrow> p = q \<and> prev = lst"
| "dlseg h p prev (a # as) q lst \<longleftrightarrow> p = a \<and> a \<noteq> 0
     \<and> (case h a of None \<Rightarrow> False | Some e \<Rightarrow> le_prev e = prev \<and> dlseg h (le_next e) a as q lst)"

definition dlist :: "'a list_heap \<Rightarrow> mdv_list \<Rightarrow> addr list \<Rightarrow> bool" where
  "dlist h l as \<longleftrightarrow> dlseg h (l_next l) 0 as 0 (l_last l) \<and> distinct as"

text \<open>The data along a list of entries.\<close>

definition list_values :: "'a list_heap \<Rightarrow> addr list \<Rightarrow> 'a list" where
  "list_values h as = map (\<lambda>a. le_data (the (h a))) as"

lemma dlseg_append:
  "dlseg h p prev (xs @ ys) q lst \<longleftrightarrow> (\<exists>r m. dlseg h p prev xs r m \<and> dlseg h r m ys q lst)"
  by (induction xs arbitrary: p prev) (auto split: option.splits)

lemma dlseg_frame: "(\<And>a. a \<in> set as \<Longrightarrow> h' a = h a) \<Longrightarrow> dlseg h' p prev as q lst = dlseg h p prev as q lst"
  by (induction as arbitrary: p prev) (auto split: option.splits)

lemma dlseg_upd [simp]: "a \<notin> set as \<Longrightarrow> dlseg (h(a := x)) p prev as q lst = dlseg h p prev as q lst"
  by (rule dlseg_frame) auto

lemma dlseg_nonzero: "dlseg h p prev as q lst \<Longrightarrow> a \<in> set as \<Longrightarrow> a \<noteq> 0 \<and> h a \<noteq> None"
  by (induction as arbitrary: p prev) (auto split: option.splits)

lemma dlseg_last: "dlseg h p prev (as @ [a]) q lst \<Longrightarrow> lst = a"
  by (auto simp: dlseg_append split: option.splits)

text \<open>Redirecting the end of a segment, and its beginning.\<close>

lemma dlseg_set_next:
  assumes "dlseg h p prev (as @ [a]) q lst" and "a \<notin> set as" and "set_next h a r = Some h'"
  shows "dlseg h' p prev (as @ [a]) r a"
proof -
  from assms(1) obtain m e where "dlseg h p prev as a m" "a \<noteq> 0" "h a = Some e" "le_prev e = m"
    by (auto simp: dlseg_append split: option.splits)
  moreover have "h' = h(a \<mapsto> e\<lparr>le_next := r\<rparr>)" using assms(3) \<open>h a = Some e\<close> by (simp add: set_next_def)
  moreover have "dlseg h' p prev as a m = dlseg h p prev as a m"
    using assms(2) calculation by (intro dlseg_frame) auto
  ultimately show ?thesis by (auto simp: dlseg_append)
qed

lemma dlseg_set_prev:
  assumes "dlseg h p prev (a # as) q lst" and "a \<notin> set as" and "set_prev h a m = Some h'"
  shows "dlseg h' a m (a # as) q lst"
proof -
  from assms(1) obtain e where e: "a \<noteq> 0" "h a = Some e" "dlseg h (le_next e) a as q lst"
    by (auto split: option.splits)
  moreover have h': "h' = h(a \<mapsto> e\<lparr>le_prev := m\<rparr>)" using assms(3) e by (simp add: set_prev_def)
  moreover have "dlseg h' (le_next e) a as q lst = dlseg h (le_next e) a as q lst"
    using assms(2) h' by (intro dlseg_frame) auto
  ultimately show ?thesis by simp
qed

text \<open>An operation on a list keeps the data of every entry, and every entry that is not on the list.\<close>

definition list_update_ok :: "addr set \<Rightarrow> 'a list_heap \<Rightarrow> 'a list_heap \<Rightarrow> bool" where
  "list_update_ok A h h' \<longleftrightarrow> (\<forall>x. map_option le_data (h' x) = map_option le_data (h x)) \<and> (\<forall>x. x \<notin> A \<longrightarrow> h' x = h x)"

lemma list_update_refl [simp]: "list_update_ok A h h"
  by (simp add: list_update_ok_def)

lemma list_update_trans: "list_update_ok A h h1 \<Longrightarrow> list_update_ok A h1 h2 \<Longrightarrow> list_update_ok A h h2"
  by (simp add: list_update_ok_def)

lemma set_next_ok: "set_next h a r = Some h' \<Longrightarrow> a \<in> A \<Longrightarrow> list_update_ok A h h'"
  by (auto simp: set_next_def list_update_ok_def split: option.splits)

lemma set_prev_ok: "set_prev h a r = Some h' \<Longrightarrow> a \<in> A \<Longrightarrow> list_update_ok A h h'"
  by (auto simp: set_prev_def list_update_ok_def split: option.splits)

lemma list_values_update: "list_update_ok A h h' \<Longrightarrow> \<forall>a \<in> set as. h a \<noteq> None \<Longrightarrow> list_values h' as = list_values h as"
  by (auto simp: list_values_def list_update_ok_def) (metis option.map_sel option.map_disc_iff)

lemma set_links_exist: "h a \<noteq> None \<Longrightarrow> \<exists>h'. set_next h a r = Some h'" "h a \<noteq> None \<Longrightarrow> \<exists>h'. set_prev h a r = Some h'"
  by (auto simp: set_next_def set_prev_def)

lemma update_keeps_dom: "list_update_ok A h h' \<Longrightarrow> h a \<noteq> None \<Longrightarrow> h' a \<noteq> None"
  by (metis list_update_ok_def option.map_disc_iff)

lemma emplace_back_ok:
  assumes l: "dlist h l as" and a: "a \<noteq> 0" "h a \<noteq> None" "a \<notin> set as"
  shows "\<exists>h' l'. mdv_list_emplace_back h l a = Some (h', l') \<and> dlist h' l' (as @ [a])
           \<and> list_update_ok (set (as @ [a])) h h'"
proof (cases as rule: rev_cases)
  case Nil
  with l have "l_next l = 0" by (simp add: dlist_def)
  obtain e where "h a = Some e" using a by auto
  with Nil \<open>l_next l = 0\<close> a show ?thesis
    by (simp add: mdv_list_emplace_back_def set_prev_def set_next_def dlist_def list_update_ok_def)
next
  case (snoc bs b)
  have seg: "dlseg h (l_next l) 0 (bs @ [b]) 0 (l_last l)" and dist: "b \<notin> set bs" "a \<noteq> b" "a \<notin> set bs" "distinct bs"
    using l snoc a by (auto simp: dlist_def)
  have last: "l_last l = b" using dlseg_last [OF seg] .
  have first: "l_next l \<noteq> 0" using seg by (cases bs) auto
  obtain e where e: "h a = Some e" using a by auto
  let ?h2 = "h(a \<mapsto> e\<lparr>le_prev := b, le_next := 0\<rparr>)"
  have seg2: "dlseg ?h2 (l_next l) 0 (bs @ [b]) 0 b"
    using seg last dist by (subst dlseg_frame [where h = h]) auto
  have "h b \<noteq> None" using dlseg_nonzero [OF seg] by simp
  then have "?h2 b \<noteq> None" using dist by simp
  then obtain h3 where h3: "set_next ?h2 b a = Some h3" using set_links_exist(1) by blast
  have "dlseg h3 (l_next l) 0 (bs @ [b]) a b" by (rule dlseg_set_next [OF seg2 dist(1) h3])
  moreover have "h3 a = Some (e\<lparr>le_prev := b, le_next := 0\<rparr>)"
    using h3 dist by (auto simp: set_next_def split: option.splits if_splits)
  then have "dlseg h3 a b [a] 0 a" using a by simp
  ultimately have "dlseg h3 (l_next l) 0 ((bs @ [b]) @ [a]) 0 a" unfolding dlseg_append by blast
  moreover have "list_update_ok (set (as @ [a])) h ?h2" using e by (simp add: list_update_ok_def)
  then have "list_update_ok (set (as @ [a])) h h3"
    by (rule list_update_trans) (rule set_next_ok [OF h3], simp add: snoc)
  moreover have "mdv_list_emplace_back h l a = Some (h3, l\<lparr>l_last := a\<rparr>)"
    using first last e h3 by (simp add: mdv_list_emplace_back_def set_prev_def set_next_def)
  ultimately show ?thesis using snoc dist by (auto simp: dlist_def)
qed

text \<open>Unlinking in two steps: the entry before, then the entry after.\<close>

lemma unlink_prev_ok:
  assumes seg: "dlseg h (l_next l) 0 xs a m" and rest: "dlseg h (le_next e) a ys q lst"
    and dist: "distinct (xs @ a # ys)" and e: "h a = Some e" "le_prev e = m"
  shows "\<exists>h' l'. unlink_prev h l e = Some (h', l') \<and> l_last l' = l_last l
         \<and> dlseg h' (l_next l') 0 xs (le_next e) m \<and> dlseg h' (le_next e) a ys q lst \<and> list_update_ok (set xs) h h'"
proof (cases xs rule: rev_cases)
  case Nil
  with seg rest e show ?thesis by (simp add: unlink_prev_def)
next
  case (snoc bs b)
  have b: "m = b" "b \<noteq> 0" "h b \<noteq> None"
    using dlseg_last [OF seg [unfolded snoc]] dlseg_nonzero [OF seg, of b] snoc by simp_all
  then obtain h' where h': "set_next h b (le_next e) = Some h'" using set_links_exist(1) by blast
  have "dlseg h' (l_next l) 0 xs (le_next e) b"
    using dlseg_set_next [OF seg [unfolded snoc] _ h'] dist snoc by simp
  moreover have "list_update_ok (set xs) h h'" using set_next_ok [OF h'] snoc by simp
  moreover from this have "dlseg h' (le_next e) a ys q lst = dlseg h (le_next e) a ys q lst"
    using dist by (intro dlseg_frame) (auto simp: list_update_ok_def)
  moreover have "unlink_prev h l e = Some (h', l)" using h' b e by (simp add: unlink_prev_def)
  ultimately show ?thesis using rest b by simp
qed

lemma unlink_next_ok:
  assumes seg: "dlseg h (l_next l) 0 xs (le_next e) (le_prev e)" and rest: "dlseg h (le_next e) a ys 0 (l_last l)"
    and dist: "distinct (xs @ ys)"
  shows "\<exists>h' l'. unlink_next h l e = Some (h', l') \<and> dlist h' l' (xs @ ys) \<and> list_update_ok (set ys) h h'"
proof (cases ys)
  case Nil
  with seg rest dist show ?thesis by (simp add: unlink_next_def dlist_def)
next
  case (Cons c cs)
  then have c: "le_next e = c" "c \<noteq> 0" "h c \<noteq> None" using rest by (auto split: option.splits)
  then obtain h' where h': "set_prev h c (le_prev e) = Some h'" using set_links_exist(2) by blast
  have "dlseg h' c (le_prev e) ys 0 (l_last l)"
    using dlseg_set_prev [OF rest [unfolded Cons] _ h'] dist Cons by simp
  moreover have "dlseg h' (l_next l) 0 xs c (le_prev e) = dlseg h (l_next l) 0 xs c (le_prev e)"
    using set_prev_ok [OF h', of "{c}"] dist Cons by (intro dlseg_frame) (auto simp: list_update_ok_def)
  ultimately have "dlist h' l (xs @ ys)" using seg c dist by (auto simp: dlist_def dlseg_append)
  moreover have "list_update_ok (set ys) h h'" using set_prev_ok [OF h'] Cons by simp
  moreover have "unlink_next h l e = Some (h', l)" using h' c by (simp add: unlink_next_def)
  ultimately show ?thesis by blast
qed

lemma exclude_ok:
  assumes l: "dlist h l (xs @ a # ys)"
  shows "\<exists>h' l'. mdv_list_exclude h l a = Some (h', l') \<and> dlist h' l' (xs @ ys)
           \<and> list_update_ok (set (xs @ ys)) h h'"
proof -
  have dist: "distinct (xs @ a # ys)" using l by (simp add: dlist_def)
  obtain m e where seg: "dlseg h (l_next l) 0 xs a m" and e: "h a = Some e" "le_prev e = m"
    and rest: "dlseg h (le_next e) a ys 0 (l_last l)"
    using l by (auto simp: dlist_def dlseg_append split: option.splits)
  obtain h1 l1 where 1: "unlink_prev h l e = Some (h1, l1)" "l_last l1 = l_last l"
    "dlseg h1 (l_next l1) 0 xs (le_next e) (le_prev e)" "dlseg h1 (le_next e) a ys 0 (l_last l1)" "list_update_ok (set xs) h h1"
    using unlink_prev_ok [OF seg rest dist e] unfolding e(2) [symmetric] by metis
  obtain h2 l2 where 2: "unlink_next h1 l1 e = Some (h2, l2)" "dlist h2 l2 (xs @ ys)" "list_update_ok (set ys) h1 h2"
    using unlink_next_ok [OF 1(3,4)] dist by (metis distinct_append distinct.simps(2) disjoint_insert(1) list.simps(15))
  have "list_update_ok (set (xs @ ys)) h h2" using 1(5) 2(3) by (simp add: list_update_ok_def)
  with e 1 2 show ?thesis by (auto simp: mdv_list_exclude_def)
qed

lemma push_back_ok:
  assumes l: "dlist h l as" and cell: "cell \<noteq> 0" "h cell = None"
  shows "\<exists>h' l'. mdv_list_push_back_data cell h l v = Some (h', l', cell) \<and> dlist h' l' (as @ [cell])
           \<and> list_values h' (as @ [cell]) = list_values h as @ [v] \<and> (\<forall>x. x \<notin> set (as @ [cell]) \<longrightarrow> h' x = h x)"
proof -
  let ?h = "h(cell \<mapsto> \<lparr>le_next = 0, le_prev = 0, le_data = v\<rparr>)"
  have fresh: "cell \<notin> set as" and alive: "\<forall>a \<in> set as. h a \<noteq> None"
    using l cell dlseg_nonzero by (fastforce simp: dlist_def)+
  have "dlist ?h l as" using l fresh by (simp add: dlist_def)
  from emplace_back_ok [OF this cell(1) _ fresh] obtain h' l' where
    e: "mdv_list_emplace_back ?h l cell = Some (h', l')" "dlist h' l' (as @ [cell])" "list_update_ok (set (as @ [cell])) ?h h'"
    by auto
  have "list_values h' (as @ [cell]) = list_values ?h (as @ [cell])"
    using list_values_update [OF e(3), of "as @ [cell]"] alive by simp
  also have "\<dots> = list_values h as @ [v]" using fresh by (auto simp: list_values_def)
  finally show ?thesis using e cell by (simp add: mdv_list_push_back_data_def list_update_ok_def)
qed

lemma remove_ok:
  assumes l: "dlist h l (xs @ a # ys)"
  shows "\<exists>h' l'. mdv_list_remove h l a = Some (h', l') \<and> dlist h' l' (xs @ ys)
           \<and> list_values h' (xs @ ys) = list_values h (xs @ ys) \<and> h' a = None
           \<and> (\<forall>x. x \<notin> set (xs @ a # ys) \<longrightarrow> h' x = h x)"
proof -
  from exclude_ok [OF l] obtain h1 l' where
    e: "mdv_list_exclude h l a = Some (h1, l')" "dlist h1 l' (xs @ ys)" "list_update_ok (set (xs @ ys)) h h1"
    by blast
  let ?h = "h1(a := None)"
  have a: "a \<notin> set (xs @ ys)" and alive: "\<forall>x \<in> set (xs @ ys). h x \<noteq> None"
    using l dlseg_nonzero by (fastforce simp: dlist_def)+
  have "dlist ?h l' (xs @ ys)" using e(2) a by (simp add: dlist_def)
  moreover have "list_values ?h (xs @ ys) = list_values h1 (xs @ ys)" using a by (simp add: list_values_def)
  moreover have "list_values h1 (xs @ ys) = list_values h (xs @ ys)" by (rule list_values_update [OF e(3) alive])
  ultimately show ?thesis using e by (simp add: mdv_list_remove_def list_update_ok_def)
qed

lemma free_from_ok:
  "dlseg h p prev as 0 lst \<Longrightarrow> distinct as \<Longrightarrow> list_free_from h p = Some (\<lambda>x. if x \<in> set as then None else h x)"
proof (induction as arbitrary: h p prev)
  case Nil
  then show ?case by (simp add: list_free_from.simps)
next
  case (Cons a as)
  then obtain e where e: "p = a" "a \<noteq> 0" "h a = Some e" "dlseg h (le_next e) a as 0 lst"
    by (auto split: option.splits)
  have "dlseg (h(a := None)) (le_next e) a as 0 lst" using e(4) Cons.prems(2) by simp
  then have "list_free_from (h(a := None)) (le_next e) = Some (\<lambda>x. if x \<in> set as then None else (h(a := None)) x)"
    by (rule Cons.IH) (use Cons.prems(2) in simp)
  moreover have "(\<lambda>x. if x \<in> set as then None else (h(a := None)) x) = (\<lambda>x. if x \<in> set (a # as) then None else h x)"
    by auto
  ultimately have "list_free_from (h(a := None)) (le_next e) = Some (\<lambda>x. if x \<in> set (a # as) then None else h x)"
    by (simp only:)
  with e show ?case by (subst list_free_from.simps) simp
qed

section \<open>Properties\<close>


text \<open>A list of two entries at addresses 8 and 24.\<close>

definition list_example :: "nat list_heap" where
  "list_example = [8 \<mapsto> \<lparr>le_next = 24, le_prev = 0, le_data = 1\<rparr>, 24 \<mapsto> \<lparr>le_next = 0, le_prev = 8, le_data = 2\<rparr>]"


end
