(* ===== verification/Mdv_Hashmap.thy ===== *)
theory Mdv_Hashmap
  imports Mdv_List "HOL-Library.Multiset"
begin

text \<open>
  The hash map of src/mdv_platform/generic/mdv_hashmap.c. An item is the byte string the client stores,
  and its key is the part of it at \<open>key_offset\<close>. A bucket is the sequence of its items: it is a
  list of \<open>Mdv_List\<close>, whose operations are proved there to do to the heap what the operations on
  sequences used here do. The hash and comparison functions are the client's.

  The contract is the locale \<open>keyed_map\<close>: lookups, insertions and deletions behave as on a finite map from
  keys to items. The interpretation \<open>hm\<close> discharges it for the code.
\<close>

section \<open>The code\<close>

record mdv_hashmap =
  hm_rc :: u32
  hm_capacity :: nat
  hm_size :: nat
  hm_key_offset :: nat
  hm_key_size :: nat
  hm_buckets :: "bytes list list"
  hm_hash_fn :: "bytes \<Rightarrow> u64"
  hm_key_cmp_fn :: "bytes \<Rightarrow> bytes \<Rightarrow> int"

definition hm_key :: "mdv_hashmap \<Rightarrow> bytes \<Rightarrow> bytes" where
  "hm_key hm item = slice (hm_key_offset hm) (hm_key_size hm) item"

text \<open>The bucket of a key; a map of capacity 0 has none.\<close>

definition hm_index :: "mdv_hashmap \<Rightarrow> bytes \<Rightarrow> nat" where
  "hm_index hm k = unat (hm_hash_fn hm k) mod hm_capacity hm"

text \<open>The allocations of the map and of its buckets. The factor \<open>5 / 4\<close> is an integer division.\<close>

definition mdv_hashmap_create ::
  "bool \<Rightarrow> bool \<Rightarrow> nat \<Rightarrow> nat \<Rightarrow> nat \<Rightarrow> (bytes \<Rightarrow> u64) \<Rightarrow> (bytes \<Rightarrow> bytes \<Rightarrow> int) \<Rightarrow> mdv_hashmap option" where
  "mdv_hashmap_create alloc0 alloc1 capacity0 key_offset key_size hash_fn key_cmp_fn =
     (if \<not> alloc0 then None
      else
        let capacity = capacity0 * (5 div 4);
            hm = \<lparr>hm_rc = 1, hm_capacity = capacity, hm_size = 0, hm_key_offset = key_offset,
                  hm_key_size = key_size, hm_buckets = [], hm_hash_fn = hash_fn, hm_key_cmp_fn = key_cmp_fn\<rparr>
        in if capacity \<noteq> 0 then
             (if \<not> alloc1 then None else Some (hm\<lparr>hm_buckets := replicate capacity []\<rparr>))
           else Some hm)"

definition mdv_hashmap_clear :: "mdv_hashmap \<Rightarrow> mdv_hashmap" where
  "mdv_hashmap_clear hm =
     (if hm_size hm \<noteq> 0
      then hm\<lparr>hm_buckets := replicate (hm_capacity hm) [] @ drop (hm_capacity hm) (hm_buckets hm)\<rparr>
      else hm)"

definition mdv_hashmap_retain :: "mdv_hashmap \<Rightarrow> mdv_hashmap" where
  "mdv_hashmap_retain hm = hm\<lparr>hm_rc := hm_rc hm + 1\<rparr>"

definition mdv_hashmap_release :: "mdv_hashmap option \<Rightarrow> mdv_hashmap option \<times> u32" where
  "mdv_hashmap_release m =
     (case m of None \<Rightarrow> (None, 0)
      | Some hm \<Rightarrow> let rc = hm_rc hm - 1 in (if rc = 0 then None else Some (hm\<lparr>hm_rc := rc\<rparr>), rc))"

definition mdv_hashmap_size :: "mdv_hashmap \<Rightarrow> nat" where
  "mdv_hashmap_size hm = hm_size hm"

text \<open>The body of the loops of \<open>mdv_hashmap_resize\<close>: an entry moves to the back of its new bucket.\<close>

definition rehash_entry :: "mdv_hashmap \<Rightarrow> nat \<Rightarrow> bytes \<Rightarrow> bytes list list \<Rightarrow> bytes list list" where
  "rehash_entry hm capacity entry bs =
     (let bucket_idx = unat (hm_hash_fn hm (hm_key hm entry)) mod capacity
      in bs[bucket_idx := bs ! bucket_idx @ [entry]])"

definition mdv_hashmap_resize :: "bool \<Rightarrow> mdv_hashmap \<Rightarrow> nat \<Rightarrow> mdv_hashmap \<times> bool" where
  "mdv_hashmap_resize alloc hm capacity =
     (if capacity > hm_size hm then
        (if alloc then
           (hm\<lparr>hm_buckets := fold (\<lambda>bucket bs. fold (rehash_entry hm capacity) bucket bs)
                              (take (hm_capacity hm) (hm_buckets hm)) (replicate capacity []),
              hm_capacity := capacity\<rparr>, True)
         else (hm, False))
      else (hm, False))"

text \<open>The search loop of insert and erase: the bucket without the first entry that has the key.\<close>

fun bucket_remove :: "(bytes \<Rightarrow> bool) \<Rightarrow> bytes list \<Rightarrow> bytes list option" where
  "bucket_remove found [] = None"
| "bucket_remove found (entry # bucket) =
     (if found entry then Some bucket
      else map_option (\<lambda>b. entry # b) (bucket_remove found bucket))"

definition hm_set_bucket :: "mdv_hashmap \<Rightarrow> nat \<Rightarrow> bytes list \<Rightarrow> nat \<Rightarrow> mdv_hashmap" where
  "hm_set_bucket hm i b n = hm\<lparr>hm_buckets := (hm_buckets hm)[i := b], hm_size := n\<rparr>"

text \<open>The loop of \<open>mdv_hashmap_insert\<close> that removes the old value of the key.\<close>

definition hm_without :: "mdv_hashmap \<Rightarrow> bytes \<Rightarrow> mdv_hashmap" where
  "hm_without hm key =
     (case bucket_remove (\<lambda>entry. hm_key_cmp_fn hm key (hm_key hm entry) = 0) (hm_buckets hm ! hm_index hm key) of
        Some b \<Rightarrow> hm_set_bucket hm (hm_index hm key) b (hm_size hm - 1)
      | None \<Rightarrow> hm)"

definition mdv_hashmap_insert :: "bool \<Rightarrow> bool \<Rightarrow> mdv_hashmap \<Rightarrow> bytes \<Rightarrow> (mdv_hashmap \<times> bytes option) option" where
  "mdv_hashmap_insert alloc_buckets alloc_entry hm item =
     (if length item < hm_key_offset hm + hm_key_size hm then Some (hm, None)
      else
        case (if hm_size hm > hm_capacity hm * 3 div 4
              then mdv_hashmap_resize alloc_buckets hm (hm_capacity hm * 2) else (hm, True)) of
          (hm1, False) \<Rightarrow> Some (hm1, None)
        | (hm1, True) \<Rightarrow>
            if hm_capacity hm1 = 0 then None
            else
              let key = hm_key hm1 item;
                  bucket_idx = hm_index hm1 key;
                  hm2 = hm_without hm1 key
              in if alloc_entry
                 then Some (hm_set_bucket hm2 bucket_idx (hm_buckets hm2 ! bucket_idx @ [item]) (hm_size hm2 + 1), Some item)
                 else Some (hm2, None))"

definition mdv_hashmap_find :: "mdv_hashmap \<Rightarrow> bytes \<Rightarrow> bytes option" where
  "mdv_hashmap_find hm key =
     (if hm_capacity hm = 0 then None
      else List.find (\<lambda>entry. hm_key_cmp_fn hm key (hm_key hm entry) = 0) (hm_buckets hm ! hm_index hm key))"

definition mdv_hashmap_erase :: "mdv_hashmap \<Rightarrow> bytes \<Rightarrow> mdv_hashmap \<times> bool" where
  "mdv_hashmap_erase hm key =
     (if hm_capacity hm = 0 then (hm, False)
      else
        case bucket_remove (\<lambda>entry. hm_key_cmp_fn hm key (hm_key hm entry) = 0) (hm_buckets hm ! hm_index hm key) of
          Some b \<Rightarrow> (hm_set_bucket hm (hm_index hm key) b (hm_size hm - 1), True)
        | None \<Rightarrow> (hm, False))"

section \<open>The contract\<close>

text \<open>
  \<open>content m\<close> is the finite map the container stands for, \<open>keys m\<close> the keys it accepts. An insertion
  may fail for lack of memory; when it fails, other keys are not affected.
\<close>

datatype ('k, 'v) map_op = Insert 'v | Erase 'k | Find 'k

datatype 'v map_out = Inserted "'v option" | Erased bool | Found "'v option"

text \<open>A sequence of operations with its results, on a container and on a finite map.\<close>

fun map_run :: "('m \<Rightarrow> 'k \<Rightarrow> 'v option) \<Rightarrow> ('m \<Rightarrow> 'v \<Rightarrow> ('m \<times> 'v option) option) \<Rightarrow> ('m \<Rightarrow> 'k \<Rightarrow> 'm \<times> bool)
    \<Rightarrow> 'm \<Rightarrow> ('k, 'v) map_op list \<Rightarrow> ('m \<times> 'v map_out list) option" where
  "map_run lookup ins del m [] = Some (m, [])"
| "map_run lookup ins del m (Insert v # ops) =
     (case ins m v of None \<Rightarrow> None | Some (m', r) \<Rightarrow>
        map_option (\<lambda>(m'', out). (m'', Inserted r # out)) (map_run lookup ins del m' ops))"
| "map_run lookup ins del m (Erase k # ops) =
     (case del m k of (m', r) \<Rightarrow>
        map_option (\<lambda>(m'', out). (m'', Erased r # out)) (map_run lookup ins del m' ops))"
| "map_run lookup ins del m (Find k # ops) =
     map_option (\<lambda>(m', out). (m', Found (lookup m k) # out)) (map_run lookup ins del m ops)"

fun fmap_run :: "('v \<Rightarrow> 'k) \<Rightarrow> ('k \<Rightarrow> 'v option) \<Rightarrow> ('k, 'v) map_op list \<Rightarrow> ('k \<Rightarrow> 'v option) \<times> 'v map_out list" where
  "fmap_run key f [] = (f, [])"
| "fmap_run key f (Insert v # ops) =
     (case fmap_run key (f(key v \<mapsto> v)) ops of (f', out) \<Rightarrow> (f', Inserted (Some v) # out))"
| "fmap_run key f (Erase k # ops) =
     (case fmap_run key (f(k := None)) ops of (f', out) \<Rightarrow> (f', Erased (f k \<noteq> None) # out))"
| "fmap_run key f (Find k # ops) =
     (case fmap_run key f ops of (f', out) \<Rightarrow> (f', Found (f k) # out))"

fun map_op_ok :: "('k \<Rightarrow> bool) \<Rightarrow> ('v \<Rightarrow> bool) \<Rightarrow> ('k, 'v) map_op \<Rightarrow> bool" where
  "map_op_ok is_key is_item (Insert v) = is_item v"
| "map_op_ok is_key is_item (Erase k) = is_key k"
| "map_op_ok is_key is_item (Find k) = is_key k"

locale keyed_map =
  fixes invar :: "'m \<Rightarrow> bool"
    and content :: "'m \<Rightarrow> 'k \<Rightarrow> 'v option"
    and is_key :: "'m \<Rightarrow> 'k \<Rightarrow> bool"
    and is_item :: "'m \<Rightarrow> 'v \<Rightarrow> bool"
    and key :: "'m \<Rightarrow> 'v \<Rightarrow> 'k"
    and count :: "'m \<Rightarrow> nat"
    and lookup :: "'m \<Rightarrow> 'k \<Rightarrow> 'v option"
    and ins :: "'m \<Rightarrow> 'v \<Rightarrow> ('m \<times> 'v option) option"
    and del :: "'m \<Rightarrow> 'k \<Rightarrow> 'm \<times> bool"
  assumes lookup_content: "invar m \<Longrightarrow> is_key m k \<Longrightarrow> lookup m k = content m k"
    and key_of_item: "invar m \<Longrightarrow> is_item m v \<Longrightarrow> is_key m (key m v)"
    and finite_content: "invar m \<Longrightarrow> finite (dom (content m)) \<and> card (dom (content m)) = count m"
    and ins_content: "invar m \<Longrightarrow> is_item m v \<Longrightarrow>
      \<exists>m'. ins m v = Some (m', Some v) \<and> invar m' \<and> content m' = (content m)(key m v \<mapsto> v)
        \<and> is_key m' = is_key m \<and> is_item m' = is_item m \<and> key m' = key m"
    and del_content: "invar m \<Longrightarrow> is_key m k \<Longrightarrow>
      \<exists>m'. del m k = (m', content m k \<noteq> None) \<and> invar m' \<and> content m' = (content m)(k := None)
        \<and> is_key m' = is_key m \<and> is_item m' = is_item m \<and> key m' = key m"
begin

lemma run_refines:
  assumes "invar m" and "list_all (map_op_ok (is_key m) (is_item m)) ops"
  shows "\<exists>m' out. map_run lookup ins del m ops = Some (m', out) \<and> invar m'
           \<and> fmap_run (key m) (content m) ops = (content m', out)"
  using assms
proof (induction ops arbitrary: m)
  case Nil
  then show ?case by simp
next
  case (Cons op ops)
  show ?case
  proof (cases op)
    case (Insert v)
    then have "is_item m v" using Cons.prems by simp
    from ins_content [OF Cons.prems(1) this] obtain m1 where
      m1: "ins m v = Some (m1, Some v)" "invar m1" "content m1 = (content m)(key m v \<mapsto> v)"
        "is_key m1 = is_key m" "is_item m1 = is_item m" "key m1 = key m" by blast
    from Cons.IH [OF m1(2), unfolded m1(3-6)] Cons.prems(2) m1(1) Insert show ?thesis by (auto simp: fun_upd_def)
  next
    case (Erase k)
    then have "is_key m k" using Cons.prems by simp
    from del_content [OF Cons.prems(1) this] obtain m1 where
      m1: "del m k = (m1, content m k \<noteq> None)" "invar m1" "content m1 = (content m)(k := None)"
        "is_key m1 = is_key m" "is_item m1 = is_item m" "key m1 = key m" by blast
    from Cons.IH [OF m1(2), unfolded m1(3-6)] Cons.prems(2) m1(1) Erase show ?thesis by (auto simp: fun_upd_def)
  next
    case (Find k)
    with Cons.IH [OF Cons.prems(1)] Cons.prems lookup_content [OF Cons.prems(1)] show ?thesis by auto
  qed
qed

end

section \<open>Buckets\<close>

text \<open>The map from keys to items that a sequence of items stands for.\<close>

definition kmap :: "('i \<Rightarrow> 'k) \<Rightarrow> 'i list \<Rightarrow> 'k \<Rightarrow> 'i option" where
  "kmap kf xs = map_of (map (\<lambda>x. (kf x, x)) xs)"

lemma kmap_None: "k \<notin> kf ` set xs \<Longrightarrow> kmap kf xs k = None"
  by (auto simp: kmap_def map_of_eq_None_iff image_iff)

lemma kmap_append: "kmap kf (xs @ ys) = kmap kf ys ++ kmap kf xs"
  by (simp add: kmap_def)

lemma dom_kmap: "dom (kmap kf xs) = kf ` set xs"
  by (auto simp: kmap_def dom_map_of_conv_image_fst image_image)

lemma kmap_find: "kmap kf xs k = List.find (\<lambda>x. kf x = k) xs"
  by (induction xs) (auto simp: kmap_def)

lemma kmap_single [simp]: "kmap kf [x] = [kf x \<mapsto> x]"
  by (simp add: kmap_def)

lemma kmap_snoc: "kf x \<notin> kf ` set xs \<Longrightarrow> kmap kf (xs @ [x]) = (kmap kf xs)(kf x \<mapsto> x)"
  by (auto simp: kmap_append map_add_def fun_eq_iff kmap_None split: option.split)

lemma kmap_Some_iff: "distinct (map kf xs) \<Longrightarrow> kmap kf xs k = Some x \<longleftrightarrow> x \<in> set xs \<and> kf x = k"
  by (auto simp: kmap_def comp_def)

lemma kmap_mset:
  assumes "distinct (map kf xs)" and "mset xs = mset ys"
  shows "kmap kf xs = kmap kf ys"
proof
  fix k
  have "mset (map kf xs) = mset (map kf ys)" using assms(2) by simp
  then have "distinct (map kf ys)" using assms(1) mset_eq_imp_distinct_iff by blast
  with assms have "kmap kf xs k = Some x \<longleftrightarrow> kmap kf ys k = Some x" for x
    by (auto simp: kmap_Some_iff dest: mset_eq_setD)
  then show "kmap kf xs k = kmap kf ys k" by (metis not_Some_eq)
qed

lemma bucket_remove_None: "bucket_remove P xs = None \<longleftrightarrow> (\<forall>x \<in> set xs. \<not> P x)"
  by (induction xs) auto

lemma bucket_remove_Some: "bucket_remove P xs = Some ys \<Longrightarrow> \<exists>as x bs. xs = as @ x # bs \<and> ys = as @ bs \<and> P x"
proof (induction xs arbitrary: ys)
  case Nil
  then show ?case by simp
next
  case (Cons a xs)
  show ?case
  proof (cases "P a")
    case True
    with Cons.prems have "a # xs = [] @ a # xs \<and> ys = [] @ xs \<and> P a" by simp
    then show ?thesis by blast
  next
    case False
    with Cons.prems obtain zs where "bucket_remove P xs = Some zs" "ys = a # zs" by auto
    with Cons.IH obtain as x bs where "xs = as @ x # bs" "zs = as @ bs" "P x" by blast
    with \<open>ys = a # zs\<close> have "a # xs = (a # as) @ x # bs \<and> ys = (a # as) @ bs \<and> P x" by simp
    then show ?thesis by blast
  qed
qed

lemma mset_concat_update:
  "i < length bs \<Longrightarrow> mset (concat (bs[i := b])) + mset (bs ! i) = mset (concat bs) + mset b"
  by (induction bs arbitrary: i) (auto simp: nth_Cons ac_simps split: nat.splits)

lemma kmap_concat:
  assumes "i < length bs" and "\<And>j. j < length bs \<Longrightarrow> j \<noteq> i \<Longrightarrow> k \<notin> kf ` set (bs ! j)"
  shows "kmap kf (concat bs) k = kmap kf (bs ! i) k"
  using assms
proof (induction bs arbitrary: i)
  case Nil
  then show ?case by simp
next
  case (Cons b bs)
  show ?case
  proof (cases i)
    case 0
    have "k \<notin> kf ` set c" if "c \<in> set bs" for c
    proof -
      from that obtain j where "j < length bs" "c = bs ! j" by (metis in_set_conv_nth)
      with Cons.prems(2) [of "Suc j"] 0 show ?thesis by simp
    qed
    then have "kmap kf (concat bs) k = None" by (intro kmap_None) auto
    with 0 show ?thesis by (simp add: kmap_append map_add_def split: option.split)
  next
    case (Suc n)
    have "kmap kf (concat bs) k = kmap kf (bs ! n) k"
      using Cons.prems(1) Cons.prems(2) [of "Suc _"] Suc by (intro Cons.IH) auto
    moreover have "kmap kf b k = None" using Cons.prems(2) [of 0] Suc by (intro kmap_None) auto
    ultimately show ?thesis using Suc by (simp add: kmap_append map_add_def)
  qed
qed

section \<open>The invariant\<close>

text \<open>What the client promises of its comparison: on keys of the map's key size it decides equality.\<close>

definition hm_client_ok :: "mdv_hashmap \<Rightarrow> bool" where
  "hm_client_ok hm \<longleftrightarrow> (\<forall>a b. length a = hm_key_size hm \<longrightarrow> length b = hm_key_size hm \<longrightarrow>
     (hm_key_cmp_fn hm a b = 0 \<longleftrightarrow> a = b))"

definition hm_item_ok :: "mdv_hashmap \<Rightarrow> bytes \<Rightarrow> bool" where
  "hm_item_ok hm x \<longleftrightarrow> hm_key_offset hm + hm_key_size hm \<le> length x"

text \<open>
  Every item lies in the bucket of its key, no two items have the same key, and the counter is the
  number of items, which never exceeds the number of buckets.
\<close>

definition hm_placed :: "mdv_hashmap \<Rightarrow> bool" where
  "hm_placed hm \<longleftrightarrow> (\<forall>i < hm_capacity hm. \<forall>x \<in> set (hm_buckets hm ! i). hm_item_ok hm x \<and> hm_index hm (hm_key hm x) = i)"

definition hm_inv :: "mdv_hashmap \<Rightarrow> bool" where
  "hm_inv hm \<longleftrightarrow> 0 < hm_capacity hm \<and> length (hm_buckets hm) = hm_capacity hm
     \<and> hm_size hm = length (concat (hm_buckets hm)) \<and> hm_size hm \<le> hm_capacity hm
     \<and> distinct (map (hm_key hm) (concat (hm_buckets hm))) \<and> hm_placed hm \<and> hm_client_ok hm"

definition hm_map :: "mdv_hashmap \<Rightarrow> bytes \<Rightarrow> bytes option" where
  "hm_map hm = kmap (hm_key hm) (concat (hm_buckets hm))"

text \<open>The parts of the map that no operation on its content changes.\<close>

definition hm_same_client :: "mdv_hashmap \<Rightarrow> mdv_hashmap \<Rightarrow> bool" where
  "hm_same_client hm hm' \<longleftrightarrow> hm_key_offset hm' = hm_key_offset hm \<and> hm_key_size hm' = hm_key_size hm
     \<and> hm_hash_fn hm' = hm_hash_fn hm \<and> hm_key_cmp_fn hm' = hm_key_cmp_fn hm"

lemma hm_same_client_simps:
  assumes "hm_same_client hm hm'"
  shows "hm_key hm' = hm_key hm" and "hm_item_ok hm' = hm_item_ok hm" and "hm_client_ok hm' = hm_client_ok hm"
    and "hm_key_size hm' = hm_key_size hm"
  using assms by (auto simp: hm_same_client_def hm_key_def hm_item_ok_def hm_client_ok_def fun_eq_iff)

lemma hm_key_length: "hm_item_ok hm x \<Longrightarrow> length (hm_key hm x) = hm_key_size hm"
  by (simp add: hm_item_ok_def hm_key_def length_slice)

lemma hm_index_less: "hm_inv hm \<Longrightarrow> hm_index hm k < hm_capacity hm"
  by (simp add: hm_inv_def hm_index_def)

lemma hm_bucket_key:
  assumes "hm_placed hm" and "i < hm_capacity hm" and "x \<in> set (hm_buckets hm ! i)"
  shows "length (hm_key hm x) = hm_key_size hm" and "hm_index hm (hm_key hm x) = i"
  using assms by (auto simp: hm_placed_def intro: hm_key_length)

lemma hm_found:
  assumes "hm_inv hm" and "i < hm_capacity hm" and "x \<in> set (hm_buckets hm ! i)" and "length k = hm_key_size hm"
  shows "hm_key_cmp_fn hm k (hm_key hm x) = 0 \<longleftrightarrow> hm_key hm x = k"
  using assms hm_bucket_key [of hm i x] by (auto simp: hm_inv_def hm_client_ok_def)

text \<open>Only the bucket of a key has to be searched.\<close>

lemma hm_map_bucket:
  assumes "hm_inv hm"
  shows "hm_map hm k = kmap (hm_key hm) (hm_buckets hm ! hm_index hm k) k"
  unfolding hm_map_def
proof (rule kmap_concat)
  show "hm_index hm k < length (hm_buckets hm)" using assms hm_index_less by (simp add: hm_inv_def)
  show "k \<notin> hm_key hm ` set (hm_buckets hm ! j)" if "j < length (hm_buckets hm)" "j \<noteq> hm_index hm k" for j
    using that assms hm_bucket_key(2) [of hm j] by (auto simp: hm_inv_def)
qed

lemma find_cong': "(\<And>x. x \<in> set xs \<Longrightarrow> P x = Q x) \<Longrightarrow> List.find P xs = List.find Q xs"
  by (induction xs) auto

lemma hm_find_ok:
  assumes "hm_inv hm" and "length k = hm_key_size hm"
  shows "mdv_hashmap_find hm k = hm_map hm k"
proof -
  have "List.find (\<lambda>x. hm_key_cmp_fn hm k (hm_key hm x) = 0) (hm_buckets hm ! hm_index hm k)
      = List.find (\<lambda>x. hm_key hm x = k) (hm_buckets hm ! hm_index hm k)"
    using hm_found [OF assms(1) hm_index_less [OF assms(1)] _ assms(2)] by (intro find_cong') auto
  with assms(1) show ?thesis
    unfolding hm_map_bucket [OF assms(1)] kmap_find
    by (simp add: mdv_hashmap_find_def hm_inv_def)
qed

lemma hm_content_size:
  assumes "hm_inv hm"
  shows "finite (dom (hm_map hm)) \<and> card (dom (hm_map hm)) = hm_size hm"
proof -
  have "dom (hm_map hm) = set (map (hm_key hm) (concat (hm_buckets hm)))" by (simp add: hm_map_def dom_kmap)
  moreover have "card (set (map (hm_key hm) (concat (hm_buckets hm)))) = length (concat (hm_buckets hm))"
    using assms distinct_card [of "map (hm_key hm) (concat (hm_buckets hm))"] by (simp add: hm_inv_def)
  ultimately show ?thesis using assms by (simp add: hm_inv_def)
qed

section \<open>The operations\<close>

lemma kmap_Cons: "kmap kf (x # xs) = (kmap kf xs)(kf x \<mapsto> x)"
  by (simp add: kmap_def)

lemma kmap_drop:
  assumes "distinct (map kf xs)" and "mset xs = mset (x # ys)"
  shows "distinct (map kf ys)" and "kmap kf ys = (kmap kf xs)(kf x := None)"
proof -
  have "mset (map kf xs) = mset (map kf (x # ys))" using assms(2) by simp
  then have d: "distinct (map kf (x # ys))" using assms(1) mset_eq_imp_distinct_iff by blast
  then show "distinct (map kf ys)" by simp
  have "kmap kf xs = kmap kf (x # ys)" by (rule kmap_mset [OF assms])
  moreover have "kmap kf ys (kf x) = None" using d by (intro kmap_None) auto
  ultimately show "kmap kf ys = (kmap kf xs)(kf x := None)" by (auto simp: kmap_Cons)
qed

lemma kmap_push:
  assumes "distinct (map kf xs)" and "kf x \<notin> kf ` set xs" and "mset ys = mset (x # xs)"
  shows "distinct (map kf ys)" and "kmap kf ys = (kmap kf xs)(kf x \<mapsto> x)"
proof -
  have d: "distinct (map kf (x # xs))" using assms(1,2) by auto
  moreover have "mset (map kf (x # xs)) = mset (map kf ys)" using assms(3) by simp
  ultimately show "distinct (map kf ys)" using mset_eq_imp_distinct_iff by blast
  show "kmap kf ys = (kmap kf xs)(kf x \<mapsto> x)"
    using kmap_mset [OF d assms(3) [symmetric]] by (simp add: kmap_Cons)
qed

lemma hm_set_bucket_simps [simp]:
  "hm_buckets (hm_set_bucket hm i b n) = (hm_buckets hm)[i := b]" "hm_size (hm_set_bucket hm i b n) = n"
  "hm_capacity (hm_set_bucket hm i b n) = hm_capacity hm" "hm_same_client hm (hm_set_bucket hm i b n)"
  "hm_index (hm_set_bucket hm i b n) = hm_index hm"
  by (auto simp: hm_set_bucket_def hm_same_client_def hm_index_def fun_eq_iff)

lemmas hm_set_bucket_client [simp] = hm_same_client_simps [OF hm_set_bucket_simps(4)]

lemma hm_placed_set_bucket:
  assumes "hm_placed hm" and "length (hm_buckets hm) = hm_capacity hm" and "i < hm_capacity hm"
    and "\<And>x. x \<in> set b \<Longrightarrow> hm_item_ok hm x \<and> hm_index hm (hm_key hm x) = i"
  shows "hm_placed (hm_set_bucket hm i b n)"
  using assms by (auto simp: hm_placed_def nth_list_update)

lemma hm_drop_ok:
  assumes inv: "hm_inv hm" and i: "i < hm_capacity hm" and b: "hm_buckets hm ! i = as @ x # bs"
  shows "hm_inv (hm_set_bucket hm i (as @ bs) (hm_size hm - 1))"
    and "hm_map (hm_set_bucket hm i (as @ bs) (hm_size hm - 1)) = (hm_map hm)(hm_key hm x := None)"
    and "0 < hm_size hm"
proof -
  let ?new = "(hm_buckets hm)[i := as @ bs]"
  have len: "length (hm_buckets hm) = hm_capacity hm" and placed: "hm_placed hm" using inv by (auto simp: hm_inv_def)
  have m: "mset (concat (hm_buckets hm)) = mset (x # concat ?new)"
    using mset_concat_update [of i "hm_buckets hm" "as @ bs"] i len b by simp
  have sz: "hm_size hm = Suc (length (concat ?new))"
    using inv arg_cong [OF m, of size] by (simp add: hm_inv_def)
  have d: "distinct (map (hm_key hm) (concat (hm_buckets hm)))" using inv by (simp add: hm_inv_def)
  have le: "hm_size hm \<le> hm_capacity hm" using inv by (simp add: hm_inv_def)
  note k = kmap_drop [OF d m]
  show "0 < hm_size hm" using sz by simp
  show "hm_map (hm_set_bucket hm i (as @ bs) (hm_size hm - 1)) = (hm_map hm)(hm_key hm x := None)"
    using k(2) by (simp add: hm_map_def)
  have "hm_placed (hm_set_bucket hm i (as @ bs) (hm_size hm - 1))"
    by (rule hm_placed_set_bucket [OF placed len i]) (use placed i b in \<open>auto simp: hm_placed_def\<close>)
  moreover have "hm_size hm - 1 = length (concat ?new)" "hm_size hm - 1 \<le> hm_capacity hm"
    using sz le by simp_all
  ultimately show "hm_inv (hm_set_bucket hm i (as @ bs) (hm_size hm - 1))"
    using inv len k(1) unfolding hm_inv_def by simp
qed

lemma hm_push_ok:
  assumes inv: "hm_inv hm" and item: "hm_item_ok hm x" and new: "hm_map hm (hm_key hm x) = None"
    and room: "hm_size hm < hm_capacity hm"
  defines "i \<equiv> hm_index hm (hm_key hm x)"
  shows "hm_inv (hm_set_bucket hm i (hm_buckets hm ! i @ [x]) (hm_size hm + 1))"
    and "hm_map (hm_set_bucket hm i (hm_buckets hm ! i @ [x]) (hm_size hm + 1)) = (hm_map hm)(hm_key hm x \<mapsto> x)"
proof -
  let ?b = "hm_buckets hm ! i @ [x]"
  have i: "i < hm_capacity hm" using hm_index_less [OF inv] by (simp add: i_def)
  have len: "length (hm_buckets hm) = hm_capacity hm" and placed: "hm_placed hm" using inv by (auto simp: hm_inv_def)
  have m: "mset (concat ((hm_buckets hm)[i := ?b])) = mset (x # concat (hm_buckets hm))"
    using mset_concat_update [of i "hm_buckets hm" ?b] i len by simp
  have d: "distinct (map (hm_key hm) (concat (hm_buckets hm)))" using inv by (simp add: hm_inv_def)
  have "hm_key hm x \<notin> dom (hm_map hm)" using new by auto
  then have "hm_key hm x \<notin> hm_key hm ` set (concat (hm_buckets hm))" by (simp add: hm_map_def dom_kmap)
  note k = kmap_push [OF d this m]
  show "hm_map (hm_set_bucket hm i ?b (hm_size hm + 1)) = (hm_map hm)(hm_key hm x \<mapsto> x)"
    using k(2) by (simp add: hm_map_def)
  have "hm_placed (hm_set_bucket hm i ?b (hm_size hm + 1))"
    by (rule hm_placed_set_bucket [OF placed len i]) (use placed i item in \<open>auto simp: hm_placed_def i_def\<close>)
  moreover have "length (concat ((hm_buckets hm)[i := ?b])) = hm_size hm + 1"
    using inv arg_cong [OF m, of size] by (simp add: hm_inv_def)
  ultimately show "hm_inv (hm_set_bucket hm i ?b (hm_size hm + 1))"
    using inv len room k(1) by (simp add: hm_inv_def)
qed

lemma hm_search:
  assumes inv: "hm_inv hm" and k: "length k = hm_key_size hm"
  defines "r \<equiv> bucket_remove (\<lambda>x. hm_key_cmp_fn hm k (hm_key hm x) = 0) (hm_buckets hm ! hm_index hm k)"
  shows "r = None \<Longrightarrow> hm_map hm k = None"
    and "r = Some b \<Longrightarrow> \<exists>as x bs. hm_buckets hm ! hm_index hm k = as @ x # bs \<and> b = as @ bs \<and> hm_key hm x = k"
proof -
  note found = hm_found [OF inv hm_index_less [OF inv] _ k]
  show "hm_map hm k = None" if "r = None"
    using that found unfolding hm_map_bucket [OF inv] by (intro kmap_None) (auto simp: r_def bucket_remove_None)
  show "\<exists>as x bs. hm_buckets hm ! hm_index hm k = as @ x # bs \<and> b = as @ bs \<and> hm_key hm x = k" if "r = Some b"
  proof -
    from bucket_remove_Some [OF that [unfolded r_def]] obtain as x bs where
      "hm_buckets hm ! hm_index hm k = as @ x # bs" "b = as @ bs" "hm_key_cmp_fn hm k (hm_key hm x) = 0" by blast
    with found [of x k] show ?thesis by (metis in_set_conv_decomp)
  qed
qed

lemma hm_erase_ok:
  assumes inv: "hm_inv hm" and k: "length k = hm_key_size hm"
  shows "\<exists>hm'. mdv_hashmap_erase hm k = (hm', hm_map hm k \<noteq> None) \<and> hm_inv hm'
           \<and> hm_map hm' = (hm_map hm)(k := None) \<and> hm_same_client hm hm'"
proof (cases "bucket_remove (\<lambda>x. hm_key_cmp_fn hm k (hm_key hm x) = 0) (hm_buckets hm ! hm_index hm k)")
  case None
  with hm_search(1) [OF inv k] have "hm_map hm k = None" by simp
  moreover have "mdv_hashmap_erase hm k = (hm, False)" using None by (simp add: mdv_hashmap_erase_def)
  ultimately show ?thesis using inv by (auto simp: hm_same_client_def)
next
  case (Some b)
  from hm_search(2) [OF inv k Some] obtain as x bs where
    x: "hm_buckets hm ! hm_index hm k = as @ x # bs" "b = as @ bs" "hm_key hm x = k" by blast
  note d = hm_drop_ok [OF inv hm_index_less [OF inv] x(1)]
  have "hm_buckets hm ! hm_index hm k \<in> set (hm_buckets hm)"
    using hm_index_less [OF inv, of k] inv by (simp add: hm_inv_def)
  with x(1) have "x \<in> set (concat (hm_buckets hm))" by (metis UN_I in_set_conv_decomp set_concat)
  then have "k \<in> dom (hm_map hm)" using x(3) by (auto simp: hm_map_def dom_kmap)
  moreover have "mdv_hashmap_erase hm k = (hm_set_bucket hm (hm_index hm k) (as @ bs) (hm_size hm - 1), True)"
    using Some x(2) inv by (simp add: mdv_hashmap_erase_def hm_inv_def)
  ultimately show ?thesis using d x(3) by (auto simp: domIff)
qed

text \<open>Rehashing: bucket \<open>j\<close> receives the items whose key belongs there, in the old order.\<close>

lemma fold_fold_concat: "fold (\<lambda>b s. fold f b s) bss s = fold f (concat bss) s"
  by (induction bss arbitrary: s) simp_all

lemma fold_rehash:
  assumes "0 < c" and "length bs = c"
  shows "length (fold (rehash_entry hm c) xs bs) = c \<and>
    (\<forall>j < c. fold (rehash_entry hm c) xs bs ! j = bs ! j @ filter (\<lambda>x. unat (hm_hash_fn hm (hm_key hm x)) mod c = j) xs)"
  using assms(2)
proof (induction xs arbitrary: bs)
  case Nil
  then show ?case by simp
next
  case (Cons x xs)
  have "length (rehash_entry hm c x bs) = c" using Cons.prems by (simp add: rehash_entry_def Let_def)
  from Cons.IH [OF this] Cons.prems assms(1) show ?case by (auto simp: rehash_entry_def Let_def nth_list_update)
qed

lemma mset_buckets:
  assumes "\<And>x. x \<in> set xs \<Longrightarrow> f x < c"
  shows "mset (concat (map (\<lambda>j. filter (\<lambda>x. f x = j) xs) [0..<c])) = mset xs"
  using assms
proof (induction xs)
  case Nil
  then show ?case by (simp add: concat_eq_Nil_conv [THEN iffD2])
next
  case (Cons x xs)
  let ?old = "map (\<lambda>j. filter (\<lambda>y. f y = j) xs) [0..<c]"
  have fx: "f x < c" using Cons.prems by simp
  have "map (\<lambda>j. filter (\<lambda>y. f y = j) (x # xs)) [0..<c] = ?old[f x := x # ?old ! f x]"
    using fx by (intro nth_equalityI) (auto simp: nth_list_update)
  moreover have "mset (concat (?old[f x := x # ?old ! f x])) = add_mset x (mset (concat ?old))"
    using mset_concat_update [of "f x" ?old "x # ?old ! f x"] fx by simp
  ultimately show ?case using Cons by (simp del: upt_Suc)
qed

lemma hm_resize_ok:
  assumes inv: "hm_inv hm" and c: "hm_size hm < c"
  shows "\<exists>hm'. mdv_hashmap_resize True hm c = (hm', True) \<and> hm_inv hm' \<and> hm_map hm' = hm_map hm
           \<and> hm_same_client hm hm' \<and> hm_size hm' = hm_size hm \<and> hm_capacity hm' = c"
proof -
  let ?f = "\<lambda>x. unat (hm_hash_fn hm (hm_key hm x)) mod c"
  let ?bs = "fold (rehash_entry hm c) (concat (hm_buckets hm)) (replicate c [])"
  let ?hm = "hm\<lparr>hm_buckets := ?bs, hm_capacity := c\<rparr>"
  have c0: "0 < c" using c by simp
  have len: "length (hm_buckets hm) = hm_capacity hm" and placed: "hm_placed hm" using inv by (auto simp: hm_inv_def)
  have "?bs = map (\<lambda>j. filter (\<lambda>x. ?f x = j) (concat (hm_buckets hm))) [0..<c]"
    using fold_rehash [OF c0, of "replicate c []" hm "concat (hm_buckets hm)"] by (intro nth_equalityI) auto
  then have m: "mset (concat ?bs) = mset (concat (hm_buckets hm))"
    using mset_buckets [of "concat (hm_buckets hm)" ?f c] c0 by simp
  have d: "distinct (map (hm_key hm) (concat (hm_buckets hm)))" using inv by (simp add: hm_inv_def)
  have same: "hm_same_client hm ?hm" by (simp add: hm_same_client_def)
  note client = hm_same_client_simps [OF same]
  have "mset (map (hm_key hm) (concat ?bs)) = mset (map (hm_key hm) (concat (hm_buckets hm)))" using m by simp
  then have "distinct (map (hm_key hm) (concat ?bs))" using d mset_eq_imp_distinct_iff by blast
  moreover have "hm_item_ok hm x" if "x \<in> set (concat (hm_buckets hm))" for x
    using that placed len by (auto simp: hm_placed_def in_set_conv_nth [of _ "hm_buckets hm"])
  then have "hm_placed ?hm"
    using fold_rehash [OF c0, of "replicate c []" hm "concat (hm_buckets hm)"]
    by (auto simp: hm_placed_def client hm_index_def)
  moreover have "length (concat ?bs) = hm_size hm" using inv arg_cong [OF m, of size] by (simp add: hm_inv_def)
  ultimately have "hm_inv ?hm"
    using inv c c0 fold_rehash [OF c0, of "replicate c []" hm "concat (hm_buckets hm)"]
    by (simp add: hm_inv_def client)
  moreover have "hm_map ?hm = hm_map hm" using kmap_mset [OF d m [symmetric]] by (simp add: hm_map_def client)
  moreover have "mdv_hashmap_resize True hm c = (?hm, True)"
    using c len by (simp add: mdv_hashmap_resize_def fold_fold_concat)
  ultimately show ?thesis using same by auto
qed

lemma hm_same_client_trans: "hm_same_client a b \<Longrightarrow> hm_same_client b c \<Longrightarrow> hm_same_client a c"
  by (simp add: hm_same_client_def)

text \<open>After the load factor check there is a free place.\<close>

lemma hm_grow_ok:
  assumes inv: "hm_inv hm"
  shows "\<exists>hm1. (if hm_size hm > hm_capacity hm * 3 div 4 then mdv_hashmap_resize True hm (hm_capacity hm * 2) else (hm, True))
             = (hm1, True) \<and> hm_inv hm1 \<and> hm_map hm1 = hm_map hm \<and> hm_same_client hm hm1 \<and> hm_size hm1 < hm_capacity hm1"
proof (cases "hm_size hm > hm_capacity hm * 3 div 4")
  case True
  have "hm_size hm < hm_capacity hm * 2" using inv by (auto simp: hm_inv_def)
  with hm_resize_ok [OF inv this] True show ?thesis by fastforce
next
  case False
  moreover have "hm_size hm < hm_capacity hm" using inv False unfolding hm_inv_def by linarith
  ultimately show ?thesis using inv by (auto simp: hm_same_client_def)
qed

lemma hm_without_ok:
  assumes inv: "hm_inv hm" and k: "length k = hm_key_size hm"
  shows "hm_inv (hm_without hm k)" and "hm_map (hm_without hm k) = (hm_map hm)(k := None)"
    and "hm_same_client hm (hm_without hm k)" and "hm_index (hm_without hm k) = hm_index hm"
    and "hm_size (hm_without hm k) \<le> hm_size hm" and "hm_capacity (hm_without hm k) = hm_capacity hm"
proof -
  consider "hm_without hm k = hm" "hm_map hm k = None"
    | as x bs where "hm_buckets hm ! hm_index hm k = as @ x # bs" "hm_key hm x = k"
        "hm_without hm k = hm_set_bucket hm (hm_index hm k) (as @ bs) (hm_size hm - 1)"
  proof (cases "bucket_remove (\<lambda>x. hm_key_cmp_fn hm k (hm_key hm x) = 0) (hm_buckets hm ! hm_index hm k)")
    case None
    with hm_search(1) [OF inv k] that(1) show ?thesis by (simp add: hm_without_def)
  next
    case (Some b)
    with hm_search(2) [OF inv k Some] that(2) show ?thesis by (auto simp: hm_without_def)
  qed
  then have "hm_inv (hm_without hm k) \<and> hm_map (hm_without hm k) = (hm_map hm)(k := None)
    \<and> hm_same_client hm (hm_without hm k) \<and> hm_index (hm_without hm k) = hm_index hm
    \<and> hm_size (hm_without hm k) \<le> hm_size hm \<and> hm_capacity (hm_without hm k) = hm_capacity hm"
  proof cases
    case 1
    with inv show ?thesis by (auto simp: hm_same_client_def)
  next
    case 2
    with hm_drop_ok [OF inv hm_index_less [OF inv] 2(1)] show ?thesis by simp
  qed
  then show "hm_inv (hm_without hm k)" and "hm_map (hm_without hm k) = (hm_map hm)(k := None)"
    and "hm_same_client hm (hm_without hm k)" and "hm_index (hm_without hm k) = hm_index hm"
    and "hm_size (hm_without hm k) \<le> hm_size hm" and "hm_capacity (hm_without hm k) = hm_capacity hm" by blast+
qed

lemma hm_insert_eq:
  assumes "hm_item_ok hm item" and "0 < hm_capacity hm1"
    and grow: "(if hm_size hm > hm_capacity hm * 3 div 4 then mdv_hashmap_resize ab hm (hm_capacity hm * 2) else (hm, True)) = (hm1, True)"
  defines "hm2 \<equiv> hm_without hm1 (hm_key hm1 item)" and "i \<equiv> hm_index hm1 (hm_key hm1 item)"
  shows "mdv_hashmap_insert ab ae hm item =
    (if ae then Some (hm_set_bucket hm2 i (hm_buckets hm2 ! i @ [item]) (hm_size hm2 + 1), Some item) else Some (hm2, None))"
  using assms(1,2) unfolding mdv_hashmap_insert_def grow hm2_def i_def by (simp add: hm_item_ok_def Let_def)

lemma hm_insert_ok:
  assumes inv: "hm_inv hm" and item: "hm_item_ok hm item"
  shows "\<exists>hm'. mdv_hashmap_insert True True hm item = Some (hm', Some item) \<and> hm_inv hm'
           \<and> hm_map hm' = (hm_map hm)(hm_key hm item \<mapsto> item) \<and> hm_same_client hm hm'"
proof -
  let ?k = "hm_key hm item"
  from hm_grow_ok [OF inv] obtain hm1 where
    g: "(if hm_size hm > hm_capacity hm * 3 div 4 then mdv_hashmap_resize True hm (hm_capacity hm * 2) else (hm, True)) = (hm1, True)"
    and 1: "hm_inv hm1" "hm_map hm1 = hm_map hm" "hm_same_client hm hm1" "hm_size hm1 < hm_capacity hm1" by blast
  note c1 = hm_same_client_simps [OF 1(3)]
  have k: "length ?k = hm_key_size hm1" using hm_key_length [OF item] c1 by simp
  note 2 = hm_without_ok [OF 1(1) k]
  note c2 = hm_same_client_simps [OF 2(3)]
  let ?h2 = "hm_without hm1 ?k"
  have "hm_item_ok ?h2 item" "hm_map ?h2 (hm_key ?h2 item) = None" "hm_size ?h2 < hm_capacity ?h2"
    using item 1 2 c1 c2 by simp_all
  note p = hm_push_ok [OF 2(1) this]
  have "0 < hm_capacity hm1" using 1(1) by (simp add: hm_inv_def)
  from hm_insert_eq [OF item this g, of True] p c1 c2 1(2) 2(2,4)
    hm_same_client_trans [OF 1(3) hm_same_client_trans [OF 2(3) hm_set_bucket_simps(4)]]
  show ?thesis by simp
qed

interpretation hm: keyed_map hm_inv hm_map "\<lambda>hm k. length k = hm_key_size hm" hm_item_ok hm_key hm_size
    mdv_hashmap_find "mdv_hashmap_insert True True" mdv_hashmap_erase
proof (unfold_locales, goal_cases)
  case (1 m k)
  then show ?case by (rule hm_find_ok)
next
  case (2 m v)
  then show ?case by (simp add: hm_key_length)
next
  case (3 m)
  then show ?case by (rule hm_content_size)
next
  case (4 m v)
  from hm_insert_ok [OF 4] obtain hm' where
    h: "mdv_hashmap_insert True True m v = Some (hm', Some v)" "hm_inv hm'"
      "hm_map hm' = (hm_map m)(hm_key m v \<mapsto> v)" "hm_same_client m hm'" by blast
  show ?case
    by (intro exI [of _ hm'] conjI h(1-3)) (simp_all add: hm_same_client_simps [OF h(4)])
next
  case (5 m k)
  from hm_erase_ok [OF 5] obtain hm' where
    h: "mdv_hashmap_erase m k = (hm', hm_map m k \<noteq> None)" "hm_inv hm'"
      "hm_map hm' = (hm_map m)(k := None)" "hm_same_client m hm'" by blast
  show ?case
    by (intro exI [of _ hm'] conjI h(1-3)) (simp_all add: hm_same_client_simps [OF h(4)])
qed

section \<open>Properties\<close>

lemma hm_create_inv:
  assumes "mdv_hashmap_create True True c off ks hf cf = Some hm" and "0 < c"
    and "\<And>a b. length a = ks \<Longrightarrow> length b = ks \<Longrightarrow> (cf a b = 0) = (a = b)"
  shows "hm_inv hm \<and> hm_map hm = Map.empty"
  using assms
  by (auto simp: mdv_hashmap_create_def Let_def hm_inv_def hm_placed_def hm_client_ok_def hm_map_def kmap_def)

text \<open>
  C6. The hash map is a map. A map created with a capacity, and a client comparison that decides equality of
  keys, runs every sequence of insertions, deletions and lookups, through any number of
  rehashes, without a bad access, and answers each of them as a finite map does; the counter is
  the number of keys.
\<close>

theorem hashmap_refines_map:
  assumes "mdv_hashmap_create True True c off ks hf cf = Some hm" and "0 < c"
    and "\<And>a b. length a = ks \<Longrightarrow> length b = ks \<Longrightarrow> (cf a b = 0) = (a = b)"
    and "list_all (map_op_ok (\<lambda>k. length k = ks) (\<lambda>x. off + ks \<le> length x)) ops"
  shows "\<exists>hm' out. map_run mdv_hashmap_find (mdv_hashmap_insert True True) mdv_hashmap_erase hm ops = Some (hm', out)
           \<and> fmap_run (slice off ks) Map.empty ops = (hm_map hm', out)
           \<and> card (dom (hm_map hm')) = mdv_hashmap_size hm'"
proof -
  have fields: "hm_key_size hm = ks \<and> hm_key_offset hm = off"
    using assms(1,2) by (auto simp: mdv_hashmap_create_def Let_def)
  then have client: "hm_key hm = slice off ks" "hm_item_ok hm = (\<lambda>x. off + ks \<le> length x)"
    by (auto simp: hm_key_def hm_item_ok_def fun_eq_iff)
  note start = hm_create_inv [OF assms(1-3)]
  have "list_all (map_op_ok (\<lambda>k. length k = hm_key_size hm) (hm_item_ok hm)) ops"
    using assms(4) by (simp add: client fields)
  from hm.run_refines [OF conjunct1 [OF start] this] obtain hm' out where
    r: "map_run mdv_hashmap_find (mdv_hashmap_insert True True) mdv_hashmap_erase hm ops = Some (hm', out)"
    "hm_inv hm'" "fmap_run (hm_key hm) (hm_map hm) ops = (hm_map hm', out)" by blast
  have "fmap_run (slice off ks) Map.empty ops = (hm_map hm', out)"
    using r(3) client(1) conjunct2 [OF start] by metis
  with r(1) hm_content_size [OF r(2)] show ?thesis unfolding mdv_hashmap_size_def by blast
qed

text \<open>A map of one bucket, keys of one byte; the third insertion rehashes and the last replaces a value.\<close>

theorem hashmap_refines_map_witness:
  "\<exists>hm hm'. mdv_hashmap_create True True 1 0 1 (\<lambda>k. ucast (hd k)) memcmp = Some hm
     \<and> map_run mdv_hashmap_find (mdv_hashmap_insert True True) mdv_hashmap_erase hm
         [Insert [1,10], Insert [2,20], Insert [5,50], Erase [2], Insert [1,11], Find [1], Find [2]]
       = Some (hm', [Inserted (Some [1,10]), Inserted (Some [2,20]), Inserted (Some [5,50]), Erased True,
                     Inserted (Some [1,11]), Found (Some [1,11]), Found None])"
proof -
  let ?ops = "[Insert [1,10], Insert [2,20], Insert [5,50], Erase [2], Insert [1,11], Find [1], Find [2 :: u8]]"
  obtain hm where hm: "mdv_hashmap_create True True 1 0 1 (\<lambda>k. ucast (hd k)) memcmp = Some hm"
    by (simp add: mdv_hashmap_create_def Let_def)
  have "list_all (map_op_ok (\<lambda>k. length k = 1) (\<lambda>x. 0 + 1 \<le> length x)) ?ops" by simp
  moreover have "snd (fmap_run (slice 0 1) Map.empty ?ops) =
    [Inserted (Some [1,10]), Inserted (Some [2,20]), Inserted (Some [5,50]), Erased True,
     Inserted (Some [1,11]), Found (Some [1,11]), Found None]"
    by (simp add: slice_def)
  moreover obtain hm' out where
    "map_run mdv_hashmap_find (mdv_hashmap_insert True True) mdv_hashmap_erase hm ?ops = Some (hm', out)"
    "fmap_run (slice 0 1) Map.empty ?ops = (hm_map hm', out)"
    using hashmap_refines_map [OF hm zero_less_one, of ?ops] memcmp_eq_0 calculation(1) by auto
  ultimately show ?thesis using hm by (metis snd_conv)
qed

text \<open>
  An insertion that replaces a value is not safe against lack of memory: when the entry cannot
  be allocated, \<open>mdv_hashmap_insert\<close> reports failure, and the value the key had is gone. All other keys keep
  theirs.
\<close>

theorem hashmap_insert_no_memory:
  assumes "hm_inv hm" and "hm_item_ok hm item"
  shows "\<exists>hm'. mdv_hashmap_insert True False hm item = Some (hm', None) \<and> hm_inv hm'
           \<and> hm_map hm' = (hm_map hm)(hm_key hm item := None)"
proof -
  from hm_grow_ok [OF assms(1)] obtain hm1 where
    g: "(if hm_size hm > hm_capacity hm * 3 div 4 then mdv_hashmap_resize True hm (hm_capacity hm * 2) else (hm, True)) = (hm1, True)"
    and 1: "hm_inv hm1" "hm_map hm1 = hm_map hm" "hm_same_client hm hm1" by blast
  note c1 = hm_same_client_simps [OF 1(3)]
  have "length (hm_key hm item) = hm_key_size hm1" using hm_key_length [OF assms(2)] c1 by simp
  note 2 = hm_without_ok [OF 1(1) this]
  have "0 < hm_capacity hm1" using 1(1) by (simp add: hm_inv_def)
  from hm_insert_eq [OF assms(2) this g, of False] 1(2) 2(1,2) c1 show ?thesis by simp
qed

definition hashmap_example :: mdv_hashmap where
  "hashmap_example = \<lparr>hm_rc = 1, hm_capacity = 2, hm_size = 1, hm_key_offset = 0, hm_key_size = 1,
     hm_buckets = [[], [[1,10]]], hm_hash_fn = (\<lambda>k. ucast (hd k)), hm_key_cmp_fn = memcmp\<rparr>"

theorem hashmap_insert_no_memory_witness:
  "\<exists>hm'. mdv_hashmap_insert True False hashmap_example [1,11] = Some (hm', None)
      \<and> hm_map hashmap_example [1] = Some [1,10] \<and> hm_map hm' [1] = None"
proof -
  have "hm_client_ok hashmap_example"
    unfolding hm_client_ok_def hashmap_example_def by (simp add: memcmp_eq_0)
  then have "hm_inv hashmap_example"
    by (simp add: hm_inv_def hashmap_example_def hm_placed_def hm_item_ok_def hm_index_def hm_key_def slice_def less_2_cases_iff)
  moreover have "hm_item_ok hashmap_example [1,11]" "hm_key hashmap_example [1,11] = [1]"
    "hm_map hashmap_example [1] = Some [1,10]"
    by (simp_all add: hm_item_ok_def hm_key_def hm_map_def kmap_def hashmap_example_def slice_def)
  ultimately show ?thesis using hashmap_insert_no_memory [of hashmap_example "[1,11]"] by auto
qed

text \<open>
  \<open>mdv_hashmap_clear\<close> removes every item and keeps the old counter: after it no key is found,
  and \<open>mdv_hashmap_size\<close> still returns the number of items the map had.
\<close>

theorem hashmap_clear_keeps_size:
  assumes "hm_inv hm"
  shows "hm_map (mdv_hashmap_clear hm) = Map.empty \<and> mdv_hashmap_size (mdv_hashmap_clear hm) = card (dom (hm_map hm))"
proof -
  have "concat (hm_buckets (mdv_hashmap_clear hm)) = []"
    using assms by (simp add: mdv_hashmap_clear_def hm_inv_def)
  moreover have "hm_size (mdv_hashmap_clear hm) = hm_size hm" by (simp add: mdv_hashmap_clear_def)
  ultimately show ?thesis using hm_content_size [OF assms] by (simp add: hm_map_def kmap_def mdv_hashmap_size_def)
qed

theorem hashmap_clear_keeps_size_witness:
  "hm_map (mdv_hashmap_clear hashmap_example) [1] = None \<and> mdv_hashmap_size (mdv_hashmap_clear hashmap_example) = 1"
proof -
  have "hm_client_ok hashmap_example"
    unfolding hm_client_ok_def hashmap_example_def by (simp add: memcmp_eq_0)
  then have "hm_inv hashmap_example"
    by (simp add: hm_inv_def hashmap_example_def hm_placed_def hm_item_ok_def hm_index_def hm_key_def slice_def less_2_cases_iff)
  moreover have "dom (hm_map hashmap_example) = {[1]}"
    by (simp add: hm_map_def kmap_def hashmap_example_def hm_key_def slice_def)
  ultimately show ?thesis using hashmap_clear_keeps_size [of hashmap_example] by simp
qed

end
