(* ===== verification/Mdv_Lrucache.thy ===== *)
theory Mdv_Lrucache
  imports Mdv_Hashmap
begin

text \<open>
  The cache of src/mdv_platform/mdv_lrucache.c. It is built from the linked list of \<open>Mdv_List\<close>, which keeps the items in
  the order of their last use, and from the hash map of \<open>Mdv_Hashmap\<close>, whose items are the bytes
  of \<open>mdv_lrumap_entry\<close>: the key and the address of the list entry. The proofs use the lemmas on the list's
  operations and the contract of the hash map (the interpretation \<open>hm\<close>) and nothing of their code.

  The cache refines a plain list of (key, data) pairs in the order of use, the specification
  \<open>lru_put\<close> and \<open>lru_get\<close>.
\<close>

section \<open>The code\<close>

type_synonym mdv_lruitem = "u32 \<times> u64"

record mdv_lrucache =
  lru_rc :: u32
  lru_capacity :: nat
  lru_keys :: mdv_hashmap
  lru_values :: mdv_list
  lru_heap :: "mdv_lruitem list_heap"

text \<open>\<open>mdv_lrumap_entry\<close> in memory: four bytes of key, four of padding, the pointer.\<close>

definition lrumap_entry :: "u32 \<Rightarrow> addr \<Rightarrow> bytes" where
  "lrumap_entry key entry = le_bytes 4 (unat key) @ [0,0,0,0] @ le_bytes 8 entry"

definition lrumap_entry_ptr :: "bytes \<Rightarrow> addr" where
  "lrumap_entry_ptr item = le_val (slice 8 8 item)"

definition mdv_lrukey_hash :: "bytes \<Rightarrow> u64" where
  "mdv_lrukey_hash key = word_of_nat (le_val key)"

definition mdv_lrukey_cmp :: "bytes \<Rightarrow> bytes \<Rightarrow> int" where
  "mdv_lrukey_cmp a b = (if le_val a > le_val b then 1 else if le_val a < le_val b then -1 else 0)"

definition mdv_lrucache_create :: "bool \<Rightarrow> bool \<Rightarrow> bool \<Rightarrow> nat \<Rightarrow> mdv_lrucache option" where
  "mdv_lrucache_create alloc0 alloc1 alloc2 capacity =
     (if \<not> alloc0 then None
      else case mdv_hashmap_create alloc1 alloc2 capacity 0 4 mdv_lrukey_hash mdv_lrukey_cmp of
        None \<Rightarrow> None
      | Some keys \<Rightarrow> Some \<lparr>lru_rc = 1, lru_capacity = capacity, lru_keys = keys,
                          lru_values = \<lparr>l_next = 0, l_last = 0\<rparr>, lru_heap = Map.empty\<rparr>)"

definition mdv_lrucache_retain :: "mdv_lrucache \<Rightarrow> mdv_lrucache" where
  "mdv_lrucache_retain cache = cache\<lparr>lru_rc := lru_rc cache + 1\<rparr>"

text \<open>When the counter reaches zero the keys and the entries are freed.\<close>

definition mdv_lrucache_release :: "mdv_lrucache option \<Rightarrow> (mdv_lrucache option \<times> u32) option" where
  "mdv_lrucache_release c =
     (case c of None \<Rightarrow> Some (None, 0)
      | Some cache \<Rightarrow>
          let rc = lru_rc cache - 1 in
          if rc = 0 then
            case mdv_list_clear (lru_heap cache) (lru_values cache) of None \<Rightarrow> None | Some _ \<Rightarrow> Some (None, rc)
          else Some (Some (cache\<lparr>lru_rc := rc\<rparr>), rc))"

text \<open>\<open>mdv_list_exclude\<close> and \<open>mdv_list_emplace_back\<close> on the same entry.\<close>

definition lru_touch :: "mdv_lruitem list_heap \<Rightarrow> mdv_list \<Rightarrow> addr \<Rightarrow> (mdv_lruitem list_heap \<times> mdv_list) option" where
  "lru_touch h l entry =
     (case mdv_list_exclude h l entry of None \<Rightarrow> None | Some (h', l') \<Rightarrow> mdv_list_emplace_back h' l' entry)"

definition write_data :: "'a list_heap \<Rightarrow> addr \<Rightarrow> 'a \<Rightarrow> 'a list_heap" where
  "write_data h a d = (case h a of None \<Rightarrow> h | Some e \<Rightarrow> h(a \<mapsto> e\<lparr>le_data := d\<rparr>))"

text \<open>A write through the pointer to an item that \<open>mdv_hashmap_insert\<close> returned.\<close>

definition hm_write :: "mdv_hashmap \<Rightarrow> bytes \<Rightarrow> bytes \<Rightarrow> mdv_hashmap" where
  "hm_write hm item item' = hm\<lparr>hm_buckets := map (map (\<lambda>x. if x = item then item' else x)) (hm_buckets hm)\<rparr>"

text \<open>
  \<open>cell\<close> is the address \<open>mdv_alloc\<close> returns for a list entry, \<open>ab\<close> and \<open>ae\<close> are the allocations in the hash map. The
  results are the cache, the returned flag and \<open>*old\<close>.
\<close>

definition mdv_lrucache_put ::
  "addr \<Rightarrow> bool \<Rightarrow> bool \<Rightarrow> mdv_lrucache \<Rightarrow> mdv_lruitem \<Rightarrow> (mdv_lrucache \<times> bool \<times> mdv_lruitem) option" where
  "mdv_lrucache_put cell ab ae cache new_item =
     (let null_item = (0, 0); key = fst new_item; data = snd new_item; kb = le_bytes 4 (unat key) in
      case mdv_hashmap_find (lru_keys cache) kb of
        Some item \<Rightarrow>
          let entry = lrumap_entry_ptr item in
          (case lru_touch (lru_heap cache) (lru_values cache) entry of None \<Rightarrow> None | Some (h, l) \<Rightarrow>
           case h entry of None \<Rightarrow> None | Some e \<Rightarrow>
           if snd (le_data e) \<noteq> data
           then Some (cache\<lparr>lru_heap := write_data h entry (fst (le_data e), data), lru_values := l\<rparr>,
                      True, (key, snd (le_data e)))
           else Some (cache\<lparr>lru_heap := h, lru_values := l\<rparr>, True, null_item))
      | None \<Rightarrow>
          if mdv_hashmap_size (lru_keys cache) < lru_capacity cache then
            if cell = 0 then Some (cache, False, null_item)
            else
              let h = (lru_heap cache)(cell \<mapsto> \<lparr>le_next = 0, le_prev = 0, le_data = (key, data)\<rparr>) in
              (case mdv_hashmap_insert ab ae (lru_keys cache) (lrumap_entry key cell) of None \<Rightarrow> None
               | Some (keys, None) \<Rightarrow> Some (cache\<lparr>lru_keys := keys\<rparr>, False, null_item)
               | Some (keys, Some _) \<Rightarrow>
                   (case mdv_list_emplace_back h (lru_values cache) cell of None \<Rightarrow> None | Some (h', l') \<Rightarrow>
                      Some (cache\<lparr>lru_keys := keys, lru_heap := h', lru_values := l'\<rparr>, True, null_item)))
          else
            (case mdv_hashmap_insert ab ae (lru_keys cache) (lrumap_entry key 0) of None \<Rightarrow> None
             | Some (keys, None) \<Rightarrow> Some (cache\<lparr>lru_keys := keys\<rparr>, False, null_item)
             | Some (keys, Some item) \<Rightarrow>
                 let entry = l_next (lru_values cache) in
                 (case lru_heap cache entry of None \<Rightarrow> None | Some e \<Rightarrow>
                  let old = le_data e;
                      h = write_data (lru_heap cache) entry (key, data);
                      keys' = hm_write keys item (lrumap_entry key entry)
                  in (case lru_touch h (lru_values cache) entry of None \<Rightarrow> None | Some (h', l') \<Rightarrow>
                        Some (cache\<lparr>lru_keys := fst (mdv_hashmap_erase keys' (le_bytes 4 (unat (fst old)))),
                                   lru_heap := h', lru_values := l'\<rparr>, True, old)))))"

definition mdv_lrucache_get :: "mdv_lrucache \<Rightarrow> u32 \<Rightarrow> (mdv_lrucache \<times> u64) option" where
  "mdv_lrucache_get cache key =
     (case mdv_hashmap_find (lru_keys cache) (le_bytes 4 (unat key)) of
        None \<Rightarrow> Some (cache, 0)
      | Some item \<Rightarrow>
          let entry = lrumap_entry_ptr item in
          (case lru_touch (lru_heap cache) (lru_values cache) entry of None \<Rightarrow> None | Some (h, l) \<Rightarrow>
           case h entry of None \<Rightarrow> None | Some e \<Rightarrow>
             Some (cache\<lparr>lru_heap := h, lru_values := l\<rparr>, snd (le_data e))))"

section \<open>The specification\<close>

text \<open>The items in the order of their last use, the least recently used first.\<close>

definition lru_put :: "nat \<Rightarrow> mdv_lruitem list \<Rightarrow> mdv_lruitem \<Rightarrow> mdv_lruitem list \<times> mdv_lruitem" where
  "lru_put n xs it =
     (case map_of xs (fst it) of
        Some d \<Rightarrow> (filter (\<lambda>x. fst x \<noteq> fst it) xs @ [it], if d \<noteq> snd it then (fst it, d) else (0, 0))
      | None \<Rightarrow> if length xs < n then (xs @ [it], (0, 0)) else (tl xs @ [it], hd xs))"

definition lru_get :: "mdv_lruitem list \<Rightarrow> u32 \<Rightarrow> mdv_lruitem list \<times> u64" where
  "lru_get xs k =
     (case map_of xs k of
        Some d \<Rightarrow> (filter (\<lambda>x. fst x \<noteq> k) xs @ [(k, d)], d)
      | None \<Rightarrow> (xs, 0))"

section \<open>The parts of the proof that belong to the list\<close>

definition entry_data :: "'a list_heap \<Rightarrow> addr \<Rightarrow> 'a" where
  "entry_data h a = le_data (the (h a))"

lemma list_values_data: "list_values h as = map (entry_data h) as"
  by (simp add: list_values_def entry_data_def)

lemma update_data:
  "list_update_ok A h h' \<Longrightarrow> h a \<noteq> None \<Longrightarrow> entry_data h' a = entry_data h a"
  using list_values_update [of A h h' "[a]"] by (simp add: list_values_data)

lemma dlist_alive: "dlist h l as \<Longrightarrow> a \<in> set as \<Longrightarrow> h a \<noteq> None \<and> a \<noteq> 0"
  using dlseg_nonzero by (fastforce simp: dlist_def)

lemma touch_ok:
  assumes l: "dlist h l (xs @ a # ys)"
  shows "\<exists>h' l'. lru_touch h l a = Some (h', l') \<and> dlist h' l' (xs @ ys @ [a]) \<and> h' a \<noteq> None
           \<and> (\<forall>b. h b \<noteq> None \<longrightarrow> entry_data h' b = entry_data h b) \<and> (\<forall>x. x \<notin> set (xs @ a # ys) \<longrightarrow> h' x = h x)"
proof -
  from exclude_ok [OF l] obtain h1 l1 where
    1: "mdv_list_exclude h l a = Some (h1, l1)" "dlist h1 l1 (xs @ ys)" "list_update_ok (set (xs @ ys)) h h1" by blast
  have a: "h a \<noteq> None" "a \<noteq> 0" "a \<notin> set (xs @ ys)" using l dlist_alive [OF l, of a] by (auto simp: dlist_def)
  then have "h1 a \<noteq> None" using update_keeps_dom [OF 1(3)] by simp
  from emplace_back_ok [OF 1(2) a(2) this a(3)] obtain h2 l2 where
    2: "mdv_list_emplace_back h1 l1 a = Some (h2, l2)" "dlist h2 l2 ((xs @ ys) @ [a])"
      "list_update_ok (set ((xs @ ys) @ [a])) h1 h2" by blast
  have "entry_data h2 b = entry_data h b" if "h b \<noteq> None" for b
    using update_data [OF 2(3), of b] update_data [OF 1(3) that] update_keeps_dom [OF 1(3) that] by simp
  moreover have "h2 x = h x" if "x \<notin> set (xs @ a # ys)" for x
    using that 1(3) 2(3) by (simp add: list_update_ok_def)
  moreover have "h2 a \<noteq> None" using update_keeps_dom [OF 2(3) \<open>h1 a \<noteq> None\<close>] .
  ultimately show ?thesis using 1(1) 2(1,2) by (simp add: lru_touch_def)
qed

lemma dlseg_write [simp]: "dlseg (write_data h a d) p prev as q lst = dlseg h p prev as q lst"
  by (induction as arbitrary: p prev) (auto simp: write_data_def split: option.splits)

lemma dlist_write [simp]: "dlist (write_data h a d) l as = dlist h l as"
  by (simp add: dlist_def)

lemma entry_data_write: "h b \<noteq> None \<Longrightarrow> entry_data (write_data h a d) b = (if b = a then d else entry_data h b)"
  by (auto simp: write_data_def entry_data_def split: option.splits)

lemma write_alive: "write_data h a d b \<noteq> None \<longleftrightarrow> h b \<noteq> None"
  by (auto simp: write_data_def split: option.splits)

section \<open>The parts that belong to the hash map\<close>

lemma le_bytes_unat_inj: "le_bytes 4 (unat (k :: u32)) = le_bytes 4 (unat k') \<longleftrightarrow> k = k'"
proof -
  have "unat k < 256 ^ 4" "unat k' < 256 ^ 4" using unsigned_less [of k] unsigned_less [of k'] by simp_all
  then show ?thesis by (metis le_val_le_bytes mod_less word_unat_eq_iff)
qed

lemma lrumap_entry_key: "slice 0 4 (lrumap_entry k a) = le_bytes 4 (unat k)"
  by (simp add: lrumap_entry_def slice_def)

lemma lrumap_entry_ptr: "a < 2 ^ 64 \<Longrightarrow> lrumap_entry_ptr (lrumap_entry k a) = a"
  by (simp add: lrumap_entry_ptr_def lrumap_entry_def slice_def codec_simps)

lemma length_lrumap_entry [simp]: "length (lrumap_entry k a) = 16"
  by (simp add: lrumap_entry_def)

lemma lrukey_cmp_ok: "length a = 4 \<Longrightarrow> length b = 4 \<Longrightarrow> mdv_lrukey_cmp a b = 0 \<longleftrightarrow> a = b"
  using le_bytes_inj [of a b] by (auto simp: mdv_lrukey_cmp_def)

lemma hm_write_simps [simp]:
  "hm_buckets (hm_write hm x y) = map (map (\<lambda>z. if z = x then y else z)) (hm_buckets hm)"
  "hm_capacity (hm_write hm x y) = hm_capacity hm" "hm_size (hm_write hm x y) = hm_size hm"
  "hm_index (hm_write hm x y) = hm_index hm"
  by (auto simp: hm_write_def hm_index_def fun_eq_iff)

lemma hm_write_ok:
  assumes inv: "hm_inv hm" and item: "hm_map hm (hm_key hm item) = Some item"
    and item': "hm_item_ok hm item'" "hm_key hm item' = hm_key hm item"
  shows "hm_inv (hm_write hm item item')" and "hm_map (hm_write hm item item') = (hm_map hm)(hm_key hm item \<mapsto> item')"
    and "hm_same_client hm (hm_write hm item item')"
proof -
  let ?f = "\<lambda>x. if x = item then item' else x" and ?bs = "hm_buckets hm"
  show same: "hm_same_client hm (hm_write hm item item')" by (simp add: hm_same_client_def hm_write_def)
  note client = hm_same_client_simps [OF same]
  have key: "hm_key hm (?f x) = hm_key hm x" for x using item' by auto
  have new: "concat (hm_buckets (hm_write hm item item')) = map ?f (concat ?bs)"
    by (simp add: map_concat)
  have d: "distinct (map (hm_key hm) (concat ?bs))" using inv by (simp add: hm_inv_def)
  have d': "distinct (map (hm_key hm) (map ?f (concat ?bs)))"
    using d by (simp add: comp_def key)
  have "hm_placed (hm_write hm item item')"
    using inv item' unfolding hm_inv_def hm_placed_def
    by (auto simp: client split: if_splits)
  then show "hm_inv (hm_write hm item item')"
    using inv d' new by (simp add: hm_inv_def client)
  have mem: "item \<in> set (concat ?bs)" using item kmap_Some_iff [OF d] by (simp add: hm_map_def)
  show "hm_map (hm_write hm item item') = (hm_map hm)(hm_key hm item \<mapsto> item')"
  proof
    fix k
    have "kmap (hm_key hm) (map ?f (concat ?bs)) k = Some x \<longleftrightarrow>
        ((kmap (hm_key hm) (concat ?bs))(hm_key hm item \<mapsto> item')) k = Some x" for x
      unfolding kmap_Some_iff [OF d'] fun_upd_apply
      using kmap_Some_iff [OF d] mem item' d by (auto simp: distinct_map inj_on_def)
    then show "hm_map (hm_write hm item item') k = ((hm_map hm)(hm_key hm item \<mapsto> item')) k"
      unfolding hm_map_def client(1) new by (rule option_eqI)
  qed
qed

section \<open>The cache refines the list of recent items\<close>

definition lru_entries :: "mdv_lruitem list_heap \<Rightarrow> addr list \<Rightarrow> bytes list" where
  "lru_entries h as = map (\<lambda>a. lrumap_entry (fst (entry_data h a)) a) as"

text \<open>
  The cache stands for the items \<open>xs\<close>, held by the list entries at \<open>as\<close>: the hash map leads from every
  key to the entry that holds it, and from no other key anywhere.
\<close>

definition lru_keys_ok :: "mdv_hashmap \<Rightarrow> bytes list \<Rightarrow> bool" where
  "lru_keys_ok hm es \<longleftrightarrow> hm_inv hm \<and> hm_key_size hm = 4 \<and> hm_key_offset hm = 0 \<and> hm_map hm = kmap (slice 0 4) es"

definition lru_rep :: "mdv_lrucache \<Rightarrow> addr list \<Rightarrow> mdv_lruitem list \<Rightarrow> bool" where
  "lru_rep c as xs \<longleftrightarrow> dlist (lru_heap c) (lru_values c) as \<and> xs = list_values (lru_heap c) as
     \<and> (\<forall>a \<in> set as. a < 2 ^ 64) \<and> distinct (map fst xs) \<and> 0 < lru_capacity c \<and> length xs \<le> lru_capacity c
     \<and> lru_keys_ok (lru_keys c) (lru_entries (lru_heap c) as)"

lemma lru_client:
  assumes "hm_key_size hm = 4" and "hm_key_offset hm = 0"
  shows "hm_key hm = slice 0 4" and "hm_item_ok hm (lrumap_entry k a)" and "hm_key hm (lrumap_entry k a) = le_bytes 4 (unat k)"
  using assms by (auto simp: hm_key_def hm_item_ok_def fun_eq_iff lrumap_entry_key)

lemma lru_entries_keys: "map (slice 0 4) (lru_entries h as) = map (\<lambda>x. le_bytes 4 (unat (fst x))) (list_values h as)"
  by (simp add: lru_entries_def list_values_data lrumap_entry_key)

lemma lru_entries_distinct:
  "distinct (map fst (list_values h as)) \<Longrightarrow> distinct (map (slice 0 4) (lru_entries h as))"
  unfolding lru_entries_keys by (auto simp: distinct_map inj_on_def le_bytes_unat_inj)

lemma lru_find_None:
  assumes "map_of xs k = None" and "xs = list_values h as" and "lru_keys_ok hm (lru_entries h as)"
  shows "mdv_hashmap_find hm (le_bytes 4 (unat k)) = None" and "hm_map hm (le_bytes 4 (unat k)) = None"
proof -
  have "le_bytes 4 (unat k) \<notin> slice 0 4 ` set (lru_entries h as)"
    using assms(1,2) unfolding set_map [symmetric] lru_entries_keys
    by (force simp: map_of_eq_None_iff le_bytes_unat_inj)
  then show "hm_map hm (le_bytes 4 (unat k)) = None" using assms(3) kmap_None by (auto simp: lru_keys_ok_def)
  then show "mdv_hashmap_find hm (le_bytes 4 (unat k)) = None"
    using assms(3) hm.lookup_content by (simp add: lru_keys_ok_def)
qed

lemma lru_find_Some:
  assumes "map_of xs k = Some d" and "xs = list_values h as" and "distinct (map fst xs)" and "lru_keys_ok hm (lru_entries h as)"
  shows "\<exists>as1 a as2. as = as1 @ a # as2 \<and> entry_data h a = (k, d) \<and> mdv_hashmap_find hm (le_bytes 4 (unat k)) = Some (lrumap_entry k a)"
proof -
  have "(k, d) \<in> set xs" using assms(1) by (rule map_of_SomeD)
  then obtain a where a: "a \<in> set as" "entry_data h a = (k, d)" using assms(2) by (auto simp: list_values_data)
  then obtain as1 as2 where "as = as1 @ a # as2" by (meson split_list)
  moreover have "lrumap_entry k a \<in> set (lru_entries h as)" using a by (force simp: lru_entries_def)
  then have "hm_map hm (le_bytes 4 (unat k)) = Some (lrumap_entry k a)"
    using assms(2-4) lru_entries_distinct [of h as] by (auto simp: lru_keys_ok_def kmap_Some_iff lrumap_entry_key)
  then have "mdv_hashmap_find hm (le_bytes 4 (unat k)) = Some (lrumap_entry k a)"
    using assms(4) hm.lookup_content by (simp add: lru_keys_ok_def)
  ultimately show ?thesis using a by blast
qed

lemma filter_other_keys:
  "distinct (map fst (xs @ (k, d) # ys)) \<Longrightarrow> filter (\<lambda>x. fst x \<noteq> k) (xs @ (k, d) # ys) = xs @ ys"
proof -
  assume "distinct (map fst (xs @ (k, d) # ys))"
  then have "\<forall>x \<in> set xs. fst x \<noteq> k" "\<forall>x \<in> set ys. fst x \<noteq> k" by (auto simp: image_iff)
  then show ?thesis by (simp add: filter_True)
qed

text \<open>Moving an entry to the end, with new data in it, is all that a hit does.\<close>

lemma lru_rep_move:
  assumes rep: "lru_rep c (as1 @ a # as2) xs" and a: "entry_data (lru_heap c) a = (k, d)"
    and l: "dlist h l (as1 @ as2 @ [a])"
    and data: "\<And>b. b \<in> set (as1 @ a # as2) \<Longrightarrow> entry_data h b = (if b = a then (k, d') else entry_data (lru_heap c) b)"
  shows "lru_rep (c\<lparr>lru_heap := h, lru_values := l\<rparr>) (as1 @ as2 @ [a]) (filter (\<lambda>x. fst x \<noteq> k) xs @ [(k, d')])"
proof -
  let ?h = "lru_heap c" and ?as = "as1 @ a # as2" and ?as' = "as1 @ as2 @ [a]"
  have dist: "a \<notin> set as1" "a \<notin> set as2" using rep by (auto simp: lru_rep_def dlist_def)
  have dk: "distinct (map fst xs)" using rep unfolding lru_rep_def by blast
  have xs: "xs = list_values ?h as1 @ (k, d) # list_values ?h as2"
    using rep a by (simp add: lru_rep_def list_values_data)
  have same: "list_values h as1 = list_values ?h as1" "list_values h as2 = list_values ?h as2"
    using data dist by (auto simp: list_values_data)
  have "entry_data h a = (k, d')" using data by simp
  then have vals: "list_values h ?as' = filter (\<lambda>x. fst x \<noteq> k) xs @ [(k, d')]"
    using same dk filter_other_keys [of "list_values ?h as1" k d "list_values ?h as2"]
    unfolding xs by (simp add: list_values_data)
  have keys: "fst (entry_data h b) = fst (entry_data ?h b)" if "b \<in> set ?as" for b
    using data [OF that] a by auto
  have es: "lru_entries h ?as' = map (\<lambda>b. lrumap_entry (fst (entry_data ?h b)) b) ?as'"
    using keys by (simp add: lru_entries_def)
  have m: "mset (lru_entries ?h ?as) = mset (lru_entries h ?as')" unfolding es by (simp add: lru_entries_def)
  have "kmap (slice 0 4) (lru_entries ?h ?as) = kmap (slice 0 4) (lru_entries h ?as')"
    using rep dk unfolding lru_rep_def by (intro kmap_mset [OF lru_entries_distinct m]) blast
  then have "lru_keys_ok (lru_keys c) (lru_entries h ?as')" using rep by (simp add: lru_rep_def lru_keys_ok_def)
  moreover have "length (filter (\<lambda>x. fst x \<noteq> k) xs @ [(k, d')]) = length xs"
    using vals arg_cong [OF vals, of length] xs by (simp add: list_values_data)
  moreover have "distinct (map fst (filter (\<lambda>x. fst x \<noteq> k) xs @ [(k, d')]))"
    using dk by (auto simp: distinct_map_filter)
  moreover have "0 < lru_capacity c" "length xs \<le> lru_capacity c" "\<forall>b \<in> set ?as'. b < 2 ^ 64"
    using rep by (auto simp: lru_rep_def)
  ultimately show ?thesis using l vals unfolding lru_rep_def by simp
qed

lemma lru_hit:
  assumes rep: "lru_rep c as xs" and hit: "map_of xs k = Some d"
  obtains a h l as1 as2 where "as = as1 @ a # as2" "mdv_hashmap_find (lru_keys c) (le_bytes 4 (unat k)) = Some (lrumap_entry k a)"
    "lrumap_entry_ptr (lrumap_entry k a) = a" "entry_data (lru_heap c) a = (k, d)"
    "lru_touch (lru_heap c) (lru_values c) a = Some (h, l)" "dlist h l (as1 @ as2 @ [a])" "h a \<noteq> None"
    "\<And>b. b \<in> set as \<Longrightarrow> entry_data h b = entry_data (lru_heap c) b" "\<And>x. x \<notin> set as \<Longrightarrow> h x = lru_heap c x"
proof -
  have r: "dlist (lru_heap c) (lru_values c) as" "xs = list_values (lru_heap c) as" "distinct (map fst xs)"
    "lru_keys_ok (lru_keys c) (lru_entries (lru_heap c) as)" "\<forall>a \<in> set as. a < 2 ^ 64"
    using rep by (auto simp: lru_rep_def)
  from lru_find_Some [OF hit r(2-4)] obtain as1 a as2 where
    f: "as = as1 @ a # as2" "entry_data (lru_heap c) a = (k, d)"
      "mdv_hashmap_find (lru_keys c) (le_bytes 4 (unat k)) = Some (lrumap_entry k a)" by blast
  from touch_ok [OF r(1) [unfolded f(1)]] obtain h l where
    t: "lru_touch (lru_heap c) (lru_values c) a = Some (h, l)" "dlist h l (as1 @ as2 @ [a])" "h a \<noteq> None"
      "\<forall>b. lru_heap c b \<noteq> None \<longrightarrow> entry_data h b = entry_data (lru_heap c) b"
      "\<forall>x. x \<notin> set (as1 @ a # as2) \<longrightarrow> h x = lru_heap c x" by blast
  show ?thesis
    using that [OF f(1,3) _ f(2) t(1,2,3)] r(5) f(1) t(4,5) dlist_alive [OF r(1)] lrumap_entry_ptr by auto
qed

lemma lru_get_refines:
  assumes rep: "lru_rep c as xs"
  shows "\<exists>c' as'. mdv_lrucache_get c k = Some (c', snd (lru_get xs k)) \<and> lru_rep c' as' (fst (lru_get xs k))
           \<and> set as' = set as \<and> (\<forall>x. x \<notin> set as \<longrightarrow> lru_heap c' x = lru_heap c x) \<and> lru_capacity c' = lru_capacity c"
proof (cases "map_of xs k")
  case None
  then have "mdv_hashmap_find (lru_keys c) (le_bytes 4 (unat k)) = None"
    using rep by (intro lru_find_None) (auto simp: lru_rep_def)
  with rep None show ?thesis by (auto simp: mdv_lrucache_get_def lru_get_def)
next
  case (Some d)
  from lru_hit [OF rep Some] obtain a h l as1 as2 where
    t: "as = as1 @ a # as2" "mdv_hashmap_find (lru_keys c) (le_bytes 4 (unat k)) = Some (lrumap_entry k a)"
      "lrumap_entry_ptr (lrumap_entry k a) = a" "entry_data (lru_heap c) a = (k, d)"
      "lru_touch (lru_heap c) (lru_values c) a = Some (h, l)" "dlist h l (as1 @ as2 @ [a])" "h a \<noteq> None"
      "\<And>b. b \<in> set as \<Longrightarrow> entry_data h b = entry_data (lru_heap c) b" "\<And>x. x \<notin> set as \<Longrightarrow> h x = lru_heap c x" by metis
  obtain e where e: "h a = Some e" using t(7) by blast
  have "entry_data h a = (k, d)" using t(8) t(1,4) by simp
  then have d: "snd (le_data e) = d" using e by (simp add: entry_data_def)
  have "lru_rep (c\<lparr>lru_heap := h, lru_values := l\<rparr>) (as1 @ as2 @ [a]) (filter (\<lambda>x. fst x \<noteq> k) xs @ [(k, d)])"
    using rep t(1,4,6,8) by (intro lru_rep_move) auto
  moreover have "mdv_lrucache_get c k = Some (c\<lparr>lru_heap := h, lru_values := l\<rparr>, d)"
    using t(2,3,5) e d by (simp add: mdv_lrucache_get_def)
  ultimately show ?thesis using Some t(1,9) by (auto simp: lru_get_def)
qed

text \<open>An address the allocator may return: not null, not in use, a pointer of 64 bits.\<close>

definition fresh_cell :: "mdv_lrucache \<Rightarrow> addr \<Rightarrow> bool" where
  "fresh_cell c cell \<longleftrightarrow> cell \<noteq> 0 \<and> cell < 2 ^ 64 \<and> lru_heap c cell = None"

lemma lru_keys_insert:
  assumes ok: "lru_keys_ok hm es" and new: "hm_map hm (le_bytes 4 (unat k)) = None"
  shows "\<exists>hm'. mdv_hashmap_insert True True hm (lrumap_entry k a) = Some (hm', Some (lrumap_entry k a))
           \<and> lru_keys_ok hm' (es @ [lrumap_entry k a])"
proof -
  have c: "hm_inv hm" "hm_key_size hm = 4" "hm_key_offset hm = 0" "hm_map hm = kmap (slice 0 4) es"
    using ok by (auto simp: lru_keys_ok_def)
  note client = lru_client [OF c(2,3)]
  from hm_insert_ok [OF c(1) client(2)] obtain hm' where
    h: "mdv_hashmap_insert True True hm (lrumap_entry k a) = Some (hm', Some (lrumap_entry k a))" "hm_inv hm'"
      "hm_map hm' = (hm_map hm)(hm_key hm (lrumap_entry k a) \<mapsto> lrumap_entry k a)" "hm_same_client hm hm'" by blast
  have "slice 0 4 (lrumap_entry k a) \<notin> slice 0 4 ` set es"
    using new unfolding c(4) lrumap_entry_key dom_kmap [symmetric] by (simp add: domIff)
  then have "hm_map hm' = kmap (slice 0 4) (es @ [lrumap_entry k a])"
    using h(3) unfolding client(1) c(4) by (simp add: kmap_snoc)
  with h c show ?thesis by (auto simp: lru_keys_ok_def hm_same_client_def)
qed

lemma list_values_snoc: "list_values h (as @ [a]) = list_values h as @ [entry_data h a]"
  by (simp add: list_values_data)

lemma lru_size_keys:
  assumes rep: "lru_rep c as xs"
  shows "mdv_hashmap_size (lru_keys c) = length xs"
proof -
  let ?ks = "map (slice 0 4) (lru_entries (lru_heap c) as)"
  have r: "lru_keys_ok (lru_keys c) (lru_entries (lru_heap c) as)" "xs = list_values (lru_heap c) as"
    using rep by (auto simp: lru_rep_def)
  have "card (dom (hm_map (lru_keys c))) = mdv_hashmap_size (lru_keys c)"
    using r(1) hm.finite_content [of "lru_keys c"] by (simp add: lru_keys_ok_def mdv_hashmap_size_def)
  moreover have "dom (hm_map (lru_keys c)) = set ?ks" using r(1) by (simp add: lru_keys_ok_def dom_kmap)
  moreover have "distinct ?ks"
    using rep r(2) unfolding lru_rep_def by (intro lru_entries_distinct) blast
  ultimately show ?thesis
    using distinct_card [of ?ks] r(2) by (simp add: lru_entries_def list_values_data)
qed

lemma lru_put_new:
  assumes rep: "lru_rep c as xs" and miss: "map_of xs k = None" and room: "length xs < lru_capacity c"
    and cell: "fresh_cell c cell"
  shows "\<exists>c' as'. mdv_lrucache_put cell True True c (k, d) = Some (c', True, (0, 0)) \<and> lru_rep c' as' (xs @ [(k, d)])
           \<and> lru_capacity c' = lru_capacity c"
proof -
  let ?h = "lru_heap c" and ?e = "\<lparr>le_next = 0, le_prev = 0, le_data = (k, d)\<rparr>"
  have r: "dlist ?h (lru_values c) as" "xs = list_values ?h as" "lru_keys_ok (lru_keys c) (lru_entries ?h as)"
    using rep by (auto simp: lru_rep_def)
  have fresh: "cell \<notin> set as" using dlist_alive [OF r(1), of cell] cell by (auto simp: fresh_cell_def)
  note none = lru_find_None [OF miss r(2,3)]
  note size_keys = lru_size_keys [OF rep]
  from lru_keys_insert [OF r(3) none(2), of cell] obtain keys where
    k: "mdv_hashmap_insert True True (lru_keys c) (lrumap_entry k cell) = Some (keys, Some (lrumap_entry k cell))"
      "lru_keys_ok keys (lru_entries ?h as @ [lrumap_entry k cell])" by blast
  have "dlist (?h(cell \<mapsto> ?e)) (lru_values c) as" using r(1) fresh by (simp add: dlist_def)
  from emplace_back_ok [OF this _ _ fresh] cell obtain h' l' where
    l: "mdv_list_emplace_back (?h(cell \<mapsto> ?e)) (lru_values c) cell = Some (h', l')" "dlist h' l' (as @ [cell])"
      "list_update_ok (set (as @ [cell])) (?h(cell \<mapsto> ?e)) h'" by (auto simp: fresh_cell_def)
  have data: "entry_data h' b = entry_data ?h b" if "b \<in> set as" for b
    using update_data [OF l(3), of b] dlist_alive [OF r(1) that] that fresh by (auto simp: entry_data_def)
  have dcell: "entry_data h' cell = (k, d)"
    using update_data [OF l(3), of cell] by (simp add: entry_data_def)
  let ?c = "c\<lparr>lru_keys := keys, lru_heap := h', lru_values := l'\<rparr>"
  have "mdv_lrucache_put cell True True c (k, d) = Some (?c, True, (0, 0))"
    using none(1) size_keys room cell k(1) l(1) by (simp add: mdv_lrucache_put_def fresh_cell_def)
  moreover have "list_values h' (as @ [cell]) = xs @ [(k, d)]"
    using data dcell r(2) by (simp add: list_values_data)
  moreover have "lru_entries h' (as @ [cell]) = lru_entries ?h as @ [lrumap_entry k cell]"
    using data dcell by (simp add: lru_entries_def)
  moreover have "distinct (map fst (xs @ [(k, d)]))"
    using rep miss by (auto simp: lru_rep_def map_of_eq_None_iff)
  ultimately have "mdv_lrucache_put cell True True c (k, d) = Some (?c, True, (0, 0)) \<and> lru_rep ?c (as @ [cell]) (xs @ [(k, d)])"
    using rep room cell l(2) k(2) unfolding lru_rep_def fresh_cell_def by auto
  then show ?thesis by auto
qed

lemma lru_keys_evict:
  assumes ok: "lru_keys_ok hm (lrumap_entry k0 a # es)" and new: "hm_map hm (le_bytes 4 (unat k)) = None"
    and d: "le_bytes 4 (unat k0) \<notin> slice 0 4 ` set es"
  shows "\<exists>hm1. mdv_hashmap_insert True True hm (lrumap_entry k 0) = Some (hm1, Some (lrumap_entry k 0))
    \<and> lru_keys_ok (fst (mdv_hashmap_erase (hm_write hm1 (lrumap_entry k 0) (lrumap_entry k a)) (le_bytes 4 (unat k0))))
        (es @ [lrumap_entry k a])"
proof -
  let ?null = "lrumap_entry k 0" and ?new = "lrumap_entry k a" and ?kb = "le_bytes 4 (unat k)" and ?kold = "le_bytes 4 (unat k0)"
  from lru_keys_insert [OF ok new, of 0] obtain hm1 where
    i: "mdv_hashmap_insert True True hm ?null = Some (hm1, Some ?null)" "lru_keys_ok hm1 ((lrumap_entry k0 a # es) @ [?null])" by blast
  have c1: "hm_inv hm1" "hm_key_size hm1 = 4" "hm_key_offset hm1 = 0"
    "hm_map hm1 = kmap (slice 0 4) ((lrumap_entry k0 a # es) @ [?null])" using i(2) by (auto simp: lru_keys_ok_def)
  note client1 = lru_client [OF c1(2,3)]
  have old: "hm_map hm = (kmap (slice 0 4) es)(?kold \<mapsto> lrumap_entry k0 a)"
    using ok by (simp add: lru_keys_ok_def kmap_Cons lrumap_entry_key)
  have new': "?kb \<noteq> ?kold" "?kb \<notin> slice 0 4 ` set es"
    using new unfolding old dom_kmap [symmetric] by (auto simp: domIff split: if_splits)
  have m1: "hm_map hm1 = (kmap (slice 0 4) es)(?kold \<mapsto> lrumap_entry k0 a, ?kb \<mapsto> ?null)"
    unfolding c1(4) using new' by (subst kmap_snoc) (auto simp: lrumap_entry_key kmap_Cons le_bytes_unat_inj)
  let ?w = "hm_write hm1 ?null ?new"
  have "hm_map hm1 (hm_key hm1 ?null) = Some ?null" unfolding m1 client1(3) by simp
  note w = hm_write_ok [OF c1(1) this client1(2)]
  have w': "hm_inv ?w" "hm_map ?w = (hm_map hm1)(?kb \<mapsto> ?new)" "hm_key_size ?w = 4" "hm_key_offset ?w = 0"
    using w client1(3) c1(2,3) by (simp_all add: hm_same_client_def)
  from hm_erase_ok [OF w'(1), of ?kold] w'(3) obtain hm3 where
    e: "fst (mdv_hashmap_erase ?w ?kold) = hm3" "hm_inv hm3" "hm_map hm3 = (hm_map ?w)(?kold := None)" "hm_same_client ?w hm3"
    by auto
  have "kmap (slice 0 4) es ?kold = None" using d by (rule kmap_None)
  then have "hm_map hm3 = kmap (slice 0 4) (es @ [?new])"
    unfolding e(3) w'(2) m1 using new' by (subst kmap_snoc) (auto simp: lrumap_entry_key)
  with e w' i(1) show ?thesis by (auto simp: lru_keys_ok_def hm_same_client_def)
qed

lemma lru_put_evict:
  assumes rep: "lru_rep c as xs" and miss: "map_of xs k = None" and full: "\<not> length xs < lru_capacity c"
  shows "\<exists>c' as'. mdv_lrucache_put cell True True c (k, d) = Some (c', True, hd xs) \<and> lru_rep c' as' (tl xs @ [(k, d)])
           \<and> lru_capacity c' = lru_capacity c"
proof -
  let ?h = "lru_heap c"
  have r: "dlist ?h (lru_values c) as" "xs = list_values ?h as" "lru_keys_ok (lru_keys c) (lru_entries ?h as)"
    "0 < lru_capacity c" "length xs \<le> lru_capacity c" and bound: "\<forall>a \<in> set as. a < 2 ^ 64" and dk: "distinct (map fst xs)"
    using rep by (auto simp: lru_rep_def)
  from r(2,4) full obtain a as2 where as: "as = a # as2" by (cases as) (auto simp: list_values_data)
  obtain k0 d0 where kd: "entry_data ?h a = (k0, d0)" by (cases "entry_data ?h a")
  have xs: "xs = (k0, d0) # list_values ?h as2" using r(2) as kd by (simp add: list_values_data)
  have a: "l_next (lru_values c) = a" "a \<notin> set as2" "?h a \<noteq> None"
    using r(1) as dlist_alive [OF r(1), of a] by (auto simp: dlist_def)
  then obtain e where e: "?h a = Some e" "le_data e = (k0, d0)" using kd by (auto simp: entry_data_def)
  note none = lru_find_None [OF miss r(2,3)]
  have es: "lru_entries ?h as = lrumap_entry k0 a # lru_entries ?h as2" by (simp add: lru_entries_def as kd)
  have "distinct (map (slice 0 4) (lru_entries ?h as))" using dk r(2) by (intro lru_entries_distinct) simp
  then have "le_bytes 4 (unat k0) \<notin> slice 0 4 ` set (lru_entries ?h as2)" by (simp add: es lrumap_entry_key)
  from lru_keys_evict [OF r(3) [unfolded es] none(2) this] obtain keys where
    k: "mdv_hashmap_insert True True (lru_keys c) (lrumap_entry k 0) = Some (keys, Some (lrumap_entry k 0))"
      "lru_keys_ok (fst (mdv_hashmap_erase (hm_write keys (lrumap_entry k 0) (lrumap_entry k a)) (le_bytes 4 (unat k0))))
        (lru_entries ?h as2 @ [lrumap_entry k a])" by blast
  let ?w = "write_data ?h a (k, d)"
  have "dlist ?w (lru_values c) ([] @ a # as2)" using r(1) as by simp
  from touch_ok [OF this] obtain h' l' where
    t: "lru_touch ?w (lru_values c) a = Some (h', l')" "dlist h' l' (as2 @ [a])"
      "\<forall>b. ?w b \<noteq> None \<longrightarrow> entry_data h' b = entry_data ?w b" by auto
  have data: "entry_data h' b = (if b = a then (k, d) else entry_data ?h b)" if "b \<in> set as" for b
    using t(3) dlist_alive [OF r(1) that] write_alive [of ?h a "(k, d)" b] entry_data_write [of ?h b a "(k, d)"] by simp
  have data2: "entry_data h' b = entry_data ?h b" if "b \<in> set as2" for b using data [of b] that a(2) as by auto
  have dataa: "entry_data h' a = (k, d)" using data [of a] as by simp
  let ?c = "c\<lparr>lru_keys := fst (mdv_hashmap_erase (hm_write keys (lrumap_entry k 0) (lrumap_entry k a)) (le_bytes 4 (unat k0))),
             lru_heap := h', lru_values := l'\<rparr>"
  have "mdv_lrucache_put cell True True c (k, d) = Some (?c, True, (k0, d0))"
    using none(1) lru_size_keys [OF rep] full k(1) a(1) e t(1) by (simp add: mdv_lrucache_put_def Let_def)
  moreover have "list_values h' (as2 @ [a]) = tl xs @ [(k, d)]" using data2 dataa xs by (simp add: list_values_data)
  moreover have "lru_entries h' (as2 @ [a]) = lru_entries ?h as2 @ [lrumap_entry k a]"
    using data2 dataa by (simp add: lru_entries_def)
  moreover have "distinct (map fst (tl xs @ [(k, d)]))"
    using dk miss unfolding map_of_eq_None_iff by (simp add: xs)
  moreover have "length (tl xs @ [(k, d)]) \<le> lru_capacity c" using r(5) xs by simp
  ultimately show ?thesis
    using r(4) bound as t(2) k(2) xs by (intro exI [of _ ?c] exI [of _ "as2 @ [a]"]) (simp add: lru_rep_def)
qed

lemma lru_put_hit:
  assumes rep: "lru_rep c as xs" and hit: "map_of xs k = Some d"
  shows "\<exists>c' as'. mdv_lrucache_put cell ab ae c (k, d') = Some (c', True, if d \<noteq> d' then (k, d) else (0, 0))
           \<and> lru_rep c' as' (filter (\<lambda>x. fst x \<noteq> k) xs @ [(k, d')]) \<and> lru_capacity c' = lru_capacity c"
proof -
  from lru_hit [OF rep hit] obtain a h l as1 as2 where
    t: "as = as1 @ a # as2" "mdv_hashmap_find (lru_keys c) (le_bytes 4 (unat k)) = Some (lrumap_entry k a)"
      "lrumap_entry_ptr (lrumap_entry k a) = a" "entry_data (lru_heap c) a = (k, d)"
      "lru_touch (lru_heap c) (lru_values c) a = Some (h, l)" "dlist h l (as1 @ as2 @ [a])" "h a \<noteq> None"
      "\<And>b. b \<in> set as \<Longrightarrow> entry_data h b = entry_data (lru_heap c) b" by metis
  obtain e where e: "h a = Some e" using t(7) by blast
  have "entry_data h a = (k, d)" using t(8) t(1,4) by simp
  then have ed: "le_data e = (k, d)" using e by (simp add: entry_data_def)
  let ?h = "if d \<noteq> d' then write_data h a (k, d') else h"
  let ?c = "c\<lparr>lru_heap := ?h, lru_values := l\<rparr>"
  have alive: "h b \<noteq> None" if "b \<in> set as" for b
    using dlist_alive [OF t(6), of b] that t(1) by auto
  have "entry_data ?h b = (if b = a then (k, d') else entry_data (lru_heap c) b)" if "b \<in> set as" for b
    using t(8) [OF that] entry_data_write [of h b a "(k, d')"] alive [OF that] \<open>entry_data h a = (k, d)\<close> by auto
  then have "lru_rep ?c (as1 @ as2 @ [a]) (filter (\<lambda>x. fst x \<noteq> k) xs @ [(k, d')])"
    using rep t(1,4,6) by (intro lru_rep_move) auto
  moreover have "mdv_lrucache_put cell ab ae c (k, d') = Some (?c, True, if d \<noteq> d' then (k, d) else (0, 0))"
    using t(2,3,5) e ed by (simp add: mdv_lrucache_put_def)
  ultimately show ?thesis by (intro exI [of _ ?c] exI [of _ "as1 @ as2 @ [a]"]) simp
qed

lemma lru_create_rep:
  "0 < n \<Longrightarrow> \<exists>c. mdv_lrucache_create True True True n = Some c \<and> lru_rep c [] [] \<and> lru_capacity c = n"
proof -
  assume n: "0 < n"
  obtain keys where k: "mdv_hashmap_create True True n 0 4 mdv_lrukey_hash mdv_lrukey_cmp = Some keys"
    using n by (simp add: mdv_hashmap_create_def Let_def)
  have "hm_inv keys \<and> hm_map keys = Map.empty" by (rule hm_create_inv [OF k n lrukey_cmp_ok])
  moreover have "hm_key_size keys = 4 \<and> hm_key_offset keys = 0"
    using k n by (auto simp: mdv_hashmap_create_def Let_def)
  ultimately show ?thesis
    using k n by (auto simp: mdv_lrucache_create_def lru_rep_def lru_keys_ok_def dlist_def list_values_def lru_entries_def kmap_def)
qed

section \<open>Properties\<close>

text \<open>
  C7. The cache refines the list of items in the order of their use. A new cache of capacity \<open>n\<close> stands
  for the empty list. From every cache that stands for a list of items, \<open>mdv_lrucache_put\<close> follows no bad
  pointer, puts the item at the end of the list, replaces the old value of the key if there is one, and
  otherwise, in a full cache, evicts the least recently used item and hands it back in \<open>*old\<close>;
  \<open>mdv_lrucache_get\<close> returns the data of the key, or null, and makes its item the most recently
  used one. The pointers of the list and of the hash map stay consistent, and the capacity is never exceeded.
\<close>

theorem lrucache_refines:
  assumes "lru_rep c as xs" and "fresh_cell c cell"
  shows "(\<exists>c' as'. mdv_lrucache_put cell True True c item = Some (c', True, snd (lru_put (lru_capacity c) xs item))
            \<and> lru_rep c' as' (fst (lru_put (lru_capacity c) xs item)) \<and> lru_capacity c' = lru_capacity c)
       \<and> (\<exists>c' as'. mdv_lrucache_get c k = Some (c', snd (lru_get xs k)) \<and> lru_rep c' as' (fst (lru_get xs k))
            \<and> lru_capacity c' = lru_capacity c)
       \<and> length (fst (lru_put (lru_capacity c) xs item)) \<le> lru_capacity c"
proof -
  obtain key d where item: "item = (key, d)" by (cases item)
  have put: "\<exists>c' as'. mdv_lrucache_put cell True True c item = Some (c', True, snd (lru_put (lru_capacity c) xs item))
            \<and> lru_rep c' as' (fst (lru_put (lru_capacity c) xs item)) \<and> lru_capacity c' = lru_capacity c"
  proof (cases "map_of xs key")
    case None
    then show ?thesis
      using lru_put_new [OF assms(1) None _ assms(2)] lru_put_evict [OF assms(1) None] item
      by (cases "length xs < lru_capacity c") (simp_all add: lru_put_def)
  next
    case (Some d0)
    then show ?thesis using lru_put_hit [OF assms(1) Some, of cell True True d] item
      by (cases "d0 = d") (simp_all add: lru_put_def)
  qed
  moreover from put have "length (fst (lru_put (lru_capacity c) xs item)) \<le> lru_capacity c"
    unfolding lru_rep_def by metis
  moreover have "\<exists>c' as'. mdv_lrucache_get c k = Some (c', snd (lru_get xs k)) \<and> lru_rep c' as' (fst (lru_get xs k))
      \<and> lru_capacity c' = lru_capacity c"
    using lru_get_refines [OF assms(1), of k] by blast
  ultimately show ?thesis by blast
qed

text \<open>The start, and the first item put into a cache of capacity 1.\<close>

theorem lrucache_refines_witness:
  "\<exists>c c' as'. mdv_lrucache_create True True True 1 = Some c
     \<and> mdv_lrucache_put 8 True True c (7, 100) = Some (c', True, (0, 0)) \<and> lru_rep c' as' [(7, 100)]"
proof -
  obtain c where c: "mdv_lrucache_create True True True 1 = Some c" "lru_rep c [] []" "lru_capacity c = 1"
    using lru_create_rep [of 1] by auto
  moreover have "fresh_cell c 8"
    using c(1) by (auto simp: fresh_cell_def mdv_lrucache_create_def split: option.splits)
  ultimately show ?thesis using lrucache_refines [of c "[]" "[]" 8 "(7, 100)" 0] by (auto simp: lru_put_def)
qed

end
