(* ===== verification/Mdv_Vector.thy ===== *)
theory Mdv_Vector
  imports Mdv_Prelude
begin

text \<open>
  The vector of src/mdv_platform/generic/mdv_vector.c over its byte array. The bytes that an allocation
  returns are unspecified: they are an argument \<open>fill\<close>. The growth loop is written as the code has it, and
  may not end.

  The contract is the locale \<open>dynamic_array\<close>: a sequence of items that grows at the end and
  from which items are erased by position. The interpretation \<open>vec\<close> discharges it for the code.
\<close>

section \<open>The code\<close>

record mdv_vector =
  v_rc :: u32
  v_capacity :: nat
  v_size :: nat
  v_item_size :: nat
  v_data :: bytes

definition mdv_vector_create :: "bool \<Rightarrow> bool \<Rightarrow> (nat \<Rightarrow> u8) \<Rightarrow> nat \<Rightarrow> nat \<Rightarrow> mdv_vector option" where
  "mdv_vector_create alloc0 alloc1 fill capacity item_size =
     (if \<not> alloc0 then None
      else if \<not> alloc1 then None
      else Some \<lparr>v_rc = 1, v_capacity = capacity, v_size = 0, v_item_size = item_size,
                v_data = map fill [0..<capacity * item_size]\<rparr>)"

definition mdv_vector_clone :: "bool \<Rightarrow> bool \<Rightarrow> (nat \<Rightarrow> u8) \<Rightarrow> mdv_vector \<Rightarrow> nat \<Rightarrow> mdv_vector option" where
  "mdv_vector_clone alloc0 alloc1 fill vector capacity0 =
     (let capacity = (if capacity0 < v_size vector then v_size vector else capacity0) in
      case mdv_vector_create alloc0 alloc1 fill capacity (v_item_size vector) of
        None \<Rightarrow> None
      | Some new_vector \<Rightarrow>
          Some (new_vector\<lparr>v_data := blit 0 (slice 0 (v_item_size vector * v_size vector) (v_data vector)) (v_data new_vector),
                          v_size := v_size vector\<rparr>))"

definition mdv_vector_retain :: "mdv_vector \<Rightarrow> mdv_vector" where
  "mdv_vector_retain vector = vector\<lparr>v_rc := v_rc vector + 1\<rparr>"

definition mdv_vector_release :: "mdv_vector option \<Rightarrow> mdv_vector option \<times> u32" where
  "mdv_vector_release v =
     (case v of None \<Rightarrow> (None, 0)
      | Some vector \<Rightarrow> let refs = v_rc vector - 1 in (if refs = 0 then None else Some (vector\<lparr>v_rc := refs\<rparr>), refs))"

text \<open>The loop that doubles the capacity until \<open>needed\<close> items fit.\<close>

partial_function (option) grow_capacity :: "nat \<Rightarrow> nat \<Rightarrow> nat option" where
  [code]: "grow_capacity needed new_capacity =
     (if needed > new_capacity then grow_capacity needed (new_capacity * 2) else Some new_capacity)"

definition mdv_vector_resize_if_required :: "bool \<Rightarrow> (nat \<Rightarrow> u8) \<Rightarrow> mdv_vector \<Rightarrow> nat \<Rightarrow> (mdv_vector \<times> bool) option" where
  "mdv_vector_resize_if_required alloc fill vector extra =
     (case grow_capacity (v_size vector + extra) (v_capacity vector) of None \<Rightarrow> None
      | Some new_capacity \<Rightarrow>
          if new_capacity > v_capacity vector then
            if alloc then
              Some (vector\<lparr>v_data := v_data vector @ map fill [length (v_data vector)..<v_item_size vector * new_capacity],
                          v_capacity := new_capacity\<rparr>, True)
            else Some (vector, False)
          else Some (vector, True))"

text \<open>The returned pointer is the offset of the item in the array.\<close>

definition mdv_vector_push_back :: "bool \<Rightarrow> (nat \<Rightarrow> u8) \<Rightarrow> mdv_vector \<Rightarrow> bytes \<Rightarrow> (mdv_vector \<times> nat option) option" where
  "mdv_vector_push_back alloc fill vector item =
     (case mdv_vector_resize_if_required alloc fill vector 1 of None \<Rightarrow> None
      | Some (v, False) \<Rightarrow> Some (v, None)
      | Some (v, True) \<Rightarrow>
          let ptr = v_size v * v_item_size v in
          Some (v\<lparr>v_data := blit ptr (take (v_item_size v) item) (v_data v), v_size := v_size v + 1\<rparr>, Some ptr))"

definition mdv_vector_append :: "bool \<Rightarrow> (nat \<Rightarrow> u8) \<Rightarrow> mdv_vector \<Rightarrow> bytes \<Rightarrow> nat \<Rightarrow> (mdv_vector \<times> nat option) option" where
  "mdv_vector_append alloc fill vector items count =
     (case mdv_vector_resize_if_required alloc fill vector count of None \<Rightarrow> None
      | Some (v, False) \<Rightarrow> Some (v, None)
      | Some (v, True) \<Rightarrow>
          let ptr = v_size v * v_item_size v in
          Some (v\<lparr>v_data := blit ptr (take (v_item_size v * count) items) (v_data v), v_size := v_size v + count\<rparr>, Some ptr))"

text \<open>\<open>memset\<close> of the new items to zero.\<close>

definition vector_zero_to :: "mdv_vector \<Rightarrow> nat \<Rightarrow> mdv_vector" where
  "vector_zero_to v n =
     v\<lparr>v_data := blit (v_size v * v_item_size v) (replicate ((n - v_size v) * v_item_size v) 0) (v_data v), v_size := n\<rparr>"

definition mdv_vector_resize :: "bool \<Rightarrow> (nat \<Rightarrow> u8) \<Rightarrow> mdv_vector \<Rightarrow> nat \<Rightarrow> (mdv_vector \<times> bool) option" where
  "mdv_vector_resize alloc fill vector n =
     (if n \<le> v_size vector then Some (vector\<lparr>v_size := n\<rparr>, True)
      else if n \<le> v_capacity vector then Some (vector_zero_to vector n, True)
      else case mdv_vector_resize_if_required alloc fill vector (n - v_size vector) of None \<Rightarrow> None
        | Some (v, False) \<Rightarrow> Some (v, False)
        | Some (v, True) \<Rightarrow> Some (vector_zero_to v n, True))"

definition mdv_vector_empty :: "mdv_vector \<Rightarrow> bool" where
  "mdv_vector_empty vector \<longleftrightarrow> v_size vector = 0"

definition mdv_vector_clear :: "mdv_vector \<Rightarrow> mdv_vector" where
  "mdv_vector_clear vector = vector\<lparr>v_size := 0\<rparr>"

definition mdv_vector_at :: "mdv_vector \<Rightarrow> nat \<Rightarrow> nat option" where
  "mdv_vector_at vector pos = (if pos \<ge> v_size vector then None else Some (pos * v_item_size vector))"

definition mdv_vector_find :: "mdv_vector \<Rightarrow> bytes \<Rightarrow> (bytes \<Rightarrow> bytes \<Rightarrow> bool) \<Rightarrow> nat option" where
  "mdv_vector_find vector item equ =
     map_option (\<lambda>i. v_item_size vector * i)
       (List.find (\<lambda>i. equ (slot (v_item_size vector) (v_data vector) i) item) [0..<v_size vector])"

text \<open>
  \<open>item\<close> is the pointer as an offset from the start of the array, which may lie outside of it. The
  items after the erased one move down one by one.
\<close>

definition mdv_vector_erase :: "mdv_vector \<Rightarrow> int \<Rightarrow> mdv_vector option" where
  "mdv_vector_erase vector item =
     (let s = v_item_size vector in
      if item \<ge> 0 \<and> item < int (s * v_size vector) then
        if s = 0 then None
        else
          let idx = nat item div s in
          if int (idx * s) = item then
            Some (vector\<lparr>v_data := fold (\<lambda>i d. blit (i * s) (slot s d (i + 1)) d) [idx..<v_size vector - 1] (v_data vector),
                        v_size := v_size vector - 1\<rparr>)
          else Some vector
      else Some vector)"

section \<open>The contract\<close>

datatype array_op = Push bytes | Append bytes nat | Resize nat | EraseAt nat

text \<open>A sequence of operations; \<open>None\<close> when one of them does not return.\<close>

fun array_run :: "('v \<Rightarrow> array_op \<Rightarrow> 'v option) \<Rightarrow> 'v \<Rightarrow> array_op list \<Rightarrow> 'v option" where
  "array_run step v [] = Some v"
| "array_run step v (op # ops) = (case step v op of None \<Rightarrow> None | Some v' \<Rightarrow> array_run step v' ops)"

text \<open>The same operation on a list of items of \<open>s\<close> bytes.\<close>

fun list_step :: "nat \<Rightarrow> bytes list \<Rightarrow> array_op \<Rightarrow> bytes list" where
  "list_step s xs (Push x) = xs @ [x]"
| "list_step s xs (Append d n) = xs @ chunks s d"
| "list_step s xs (Resize n) = take n xs @ replicate (n - length xs) (replicate s 0)"
| "list_step s xs (EraseAt i) = take i xs @ drop (Suc i) xs"

fun array_op_ok :: "nat \<Rightarrow> array_op \<Rightarrow> bool" where
  "array_op_ok s (Push x) \<longleftrightarrow> length x = s"
| "array_op_ok s (Append d n) \<longleftrightarrow> length d = n * s"
| "array_op_ok s _ \<longleftrightarrow> True"

locale dynamic_array =
  fixes invar :: "'v \<Rightarrow> bool"
    and items :: "'v \<Rightarrow> bytes list"
    and width :: "'v \<Rightarrow> nat"
    and step :: "'v \<Rightarrow> array_op \<Rightarrow> 'v option"
  assumes step_list: "invar v \<Longrightarrow> array_op_ok (width v) op \<Longrightarrow>
    \<exists>v'. step v op = Some v' \<and> invar v' \<and> items v' = list_step (width v) (items v) op \<and> width v' = width v"
begin

lemma run_refines:
  "invar v \<Longrightarrow> list_all (array_op_ok (width v)) ops \<Longrightarrow>
    \<exists>v'. array_run step v ops = Some v' \<and> invar v' \<and> items v' = foldl (list_step (width v)) (items v) ops"
proof (induction ops arbitrary: v)
  case Nil
  then show ?case by simp
next
  case (Cons op ops)
  then obtain v1 where "step v op = Some v1" "invar v1" "items v1 = list_step (width v) (items v) op" "width v1 = width v"
    using step_list [of v op] by auto
  with Cons.IH [of v1] Cons.prems show ?case by simp
qed

end

section \<open>The vector holds a sequence of items\<close>

definition vec_inv :: "mdv_vector \<Rightarrow> bool" where
  "vec_inv v \<longleftrightarrow> 0 < v_item_size v \<and> 0 < v_capacity v \<and> v_size v \<le> v_capacity v
     \<and> length (v_data v) = v_capacity v * v_item_size v"

definition vec_items :: "mdv_vector \<Rightarrow> bytes list" where
  "vec_items v = map (slot (v_item_size v) (v_data v)) [0..<v_size v]"

definition vec_step :: "(nat \<Rightarrow> u8) \<Rightarrow> mdv_vector \<Rightarrow> array_op \<Rightarrow> mdv_vector option" where
  "vec_step fill v op =
     (case op of
        Push x \<Rightarrow> map_option fst (mdv_vector_push_back True fill v x)
      | Append d n \<Rightarrow> map_option fst (mdv_vector_append True fill v d n)
      | Resize n \<Rightarrow> map_option fst (mdv_vector_resize True fill v n)
      | EraseAt i \<Rightarrow> mdv_vector_erase v (int (i * v_item_size v)))"

lemma length_vec_items [simp]: "length (vec_items v) = v_size v"
  by (simp add: vec_items_def)

lemma grow_capacity_partial: "grow_capacity needed c = Some r \<Longrightarrow> needed \<le> r \<and> c \<le> r \<and> (c = 0 \<longrightarrow> r = 0)"
proof (erule grow_capacity.raw_induct [rotated])
  fix g :: "nat \<Rightarrow> nat \<Rightarrow> nat option" and needed c r :: nat
  assume IH: "\<And>needed c r. g needed c = Some r \<Longrightarrow> needed \<le> r \<and> c \<le> r \<and> (c = 0 \<longrightarrow> r = 0)"
    and body: "(if c < needed then g needed (c * 2) else Some c) = Some r"
  show "needed \<le> r \<and> c \<le> r \<and> (c = 0 \<longrightarrow> r = 0)"
  proof (cases "c < needed")
    case True
    with body IH [of needed "c * 2" r] show ?thesis by simp
  next
    case False
    with body show ?thesis by simp
  qed
qed

lemma grow_capacity_total: "0 < c \<Longrightarrow> \<exists>r. grow_capacity needed c = Some r"
proof (induction "needed - c" arbitrary: c rule: less_induct)
  case less
  show ?case
  proof (cases "c < needed")
    case True
    with less.prems have "needed - c * 2 < needed - c" by simp
    from less.hyps [OF this] less.prems True show ?thesis by (subst grow_capacity.simps) simp
  next
    case False
    then show ?thesis by (subst grow_capacity.simps) simp
  qed
qed

text \<open>From a capacity of zero the loop doubles zero forever.\<close>

lemma grow_capacity_diverges: "0 < needed \<Longrightarrow> grow_capacity needed 0 = None"
  using grow_capacity_partial [of needed 0] by (cases "grow_capacity needed 0") auto

lemma slot_append: "i < n \<Longrightarrow> length d = n * s \<Longrightarrow> slot s (d @ e) i = slot s d i"
  using slot_fits [of i n s] by (simp add: slot_def slice_def)

lemma reserve_ok:
  assumes inv: "vec_inv v"
  shows "\<exists>v'. mdv_vector_resize_if_required True fill v n = Some (v', True) \<and> vec_inv v' \<and> vec_items v' = vec_items v
           \<and> v_size v' = v_size v \<and> v_size v + n \<le> v_capacity v' \<and> v_item_size v' = v_item_size v"
proof -
  have i: "0 < v_item_size v" "0 < v_capacity v" "v_size v \<le> v_capacity v" "length (v_data v) = v_capacity v * v_item_size v"
    using inv by (auto simp: vec_inv_def)
  obtain c where c: "grow_capacity (v_size v + n) (v_capacity v) = Some c" using grow_capacity_total [OF i(2)] by blast
  have r: "v_size v + n \<le> c" "v_capacity v \<le> c" using grow_capacity_partial [OF c] by auto
  show ?thesis
  proof (cases "c > v_capacity v")
    case True
    let ?d = "v_data v @ map fill [length (v_data v)..<v_item_size v * c]"
    let ?v = "v\<lparr>v_data := ?d, v_capacity := c\<rparr>"
    have "length (v_data v) \<le> v_item_size v * c" using i(4) r(2) by (simp add: mult.commute)
    then have "length ?d = c * v_item_size v" by (simp add: mult.commute)
    then have "vec_inv ?v" using i r by (simp add: vec_inv_def)
    moreover have "vec_items ?v = vec_items v"
      using i slot_append [OF _ i(4)] by (auto simp: vec_items_def)
    ultimately show ?thesis using c r True by (simp add: mdv_vector_resize_if_required_def)
  next
    case False
    with c r inv show ?thesis by (simp add: mdv_vector_resize_if_required_def)
  qed
qed

text \<open>Writing the bytes of \<open>n\<close> items behind the last one appends them.\<close>

lemma write_items:
  assumes inv: "vec_inv v" and d: "length d = n * v_item_size v" and room: "v_size v + n \<le> v_capacity v"
  defines "v' \<equiv> v\<lparr>v_data := blit (v_size v * v_item_size v) d (v_data v), v_size := v_size v + n\<rparr>"
  shows "vec_inv v'" and "vec_items v' = vec_items v @ chunks (v_item_size v) d"
proof -
  let ?s = "v_item_size v"
  have i: "0 < ?s" "length (v_data v) = v_capacity v * ?s" using inv by (auto simp: vec_inv_def)
  have "v_size v * ?s + n * ?s \<le> v_capacity v * ?s" using room by (metis add_mult_distrib mult_le_mono1)
  then have "length (blit (v_size v * ?s) d (v_data v)) = length (v_data v)" using d i by (simp add: length_blit)
  then show "vec_inv v'" using inv room by (simp add: vec_inv_def v'_def)
  have sb: "slot ?s (blit (v_size v * ?s) d (v_data v)) j
      = (if v_size v \<le> j \<and> j < v_size v + n then slot ?s d (j - v_size v) else slot ?s (v_data v) j)" if "j < v_capacity v" for j
    using slot_blit [OF i(1) d room i(2) that] .
  have n: "length d div ?s = n" using d i by simp
  show "vec_items v' = vec_items v @ chunks ?s d"
    using room n sb
    by (intro nth_equalityI) (simp_all add: v'_def vec_items_def chunks_def nth_append)
qed

lemma chunks_one: "0 < s \<Longrightarrow> length d = s \<Longrightarrow> chunks s d = [d]"
  by (simp add: chunks_def slot_def slice_def)

lemma chunks_zero:
  assumes "0 < s"
  shows "chunks s (replicate (n * s) 0) = replicate n (replicate s 0)"
proof (rule nth_equalityI)
  show "length (chunks s (replicate (n * s) (0 :: u8))) = length (replicate n (replicate s (0 :: u8)))"
    using assms by (simp add: chunks_def)
next
  fix i assume "i < length (chunks s (replicate (n * s) (0 :: u8)))"
  then have "i < n" using assms by (simp add: chunks_def)
  with slot_fits [of i n s] assms show "chunks s (replicate (n * s) 0) ! i = (replicate n (replicate s 0) :: bytes list) ! i"
    by (simp add: chunks_def slot_def slice_def min_def)
qed

text \<open>The loop of \<open>mdv_vector_erase\<close>: up to \<open>k\<close>, every item has moved down by one.\<close>

lemma erase_loop:
  assumes s: "0 < s" and len: "length d = n * s" and k: "idx \<le> k" "k < n"
  defines "d' \<equiv> fold (\<lambda>i d. blit (i * s) (slot s d (i + 1)) d) [idx..<k] d"
  shows "length d' = length d \<and> (\<forall>j < n. slot s d' j = slot s d (if idx \<le> j \<and> j < k then j + 1 else j))"
  using k unfolding d'_def
proof (induction k)
  case 0
  then show ?case by simp
next
  case (Suc k)
  show ?case
  proof (cases "idx \<le> k")
    case False
    with Suc.prems have "idx = Suc k" by simp
    then show ?thesis by auto
  next
    case True
    let ?e = "fold (\<lambda>i d. blit (i * s) (slot s d (i + 1)) d) [idx..<k] d"
    have IH: "length ?e = n * s" "\<And>j. j < n \<Longrightarrow> slot s ?e j = slot s d (if idx \<le> j \<and> j < k then j + 1 else j)"
      using Suc.IH True Suc.prems len by auto
    have next_slot: "length (slot s ?e (k + 1)) = 1 * s"
      using slot_fits [of "k + 1" n s] Suc.prems IH(1) by (simp add: slot_def length_slice)
    have "slot s (blit (k * s) (slot s ?e (k + 1)) ?e) j = (if j = k then slot s ?e (k + 1) else slot s ?e j)" if "j < n" for j
    proof -
      have "slot s (slot s ?e (k + 1)) 0 = slot s ?e (k + 1)" using next_slot by (simp add: slot_def slice_def)
      with slot_blit [OF s next_slot _ IH(1) that, of k] Suc.prems show ?thesis by auto
    qed
    moreover have "k * s + s \<le> n * s" using slot_fits [of k n s] Suc.prems by simp
    then have "length (blit (k * s) (slot s ?e (k + 1)) ?e) = n * s"
      using next_slot IH(1) by (simp add: length_blit)
    ultimately show ?thesis using True IH Suc.prems len by (auto simp: less_Suc_eq)
  qed
qed

lemma erase_ok:
  assumes inv: "vec_inv v"
  shows "\<exists>v'. mdv_vector_erase v (int (i * v_item_size v)) = Some v' \<and> vec_inv v'
           \<and> vec_items v' = take i (vec_items v) @ drop (Suc i) (vec_items v) \<and> v_item_size v' = v_item_size v"
proof (cases "i < v_size v")
  case False
  have "\<not> i * v_item_size v < v_item_size v * v_size v" using False by (simp add: mult.commute not_less)
  then have "mdv_vector_erase v (int (i * v_item_size v)) = Some v"
    unfolding mdv_vector_erase_def Let_def by (simp only: of_nat_less_iff) simp
  with inv False show ?thesis by simp
next
  case True
  let ?s = "v_item_size v" and ?n = "v_size v"
  let ?d = "fold (\<lambda>i d. blit (i * ?s) (slot ?s d (i + 1)) d) [i..<?n - 1] (v_data v)"
  let ?v = "v\<lparr>v_data := ?d, v_size := ?n - 1\<rparr>"
  have f: "0 < ?s" "?n \<le> v_capacity v" "length (v_data v) = v_capacity v * ?s" using inv by (auto simp: vec_inv_def)
  have "i * ?s < ?s * ?n" using True f(1) by (simp add: mult.commute)
  then have "mdv_vector_erase v (int (i * ?s)) = Some ?v"
    using f(1) unfolding mdv_vector_erase_def Let_def by (simp only: of_nat_less_iff nat_int) simp
  moreover have e: "length ?d = length (v_data v)" "\<And>j. j < v_capacity v \<Longrightarrow>
      slot ?s ?d j = slot ?s (v_data v) (if i \<le> j \<and> j < ?n - 1 then j + 1 else j)"
    using erase_loop [OF f(1,3), of i "?n - 1"] True f(2) by auto
  moreover have "vec_inv ?v" using f e(1) True by (auto simp: vec_inv_def)
  moreover have "vec_items ?v = take i (vec_items v) @ drop (Suc i) (vec_items v)"
    using True f(2) e(2)
    by (intro nth_equalityI [where xs = "vec_items ?v"]) (auto simp: vec_items_def nth_append min_def)
  ultimately show ?thesis by auto
qed

lemma append_ok:
  assumes inv: "vec_inv v" and d: "length d = n * v_item_size v"
  shows "\<exists>v'. mdv_vector_append True fill v d n = Some (v', Some (v_size v * v_item_size v)) \<and> vec_inv v'
           \<and> vec_items v' = vec_items v @ chunks (v_item_size v) d \<and> v_item_size v' = v_item_size v"
proof -
  from reserve_ok [OF inv, of fill n] obtain w where
    w: "mdv_vector_resize_if_required True fill v n = Some (w, True)" "vec_inv w" "vec_items w = vec_items v"
      "v_size w = v_size v" "v_size v + n \<le> v_capacity w" "v_item_size w = v_item_size v" by blast
  have "length d = n * v_item_size w" "v_size w + n \<le> v_capacity w" using d w by simp_all
  note wi = write_items [OF w(2) this]
  have "take (v_item_size w * n) d = d" using d w(6) by (simp add: mult.commute)
  with w wi show ?thesis by (simp add: mdv_vector_append_def Let_def)
qed

lemma push_back_is_append: "mdv_vector_push_back a fill v x = mdv_vector_append a fill v x 1"
  by (simp add: mdv_vector_push_back_def mdv_vector_append_def Let_def split: option.split prod.split bool.split)

lemma resize_ok:
  assumes inv: "vec_inv v"
  shows "\<exists>v'. mdv_vector_resize True fill v n = Some (v', True) \<and> vec_inv v'
           \<and> vec_items v' = take n (vec_items v) @ replicate (n - v_size v) (replicate (v_item_size v) 0)
           \<and> v_item_size v' = v_item_size v"
proof (cases "n \<le> v_size v")
  case True
  then show ?thesis
    using inv by (simp add: mdv_vector_resize_def vec_inv_def vec_items_def take_map take_upt)
next
  case False
  have zero: "vec_inv (vector_zero_to w n) \<and> vec_items (vector_zero_to w n) = vec_items w @ replicate (n - v_size w) (replicate (v_item_size w) 0)
      \<and> v_item_size (vector_zero_to w n) = v_item_size w"
    if w: "vec_inv w" "v_size w \<le> n" "n \<le> v_capacity w" for w
  proof -
    have "length (replicate ((n - v_size w) * v_item_size w) (0 :: u8)) = (n - v_size w) * v_item_size w" by simp
    note wi = write_items [OF w(1) this]
    have "0 < v_item_size w" using w(1) by (simp add: vec_inv_def)
    from chunks_zero [OF this] wi w show ?thesis by (simp add: vector_zero_to_def)
  qed
  show ?thesis
  proof (cases "n \<le> v_capacity v")
    case True
    with False inv zero [of v] show ?thesis by (simp add: mdv_vector_resize_def)
  next
    case more: False
    from reserve_ok [OF inv, of fill "n - v_size v"] obtain w where
      w: "mdv_vector_resize_if_required True fill v (n - v_size v) = Some (w, True)" "vec_inv w" "vec_items w = vec_items v"
        "v_size w = v_size v" "v_size v + (n - v_size v) \<le> v_capacity w" "v_item_size w = v_item_size v" by blast
    with False more zero [of w] show ?thesis by (simp add: mdv_vector_resize_def)
  qed
qed

interpretation vec: dynamic_array vec_inv vec_items v_item_size "vec_step fill" for fill
proof (unfold_locales, goal_cases)
  case (1 v op)
  show ?case
  proof (cases op)
    case (Push x)
    with 1 have "mdv_vector_push_back True fill v x = mdv_vector_append True fill v x 1" "chunks (v_item_size v) x = [x]"
      by (auto simp: push_back_is_append chunks_one vec_inv_def)
    with append_ok [OF 1(1), of x 1 fill] 1(2) Push show ?thesis by (auto simp: vec_step_def)
  next
    case (Append d n)
    with append_ok [OF 1(1), of d n fill] 1(2) show ?thesis by (auto simp: vec_step_def)
  next
    case (Resize n)
    with resize_ok [OF 1(1), of fill n] show ?thesis by (auto simp: vec_step_def)
  next
    case (EraseAt i)
    with erase_ok [OF 1(1), of i] show ?thesis by (auto simp: vec_step_def)
  qed
qed

section \<open>Properties\<close>

text \<open>
  C21. The vector is a growing sequence. From a vector of positive capacity and item size, every sequence of
  \<open>mdv_vector_push_back\<close>, \<open>mdv_vector_append\<close>, \<open>mdv_vector_resize\<close> and \<open>mdv_vector_erase\<close> returns, through any
  number of reallocations with arbitrary bytes in the new memory, and its items are those of the
  list operations, byte for byte; new items of a resize are zero.
\<close>

theorem vector_refines_list:
  assumes "mdv_vector_create True True fill c s = Some v" and "0 < c" and "0 < s" and "list_all (array_op_ok s) ops"
  shows "\<exists>v'. array_run (vec_step fill') v ops = Some v' \<and> vec_items v' = foldl (list_step s) [] ops
           \<and> v_size v' \<le> v_capacity v'"
proof -
  have v: "v_item_size v = s" "vec_inv v" "vec_items v = []"
    using assms(1-3) by (auto simp: mdv_vector_create_def vec_inv_def vec_items_def)
  with vec.run_refines [of v ops fill'] assms(4) show ?thesis by (auto simp: vec_inv_def)
qed

theorem vector_refines_list_witness:
  "\<exists>v v'. mdv_vector_create True True (\<lambda>_. 0xAA) 1 2 = Some v
     \<and> array_run (vec_step (\<lambda>_. 0x55)) v [Push [1,2], Push [3,4], Append [5,6,7,8] 2, EraseAt 1, Resize 4] = Some v'
     \<and> vec_items v' = [[1,2],[5,6],[7,8],[0,0]]"
proof -
  let ?ops = "[Push [1,2], Push [3,4], Append [5,6,7,8] 2, EraseAt 1, Resize 4]"
  obtain v where v: "mdv_vector_create True True (\<lambda>_. 0xAA) 1 2 = Some v" by (simp add: mdv_vector_create_def)
  have "list_all (array_op_ok 2) ?ops" by simp
  moreover have "foldl (list_step 2) [] ?ops = [[1,2],[5,6],[7,8],[0,0]]" by code_simp
  ultimately show ?thesis using vector_refines_list [OF v, of ?ops "\<lambda>_. 0x55"] v by auto
qed

text \<open>
  A vector of capacity zero, such as \<open>mdv_empty_vector\<close>, never accepts an item: the loop that
  doubles the capacity doubles zero forever, and \<open>mdv_vector_push_back\<close> does not return.
\<close>

theorem vector_zero_capacity_diverges:
  assumes "v_capacity v = 0"
  shows "mdv_vector_push_back alloc fill v item = None"
  using assms grow_capacity_diverges [of "v_size v + 1"]
  by (simp add: mdv_vector_push_back_def mdv_vector_resize_if_required_def)

theorem vector_zero_capacity_diverges_witness:
  "\<exists>v. mdv_vector_create True True (\<lambda>_. 0) 0 4 = Some v \<and> mdv_vector_push_back True (\<lambda>_. 0) v [1,2,3,4] = None"
proof -
  obtain v where v: "mdv_vector_create True True (\<lambda>_. 0) 0 4 = Some v" "v_capacity v = 0"
    by (simp add: mdv_vector_create_def)
  with vector_zero_capacity_diverges [OF v(2)] show ?thesis by auto
qed

end
