(* ===== verification/Mdv_Algorithm.thy ===== *)
theory Mdv_Algorithm
  imports Mdv_Prelude
begin

text \<open>
  The algorithms on sorted arrays of src/mdv_platform/generic/mdv_algorithm.c. A read position that only moves
  forward is the rest of the array; \<open>mdv_exclude\<close>, which compacts its array in place, and
  \<open>mdv_lower_bound\<close>, whose bounds move both ways, keep their indices.
\<close>

section \<open>The code\<close>

text \<open>The output array; its length is \<open>*diff_size\<close>.\<close>

fun mdv_diff_u32 :: "u32 list \<Rightarrow> u32 list \<Rightarrow> u32 list" where
  "mdv_diff_u32 [] set_b = []"
| "mdv_diff_u32 (a # set_a) [] = a # set_a"
| "mdv_diff_u32 (a # set_a) (b # set_b) =
     (if a < b then a # mdv_diff_u32 set_a (b # set_b)
      else if a = b then mdv_diff_u32 set_a set_b
      else mdv_diff_u32 (a # set_a) set_b)"

fun mdv_union_u32 :: "u32 list \<Rightarrow> u32 list \<Rightarrow> u32 list" where
  "mdv_union_u32 [] set_b = set_b"
| "mdv_union_u32 (a # set_a) [] = a # set_a"
| "mdv_union_u32 (a # set_a) (b # set_b) =
     (if b < a then b # mdv_union_u32 (a # set_a) set_b
      else if a = b then a # mdv_union_u32 set_a set_b
      else a # mdv_union_u32 set_a (b # set_b))"

text \<open>
  The loop of \<open>mdv_exclude\<close>: \<open>arr\<close> is the array at \<open>set_a\<close>, which is read at \<open>ai\<close> and written at \<open>out\<close>. The
  loop returns the array and the number of items that remain.
\<close>

function exclude_loop :: "('a \<Rightarrow> 'b \<Rightarrow> int) \<Rightarrow> 'a list \<Rightarrow> nat \<Rightarrow> nat \<Rightarrow> 'b list \<Rightarrow> 'a list \<times> nat" where
  "exclude_loop cmp arr out ai set_b =
     (if ai < length arr then
        case set_b of
          [] \<Rightarrow> exclude_loop cmp (arr[out := arr ! ai]) (out + 1) (ai + 1) []
        | b # bs \<Rightarrow>
            if cmp (arr ! ai) b < 0 then exclude_loop cmp (arr[out := arr ! ai]) (out + 1) (ai + 1) set_b
            else exclude_loop cmp arr out (if cmp (arr ! ai) b = 0 then ai + 1 else ai) bs
      else (arr, out))"
  by pat_completeness auto

termination
  by (relation "measure (\<lambda>(cmp, arr, out, ai, set_b). (length arr - ai) + length set_b)") auto

definition mdv_exclude :: "('a \<Rightarrow> 'b \<Rightarrow> int) \<Rightarrow> 'a list \<Rightarrow> 'b list \<Rightarrow> 'a list \<times> nat" where
  "mdv_exclude cmp set_a set_b = exclude_loop cmp set_a 0 0 set_b"

text \<open>
  The loop of \<open>mdv_lower_bound\<close> with its two pointers as positions, which may leave the array: a read
  outside of it is undefined. The result is a position, and one past the end is allowed.
\<close>

function lower_bound_loop :: "('a \<Rightarrow> int) \<Rightarrow> 'a list \<Rightarrow> int \<Rightarrow> int \<Rightarrow> int option" where
  "lower_bound_loop cmp arr a b =
     (if b > a then
        let n = b - a; c = a + n div 2 in
        if \<not> (0 \<le> c \<and> c < int (length arr)) then None
        else
          let diff = cmp (arr ! nat c) in
          if diff < 0 then lower_bound_loop cmp arr a (c - 1)
          else if diff > 0 then lower_bound_loop cmp arr (c + 1) b
          else Some c
      else if \<not> (0 \<le> b \<and> b < int (length arr)) then None
      else if cmp (arr ! nat b) > 0 then Some (b + 1) else Some b)"
  by pat_completeness auto

termination
  by (relation "measure (\<lambda>(cmp, arr, a, b). nat (b - a))") (auto simp: Let_def)

text \<open>\<open>cmp\<close> compares the key with an item. The null pointer for an empty array is \<open>Inl ()\<close>.\<close>

definition mdv_lower_bound :: "('a \<Rightarrow> int) \<Rightarrow> 'a list \<Rightarrow> (unit + int) option" where
  "mdv_lower_bound cmp base =
     (if base = [] then Some (Inl ())
      else map_option Inr (lower_bound_loop cmp base 0 (int (length base) - 1)))"

section \<open>Set operations\<close>

lemma diff_set: "sorted_wrt (<) as \<Longrightarrow> sorted_wrt (<) bs \<Longrightarrow> mdv_diff_u32 as bs = filter (\<lambda>x. x \<notin> set bs) as"
proof (induction as bs rule: mdv_diff_u32.induct)
  case (3 a as b bs)
  consider "a < b" | "a = b" | "b < a" by fastforce
  then show ?case
  proof cases
    case 1
    with 3 show ?thesis by auto
  next
    case 2
    have "filter (\<lambda>x. x \<notin> set bs) as = filter (\<lambda>x. x \<noteq> b \<and> x \<notin> set bs) as"
      using 2 "3.prems"(1) by (intro filter_cong) auto
    with 2 3 show ?thesis by simp
  next
    case 3
    have "filter (\<lambda>x. x \<notin> set bs) (a # as) = filter (\<lambda>x. x \<notin> set (b # bs)) (a # as)"
      using 3 "3.prems"(1) by (intro filter_cong) auto
    with 3 "3.IH"(3) "3.prems" show ?thesis by (auto simp del: filter.simps)
  qed
qed (auto simp: filter_True)

lemma union_set: "set (mdv_union_u32 as bs) = set as \<union> set bs"
  by (induction as bs rule: mdv_union_u32.induct) auto

lemma union_sorted: "sorted_wrt (<) as \<Longrightarrow> sorted_wrt (<) bs \<Longrightarrow> sorted_wrt (<) (mdv_union_u32 as bs)"
  by (induction as bs rule: mdv_union_u32.induct) (auto simp: union_set not_less)

text \<open>The reference for \<open>mdv_exclude\<close>: the same merge on sequences.\<close>

fun exclude_list :: "('a \<Rightarrow> 'b \<Rightarrow> int) \<Rightarrow> 'a list \<Rightarrow> 'b list \<Rightarrow> 'a list" where
  "exclude_list cmp [] bs = []"
| "exclude_list cmp (a # as) [] = a # as"
| "exclude_list cmp (a # as) (b # bs) =
     (if cmp a b < 0 then a # exclude_list cmp as (b # bs)
      else if cmp a b = 0 then exclude_list cmp as bs
      else exclude_list cmp (a # as) bs)"

lemma exclude_list_Nil [simp]: "exclude_list cmp as [] = as"
  by (cases as) auto

declare exclude_loop.simps [simp del]

lemma exclude_loop_list:
  assumes "out \<le> ai" and "ai \<le> length arr"
  shows "case exclude_loop cmp arr out ai bs of (arr', n) \<Rightarrow>
    length arr' = length arr \<and> n \<le> length arr \<and> take n arr' = take out arr @ exclude_list cmp (drop ai arr) bs"
  using assms
proof (induction cmp arr out ai bs rule: exclude_loop.induct)
  case (1 cmp arr out ai bs)
  show ?case
  proof (cases "ai < length arr")
    case False
    with "1.prems" show ?thesis by (simp add: exclude_loop.simps [of cmp arr])
  next
    case True
    let ?arr = "arr[out := arr ! ai]"
    have step: "take (out + 1) ?arr = take out arr @ [arr ! ai]" "drop (ai + 1) ?arr = drop (ai + 1) arr"
      using True "1.prems" by (auto simp: take_Suc_conv_app_nth drop_update_cancel)
    have d: "drop ai arr = arr ! ai # drop (ai + 1) arr" using True by (simp add: Cons_nth_drop_Suc)
    show ?thesis
    proof (cases bs)
      case Nil
      with "1.IH"(1) [OF True Nil] True "1.prems" step d show ?thesis
        by (subst exclude_loop.simps) (auto split: prod.splits)
    next
      case (Cons b bs')
      consider "cmp (arr ! ai) b < 0" | "cmp (arr ! ai) b = 0" | "cmp (arr ! ai) b > 0" by linarith
      then show ?thesis
      proof cases
        case 1
        with "1.IH"(2) [OF True Cons] True "1.prems" Cons step d show ?thesis
          by (subst exclude_loop.simps) (auto split: prod.splits)
      next
        case 2
        with "1.IH"(3) [OF True Cons] True "1.prems" Cons d show ?thesis
          by (subst exclude_loop.simps) (auto split: prod.splits)
      next
        case 3
        with "1.IH"(3) [OF True Cons] True "1.prems" Cons d show ?thesis
          by (subst exclude_loop.simps) (auto split: prod.splits)
      qed
    qed
  qed
qed

text \<open>When the comparison orders both arrays by a key, the merge keeps the items whose key does not occur.\<close>

definition compares_by :: "('a \<Rightarrow> 'b \<Rightarrow> int) \<Rightarrow> ('a \<Rightarrow> 'k::linorder) \<Rightarrow> ('b \<Rightarrow> 'k) \<Rightarrow> bool" where
  "compares_by cmp f g \<longleftrightarrow> (\<forall>a b. (cmp a b < 0 \<longleftrightarrow> f a < g b) \<and> (cmp a b = 0 \<longleftrightarrow> f a = g b))"

lemma exclude_list_filter:
  "compares_by cmp f g \<Longrightarrow> sorted_wrt (<) (map f as) \<Longrightarrow> sorted_wrt (<) (map g bs) \<Longrightarrow>
     exclude_list cmp as bs = filter (\<lambda>a. f a \<notin> g ` set bs) as"
proof (induction cmp as bs rule: exclude_list.induct)
  case (3 cmp a as b bs)
  have c: "cmp a b < 0 \<longleftrightarrow> f a < g b" "cmp a b = 0 \<longleftrightarrow> f a = g b" using 3 by (auto simp: compares_by_def)
  consider "f a < g b" | "f a = g b" | "g b < f a" by fastforce
  then show ?case
  proof cases
    case 1
    then have "f a \<notin> g ` set (b # bs)" using "3.prems"(3) by auto
    with 1 c 3 show ?thesis by simp
  next
    case 2
    have "filter (\<lambda>x. f x \<notin> g ` set bs) as = filter (\<lambda>x. f x \<notin> g ` set (b # bs)) as"
      using 2 "3.prems"(2) by (intro filter_cong) auto
    with 2 c 3 show ?thesis by simp
  next
    case 3
    have "filter (\<lambda>x. f x \<notin> g ` set bs) (a # as) = filter (\<lambda>x. f x \<notin> g ` set (b # bs)) (a # as)"
      using 3 "3.prems"(2) by (intro filter_cong) auto
    with 3 c "3.IH"(3) "3.prems" show ?thesis by (auto simp del: filter.simps)
  qed
qed auto

section \<open>Binary search\<close>

text \<open>
  The key against a strictly sorted array: once it is not above an item, it is below all later ones, and
  above all items before one that it is not below.
\<close>

definition key_ordered :: "('a \<Rightarrow> int) \<Rightarrow> 'a list \<Rightarrow> bool" where
  "key_ordered cmp arr \<longleftrightarrow> (\<forall>i j. i < j \<and> j < length arr \<longrightarrow>
     (cmp (arr ! i) \<le> 0 \<longrightarrow> cmp (arr ! j) < 0) \<and> (cmp (arr ! j) \<ge> 0 \<longrightarrow> cmp (arr ! i) > 0))"

definition is_lower_bound :: "('a \<Rightarrow> int) \<Rightarrow> 'a list \<Rightarrow> nat \<Rightarrow> bool" where
  "is_lower_bound cmp arr r \<longleftrightarrow> r \<le> length arr \<and> (\<forall>i < r. cmp (arr ! i) > 0) \<and> (\<forall>i. r \<le> i \<and> i < length arr \<longrightarrow> cmp (arr ! i) \<le> 0)"

declare lower_bound_loop.simps [simp del]

lemma key_orderedD:
  assumes "key_ordered cmp arr" and "i < j" and "j < length arr"
  shows "cmp (arr ! i) \<le> 0 \<Longrightarrow> cmp (arr ! j) < 0" and "cmp (arr ! j) \<ge> 0 \<Longrightarrow> cmp (arr ! i) > 0"
  using assms unfolding key_ordered_def by blast+

text \<open>What the loop knows: the key is above everything left of \<open>a\<close> and below everything right of \<open>b\<close>.\<close>

definition search_inv :: "('a \<Rightarrow> int) \<Rightarrow> 'a list \<Rightarrow> int \<Rightarrow> int \<Rightarrow> bool" where
  "search_inv cmp arr a b \<longleftrightarrow> 0 \<le> a \<and> 0 \<le> b \<and> a \<le> b + 1 \<and> b < int (length arr)
     \<and> (\<forall>i. int i < a \<longrightarrow> cmp (arr ! i) > 0) \<and> (\<forall>i. b < int i \<and> i < length arr \<longrightarrow> cmp (arr ! i) < 0)"

lemma search_left:
  assumes "search_inv cmp arr a b" and "key_ordered cmp arr" and "a \<le> c" and "0 < c" and "c < b" and "cmp (arr ! nat c) < 0"
  shows "search_inv cmp arr a (c - 1)"
proof -
  have "cmp (arr ! i) < 0" if "c - 1 < int i" "i < length arr" for i
  proof (cases "i = nat c")
    case False
    with that assms(4) have "nat c < i" by linarith
    from key_orderedD(1) [OF assms(2) this that(2)] assms(6) show ?thesis by simp
  qed (use assms(6) in simp)
  with assms show ?thesis by (simp add: search_inv_def)
qed

lemma search_right:
  assumes "search_inv cmp arr a b" and "key_ordered cmp arr" and "a \<le> c" and "0 \<le> c" and "c < b" and "cmp (arr ! nat c) > 0"
  shows "search_inv cmp arr (c + 1) b"
proof -
  have len: "nat c < length arr" using assms(1,4,5) by (auto simp: search_inv_def)
  have "cmp (arr ! i) > 0" if "int i < c + 1" for i
  proof (cases "i = nat c")
    case False
    with that assms(4) have "i < nat c" by linarith
    from key_orderedD(2) [OF assms(2) this len] assms(6) show ?thesis by simp
  qed (use assms(6) in simp)
  with assms show ?thesis by (simp add: search_inv_def)
qed

lemma lower_bound_at:
  assumes "key_ordered cmp arr" and "c < length arr" and "cmp (arr ! c) = 0"
  shows "is_lower_bound cmp arr c"
proof -
  have "cmp (arr ! i) > 0" if "i < c" for i using key_orderedD(2) [OF assms(1) that assms(2)] assms(3) by simp
  moreover have "cmp (arr ! i) \<le> 0" if "c \<le> i" "i < length arr" for i
    using key_orderedD(1) [OF assms(1) _ that(2), of c] assms(3) that(1) by (cases "i = c") auto
  ultimately show ?thesis using assms(2) by (simp add: is_lower_bound_def)
qed

lemma lower_bound_end:
  assumes inv: "search_inv cmp arr a b" and ord: "key_ordered cmp arr" and "\<not> a < b"
  defines "r \<equiv> nat (if cmp (arr ! nat b) > 0 then b + 1 else b)"
  shows "is_lower_bound cmp arr r"
proof -
  have f: "0 \<le> b" "b < int (length arr)" "b = a \<or> b = a - 1" using inv assms(3) by (auto simp: search_inv_def)
  have left: "\<And>i. int i < a \<Longrightarrow> cmp (arr ! i) > 0" and right: "\<And>i. b < int i \<Longrightarrow> i < length arr \<Longrightarrow> cmp (arr ! i) < 0"
    using inv by (auto simp: search_inv_def)
  show ?thesis
  proof (cases "cmp (arr ! nat b) > 0")
    case True
    then have r: "int r = b + 1" using f(1) by (simp add: r_def)
    have "cmp (arr ! i) > 0" if "i < r" for i
    proof (cases "int i < a")
      case False
      then have "i = nat b" using that r f(3) by linarith
      with True show ?thesis by simp
    qed (rule left)
    moreover have "cmp (arr ! i) \<le> 0" if "r \<le> i" "i < length arr" for i
      using right [of i] that r by simp
    ultimately show ?thesis using r f(2) by (simp add: is_lower_bound_def)
  next
    case False
    then have r: "int r = b" using f(1) by (simp add: r_def)
    have "b = a" using False f(3) left [of "nat b"] f(1) by fastforce
    have "cmp (arr ! i) > 0" if "i < r" for i using left [of i] that r \<open>b = a\<close> by simp
    moreover have "cmp (arr ! i) \<le> 0" if "r \<le> i" "i < length arr" for i
    proof (cases "i = nat b")
      case F: False
      then have "b < int i" using that(1) r by linarith
      from right [OF this that(2)] show ?thesis by simp
    qed (use False in simp)
    ultimately show ?thesis using r f(2) by (simp add: is_lower_bound_def)
  qed
qed

lemma lower_bound_loop_ok:
  assumes ord: "key_ordered cmp arr" and first: "cmp (arr ! 0) \<ge> 0" and "search_inv cmp arr a b"
  shows "\<exists>r. lower_bound_loop cmp arr a b = Some (int r) \<and> is_lower_bound cmp arr r"
  using assms(3)
proof (induction "nat (b - a)" arbitrary: a b rule: less_induct)
  case less
  have f: "0 \<le> a" "0 \<le> b" "b < int (length arr)" using less.prems by (simp_all add: search_inv_def)
  show ?case
  proof (cases "b > a")
    case True
    define c where "c = a + (b - a) div 2"
    have c: "a \<le> c" "c < b" "0 \<le> c" "c < int (length arr)" using True f by (auto simp: c_def)
    have unfold: "lower_bound_loop cmp arr a b =
        (if cmp (arr ! nat c) < 0 then lower_bound_loop cmp arr a (c - 1)
         else if cmp (arr ! nat c) > 0 then lower_bound_loop cmp arr (c + 1) b else Some c)"
      unfolding lower_bound_loop.simps [of cmp arr a b] Let_def c_def [symmetric] using True c by simp
    consider "cmp (arr ! nat c) < 0" | "cmp (arr ! nat c) > 0" | "cmp (arr ! nat c) = 0"
      using linorder_less_linear [of "cmp (arr ! nat c)" 0] by blast
    then show ?thesis
    proof cases
      case 1
      have "c \<noteq> 0"
      proof
        assume "c = 0"
        with 1 first show False by simp
      qed
      with c have "0 < c" by simp
      from less.hyps [OF _ search_left [OF less.prems ord c(1) this c(2) 1]] c 1 unfold show ?thesis by simp
    next
      case 2
      from less.hyps [OF _ search_right [OF less.prems ord c(1,3,2) 2]] c 2 unfold show ?thesis by simp
    next
      case 3
      have "is_lower_bound cmp arr (nat c)" using lower_bound_at [OF ord _ 3] c by simp
      with 3 unfold c show ?thesis by (intro exI [of _ "nat c"]) simp
    qed
  next
    case False
    have "lower_bound_loop cmp arr a b = Some (if cmp (arr ! nat b) > 0 then b + 1 else b)"
      using False f by (subst lower_bound_loop.simps) simp
    moreover have "0 \<le> (if cmp (arr ! nat b) > 0 then b + 1 else b)" using f by simp
    ultimately show ?thesis using lower_bound_end [OF less.prems ord False] by (metis int_nat_eq)
  qed
qed

section \<open>Properties\<close>

text \<open>
  C27. The set algorithms on strictly sorted arrays are set difference and union, and their output is
  strictly sorted. \<open>mdv_exclude\<close>, which compacts the first array in place while it reads it, leaves in the
  first positions exactly the items whose key does not occur in the second array, in their order, and returns
  their number.
\<close>

theorem sorted_set_algorithms:
  assumes "sorted_wrt (<) as" and "sorted_wrt (<) bs"
    and "compares_by cmp f g" and "sorted_wrt (<) (map f xs)" and "sorted_wrt (<) (map g ys)"
  shows "mdv_diff_u32 as bs = filter (\<lambda>x. x \<notin> set bs) as
       \<and> set (mdv_union_u32 as bs) = set as \<union> set bs \<and> sorted_wrt (<) (mdv_union_u32 as bs)
       \<and> (case mdv_exclude cmp xs ys of (arr, n) \<Rightarrow>
            length arr = length xs \<and> take n arr = filter (\<lambda>x. f x \<notin> g ` set ys) xs)"
  using diff_set [OF assms(1,2)] union_set [of as bs] union_sorted [OF assms(1,2)]
    exclude_loop_list [of 0 0 xs cmp ys] exclude_list_filter [OF assms(3-5)]
  by (auto simp: mdv_exclude_def split: prod.splits)

theorem sorted_set_algorithms_witness:
  "mdv_diff_u32 [1,2,4,7] [2,3,7] = [1,4]
     \<and> take 2 (fst (mdv_exclude (\<lambda>a b. int (fst a) - int b) [(1,''a''),(2,''b''),(4,''c'')] [2,3])) = [(1,''a''),(4,''c'')]"
proof -
  let ?cmp = "\<lambda>a b. int (fst a) - int b" and ?xs = "[(1,''a''),(2,''b''),(4,''c'')]"
  have "compares_by ?cmp fst (\<lambda>b. b)" by (auto simp: compares_by_def)
  moreover have "sorted_wrt (<) [1,2,4,7::u32]" "sorted_wrt (<) [2,3,7::u32]" by (simp_all add: word_less_nat_alt)
  moreover have "snd (mdv_exclude ?cmp ?xs [2,3]) = 2" by code_simp
  ultimately show ?thesis
    using sorted_set_algorithms [of "[1,2,4,7]" "[2,3,7]" ?cmp fst "\<lambda>b. b" ?xs "[2,3]"]
    by (auto simp: split_beta)
qed

text \<open>
  \<open>mdv_lower_bound\<close> on a strictly sorted array returns the lower bound of every key that is not
  below the first item: everything before the returned position is below the key and nothing from it on. It
  reads only inside the array.
\<close>

theorem lower_bound_correct:
  assumes "arr \<noteq> []" and "key_ordered cmp arr" and "cmp (arr ! 0) \<ge> 0"
  shows "\<exists>r. mdv_lower_bound cmp arr = Some (Inr (int r)) \<and> r \<le> length arr
           \<and> (\<forall>i < r. cmp (arr ! i) > 0) \<and> (\<forall>i. r \<le> i \<and> i < length arr \<longrightarrow> cmp (arr ! i) \<le> 0)"
proof -
  have "search_inv cmp arr 0 (int (length arr) - 1)"
    using assms(1) by (cases arr) (auto simp: search_inv_def)
  from lower_bound_loop_ok [OF assms(2,3) this] assms(1) show ?thesis
    by (auto simp: mdv_lower_bound_def is_lower_bound_def)
qed

theorem lower_bound_correct_witness:
  "\<exists>r. mdv_lower_bound (\<lambda>x. 5 - x) [1, 4, 6, 9] = Some (Inr (int r)) \<and> (\<forall>i < r. [1, 4, 6, 9 :: int] ! i < 5)"
proof -
  have "sorted_wrt (<) [1, 4, 6, 9 :: int]" by simp
  then have "key_ordered (\<lambda>x. 5 - x) [1, 4, 6, 9 :: int]"
    by (fastforce simp: key_ordered_def sorted_wrt_iff_nth_less)
  with lower_bound_correct [of "[1, 4, 6, 9 :: int]" "\<lambda>x. 5 - x"] show ?thesis by auto
qed

text \<open>
  A key below the first item takes \<open>mdv_lower_bound\<close> out of the array: on every array of two items
  the upper pointer moves to the item before the first, and the final comparison reads it.
\<close>

theorem lower_bound_underflow:
  assumes "cmp x < 0"
  shows "mdv_lower_bound cmp [x, y] = None"
  using assms by (simp add: mdv_lower_bound_def lower_bound_loop.simps Let_def)

theorem lower_bound_underflow_witness: "mdv_lower_bound (\<lambda>x. 0 - x) [1, 2 :: int] = None"
  by (rule lower_bound_underflow) simp

end
