(* ===== verification/Mdv_Bitset.thy ===== *)
theory Mdv_Bitset
  imports Mdv_Prelude
begin

text \<open>
  The bit set of src/mdv_platform/generic/mdv_bitset.c over its array of 32-bit words. A position
  outside the array is undefined behaviour. The contract is the locale \<open>position_set\<close>; the interpretation
  \<open>bits\<close> discharges it for the code.
\<close>

unbundle bit_operations_syntax

section \<open>The code\<close>

record mdv_bitset =
  bs_rc :: u32
  bs_size :: nat
  bs_bits :: "u32 list"

definition mdv_bitset_capacity_calc :: "nat \<Rightarrow> nat" where
  "mdv_bitset_capacity_calc sz = (let b = 4 * 8 in b * ((sz + b - 1) div b))"

definition mdv_bitset_capacity :: "mdv_bitset \<Rightarrow> nat" where
  "mdv_bitset_capacity bitset = mdv_bitset_capacity_calc (bs_size bitset)"

text \<open>\<open>memset\<close> over the words of the capacity.\<close>

definition mdv_bitset_fill :: "mdv_bitset \<Rightarrow> bool \<Rightarrow> mdv_bitset" where
  "mdv_bitset_fill bitset val =
     bitset\<lparr>bs_bits := replicate (mdv_bitset_capacity bitset div 32) (if val then 0xFFFFFFFF else 0)\<rparr>"

definition mdv_bitset_create :: "bool \<Rightarrow> nat \<Rightarrow> mdv_bitset option" where
  "mdv_bitset_create alloc sz =
     (if \<not> alloc then None else Some (mdv_bitset_fill \<lparr>bs_rc = 1, bs_size = sz, bs_bits = []\<rparr> False))"

definition mdv_bitset_retain :: "mdv_bitset \<Rightarrow> mdv_bitset" where
  "mdv_bitset_retain bitset = bitset\<lparr>bs_rc := bs_rc bitset + 1\<rparr>"

definition mdv_bitset_release :: "mdv_bitset option \<Rightarrow> mdv_bitset option \<times> u32" where
  "mdv_bitset_release b =
     (case b of None \<Rightarrow> (None, 0)
      | Some bitset \<Rightarrow> let rc = bs_rc bitset - 1 in (if rc = 0 then None else Some (bitset\<lparr>bs_rc := rc\<rparr>), rc))"

definition mdv_bitset_set :: "mdv_bitset \<Rightarrow> nat \<Rightarrow> (mdv_bitset \<times> bool) option" where
  "mdv_bitset_set bitset pos =
     (let b = 8 * 4; n = pos div b; offs = pos mod b in
      if n \<ge> length (bs_bits bitset) then None
      else if drop_bit offs (bs_bits bitset ! n) AND 1 \<noteq> 0 then Some (bitset, False)
      else Some (bitset\<lparr>bs_bits := (bs_bits bitset)[n := bs_bits bitset ! n OR push_bit offs 1]\<rparr>, True))"

definition mdv_bitset_reset :: "mdv_bitset \<Rightarrow> nat \<Rightarrow> mdv_bitset option" where
  "mdv_bitset_reset bitset pos =
     (let b = 8 * 4; n = pos div b; offs = pos mod b in
      if n \<ge> length (bs_bits bitset) then None
      else Some (bitset\<lparr>bs_bits := (bs_bits bitset)[n := bs_bits bitset ! n AND NOT (push_bit offs 1)]\<rparr>))"

definition mdv_bitset_test :: "mdv_bitset \<Rightarrow> nat \<Rightarrow> bool option" where
  "mdv_bitset_test bitset pos =
     (let b = 8 * 4; n = pos div b; offs = pos mod b in
      if n \<ge> length (bs_bits bitset) then None
      else Some (drop_bit offs (bs_bits bitset ! n) AND 1 \<noteq> 0))"

text \<open>The counting loop over the positions \<open>i, i + 1, \<dots>\<close> below \<open>size\<close>.\<close>

definition mdv_bitset_count :: "mdv_bitset \<Rightarrow> bool \<Rightarrow> nat option" where
  "mdv_bitset_count bitset val =
     fold (\<lambda>i acc. case acc of None \<Rightarrow> None | Some n \<Rightarrow>
             (case mdv_bitset_test bitset i of None \<Rightarrow> None | Some t \<Rightarrow> Some (if t = val then n + 1 else n)))
       [0..<bs_size bitset] (Some 0)"

section \<open>The contract\<close>

text \<open>Marking a list of positions, and how many of them were not marked before.\<close>

fun mark_all :: "('b \<Rightarrow> nat \<Rightarrow> ('b \<times> bool) option) \<Rightarrow> 'b \<Rightarrow> nat list \<Rightarrow> ('b \<times> nat) option" where
  "mark_all mark b [] = Some (b, 0)"
| "mark_all mark b (p # ps) =
     (case mark b p of None \<Rightarrow> None | Some (b', fresh) \<Rightarrow>
        map_option (\<lambda>(b'', n). (b'', (if fresh then 1 else 0) + n)) (mark_all mark b' ps))"

locale position_set =
  fixes elems :: "'b \<Rightarrow> nat set"
    and bound :: "'b \<Rightarrow> nat"
    and mark :: "'b \<Rightarrow> nat \<Rightarrow> ('b \<times> bool) option"
    and unmark :: "'b \<Rightarrow> nat \<Rightarrow> 'b option"
    and marked :: "'b \<Rightarrow> nat \<Rightarrow> bool option"
  assumes mark_elems: "p < bound b \<Longrightarrow> \<exists>b'. mark b p = Some (b', p \<notin> elems b) \<and> elems b' = insert p (elems b) \<and> bound b' = bound b"
    and unmark_elems: "p < bound b \<Longrightarrow> \<exists>b'. unmark b p = Some b' \<and> elems b' = elems b - {p} \<and> bound b' = bound b"
    and marked_elems: "p < bound b \<Longrightarrow> marked b p = Some (p \<in> elems b)"
    and finite_elems: "finite (elems b)"
begin

lemma mark_all_counts:
  "list_all (\<lambda>p. p < bound b) ps \<Longrightarrow>
     \<exists>b'. mark_all mark b ps = Some (b', card (set ps - elems b)) \<and> elems b' = elems b \<union> set ps \<and> bound b' = bound b"
proof (induction ps arbitrary: b)
  case Nil
  then show ?case by simp
next
  case (Cons p ps)
  then obtain b1 where b1: "mark b p = Some (b1, p \<notin> elems b)" "elems b1 = insert p (elems b)" "bound b1 = bound b"
    using mark_elems [of p b] by auto
  with Cons obtain b2 where b2: "mark_all mark b1 ps = Some (b2, card (set ps - elems b1))"
    "elems b2 = elems b1 \<union> set ps" "bound b2 = bound b" using Cons.IH [of b1] by auto
  have "card (set (p # ps) - elems b) = (if p \<notin> elems b then 1 else 0) + card (set ps - elems b1)"
  proof (cases "p \<in> elems b")
    case True
    then have "set (p # ps) - elems b = set ps - elems b1" using b1(2) by auto
    with True show ?thesis by simp
  next
    case False
    then have "set (p # ps) - elems b = insert p (set ps - elems b1)" using b1(2) by auto
    moreover have "p \<notin> set ps - elems b1" using b1(2) by simp
    ultimately show ?thesis using False by simp
  qed
  with b1 b2 show ?case by simp
qed

end

section \<open>The words as a set of positions\<close>

definition bitset_elems :: "mdv_bitset \<Rightarrow> nat set" where
  "bitset_elems bitset = {p. p < 32 * length (bs_bits bitset) \<and> bit (bs_bits bitset ! (p div 32)) (p mod 32)}"

definition bitset_bound :: "mdv_bitset \<Rightarrow> nat" where
  "bitset_bound bitset = 32 * length (bs_bits bitset)"

lemma test_bit: "drop_bit n w AND 1 \<noteq> 0 \<longleftrightarrow> bit (w :: u32) n"
  by (simp add: and_one_eq bit_iff_odd_drop_bit odd_iff_mod_2_eq_one)

lemma div_less_words: "p < 32 * n \<longleftrightarrow> p div 32 < (n :: nat)"
  by linarith

lemma same_word: "q div 32 = p div 32 \<Longrightarrow> q mod 32 = p mod 32 \<longleftrightarrow> q = (p :: nat)"
  by (metis mult_div_mod_eq)

lemma elems_update:
  assumes n: "p div 32 < length (bs_bits b)"
    and w: "\<And>k. k < 32 \<Longrightarrow> bit w k = (if k = p mod 32 then v else bit (bs_bits b ! (p div 32)) k)"
  shows "bitset_elems (b\<lparr>bs_bits := (bs_bits b)[p div 32 := w]\<rparr>) =
    (if v then insert p (bitset_elems b) else bitset_elems b - {p})"
proof (rule set_eqI)
  fix q
  show "q \<in> bitset_elems (b\<lparr>bs_bits := (bs_bits b)[p div 32 := w]\<rparr>) \<longleftrightarrow>
    q \<in> (if v then insert p (bitset_elems b) else bitset_elems b - {p})"
  proof (cases "q div 32 = p div 32")
    case True
    show ?thesis using n w [of "q mod 32"] same_word [OF True] by (simp add: bitset_elems_def div_less_words True)
  next
    case False
    then have "q \<noteq> p" by blast
    with False show ?thesis by (simp add: bitset_elems_def)
  qed
qed

interpretation bits: position_set bitset_elems bitset_bound mdv_bitset_set mdv_bitset_reset mdv_bitset_test
proof (unfold_locales, goal_cases)
  case (1 p b)
  then have n: "p div 32 < length (bs_bits b)" by (simp add: bitset_bound_def div_less_words)
  let ?b = "b\<lparr>bs_bits := (bs_bits b)[p div 32 := bs_bits b ! (p div 32) OR push_bit (p mod 32) 1]\<rparr>"
  show ?case
  proof (cases "p \<in> bitset_elems b")
    case True
    then have "mdv_bitset_set b p = Some (b, False)"
      using n by (simp add: mdv_bitset_set_def Let_def test_bit bitset_elems_def)
    with True show ?thesis by (auto simp: bitset_bound_def)
  next
    case False
    then have "mdv_bitset_set b p = Some (?b, True)"
      using n by (simp add: mdv_bitset_set_def Let_def test_bit bitset_elems_def div_less_words)
    moreover have "bitset_elems ?b = insert p (bitset_elems b)"
      using elems_update [OF n, of _ True] by (simp add: bit_or_iff bit_push_bit_iff bit_exp_iff)
    ultimately show ?thesis using False by (simp add: bitset_bound_def)
  qed
next
  case (2 p b)
  then have n: "p div 32 < length (bs_bits b)" by (simp add: bitset_bound_def div_less_words)
  let ?b = "b\<lparr>bs_bits := (bs_bits b)[p div 32 := bs_bits b ! (p div 32) AND NOT (push_bit (p mod 32) 1)]\<rparr>"
  have "bitset_elems ?b = bitset_elems b - {p}"
    using elems_update [OF n, of _ False] by (simp add: bit_and_iff bit_not_iff bit_push_bit_iff bit_exp_iff)
  moreover have "mdv_bitset_reset b p = Some ?b" using n by (simp add: mdv_bitset_reset_def Let_def)
  ultimately show ?case by (simp add: bitset_bound_def)
next
  case (3 p b)
  then show ?case by (simp add: mdv_bitset_test_def Let_def test_bit bitset_elems_def bitset_bound_def div_less_words)
next
  case (4 b)
  show ?case by (simp add: bitset_elems_def)
qed

section \<open>Creation, filling and counting\<close>

lemma capacity_calc: "mdv_bitset_capacity_calc sz = 32 * ((sz + 31) div 32)"
  by (simp add: mdv_bitset_capacity_calc_def Let_def)

lemma capacity_covers: "sz \<le> mdv_bitset_capacity_calc sz"
  unfolding capacity_calc by linarith

lemma fill_bound: "bitset_bound (mdv_bitset_fill b val) = mdv_bitset_capacity b"
  by (simp add: bitset_bound_def mdv_bitset_fill_def mdv_bitset_capacity_def capacity_calc)

lemma bit_all_ones: "n < 32 \<Longrightarrow> bit (0xFFFFFFFF :: u32) n"
proof -
  assume n: "n < 32"
  have ones: "(0xFFFFFFFF :: u32) = - 1" by simp
  show ?thesis unfolding ones using n by (simp only: bit_minus_1_iff possible_bit_word) simp
qed

lemma fill_elems: "bitset_elems (mdv_bitset_fill b val) = (if val then {..<mdv_bitset_capacity b} else {})"
proof -
  have w: "length (bs_bits (mdv_bitset_fill b val)) = mdv_bitset_capacity b div 32"
    "32 * (mdv_bitset_capacity b div 32) = mdv_bitset_capacity b"
    by (simp_all add: mdv_bitset_fill_def mdv_bitset_capacity_def capacity_calc)
  have "bit (bs_bits (mdv_bitset_fill b val) ! (p div 32)) (p mod 32) = val" if "p < mdv_bitset_capacity b" for p
  proof -
    have "p div 32 < mdv_bitset_capacity b div 32" using that w(2) by (metis div_less_words)
    then show ?thesis using bit_all_ones [of "p mod 32"] by (simp add: mdv_bitset_fill_def)
  qed
  then show ?thesis unfolding bitset_elems_def w by auto
qed

lemma count_fold:
  assumes "k \<le> bitset_bound b"
  shows "fold (\<lambda>i acc. case acc of None \<Rightarrow> None | Some n \<Rightarrow>
             (case mdv_bitset_test b i of None \<Rightarrow> None | Some t \<Rightarrow> Some (if t = val then n + 1 else n)))
       [0..<k] (Some 0) = Some (card {i. i < k \<and> (i \<in> bitset_elems b) = val})"
  using assms
proof (induction k)
  case 0
  then show ?case by simp
next
  case (Suc k)
  have "{i. i < Suc k \<and> (i \<in> bitset_elems b) = val} =
    (if (k \<in> bitset_elems b) = val then insert k {i. i < k \<and> (i \<in> bitset_elems b) = val}
     else {i. i < k \<and> (i \<in> bitset_elems b) = val})" by (auto simp: less_Suc_eq)
  with Suc show ?case by (simp add: bits.marked_elems)
qed

text \<open>
  C28. A fresh bit set of any size holds nothing and covers its positions; on every position of the array
  \<open>mdv_bitset_set\<close> adds it and tells whether it was new, \<open>mdv_bitset_reset\<close> removes it, \<open>mdv_bitset_test\<close> tells
  membership; filling gives all or no positions of the capacity, and \<open>mdv_bitset_count\<close> is the number of
  positions below the size with the asked value.
\<close>
theorem bitset_refines_set:
  assumes "p < bitset_bound b" "bs_size b \<le> bitset_bound b"
  shows "(\<exists>f. mdv_bitset_create True sz = Some f \<and> bitset_elems f = {} \<and> sz \<le> bitset_bound f \<and> bs_size f = sz) \<and>
    (\<exists>b'. mdv_bitset_set b p = Some (b', p \<notin> bitset_elems b) \<and> bitset_elems b' = insert p (bitset_elems b) \<and> bitset_bound b' = bitset_bound b) \<and>
    (\<exists>b'. mdv_bitset_reset b p = Some b' \<and> bitset_elems b' = bitset_elems b - {p} \<and> bitset_bound b' = bitset_bound b) \<and>
    (mdv_bitset_test b p = Some (p \<in> bitset_elems b)) \<and>
    (bitset_elems (mdv_bitset_fill b val) = (if val then {..<mdv_bitset_capacity b} else {})) \<and>
    (mdv_bitset_count b val = Some (card {i. i < bs_size b \<and> (i \<in> bitset_elems b) = val}))"
proof (intro conjI)
  let ?f = "mdv_bitset_fill \<lparr>bs_rc = 1, bs_size = sz, bs_bits = []\<rparr> False"
  have "bs_size ?f = sz" "mdv_bitset_capacity \<lparr>bs_rc = 1, bs_size = sz, bs_bits = []\<rparr> = mdv_bitset_capacity_calc sz"
    by (simp_all add: mdv_bitset_fill_def mdv_bitset_capacity_def)
  then show "\<exists>f. mdv_bitset_create True sz = Some f \<and> bitset_elems f = {} \<and> sz \<le> bitset_bound f \<and> bs_size f = sz"
    by (simp add: mdv_bitset_create_def fill_elems fill_bound capacity_covers)
  show "mdv_bitset_count b val = Some (card {i. i < bs_size b \<and> (i \<in> bitset_elems b) = val})"
    unfolding mdv_bitset_count_def by (rule count_fold [OF assms(2)])
qed (use assms in \<open>auto intro: bits.mark_elems bits.unmark_elems bits.marked_elems simp: fill_elems\<close>)

theorem bitset_refines_set_witness:
  "\<exists>b'. mdv_bitset_set \<lparr>bs_rc = 1, bs_size = 40, bs_bits = [5, 0]\<rparr> 34 = Some (b', True) \<and>
     34 \<in> bitset_elems b'"
proof -
  let ?b = "\<lparr>bs_rc = 1, bs_size = 40, bs_bits = [5, 0]\<rparr> :: mdv_bitset"
  have b: "34 < bitset_bound ?b" "bs_size ?b \<le> bitset_bound ?b" by (simp_all add: bitset_bound_def)
  have "34 \<notin> bitset_elems ?b" by (simp add: bitset_elems_def)
  then show ?thesis using bitset_refines_set [OF b, of 0 True] by auto
qed

end
