(* ===== verification/Mdv_Bloom.thy ===== *)
theory Mdv_Bloom
  imports Mdv_Prelude
begin

text \<open>
  The MurmurHash2A function (src/mdv_platform/generic/mdv_hash.c) and the Bloom filter over it
  (src/mdv_platform/generic/mdv_bloom.c). The two numbers that \<open>mdv_bloom_create\<close> computes in floating
  point, the number of bits and the number of hash functions, are arguments of the model. The hashed
  buffer is the list of its \<open>len\<close> bytes; words are read in little-endian order, as on the supported hosts.
\<close>

unbundle bit_operations_syntax

section \<open>The hash function\<close>

definition murmur_m :: u32 where
  "murmur_m = 0x5bd1e995"

definition mdv_hash_murmur_mix :: "u32 \<Rightarrow> u32 \<Rightarrow> u32" where
  "mdv_hash_murmur_mix h k =
     (let k = k * murmur_m; k = k XOR drop_bit 24 k; k = k * murmur_m in (h * murmur_m) XOR k)"

text \<open>The loop over the whole words; what is left are the last zero to three bytes.\<close>

fun murmur_words :: "u32 \<Rightarrow> bytes \<Rightarrow> u32 \<times> bytes" where
  "murmur_words h (b0 # b1 # b2 # b3 # rest) =
     murmur_words (mdv_hash_murmur_mix h
        (ucast b0 OR push_bit 8 (ucast b1) OR push_bit 16 (ucast b2) OR push_bit 24 (ucast b3))) rest"
| "murmur_words h tail = (h, tail)"

definition murmur_tail :: "bytes \<Rightarrow> u32" where
  "murmur_tail buff =
     (case buff of
        [b0, b1, b2] \<Rightarrow> push_bit 16 (ucast b2) XOR push_bit 8 (ucast b1) XOR ucast b0
      | [b0, b1] \<Rightarrow> push_bit 8 (ucast b1) XOR ucast b0
      | [b0] \<Rightarrow> ucast b0
      | _ \<Rightarrow> 0)"

definition mdv_hash_murmur2a :: "bytes \<Rightarrow> u32 \<Rightarrow> u32" where
  "mdv_hash_murmur2a data seed =
     (let (h, buff) = murmur_words seed data;
          h = mdv_hash_murmur_mix h (murmur_tail buff);
          h = mdv_hash_murmur_mix h (of_nat (length data));
          h = h XOR drop_bit 13 h;
          h = h * murmur_m
      in h XOR drop_bit 15 h)"

section \<open>The filter\<close>

record mdv_bloom =
  bl_bits :: nat
  bl_capacity :: u32
  bl_size :: u32
  bl_hashes :: u32
  bl_bf :: bytes

definition MDV_HASH_SEED :: u32 where
  "MDV_HASH_SEED = 836091947"

definition MDV_BLOOM_BYTES :: "nat \<Rightarrow> nat" where
  "MDV_BLOOM_BYTES b = (b + 7) div 8"

definition mdv_bloom_create :: "bool \<Rightarrow> nat \<Rightarrow> u32 \<Rightarrow> u32 \<Rightarrow> mdv_bloom option" where
  "mdv_bloom_create alloc nbits hash_fns entries =
     (if \<not> alloc then None
      else Some \<lparr>bl_bits = nbits, bl_capacity = entries, bl_size = 0, bl_hashes = hash_fns,
                 bl_bf = replicate (MDV_BLOOM_BYTES nbits) 0\<rparr>)"

text \<open>The bit that hash function \<open>i\<close> selects; a filter of no bits divides by zero.\<close>

definition bloom_bit :: "mdv_bloom \<Rightarrow> bytes \<Rightarrow> nat \<Rightarrow> nat option" where
  "bloom_bit bloom data i =
     (if bl_bits bloom = 0 then None
      else Some (unat (mdv_hash_murmur2a data (of_nat i * MDV_HASH_SEED)) mod bl_bits bloom))"

text \<open>The body of the insertion loop over the hash functions \<open>i\<close>.\<close>

fun bloom_insert_loop :: "bytes \<Rightarrow> nat list \<Rightarrow> mdv_bloom \<times> bool \<Rightarrow> (mdv_bloom \<times> bool) option" where
  "bloom_insert_loop data [] (bloom, is_changed) = Some (bloom, is_changed)"
| "bloom_insert_loop data (i # is) (bloom, is_changed) =
     (case bloom_bit bloom data i of None \<Rightarrow> None
      | Some b \<Rightarrow>
          (let byte = b div 8; offset = b mod 8 in
           if byte \<ge> length (bl_bf bloom) then None
           else bloom_insert_loop data is
                  (bloom\<lparr>bl_bf := (bl_bf bloom)[byte := bl_bf bloom ! byte OR push_bit offset 1]\<rparr>,
                   is_changed \<or> drop_bit offset (bl_bf bloom ! byte) = 0)))"

definition mdv_bloom_insert :: "mdv_bloom \<Rightarrow> bytes \<Rightarrow> (mdv_bloom \<times> bool) option" where
  "mdv_bloom_insert bloom data =
     (if bl_size bloom \<ge> bl_capacity bloom then Some (bloom, False)
      else case bloom_insert_loop data [0..<unat (bl_hashes bloom)] (bloom, False) of
             None \<Rightarrow> None
           | Some (bloom', is_changed) \<Rightarrow>
               Some (if is_changed then bloom'\<lparr>bl_size := bl_size bloom' + 1\<rparr> else bloom', is_changed))"

fun bloom_contains_loop :: "bytes \<Rightarrow> nat list \<Rightarrow> mdv_bloom \<Rightarrow> bool option" where
  "bloom_contains_loop data [] bloom = Some True"
| "bloom_contains_loop data (i # is) bloom =
     (case bloom_bit bloom data i of None \<Rightarrow> None
      | Some b \<Rightarrow>
          (let byte = b div 8; offset = b mod 8 in
           if byte \<ge> length (bl_bf bloom) then None
           else if drop_bit offset (bl_bf bloom ! byte) = 0 then Some False
           else bloom_contains_loop data is bloom))"

definition mdv_bloom_contains :: "mdv_bloom \<Rightarrow> bytes \<Rightarrow> bool option" where
  "mdv_bloom_contains bloom data = bloom_contains_loop data [0..<unat (bl_hashes bloom)] bloom"

section \<open>The hash is a permutation of the seed\<close>

definition murmur_inv :: u32 where
  "murmur_inv = 0xe59b19bd"

lemma murmur_inv: "murmur_m * murmur_inv = 1"
  by (simp add: murmur_m_def murmur_inv_def)

lemma mult_murmur_inject: "a * murmur_m = b * murmur_m \<longleftrightarrow> a = b"
proof
  assume "a * murmur_m = b * murmur_m"
  then have "a * murmur_m * murmur_inv = b * murmur_m * murmur_inv" by simp
  then show "a = b" by (simp add: mult.assoc murmur_inv)
qed simp

lemma xor_inject: "a XOR k = b XOR k \<longleftrightarrow> a = (b :: u32)"
proof
  assume "a XOR k = b XOR k"
  then have "(a XOR k) XOR k = (b XOR k) XOR k" by simp
  then show "a = b" by (simp add: xor.assoc)
qed simp

lemma xorshift_inverse:
  fixes x :: u32
  assumes "32 \<le> n + n + n" and y: "y = x XOR drop_bit n x"
  shows "y XOR drop_bit n y XOR drop_bit (n + n) y = x"
proof (rule bit_word_eqI)
  fix k assume "k < LENGTH(32)"
  have "\<not> bit x (k + (n + (n + n)))" using assms bit_imp_le_length [of x "k + (n + (n + n))"] by auto
  then show "bit (y XOR drop_bit n y XOR drop_bit (n + n) y) k = bit x k"
    unfolding y bit_xor_iff bit_drop_bit_eq comp_def by (simp only: ac_simps) blast
qed

lemma xorshift_inject:
  assumes "32 \<le> n + n + n" "x XOR drop_bit n x = y XOR drop_bit n (y :: u32)"
  shows "x = y"
  using xorshift_inverse [OF assms(1) refl, of x] xorshift_inverse [OF assms(1) refl, of y] unfolding assms(2) by simp

lemma mix_inject: "mdv_hash_murmur_mix h k = mdv_hash_murmur_mix h' k \<longleftrightarrow> h = h'"
  by (simp add: mdv_hash_murmur_mix_def Let_def xor_inject mult_murmur_inject)

lemma murmur_words_inject: "snd (murmur_words h data) = snd (murmur_words h' data) \<and>
    (fst (murmur_words h data) = fst (murmur_words h' data) \<longleftrightarrow> h = h')"
  by (induction h data arbitrary: h' rule: murmur_words.induct) (simp_all add: mix_inject)

text \<open>
  For a fixed buffer the hash is a permutation of the seed: two different seeds never give the same
  hash, so the hash functions of the Bloom filter that have different seeds differ on every item.
\<close>
theorem murmur2a_seed_injective:
  "mdv_hash_murmur2a data s = mdv_hash_murmur2a data s' \<longleftrightarrow> s = s'"
proof
  assume eq: "mdv_hash_murmur2a data s = mdv_hash_murmur2a data s'"
  let ?w = "\<lambda>s. fst (murmur_words s data)" and ?t = "\<lambda>s. snd (murmur_words s data)"
  let ?h = "\<lambda>s. mdv_hash_murmur_mix (mdv_hash_murmur_mix (?w s) (murmur_tail (?t s))) (of_nat (length data))"
  let ?g = "\<lambda>s. ?h s XOR drop_bit 13 (?h s)"
  have "?g s * murmur_m XOR drop_bit 15 (?g s * murmur_m) = ?g s' * murmur_m XOR drop_bit 15 (?g s' * murmur_m)"
    using eq by (simp add: mdv_hash_murmur2a_def Let_def case_prod_unfold)
  then have "?g s * murmur_m = ?g s' * murmur_m" by (rule xorshift_inject [rotated]) simp
  then have "?g s = ?g s'" by (simp only: mult_murmur_inject)
  then have "?h s = ?h s'" by (rule xorshift_inject [rotated]) simp
  then show "s = s'" using murmur_words_inject [of s data s'] by (simp add: mix_inject)
qed simp

section \<open>The filter as a set of bit positions\<close>

definition bloom_ok :: "mdv_bloom \<Rightarrow> bool" where
  "bloom_ok bloom \<longleftrightarrow> 0 < bl_bits bloom \<and> length (bl_bf bloom) = MDV_BLOOM_BYTES (bl_bits bloom)"

definition bloom_bits :: "mdv_bloom \<Rightarrow> nat set" where
  "bloom_bits bloom = {p. p div 8 < length (bl_bf bloom) \<and> bit (bl_bf bloom ! (p div 8)) (p mod 8)}"

definition selected :: "mdv_bloom \<Rightarrow> bytes \<Rightarrow> nat \<Rightarrow> nat" where
  "selected bloom data i = unat (mdv_hash_murmur2a data (of_nat i * MDV_HASH_SEED)) mod bl_bits bloom"

lemma bloom_bit_selected: "bloom_ok bloom \<Longrightarrow> bloom_bit bloom data i = Some (selected bloom data i)"
  by (simp add: bloom_bit_def selected_def bloom_ok_def)

lemma selected_inside: "bloom_ok bloom \<Longrightarrow> selected bloom data i div 8 < length (bl_bf bloom)"
proof -
  assume ok: "bloom_ok bloom"
  then have "selected bloom data i < bl_bits bloom" by (simp add: selected_def bloom_ok_def)
  with ok show ?thesis by (auto simp: bloom_ok_def MDV_BLOOM_BYTES_def) 
qed

lemma bits_update:
  fixes bloom :: mdv_bloom
  defines "bloom' p \<equiv> bloom\<lparr>bl_bf := (bl_bf bloom)[p div 8 := bl_bf bloom ! (p div 8) OR push_bit (p mod 8) 1]\<rparr>"
  assumes "p div 8 < length (bl_bf bloom)"
  shows "bloom_bits (bloom' p) = insert p (bloom_bits bloom)"
proof (rule set_eqI)
  fix q
  have "q div 8 = p div 8 \<Longrightarrow> p mod 8 = q mod 8 \<longleftrightarrow> q = p" by (metis mult_div_mod_eq)
  then show "q \<in> bloom_bits (bloom' p) \<longleftrightarrow> q \<in> insert p (bloom_bits bloom)"
    using assms(2) by (cases "q div 8 = p div 8") (auto simp: bloom_bits_def bloom'_def bit_or_iff bit_push_bit_iff bit_exp_iff)
qed

lemma insert_loop_ok:
  "bloom_ok bloom \<Longrightarrow> \<exists>bloom' c'. bloom_insert_loop data is (bloom, c) = Some (bloom', c') \<and> bloom_ok bloom' \<and>
     bloom_bits bloom' = bloom_bits bloom \<union> selected bloom data ` set is \<and>
     bl_bits bloom' = bl_bits bloom \<and> bl_hashes bloom' = bl_hashes bloom"
proof (induction "is" arbitrary: bloom c)
  case Nil
  then show ?case by simp
next
  case (Cons i "is")
  let ?p = "selected bloom data i"
  let ?b = "bloom\<lparr>bl_bf := (bl_bf bloom)[?p div 8 := bl_bf bloom ! (?p div 8) OR push_bit (?p mod 8) 1]\<rparr>"
  have b: "bloom_ok ?b" "selected ?b data = selected bloom data" "bl_bits ?b = bl_bits bloom" "bl_hashes ?b = bl_hashes bloom"
    using Cons.prems by (auto simp: bloom_ok_def selected_def)
  have "bloom_bits ?b = insert ?p (bloom_bits bloom)" by (rule bits_update [OF selected_inside [OF Cons.prems]])
  with Cons.IH [OF b(1), of "c \<or> drop_bit (?p mod 8) (bl_bf bloom ! (?p div 8)) = 0"] b
  show ?case using selected_inside [OF Cons.prems, of data i]
    by (simp add: bloom_bit_selected [OF Cons.prems] Let_def)
qed

lemma insert_ok:
  assumes "bloom_ok bloom"
  shows "\<exists>bloom' c. mdv_bloom_insert bloom data = Some (bloom', c) \<and> bloom_ok bloom' \<and> bloom_bits bloom \<subseteq> bloom_bits bloom' \<and>
    (bl_size bloom < bl_capacity bloom \<longrightarrow> selected bloom data ` {0..<unat (bl_hashes bloom)} \<subseteq> bloom_bits bloom') \<and>
    bl_bits bloom' = bl_bits bloom \<and> bl_hashes bloom' = bl_hashes bloom"
proof -
  obtain b' c where b': "bloom_insert_loop data [0..<unat (bl_hashes bloom)] (bloom, False) = Some (b', c)" "bloom_ok b'"
    "bloom_bits b' = bloom_bits bloom \<union> selected bloom data ` {0..<unat (bl_hashes bloom)}"
    "bl_bits b' = bl_bits bloom" "bl_hashes b' = bl_hashes bloom"
    using insert_loop_ok [OF assms, of data "[0..<unat (bl_hashes bloom)]" False] by auto
  let ?b = "if c then b'\<lparr>bl_size := bl_size b' + 1\<rparr> else b'"
  have "bloom_ok ?b" "bloom_bits ?b = bloom_bits b'" "bl_bits ?b = bl_bits b'" "bl_hashes ?b = bl_hashes b'"
    using b'(2) by (auto simp: bloom_ok_def bloom_bits_def)
  moreover have "mdv_bloom_insert bloom data = Some (?b, c)" if "bl_size bloom < bl_capacity bloom"
    using that b'(1) by (auto simp: mdv_bloom_insert_def)
  moreover have "mdv_bloom_insert bloom data = Some (bloom, False)" if "\<not> bl_size bloom < bl_capacity bloom"
    using that by (simp add: mdv_bloom_insert_def)
  ultimately show ?thesis using b'(3-5) assms by (cases "bl_size bloom < bl_capacity bloom") auto
qed

lemma drop_bit_nonzero: "drop_bit n w \<noteq> 0 \<longleftrightarrow> (\<exists>k \<ge> n. bit (w :: u8) k)"
proof -
  have "drop_bit n w = 0 \<longleftrightarrow> (\<forall>k. \<not> bit (drop_bit n w) k)" by (metis bit_0_eq bot_apply bot_bool_def bit_eqI)
  also have "\<dots> \<longleftrightarrow> (\<forall>k. \<not> bit w (n + k))" by (simp add: bit_drop_bit_eq)
  also have "\<dots> \<longleftrightarrow> \<not> (\<exists>k \<ge> n. bit w k)" by (metis le_add1 le_iff_add)
  finally show ?thesis by blast
qed

lemma contains_loop:
  "bloom_ok bloom \<Longrightarrow> bloom_contains_loop data is bloom = Some (\<forall>i \<in> set is.
     \<exists>k \<ge> selected bloom data i mod 8. bit (bl_bf bloom ! (selected bloom data i div 8)) k)"
proof (induction "is")
  case (Cons i "is")
  have "\<not> length (bl_bf bloom) \<le> selected bloom data i div 8" using selected_inside [OF Cons.prems] by (simp add: not_le)
  with Cons show ?case
    using drop_bit_nonzero [of "selected bloom data i mod 8" "bl_bf bloom ! (selected bloom data i div 8)"]
    by (auto simp: bloom_bit_selected Let_def)
qed simp

fun bloom_insert_all :: "mdv_bloom \<Rightarrow> bytes list \<Rightarrow> mdv_bloom option" where
  "bloom_insert_all bloom [] = Some bloom"
| "bloom_insert_all bloom (d # ds) =
     (case mdv_bloom_insert bloom d of None \<Rightarrow> None | Some (bloom', _) \<Rightarrow> bloom_insert_all bloom' ds)"

lemma insert_all_ok:
  "bloom_ok bloom \<Longrightarrow> \<exists>bloom'. bloom_insert_all bloom ds = Some bloom' \<and> bloom_ok bloom' \<and>
     bloom_bits bloom \<subseteq> bloom_bits bloom' \<and> bl_bits bloom' = bl_bits bloom \<and> bl_hashes bloom' = bl_hashes bloom"
proof (induction ds arbitrary: bloom)
  case Nil
  then show ?case by simp
next
  case (Cons d ds)
  from insert_ok [OF Cons.prems, of d] obtain b c where
    "mdv_bloom_insert bloom d = Some (b, c)" "bloom_ok b" "bloom_bits bloom \<subseteq> bloom_bits b"
    "bl_bits b = bl_bits bloom" "bl_hashes b = bl_hashes bloom" by blast
  with Cons.IH [of b] show ?case by auto
qed

text \<open>
  C29. No false negatives: an item inserted into a well-formed filter that is not full is reported as contained
  after the insertion and after any further insertions, whatever they are; and the insertions never leave the
  array. A new filter with at least one bit is well formed.
\<close>
theorem bloom_no_false_negatives:
  assumes "bloom_ok bloom" "bl_size bloom < bl_capacity bloom"
  shows "(\<exists>bloom'. bloom_insert_all bloom (d # ds) = Some bloom' \<and> bloom_ok bloom' \<and> mdv_bloom_contains bloom' d = Some True) \<and>
    (0 < n \<longrightarrow> (\<exists>fresh. mdv_bloom_create True n hs entries = Some fresh \<and> bloom_ok fresh))"
proof (intro conjI)
  from insert_ok [OF assms(1), of d] assms(2) obtain b c where b: "mdv_bloom_insert bloom d = Some (b, c)" "bloom_ok b"
    "selected bloom d ` {0..<unat (bl_hashes bloom)} \<subseteq> bloom_bits b" "bl_bits b = bl_bits bloom" "bl_hashes b = bl_hashes bloom"
    by blast
  from insert_all_ok [OF b(2), of ds] obtain b' where b': "bloom_insert_all b ds = Some b'" "bloom_ok b'"
    "bloom_bits b \<subseteq> bloom_bits b'" "bl_bits b' = bl_bits bloom" "bl_hashes b' = bl_hashes bloom" using b by auto
  have "selected b' d i \<in> bloom_bits b'" if "i < unat (bl_hashes bloom)" for i
  proof -
    have "selected b' d i = selected bloom d i" by (simp add: selected_def b'(4))
    moreover have "selected bloom d i \<in> bloom_bits b" using that b(3) by auto
    ultimately show ?thesis using b'(3) by auto
  qed
  then have "mdv_bloom_contains b' d = Some True"
    unfolding mdv_bloom_contains_def contains_loop [OF b'(2)] by (auto simp: b'(5) bloom_bits_def)
  with b b' show "\<exists>bloom'. bloom_insert_all bloom (d # ds) = Some bloom' \<and> bloom_ok bloom' \<and> mdv_bloom_contains bloom' d = Some True"
    by simp
  show "0 < n \<longrightarrow> (\<exists>fresh. mdv_bloom_create True n hs entries = Some fresh \<and> bloom_ok fresh)"
    by (simp add: mdv_bloom_create_def bloom_ok_def)
qed

theorem bloom_no_false_negatives_witness:
  "\<exists>bloom'. bloom_insert_all \<lparr>bl_bits = 20, bl_capacity = 3, bl_size = 0, bl_hashes = 2, bl_bf = [0, 0, 0]\<rparr>
      [[1, 2, 3], [4]] = Some bloom' \<and> bloom_ok bloom' \<and> mdv_bloom_contains bloom' [1, 2, 3] = Some True"
proof -
  let ?b = "\<lparr>bl_bits = 20, bl_capacity = 3, bl_size = 0, bl_hashes = 2, bl_bf = [0, 0, 0]\<rparr> :: mdv_bloom"
  have "bloom_ok ?b" "bl_size ?b < bl_capacity ?b" by (simp_all add: bloom_ok_def MDV_BLOOM_BYTES_def)
  then show ?thesis using bloom_no_false_negatives by blast
qed

text \<open>
  The loops test \<open>bf[byte] >> offset\<close> without masking the bit, so a higher bit of the same byte counts as
  set: after inserting the one-byte item 3 into a new filter of eight bits and one hash function, the item 0 is
  reported as contained although its only bit is clear, and inserting it reports no change and leaves the
  number of entries as it was.
\<close>
theorem bloom_unmasked_false_positive:
  "let fresh = \<lparr>bl_bits = 8, bl_capacity = 10, bl_size = 0, bl_hashes = 1, bl_bf = [0]\<rparr>;
       one = \<lparr>bl_bits = 8, bl_capacity = 10, bl_size = 1, bl_hashes = 1, bl_bf = [0x40]\<rparr>;
       two = \<lparr>bl_bits = 8, bl_capacity = 10, bl_size = 1, bl_hashes = 1, bl_bf = [0x42]\<rparr>
   in mdv_bloom_create True 8 1 10 = Some fresh \<and> mdv_bloom_insert fresh [3] = Some (one, True) \<and>
      bloom_bit one [0] 0 = Some 1 \<and> \<not> bit (bl_bf one ! 0) 1 \<and> mdv_bloom_contains one [0] = Some True \<and>
      mdv_bloom_insert one [0] = Some (two, False)"
proof -
  have h: "mdv_hash_murmur2a [3] 0 = 0x812D2986" "mdv_hash_murmur2a [0] 0 = 0xB2408361"
    by (simp_all add: mdv_hash_murmur2a_def murmur_tail_def mdv_hash_murmur_mix_def murmur_m_def Let_def)
  show ?thesis
    by (simp add: Let_def mdv_bloom_create_def MDV_BLOOM_BYTES_def mdv_bloom_insert_def mdv_bloom_contains_def
        bloom_bit_def h flip: not_less)
qed

end
