(* ===== verification/Mdv_Uuid.thy ===== *)
theory Mdv_Uuid
  imports Mdv_Prelude
begin

text \<open>
  The identifiers of src/mdv_platform/mdv_uuid.c. A UUID is the pair of its 64-bit halves; the byte view of the
  C union is their little-endian layout. Strings are C strings without their terminating zero. The theory makes
  \<open>mdv_uuid\<close> a linear order by \<open>mdv_uuid_cmp\<close>.
\<close>

unbundle bit_operations_syntax

section \<open>The code\<close>

datatype mdv_uuid = Uuid (uuid_lo: u64) (uuid_hi: u64)

definition uuid_u8 :: "mdv_uuid \<Rightarrow> bytes" where
  "uuid_u8 uuid = le_bytes 8 (unat (uuid_lo uuid)) @ le_bytes 8 (unat (uuid_hi uuid))"

definition uuid_of_u8 :: "bytes \<Rightarrow> mdv_uuid" where
  "uuid_of_u8 u8 = Uuid (of_nat (le_val (take 8 u8))) (of_nat (le_val (take 8 (drop 8 u8))))"

definition mdv_uuid_cmp :: "mdv_uuid \<Rightarrow> mdv_uuid \<Rightarrow> int" where
  "mdv_uuid_cmp a b =
     (if uuid_lo a < uuid_lo b then -1
      else if uuid_lo a > uuid_lo b then 1
      else if uuid_hi a < uuid_hi b then -1
      else if uuid_hi a > uuid_hi b then 1
      else 0)"

definition mdv_uuid_hash :: "mdv_uuid \<Rightarrow> u64" where
  "mdv_uuid_hash a =
     (let FNV_offset_basis = 0x811c9dc5; FNV_prime = 0x01000193;
          hash = (FNV_offset_basis * FNV_prime) XOR uuid_lo a
      in (hash * FNV_prime) XOR uuid_hi a)"

definition hex_chars :: string where
  "hex_chars = ''0123456789ABCDEF''"

definition mdv_uuid_to_str :: "mdv_uuid \<Rightarrow> string" where
  "mdv_uuid_to_str uuid =
     map (\<lambda>i. hex_chars ! unat (drop_bit ((1 - i mod 2) * 4) (uuid_u8 uuid ! (i div 2)) AND 0xF)) [0..<32]"

text \<open>The \<open>switch\<close> over the character.\<close>

definition hex_digit :: "char \<Rightarrow> u8 option" where
  "hex_digit = map_of (zip ''0123456789aAbBcCdDeEfF''
     [0, 1, 2, 3, 4, 5, 6, 7, 8, 9, 10, 10, 11, 11, 12, 12, 13, 13, 14, 14, 15, 15])"

fun from_str_loop :: "nat \<Rightarrow> string \<Rightarrow> bytes \<Rightarrow> bytes \<times> bool" where
  "from_str_loop i [] u8 = (u8, True)"
| "from_str_loop i (c # cs) u8 =
     (case hex_digit c of
        None \<Rightarrow> (u8, False)
      | Some d \<Rightarrow> from_str_loop (i + 1) cs (u8[i div 2 := u8 ! (i div 2) OR push_bit ((1 - i mod 2) * 4) d]))"

text \<open>The result is the UUID behind the pointer after the call and the returned flag.\<close>

definition mdv_uuid_from_str :: "mdv_uuid \<Rightarrow> string option \<Rightarrow> mdv_uuid \<times> bool" where
  "mdv_uuid_from_str uuid str =
     (case str of None \<Rightarrow> (uuid, False)
      | Some s \<Rightarrow>
          if length s \<noteq> 2 * 16 then (uuid, False)
          else let (u8, ok) = from_str_loop 0 s (uuid_u8 (Uuid 0 0)) in (uuid_of_u8 u8, ok))"

section \<open>The order\<close>

instantiation mdv_uuid :: linorder
begin

definition less_eq_mdv_uuid :: "mdv_uuid \<Rightarrow> mdv_uuid \<Rightarrow> bool" where
  "less_eq_mdv_uuid a b \<longleftrightarrow> mdv_uuid_cmp a b \<le> 0"

definition less_mdv_uuid :: "mdv_uuid \<Rightarrow> mdv_uuid \<Rightarrow> bool" where
  "less_mdv_uuid a b \<longleftrightarrow> mdv_uuid_cmp a b < 0"

instance
  by standard (auto simp: less_eq_mdv_uuid_def less_mdv_uuid_def mdv_uuid_cmp_def mdv_uuid.expand split: if_splits)

end

section \<open>The byte view and the hexadecimal form\<close>

lemma uuid_of_u8_u8 [simp]: "uuid_of_u8 (uuid_u8 uuid) = uuid"
proof -
  have "unat w mod 256 ^ 8 = unat w" for w :: u64 using unsigned_less [of w] by (intro mod_less) simp
  then show ?thesis by (simp add: uuid_of_u8_def uuid_u8_def le_val_le_bytes del: power_numeral)
qed

lemma length_uuid_u8 [simp]: "length (uuid_u8 uuid) = 16"
  by (simp add: uuid_u8_def)

lemma hex_digit_char:
  assumes "d < 16"
  shows "hex_digit (hex_chars ! d) = Some (of_nat d)"
proof -
  have "d \<in> set [0..<16]" using assms by simp
  moreover have "\<forall>d \<in> set [0..<16]. hex_digit (hex_chars ! d) = Some (of_nat d)"
    by (simp add: upt_rec hex_chars_def) (simp add: hex_digit_def)
  ultimately show ?thesis by blast
qed

lemma nibble_less: "unat (w AND 0xF :: u8) < 16"
proof -
  have m: "(0xF :: u8) = mask 4" by (simp add: mask_eq_exp_minus_1)
  have "unat (take_bit 4 w) = unat w mod 16" by (simp only: unsigned_take_bit_eq) (simp add: take_bit_eq_mod)
  then show ?thesis unfolding m take_bit_eq_mask [symmetric] by simp
qed

lemma hex_digit_nibble: "hex_digit (hex_chars ! unat (w AND 0xF :: u8)) = Some (w AND 0xF)"
  using hex_digit_char [OF nibble_less, of w] by simp

lemma byte_of_nibbles: "push_bit 4 (drop_bit 4 w AND 0xF) OR (w AND 0xF) = (w :: u8)"
proof -
  have m: "(0xF :: u8) = mask 4" by (simp add: mask_eq_exp_minus_1)
  show ?thesis unfolding m by (rule bit_word_eqI) (auto simp: bit_or_iff bit_push_bit_iff bit_and_iff bit_mask_iff bit_drop_bit_eq)
qed

definition hex_of_bytes :: "bytes \<Rightarrow> string" where
  "hex_of_bytes bs = concat (map (\<lambda>b. [hex_chars ! unat (drop_bit 4 b AND 0xF), hex_chars ! unat (b AND 0xF)]) bs)"

definition hex_at :: "bytes \<Rightarrow> nat \<Rightarrow> char" where
  "hex_at bs i = hex_chars ! unat (drop_bit ((1 - i mod 2) * 4) (bs ! (i div 2)) AND 0xF)"

lemma map_hex_at: "map (hex_at bs) [0..<2 * length bs] = hex_of_bytes bs"
proof (induction bs rule: rev_induct)
  case (snoc b bs)
  have "[0..<2 * length (bs @ [b])] = [0..<2 * length bs] @ [2 * length bs, Suc (2 * length bs)]" by simp
  moreover have "map (hex_at (bs @ [b])) [0..<2 * length bs] = map (hex_at bs) [0..<2 * length bs]"
    by (rule map_cong) (auto simp: hex_at_def nth_append)
  moreover have "hex_at (bs @ [b]) (2 * length bs) = hex_chars ! unat (drop_bit 4 b AND 0xF)"
    "hex_at (bs @ [b]) (Suc (2 * length bs)) = hex_chars ! unat (b AND 0xF)"
    by (simp_all add: hex_at_def nth_append)
  ultimately show ?case using snoc by (simp add: hex_of_bytes_def)
qed (simp add: hex_of_bytes_def)

lemma to_str_hex: "mdv_uuid_to_str uuid = hex_of_bytes (uuid_u8 uuid)"
proof -
  have len: "2 * length (uuid_u8 uuid) = 32" by simp
  show ?thesis using map_hex_at [of "uuid_u8 uuid"] unfolding mdv_uuid_to_str_def hex_at_def [abs_def] len .
qed

lemma from_str_hex:
  "from_str_loop (2 * length pre) (hex_of_bytes bs) (pre @ replicate (length bs) 0) = (pre @ bs, True)"
proof (induction bs arbitrary: pre)
  case (Cons b bs)
  have "from_str_loop (2 * length pre) (hex_of_bytes (b # bs)) (pre @ replicate (length (b # bs)) 0) =
    from_str_loop (2 * length (pre @ [b])) (hex_of_bytes bs) ((pre @ [b]) @ replicate (length bs) 0)"
    by (simp add: hex_of_bytes_def hex_digit_nibble nth_append list_update_append byte_of_nibbles [simplified])
  with Cons.IH [of "pre @ [b]"] show ?case by simp
qed (simp add: hex_of_bytes_def)

lemma le_bytes_zero: "le_bytes n 0 = replicate n 0"
  by (induction n) simp_all

lemma u8_zero: "uuid_u8 (Uuid 0 0) = replicate 16 0"
  using replicate_add [of 8 8 "0 :: u8"] by (simp add: uuid_u8_def le_bytes_zero)

lemma length_hex [simp]: "length (hex_of_bytes bs) = 2 * length bs"
  by (induction bs) (simp_all add: hex_of_bytes_def)

lemma loop_accepts: "snd (from_str_loop i s u8) \<longleftrightarrow> list_all (\<lambda>c. hex_digit c \<noteq> None) s"
  by (induction i s u8 rule: from_str_loop.induct) (auto split: option.splits)

text \<open>
  C30. Printing and parsing are inverse: \<open>mdv_uuid_from_str\<close> reads back every UUID that \<open>mdv_uuid_to_str\<close> writes;
  it accepts exactly the strings of 32 hexadecimal digits of either case; a null or wrongly sized string leaves
  the UUID alone.
\<close>
theorem uuid_string_roundtrip:
  shows "(mdv_uuid_from_str old (Some (mdv_uuid_to_str uuid)) = (uuid, True)) \<and>
    (snd (mdv_uuid_from_str old (Some s)) \<longleftrightarrow> length s = 32 \<and> list_all (\<lambda>c. hex_digit c \<noteq> None) s) \<and>
    (length s = 32 \<or> mdv_uuid_from_str old (Some s) = (old, False)) \<and>
    (mdv_uuid_from_str old None = (old, False))"
proof (intro conjI)
  have "from_str_loop 0 (hex_of_bytes (uuid_u8 uuid)) (replicate 16 0) = (uuid_u8 uuid, True)"
    using from_str_hex [of "[]" "uuid_u8 uuid"] by (simp only: length_uuid_u8) simp
  then show "mdv_uuid_from_str old (Some (mdv_uuid_to_str uuid)) = (uuid, True)"
    by (simp add: mdv_uuid_from_str_def to_str_hex u8_zero)
qed (simp_all add: mdv_uuid_from_str_def loop_accepts case_prod_unfold)

text \<open>
  \<open>mdv_uuid_cmp\<close> is a three-way comparison of a total order: zero exactly on equal UUIDs, antisymmetric in
  its sign, and transitive; the hash is a function of the UUID that separates UUIDs with the same first half.
\<close>
theorem uuid_cmp_total_order:
  shows "(mdv_uuid_cmp a b = 0 \<longleftrightarrow> a = b) \<and>
    (mdv_uuid_cmp b a = - mdv_uuid_cmp a b) \<and>
    (mdv_uuid_cmp a b \<le> 0 \<and> mdv_uuid_cmp b c \<le> 0 \<longrightarrow> mdv_uuid_cmp a c \<le> 0) \<and>
    (uuid_lo a = uuid_lo b \<and> mdv_uuid_hash a = mdv_uuid_hash b \<longrightarrow> a = b)"
proof (intro conjI)
  show "uuid_lo a = uuid_lo b \<and> mdv_uuid_hash a = mdv_uuid_hash b \<longrightarrow> a = b"
  proof (intro impI, elim conjE)
    assume lo: "uuid_lo a = uuid_lo b" and h: "mdv_uuid_hash a = mdv_uuid_hash b"
    let ?x = "((0x811c9dc5 * 0x01000193) XOR uuid_lo a) * 0x01000193"
    have "?x XOR (?x XOR uuid_hi a) = ?x XOR (?x XOR uuid_hi b)" using lo h by (simp add: mdv_uuid_hash_def Let_def)
    then have "uuid_hi a = uuid_hi b" by (simp flip: xor.assoc)
    with lo show "a = b" by (simp add: mdv_uuid.expand)
  qed
  show "mdv_uuid_cmp a b = 0 \<longleftrightarrow> a = b" by (auto simp: mdv_uuid_cmp_def mdv_uuid.expand)
  show "mdv_uuid_cmp a b \<le> 0 \<and> mdv_uuid_cmp b c \<le> 0 \<longrightarrow> mdv_uuid_cmp a c \<le> 0"
    unfolding less_eq_mdv_uuid_def [symmetric] by auto
  show "mdv_uuid_cmp b a = - mdv_uuid_cmp a b"
    by (cases "uuid_lo a" "uuid_lo b" rule: linorder_cases; cases "uuid_hi a" "uuid_hi b" rule: linorder_cases)
      (simp_all add: mdv_uuid_cmp_def)
qed

theorem uuid_cmp_total_order_witness:
  "mdv_uuid_cmp (Uuid 1 5) (Uuid 2 3) \<le> 0 \<and> mdv_uuid_cmp (Uuid 1 5) (Uuid 2 7) \<le> 0"
proof -
  have le: "mdv_uuid_cmp (Uuid 1 5) (Uuid 2 3) \<le> 0" "mdv_uuid_cmp (Uuid 2 3) (Uuid 2 7) \<le> 0"
    by (simp_all add: mdv_uuid_cmp_def)
  then have "mdv_uuid_cmp (Uuid 1 5) (Uuid 2 7) \<le> 0" using uuid_cmp_total_order by blast
  with le show ?thesis by simp
qed

end
