(* ===== verification/Mdv_Mst.thy ===== *)
theory Mdv_Mst
  imports Mdv_Prelude "HOL-Library.Product_Lexorder"
begin

text \<open>
  The search for a minimum spanning tree (Boruvka's algorithm) of src/mdv_platform/generic/mdv_mst.c. The
  nodes are the indices below \<open>nodes_count\<close>; a pointer into the array of nodes, links or subsets is the index of
  its target. \<open>mdv_union_subsets\<close> works on the circular lists threaded through the array of subsets, as the
  code does.
\<close>

section \<open>The code\<close>

record mdv_mstlink =
  ml_src :: nat
  ml_dst :: nat
  ml_weight :: u32
  ml_mst :: u32

record mdv_mstset =
  ms_set_id :: nat
  ms_link :: "nat option"
  ms_next :: "nat option"

text \<open>The loop that relabels the subset; it returns the subsets and the last node it has visited.\<close>

function relabel :: "nat \<Rightarrow> nat option \<Rightarrow> nat option \<Rightarrow> mdv_mstset list \<Rightarrow> (mdv_mstset list \<times> nat option) option" where
  "relabel id1 p subset2_end subsets =
     (case p of
        None \<Rightarrow> Some (subsets, subset2_end)
      | Some i \<Rightarrow>
          if i \<ge> length subsets then None
          else if ms_set_id (subsets ! i) = id1 then Some (subsets, subset2_end)
          else relabel id1 (ms_next (subsets ! i)) (Some i) (subsets[i := (subsets ! i)\<lparr>ms_set_id := id1\<rparr>]))"
  by pat_completeness auto
termination
proof (relation "measure (\<lambda>(id1, p, e, subsets). card {i. i < length subsets \<and> ms_set_id (subsets ! i) \<noteq> id1})")
  fix id1 :: nat and p e :: "nat option" and subsets :: "mdv_mstset list" and i
  assume i: "p = Some i" "\<not> length subsets \<le> i" "ms_set_id (subsets ! i) \<noteq> id1"
  let ?s = "subsets[i := (subsets ! i)\<lparr>ms_set_id := id1\<rparr>]"
  let ?A = "\<lambda>ss. {k. k < length ss \<and> ms_set_id (ss ! k) \<noteq> id1}"
  have "?A ?s = ?A subsets - {i}" using i by (auto simp: nth_list_update)
  then have "card (?A ?s) < card (?A subsets)" using i by (simp only:) (rule card_Diff1_less, simp_all)
  then show "((id1, ms_next (subsets ! i), Some i, ?s), id1, p, e, subsets)
      \<in> measure (\<lambda>(id1, p, e, subsets). card {i. i < length subsets \<and> ms_set_id (subsets ! i) \<noteq> id1})"
    by simp
qed simp

declare relabel.simps [simp del]

definition mdv_union_subsets :: "mdv_mstset list \<Rightarrow> nat \<Rightarrow> nat \<Rightarrow> mdv_mstset list option" where
  "mdv_union_subsets subsets id1 id2 =
     (if id1 \<ge> length subsets then None
      else
        let subset1_next = ms_next (subsets ! id1);
            subsets = subsets[id1 := (subsets ! id1)\<lparr>ms_next := Some id2\<rparr>]
        in case relabel id1 (Some id2) None subsets of
             Some (subsets, Some e) \<Rightarrow>
               Some (subsets[e := (subsets ! e)\<lparr>ms_next :=
                       (case subset1_next of Some q \<Rightarrow> Some q | None \<Rightarrow> Some id1)\<rparr>])
           | _ \<Rightarrow> None)"

text \<open>A difference stored in an \<open>int\<close>: the low 32 bits, read as signed.\<close>

definition int_of :: "int \<Rightarrow> int" where
  "int_of x = sint (word_of_int x :: 32 word)"

definition mdv_mstlink_cmp :: "mdv_mstlink \<Rightarrow> mdv_mstlink \<Rightarrow> int" where
  "mdv_mstlink_cmp a b =
     (let w = sint (ml_weight a - ml_weight b) in
      if w \<noteq> 0 then w
      else
        let (a1, a2) = (if ml_src a < ml_dst a then (ml_src a, ml_dst a) else (ml_dst a, ml_src a));
            (b1, b2) = (if ml_src b < ml_dst b then (ml_src b, ml_dst b) else (ml_dst b, ml_src b));
            w = int_of (int a1 - int b1)
        in if w \<noteq> 0 then w else int_of (int a2 - int b2))"

text \<open>The shortest link of a subset becomes link \<open>i\<close> when there is none yet or link \<open>i\<close> is smaller.\<close>

definition minimize_link :: "mdv_mstlink list \<Rightarrow> nat \<Rightarrow> nat option \<Rightarrow> nat option" where
  "minimize_link links i cur =
     (case cur of None \<Rightarrow> Some i
      | Some j \<Rightarrow> if mdv_mstlink_cmp (links ! j) (links ! i) > 0 then Some i else Some j)"

definition closest_step :: "mdv_mstlink list \<Rightarrow> nat \<Rightarrow> mdv_mstset list \<Rightarrow> mdv_mstset list option" where
  "closest_step links i subsets =
     (let src_id = ml_src (links ! i); dst_id = ml_dst (links ! i) in
      if src_id \<ge> length subsets \<or> dst_id \<ge> length subsets then None
      else
        let src_set_id = ms_set_id (subsets ! src_id); dst_set_id = ms_set_id (subsets ! dst_id) in
        if src_set_id = dst_set_id then Some subsets
        else if src_set_id \<ge> length subsets \<or> dst_set_id \<ge> length subsets then None
        else
          let src_link = ms_link (subsets ! src_set_id); dst_link = ms_link (subsets ! dst_set_id);
              subsets = subsets[src_set_id := (subsets ! src_set_id)\<lparr>ms_link := minimize_link links i src_link\<rparr>]
          in Some (subsets[dst_set_id := (subsets ! dst_set_id)\<lparr>ms_link := minimize_link links i dst_link\<rparr>]))"

fun closest_loop :: "mdv_mstlink list \<Rightarrow> nat list \<Rightarrow> mdv_mstset list \<Rightarrow> mdv_mstset list option" where
  "closest_loop links [] subsets = Some subsets"
| "closest_loop links (i # is) subsets =
     (case closest_step links i subsets of None \<Rightarrow> None | Some subsets \<Rightarrow> closest_loop links is subsets)"

text \<open>The state of the search besides the subsets: the links, \<open>num_trees\<close> and \<open>mst_size\<close>.\<close>

type_synonym mst_state = "mdv_mstset list \<times> mdv_mstlink list \<times> nat \<times> nat"

definition merge_step :: "nat \<Rightarrow> mst_state \<Rightarrow> mst_state option" where
  "merge_step i s =
     (case s of (subsets, links, num_trees, mst_size) \<Rightarrow>
      (case ms_link (subsets ! i) of None \<Rightarrow> Some s
       | Some l \<Rightarrow>
          let src_id = ml_src (links ! l); dst_id = ml_dst (links ! l) in
          if src_id \<ge> length subsets \<or> dst_id \<ge> length subsets then None
          else
            let src_set_id = ms_set_id (subsets ! src_id); dst_set_id = ms_set_id (subsets ! dst_id) in
            if src_set_id = dst_set_id then Some s
            else case mdv_union_subsets subsets src_set_id dst_set_id of None \<Rightarrow> None
                 | Some subsets \<Rightarrow>
                     Some (subsets, links[l := (links ! l)\<lparr>ml_mst := 1\<rparr>], num_trees - 1, mst_size + 1)))"

fun merge_loop :: "nat list \<Rightarrow> mst_state \<Rightarrow> mst_state option" where
  "merge_loop [] s = Some s"
| "merge_loop (i # is) s = (case merge_step i s of None \<Rightarrow> None | Some s \<Rightarrow> merge_loop is s)"

lemma merge_step_trees: "merge_step i s = Some s' \<Longrightarrow> fst (snd (snd s')) \<le> fst (snd (snd s))"
  by (cases s) (auto simp: merge_step_def Let_def split: option.splits if_splits)

lemma merge_loop_trees: "merge_loop is s = Some s' \<Longrightarrow> fst (snd (snd s')) \<le> fst (snd (snd s))"
  by (induction "is" s rule: merge_loop.induct) (auto split: option.splits dest: merge_step_trees)

function mst_loop :: "mst_state \<Rightarrow> mst_state option" where
  "mst_loop (subsets, links, num_trees, mst_size) =
     (if num_trees > 1 then
        (case closest_loop links [0..<length links] (map (\<lambda>s. s\<lparr>ms_link := None\<rparr>) subsets) of None \<Rightarrow> None
         | Some subsets' \<Rightarrow>
            (case merge_loop [0..<length subsets] (subsets', links, num_trees, mst_size) of None \<Rightarrow> None
             | Some (subsets', links', num_trees', mst_size') \<Rightarrow>
                 if num_trees' = num_trees then Some (subsets', links', num_trees', 0)
                 else mst_loop (subsets', links', num_trees', mst_size')))
      else Some (subsets, links, num_trees, mst_size))"
  by pat_completeness auto
termination
  by (relation "measure (\<lambda>(subsets, links, num_trees, mst_size). num_trees)") (auto dest!: merge_loop_trees)

declare mst_loop.simps [simp del]

text \<open>The result is the array of links after the call and the returned size.\<close>

definition mdv_mst_find :: "bool \<Rightarrow> nat \<Rightarrow> mdv_mstlink list \<Rightarrow> (mdv_mstlink list \<times> nat) option" where
  "mdv_mst_find alloc nodes_count links =
     (if \<not> alloc then Some (links, 0)
      else
        let subsets = map (\<lambda>i. \<lparr>ms_set_id = i, ms_link = None, ms_next = None\<rparr>) [0..<nodes_count];
            links = map (\<lambda>l. l\<lparr>ml_mst := 0\<rparr>) links
        in case mst_loop (subsets, links, nodes_count, 0) of None \<Rightarrow> None
           | Some (subsets, links, num_trees, mst_size) \<Rightarrow> Some (links, mst_size))"

section \<open>Connectivity\<close>

text \<open>
  Connectivity by the edges with indices in \<open>I\<close> of a list of edges, labelings of the nodes whose classes are the
  components, and the number of components.
\<close>

type_synonym edges = "(nat \<times> nat) list"

definition adj :: "edges \<Rightarrow> nat set \<Rightarrow> (nat \<times> nat) set" where
  "adj es I = {(a, b). \<exists>i \<in> I. es ! i = (a, b) \<or> es ! i = (b, a)}"

definition conn :: "edges \<Rightarrow> nat set \<Rightarrow> (nat \<times> nat) set" where
  "conn es I = (adj es I)\<^sup>*"

lemma conn_refl [simp]: "(a, a) \<in> conn es I"
  by (simp add: conn_def)

lemma conn_sym: "(a, b) \<in> conn es I \<Longrightarrow> (b, a) \<in> conn es I"
proof -
  have "sym (adj es I)" by (auto simp: sym_def adj_def)
  then show "(a, b) \<in> conn es I \<Longrightarrow> (b, a) \<in> conn es I" unfolding conn_def by (meson sym_rtrancl symD)
qed

lemma conn_trans: "(a, b) \<in> conn es I \<Longrightarrow> (b, c) \<in> conn es I \<Longrightarrow> (a, c) \<in> conn es I"
  by (simp add: conn_def)

lemma conn_mono: "I \<subseteq> J \<Longrightarrow> (a, b) \<in> conn es I \<Longrightarrow> (a, b) \<in> conn es J"
  unfolding conn_def by (rule rtrancl_mono [THEN subsetD]) (auto simp: adj_def)

lemma conn_edge: "k \<in> I \<Longrightarrow> es ! k = (u, v) \<Longrightarrow> (u, v) \<in> conn es I"
  unfolding conn_def by (rule r_into_rtrancl) (auto simp: adj_def)

lemma conn_cut:
  assumes "(a, b) \<in> conn es I" "P a" "\<not> P b"
  shows "\<exists>k \<in> I. P (fst (es ! k)) \<noteq> P (snd (es ! k))"
  using assms(1) unfolding conn_def
proof (rule contrapos_pp)
  assume no: "\<not> (\<exists>k \<in> I. P (fst (es ! k)) \<noteq> P (snd (es ! k)))"
  have "P y" if "(a, y) \<in> (adj es I)\<^sup>*" for y
    using that
  proof induction
    case (step y z)
    then obtain k where "k \<in> I" "es ! k = (y, z) \<or> es ! k = (z, y)" by (auto simp: adj_def)
    with no step show ?case by fastforce
  qed (rule assms(2))
  with assms(3) show "(a, b) \<notin> (adj es I)\<^sup>*" by blast
qed

lemma conn_insert:
  assumes "es ! k = (u, v)"
  shows "(a, b) \<in> conn es (insert k I) \<longleftrightarrow> (a, b) \<in> conn es I \<or>
    (a, u) \<in> conn es I \<and> (v, b) \<in> conn es I \<or> (a, v) \<in> conn es I \<and> (u, b) \<in> conn es I" (is "?l \<longleftrightarrow> ?r b")
proof
  assume ?l
  then show "?r b" unfolding conn_def [of es "insert k I"]
  proof induction
    case (step y z)
    then obtain i where i: "i = k \<or> i \<in> I" "es ! i = (y, z) \<or> es ! i = (z, y)" by (auto simp: adj_def)
    show ?case
    proof (cases "i \<in> I")
      case True
      with i have "(y, z) \<in> conn es I" by (auto dest: conn_edge intro: conn_sym)
      with step.IH show ?thesis by (blast intro: conn_trans)
    next
      case False
      with i assms have "y = u \<and> z = v \<or> y = v \<and> z = u" by auto
      with step.IH show ?thesis by auto
    qed
  qed simp
next
  assume r: "?r b"
  have uv: "(u, v) \<in> conn es (insert k I)" using assms by (intro conn_edge) auto
  have up: "(x, y) \<in> conn es I \<Longrightarrow> (x, y) \<in> conn es (insert k I)" for x y by (erule conn_mono [rotated]) auto
  from r consider "(a, b) \<in> conn es I" | "(a, u) \<in> conn es I" "(v, b) \<in> conn es I"
    | "(a, v) \<in> conn es I" "(u, b) \<in> conn es I" by blast
  then show ?l
  proof cases
    case 2
    then show ?thesis using conn_trans [OF conn_trans [OF up uv] up] by blast
  next
    case 3
    then show ?thesis using conn_trans [OF conn_trans [OF up conn_sym [OF uv]] up] by blast
  qed (rule up)
qed

text \<open>Labelings whose classes are the components.\<close>

definition labels :: "edges \<Rightarrow> nat \<Rightarrow> nat set \<Rightarrow> (nat \<Rightarrow> 'a) \<Rightarrow> bool" where
  "labels es n I lab \<longleftrightarrow> (\<forall>i<n. \<forall>j<n. lab i = lab j \<longleftrightarrow> (i, j) \<in> conn es I)"

definition merged :: "(nat \<Rightarrow> 'a) \<Rightarrow> nat \<Rightarrow> nat \<Rightarrow> nat \<Rightarrow> 'a" where
  "merged lab u v i = (if lab i = lab v then lab u else lab i)"

lemma labelsD: "labels es n I lab \<Longrightarrow> i < n \<Longrightarrow> j < n \<Longrightarrow> lab i = lab j \<longleftrightarrow> (i, j) \<in> conn es I"
  by (simp add: labels_def)

lemma labels_cong: "(\<And>i. i < n \<Longrightarrow> lab i = lab' i) \<Longrightarrow> labels es n I lab = labels es n I lab'"
  by (simp add: labels_def)

lemma labels_empty: "inj_on lab {..<n} \<Longrightarrow> labels es n {} lab"
  by (simp add: labels_def conn_def adj_def inj_on_eq_iff)

lemma labels_merge:
  assumes l: "labels es n I lab" and k: "es ! k = (u, v)" "u < n" "v < n"
  shows "labels es n (insert k I) (merged lab u v)"
  unfolding labels_def
proof (intro allI impI)
  fix i j assume ij: "i < n" "j < n"
  show "merged lab u v i = merged lab u v j \<longleftrightarrow> (i, j) \<in> conn es (insert k I)"
    unfolding conn_insert [OF k(1)] labelsD [OF l ij, symmetric] labelsD [OF l ij(1) k(2), symmetric]
      labelsD [OF l k(3) ij(2), symmetric] labelsD [OF l ij(1) k(3), symmetric] labelsD [OF l k(2) ij(2), symmetric]
    by (auto simp: merged_def)
qed

lemma labels_same:
  assumes l: "labels es n I lab" and k: "es ! k = (u, v)" "u < n" "v < n" "lab u = lab v"
  shows "labels es n (insert k I) lab"
proof -
  have "labels es n (insert k I) (merged lab u v)" by (rule labels_merge [OF l k(1-3)])
  moreover have "merged lab u v = lab" by (auto simp: merged_def k(4))
  ultimately show ?thesis by simp
qed

lemma card_merged:
  assumes "u < n" "v < n" "lab u \<noteq> lab v"
  shows "Suc (card (merged lab u v ` {..<n})) = card (lab ` {..<n})"
proof -
  have "merged lab u v ` {..<n} = lab ` {..<n} - {lab v}"
    using assms by (auto simp: merged_def image_iff)
  moreover have "Suc (card (lab ` {..<n} - {lab v})) = card (lab ` {..<n})" using assms by (intro card_Suc_Diff1) auto
  ultimately show ?thesis by simp
qed

lemma labels_card_mono:
  assumes l: "labels es n I lab" "labels es n J lab'" and "I \<subseteq> J"
  shows "card (lab' ` {..<n}) \<le> card (lab ` {..<n})"
proof -
  let ?pick = "\<lambda>c. lab' (SOME i. i < n \<and> lab i = c)"
  have "lab' i \<in> ?pick ` lab ` {..<n}" if "i < n" for i
  proof -
    let ?j = "SOME j. j < n \<and> lab j = lab i"
    have j: "?j < n" "lab ?j = lab i" using someI [of "\<lambda>j. j < n \<and> lab j = lab i" i] that by simp_all
    then have "(?j, i) \<in> conn es J" using labelsD [OF l(1) j(1) that] conn_mono [OF assms(3)] by simp
    then have "lab' ?j = lab' i" using labelsD [OF l(2) j(1) that] by simp
    then have "lab' i = ?pick (lab i)" by simp
    then show ?thesis using that by blast
  qed
  then have "lab' ` {..<n} \<subseteq> ?pick ` lab ` {..<n}" by blast
  then have "card (lab' ` {..<n}) \<le> card (?pick ` lab ` {..<n})" by (intro card_mono) auto
  also have "\<dots> \<le> card (lab ` {..<n})" by (rule card_image_le) simp
  finally show ?thesis .
qed

lemma labels_card_eq: "labels es n I lab \<Longrightarrow> labels es n I lab' \<Longrightarrow> card (lab ` {..<n}) = card (lab' ` {..<n})"
  using labels_card_mono [of es n I lab I lab'] labels_card_mono [of es n I lab' I lab] by simp

lemma labels_one_class:
  assumes "labels es n I lab"
  shows "card (lab ` {..<n}) \<le> 1 \<longleftrightarrow> (\<forall>i<n. \<forall>j<n. (i, j) \<in> conn es I)"
proof
  assume c: "card (lab ` {..<n}) \<le> 1"
  have "lab i = lab j" if "i < n" "j < n" for i j
  proof -
    have "card {lab i, lab j} \<le> card (lab ` {..<n})" using that by (intro card_mono) auto
    then have "card {lab i, lab j} \<le> 1" using c by linarith
    then show ?thesis by (cases "lab i = lab j") simp_all
  qed
  then show "\<forall>i<n. \<forall>j<n. (i, j) \<in> conn es I" using assms unfolding labels_def by blast
next
  assume all: "\<forall>i<n. \<forall>j<n. (i, j) \<in> conn es I"
  have "lab i = lab 0" if i: "i < n" for i
  proof -
    have "0 < n" using i by simp
    with all i show ?thesis using labelsD [OF assms i, of 0] by blast
  qed
  then have "lab ` {..<n} \<subseteq> {lab 0}" by blast
  then show "card (lab ` {..<n}) \<le> 1" using card_mono [of "{lab 0}" "lab ` {..<n}"] by simp
qed

section \<open>The circular lists of the subsets\<close>

fun links_to :: "mdv_mstset list \<Rightarrow> nat list \<Rightarrow> nat option \<Rightarrow> bool" where
  "links_to ss [] e \<longleftrightarrow> True"
| "links_to ss [x] e \<longleftrightarrow> ms_next (ss ! x) = e"
| "links_to ss (x # y # ys) e \<longleftrightarrow> ms_next (ss ! x) = Some y \<and> links_to ss (y # ys) e"

definition ring :: "mdv_mstset list \<Rightarrow> nat \<Rightarrow> nat list \<Rightarrow> bool" where
  "ring ss l xs \<longleftrightarrow> distinct (l # xs) \<and> set (l # xs) \<subseteq> {..<length ss} \<and>
     (links_to ss (l # xs) (Some l) \<or> xs = [] \<and> ms_next (ss ! l) = None)"

definition set_of :: "mdv_mstset list \<Rightarrow> nat \<Rightarrow> nat" where
  "set_of ss i = ms_set_id (ss ! i)"

definition subsets_inv :: "nat \<Rightarrow> mdv_mstset list \<Rightarrow> bool" where
  "subsets_inv n ss \<longleftrightarrow> length ss = n \<and> (\<forall>i<n. set_of ss i < n \<and> set_of ss (set_of ss i) = set_of ss i) \<and>
     (\<forall>l<n. set_of ss l = l \<longrightarrow> (\<exists>xs. ring ss l xs \<and> set (l # xs) = {i. i < n \<and> set_of ss i = l}))"

lemma links_to_cong: "(\<And>x. x \<in> set xs \<Longrightarrow> ms_next (ss ! x) = ms_next (ss' ! x)) \<Longrightarrow> links_to ss xs e = links_to ss' xs e"
  by (induction ss xs e rule: links_to.induct) auto

lemma links_to_append:
  "xs \<noteq> [] \<Longrightarrow> links_to ss (xs @ y # ys) e \<longleftrightarrow> links_to ss xs (Some y) \<and> links_to ss (y # ys) e"
  by (induction xs rule: list_nonempty_induct) (auto simp: neq_Nil_conv)

lemma links_to_last: "xs \<noteq> [] \<Longrightarrow> distinct xs \<Longrightarrow> last xs < length ss \<Longrightarrow> links_to ss xs e \<Longrightarrow>
    links_to (ss[last xs := (ss ! last xs)\<lparr>ms_next := e'\<rparr>]) xs e'"
proof (induction xs arbitrary: ss rule: list_nonempty_induct)
  case (cons x xs)
  obtain y ys where xs: "xs = y # ys" using cons by (cases xs) auto
  then have "x \<noteq> last xs" using cons.prems by (metis distinct.simps(2) last_in_set list.distinct(1))
  with cons xs show ?case by simp
qed simp

definition relab :: "nat \<Rightarrow> nat set \<Rightarrow> mdv_mstset list \<Rightarrow> mdv_mstset list" where
  "relab id1 X ss = map (\<lambda>i. if i \<in> X then (ss ! i)\<lparr>ms_set_id := id1\<rparr> else ss ! i) [0..<length ss]"

lemma relab_simps [simp]:
  "length (relab id1 X ss) = length ss"
  "i < length ss \<Longrightarrow> relab id1 X ss ! i = (if i \<in> X then (ss ! i)\<lparr>ms_set_id := id1\<rparr> else ss ! i)"
  by (simp_all add: relab_def)

lemma relab_update: "i < length ss \<Longrightarrow> relab id1 X (ss[i := (ss ! i)\<lparr>ms_set_id := id1\<rparr>]) = relab id1 (insert i X) ss"
  by (rule nth_equalityI) (auto simp: nth_list_update)

lemma relab_empty: "relab id1 {} ss = ss"
  by (rule nth_equalityI) auto

lemma relabel_path:
  assumes "distinct (x # xs)" "\<forall>y \<in> set (x # xs). y < length ss \<and> set_of ss y \<noteq> id1" "links_to ss (x # xs) e"
    and "case e of None \<Rightarrow> True | Some q \<Rightarrow> q < length ss \<and> (set_of ss q = id1 \<or> q = x)"
  shows "relabel id1 (Some x) r ss = Some (relab id1 (set (x # xs)) ss, Some (last (x # xs)))"
  using assms
proof (induction xs arbitrary: x r ss)
  case Nil
  let ?ss = "ss[x := (ss ! x)\<lparr>ms_set_id := id1\<rparr>]"
  have "relabel id1 (Some x) r ss = relabel id1 e (Some x) ?ss"
    using Nil by (subst relabel.simps) (simp add: set_of_def)
  also have "\<dots> = Some (?ss, Some x)"
    using Nil by (subst relabel.simps) (auto simp: set_of_def nth_list_update split: option.splits)
  also have "?ss = relab id1 {x} ss" using Nil relab_update [of x ss id1 "{}"] by (simp add: relab_empty)
  finally show ?case by simp
next
  case (Cons y ys)
  let ?ss = "ss[x := (ss ! x)\<lparr>ms_set_id := id1\<rparr>]"
  have x: "x < length ss" "set_of ss x \<noteq> id1" "ms_next (ss ! x) = Some y" using Cons.prems by auto
  have "relabel id1 (Some x) r ss = relabel id1 (Some y) (Some x) ?ss"
    using x by (subst relabel.simps) (simp add: set_of_def)
  also have "\<dots> = Some (relab id1 (set (y # ys)) ?ss, Some (last (y # ys)))"
  proof (rule Cons.IH)
    show "distinct (y # ys)" using Cons.prems by simp
    show "\<forall>z \<in> set (y # ys). z < length ?ss \<and> set_of ?ss z \<noteq> id1"
      using Cons.prems by (auto simp: set_of_def nth_list_update)
    have "links_to ?ss (y # ys) e = links_to ss (y # ys) e"
      by (rule links_to_cong, rule arg_cong [where f = ms_next], rule nth_list_update_neq) (use Cons.prems in auto)
    then show "links_to ?ss (y # ys) e" using Cons.prems by simp
    show "case e of None \<Rightarrow> True | Some q \<Rightarrow> q < length ?ss \<and> (set_of ?ss q = id1 \<or> q = y)"
      using Cons.prems(4) x by (auto simp: set_of_def nth_list_update split: option.splits)
  qed
  finally show ?case using relab_update [OF x(1), of id1 "set (y # ys)"] by simp
qed

lemma ring_end: "ring ss l xs \<Longrightarrow> links_to ss (l # xs) (ms_next (ss ! last (l # xs)))"
proof -
  have "links_to ss ys e \<Longrightarrow> ys \<noteq> [] \<Longrightarrow> ms_next (ss ! last ys) = e" for ys e
    by (induction ss ys e rule: links_to.induct) auto
  then show "ring ss l xs \<Longrightarrow> links_to ss (l # xs) (ms_next (ss ! last (l # xs)))"
    unfolding ring_def by (metis last.simps links_to.simps(2) list.distinct(1))
qed

lemma ring_cong:
  assumes "ring ss l xs" "length ss' = length ss" "\<And>x. x \<in> set (l # xs) \<Longrightarrow> ms_next (ss' ! x) = ms_next (ss ! x)"
  shows "ring ss' l xs"
  using assms links_to_cong [of "l # xs" ss' ss "Some l"] by (auto simp: ring_def)

text \<open>Splicing the circle of \<open>id2\<close> into the circle of \<open>id1\<close> right after \<open>id1\<close>.\<close>

lemma ring_splice:
  assumes r1: "ring ss id1 ys" and r2: "ring ss id2 xs" and disj: "set (id1 # ys) \<inter> set (id2 # xs) = {}"
    and len: "length ss' = length ss"
    and nx: "\<And>i. i < length ss \<Longrightarrow> ms_next (ss' ! i) =
       (if i = last (id2 # xs) then (case ms_next (ss ! id1) of Some q \<Rightarrow> Some q | None \<Rightarrow> Some id1)
        else if i = id1 then Some id2 else ms_next (ss ! i))"
  shows "ring ss' id1 (id2 # xs @ ys)"
proof -
  let ?b = "last (id2 # xs)"
  have bnd: "set (id1 # ys) \<subseteq> {..<length ss}" "set (id2 # xs) \<subseteq> {..<length ss}"
    and dist: "distinct (id1 # ys)" "distinct (id2 # xs)" using r1 r2 by (auto simp: ring_def)
  have b: "?b \<in> set (id2 # xs)" by (rule last_in_set) simp
  let ?e = "case ms_next (ss ! id1) of Some q \<Rightarrow> Some q | None \<Rightarrow> Some id1"
  have "links_to (ss[?b := (ss ! ?b)\<lparr>ms_next := ?e\<rparr>]) (id2 # xs) ?e"
    by (rule links_to_last [OF _ _ _ ring_end [OF r2]]) (use dist bnd b in auto)
  moreover have "links_to ss' (id2 # xs) ?e = links_to (ss[?b := (ss ! ?b)\<lparr>ms_next := ?e\<rparr>]) (id2 # xs) ?e"
    by (rule links_to_cong) (use nx bnd disj b in \<open>auto simp: nth_list_update\<close>)
  ultimately have l2: "links_to ss' (id2 # xs) ?e" by simp
  have nb: "\<And>y. y \<in> set (id1 # ys) \<Longrightarrow> y \<noteq> ?b" using b disj by blast
  have n1: "ms_next (ss' ! id1) = Some id2" using nx [of id1] nb [of id1] bnd by simp
  have "links_to ss' (id1 # id2 # xs @ ys) (Some id1)"
  proof (cases ys)
    case Nil
    then have "?e = Some id1" using r1 by (auto simp: ring_def)
    with l2 n1 Nil show ?thesis by simp
  next
    case (Cons y zs)
    then have e: "ms_next (ss ! id1) = Some y" "links_to ss ys (Some id1)" using r1 by (auto simp: ring_def)
    have "links_to ss' ys (Some id1) = links_to ss ys (Some id1)"
      by (rule links_to_cong) (use nx nb bnd dist in auto)
    with e l2 have "links_to ss' ((id2 # xs) @ y # zs) (Some id1)"
      using links_to_append [of "id2 # xs" ss' y zs "Some id1"] Cons by simp
    with n1 Cons show ?thesis by simp
  qed
  then show ?thesis using bnd dist disj len by (auto simp: ring_def)
qed

lemma union_subsets_ok:
  assumes inv: "subsets_inv n ss" and ids: "id1 < n" "id2 < n" "set_of ss id1 = id1" "set_of ss id2 = id2" "id1 \<noteq> id2"
  shows "\<exists>ss'. mdv_union_subsets ss id1 id2 = Some ss' \<and> subsets_inv n ss' \<and>
    (\<forall>i<n. set_of ss' i = (if set_of ss i = id2 then id1 else set_of ss i)) \<and> (\<forall>i<n. ms_link (ss' ! i) = ms_link (ss ! i))"
proof -
  have len: "length ss = n" and cl: "\<And>i. i < n \<Longrightarrow> set_of ss i < n \<and> set_of ss (set_of ss i) = set_of ss i"
    using inv by (auto simp: subsets_inv_def)
  obtain xs where xs: "ring ss id2 xs" "set (id2 # xs) = {i. i < n \<and> set_of ss i = id2}"
    using inv ids unfolding subsets_inv_def by blast
  obtain ys where ys: "ring ss id1 ys" "set (id1 # ys) = {i. i < n \<and> set_of ss i = id1}"
    using inv ids unfolding subsets_inv_def by blast
  define s1 where "s1 = ss[id1 := (ss ! id1)\<lparr>ms_next := Some id2\<rparr>]"
  define b where "b = last (id2 # xs)"
  have id1: "id1 \<notin> set (id2 # xs)" using ids xs(2) by auto
  have r: "relabel id1 (Some id2) None s1 = Some (relab id1 (set (id2 # xs)) s1, Some b)"
    unfolding b_def
  proof (rule relabel_path)
    show "distinct (id2 # xs)" using xs(1) by (simp add: ring_def)
    show "\<forall>y \<in> set (id2 # xs). y < length s1 \<and> set_of s1 y \<noteq> id1"
      unfolding xs(2) s1_def using ids len by (auto simp: set_of_def nth_list_update)
    have "links_to s1 (id2 # xs) (ms_next (ss ! b)) = links_to ss (id2 # xs) (ms_next (ss ! b))"
      unfolding s1_def by (rule links_to_cong, rule arg_cong [where f = ms_next], rule nth_list_update_neq) (use id1 in auto)
    then show "links_to s1 (id2 # xs) (ms_next (ss ! b))" using ring_end [OF xs(1)] by (simp add: b_def)
    show "case ms_next (ss ! b) of None \<Rightarrow> True | Some q \<Rightarrow> q < length s1 \<and> (set_of s1 q = id1 \<or> q = id2)"
    proof (cases "links_to ss (id2 # xs) (Some id2)")
      case True
      have "links_to ss zs e \<Longrightarrow> zs \<noteq> [] \<Longrightarrow> ms_next (ss ! last zs) = e" for zs e
        by (induction ss zs e rule: links_to.induct) auto
      from this [OF True] show ?thesis using ids len by (simp add: b_def s1_def)
    next
      case False
      then show ?thesis using xs(1) by (simp add: ring_def b_def)
    qed
  qed
  define s2 where "s2 = relab id1 (set (id2 # xs)) s1"
  define e where "e = (case ms_next (ss ! id1) of Some q \<Rightarrow> Some q | None \<Rightarrow> Some id1)"
  define ss' where "ss' = s2[b := (s2 ! b)\<lparr>ms_next := e\<rparr>]"
  have u: "mdv_union_subsets ss id1 id2 = Some ss'"
    unfolding mdv_union_subsets_def Let_def s1_def [symmetric] r s2_def [symmetric] ss'_def e_def using ids len by simp
  have len': "length ss' = n" by (simp add: ss'_def s2_def s1_def len)
  have at: "ss' ! i = (let s = ss ! i; s = (if i = id1 then s\<lparr>ms_next := Some id2\<rparr> else s);
      s = (if i \<in> set (id2 # xs) then s\<lparr>ms_set_id := id1\<rparr> else s) in if i = b then s\<lparr>ms_next := e\<rparr> else s)" if "i < n" for i
    using that len by (simp add: ss'_def s2_def s1_def nth_list_update Let_def)
  have nx: "ms_next (ss' ! i) = (if i = b then e else if i = id1 then Some id2 else ms_next (ss ! i))" if "i < n" for i
    using at [OF that] by (simp add: Let_def)
  have so: "set_of ss' i = (if set_of ss i = id2 then id1 else set_of ss i)" if "i < n" for i
  proof -
    have "i \<in> set (id2 # xs) \<longleftrightarrow> set_of ss i = id2" unfolding xs(2) using that by simp
    then show ?thesis using at [OF that] by (simp add: Let_def set_of_def)
  qed
  have lk: "ms_link (ss' ! i) = ms_link (ss ! i)" if "i < n" for i
    using at [OF that] by (simp add: Let_def)
  have disj: "set (id1 # ys) \<inter> set (id2 # xs) = {}" unfolding xs(2) ys(2) using ids(5) by auto
  have "subsets_inv n ss'"
    unfolding subsets_inv_def
  proof (intro conjI allI impI)
    fix l assume l: "l < n" "set_of ss' l = l"
    show "\<exists>zs. ring ss' l zs \<and> set (l # zs) = {i. i < n \<and> set_of ss' i = l}"
    proof (cases "l = id1")
      case True
      have "ring ss' id1 (id2 # xs @ ys)" by (rule ring_splice [OF ys(1) xs(1) disj]) (use nx len len' in \<open>simp_all add: b_def e_def\<close>)
      moreover have "set (id1 # id2 # xs @ ys) = {i. i < n \<and> set_of ss' i = id1}"
      proof -
        have "set (id1 # id2 # xs @ ys) = set (id1 # ys) \<union> set (id2 # xs)" by auto
        also have "\<dots> = {i. i < n \<and> set_of ss i = id1} \<union> {i. i < n \<and> set_of ss i = id2}" by (simp only: xs(2) ys(2))
        also have "\<dots> = {i. i < n \<and> set_of ss' i = id1}" using ids(5) by (intro set_eqI) (auto simp: so)
        finally show ?thesis .
      qed
      ultimately show ?thesis using True by blast
    next
      case False
      with l so [OF l(1)] have l': "set_of ss l = l" "l \<noteq> id2" by (simp_all split: if_splits)
      then obtain zs where zs: "ring ss l zs" "set (l # zs) = {i. i < n \<and> set_of ss i = l}"
        using inv l(1) unfolding subsets_inv_def by blast
      have "b \<in> set (id2 # xs)" unfolding b_def by (rule last_in_set) simp
      then have "\<And>x. x \<in> set (l # zs) \<Longrightarrow> x < n \<and> x \<noteq> b \<and> x \<noteq> id1"
        unfolding zs(2) xs(2) using l' False ids by auto
      then have "ring ss' l zs" by (intro ring_cong [OF zs(1)]) (auto simp: nx len len')
      moreover have "{i. i < n \<and> set_of ss' i = l} = {i. i < n \<and> set_of ss i = l}"
        using l' False by (intro set_eqI) (auto simp: so)
      ultimately show ?thesis using zs(2) by blast
    qed
  qed (use so cl ids len' in auto)
  with u so lk show ?thesis by blast
qed

section \<open>The order of the links\<close>

text \<open>The links without their flags, the order that \<open>mdv_mstlink_cmp\<close> decides, and its refinement by position.\<close>

definition ends :: "mdv_mstlink list \<Rightarrow> edges" where
  "ends links = map (\<lambda>l. (ml_src l, ml_dst l)) links"

definition weights :: "mdv_mstlink list \<Rightarrow> nat list" where
  "weights links = map (\<lambda>l. unat (ml_weight l)) links"

definition link_key :: "edges \<Rightarrow> nat list \<Rightarrow> nat \<Rightarrow> nat \<times> nat \<times> nat" where
  "link_key es ws i = (ws ! i, min (fst (es ! i)) (snd (es ! i)), max (fst (es ! i)) (snd (es ! i)))"

definition pos_key :: "edges \<Rightarrow> nat list \<Rightarrow> nat \<Rightarrow> (nat \<times> nat \<times> nat) \<times> nat" where
  "pos_key es ws i = (link_key es ws i, i)"

definition graph_ok :: "nat \<Rightarrow> edges \<Rightarrow> nat list \<Rightarrow> bool" where
  "graph_ok n es ws \<longleftrightarrow> n \<le> 2 ^ 31 \<and> length ws = length es \<and> list_all (\<lambda>(a, b). a < n \<and> b < n) es \<and>
     list_all (\<lambda>w. w < 2 ^ 31) ws"

lemma pos_key_inj: "pos_key es ws i = pos_key es ws j \<longleftrightarrow> i = j"
  by (auto simp: pos_key_def)

lemma pos_key_weight: "pos_key es ws i \<le> pos_key es ws j \<Longrightarrow> ws ! i \<le> ws ! j"
  by (auto simp: pos_key_def link_key_def less_eq_prod_def less_prod_def)

lemma graph_okD:
  assumes "graph_ok n es ws" "i < length es"
  shows "fst (es ! i) < n" "snd (es ! i) < n" "ws ! i < 2 ^ 31" "n \<le> 2 ^ 31"
proof -
  have "es ! i \<in> set es" "ws ! i \<in> set ws" using assms by (auto simp: graph_ok_def)
  then show "fst (es ! i) < n" "snd (es ! i) < n" "ws ! i < 2 ^ 31" "n \<le> 2 ^ 31"
    using assms(1) by (auto simp: graph_ok_def list_all_iff)
qed

lemma int_of_small: "- (2 ^ 31) \<le> x \<Longrightarrow> x < 2 ^ 31 \<Longrightarrow> int_of x = x"
  unfolding int_of_def sint_sbintrunc' by (rule signed_take_bit_int_eq_self) simp_all

lemma int_of_difference: "x < 2 ^ 31 \<Longrightarrow> y < 2 ^ 31 \<Longrightarrow> int_of (int x - int y) = int x - int y"
  by (rule int_of_small) simp_all

lemma weight_difference: "unat a < 2 ^ 31 \<Longrightarrow> unat b < 2 ^ 31 \<Longrightarrow> sint (a - b :: u32) = int (unat a) - int (unat b)"
proof -
  assume "unat a < 2 ^ 31" "unat b < 2 ^ 31"
  then have "int_of (int (unat a) - int (unat b)) = int (unat a) - int (unat b)" by (rule int_of_difference)
  moreover have "word_of_int (int (unat a) - int (unat b)) = a - b" by (simp add: of_int_diff)
  ultimately show ?thesis by (simp only: int_of_def)
qed

lemma ends_simps [simp]:
  "length (ends links) = length links"
  "i < length links \<Longrightarrow> ends links ! i = (ml_src (links ! i), ml_dst (links ! i))"
  "i < length links \<Longrightarrow> weights links ! i = unat (ml_weight (links ! i))"
  by (simp_all add: ends_def weights_def)

lemma lex_positive:
  "0 < (if x \<noteq> y then int x - int y else if a \<noteq> b then int a - int b else int c - int d) \<longleftrightarrow> (y, b, d) < (x, a, c)"
  by (auto simp: less_prod_def)

lemma cmp_key:
  assumes g: "graph_ok n (ends links) (weights links)" and ij: "i < length links" "j < length links"
  shows "mdv_mstlink_cmp (links ! j) (links ! i) > 0 \<longleftrightarrow>
    link_key (ends links) (weights links) i < link_key (ends links) (weights links) j"
proof -
  let ?a = "links ! j" and ?b = "links ! i"
  let ?lo = "\<lambda>l. min (ml_src l) (ml_dst l)" and ?hi = "\<lambda>l. max (ml_src l) (ml_dst l)"
  have small: "unat (ml_weight ?a) < 2 ^ 31" "unat (ml_weight ?b) < 2 ^ 31"
    "?lo ?a < 2 ^ 31" "?lo ?b < 2 ^ 31" "?hi ?a < 2 ^ 31" "?hi ?b < 2 ^ 31"
    using graph_okD [OF g, of i] graph_okD [OF g, of j] ij by auto
  have pair: "(if ml_src l < ml_dst l then (ml_src l, ml_dst l) else (ml_dst l, ml_src l)) = (?lo l, ?hi l)" for l
    by auto
  note d = int_of_difference [OF small(3,4)] int_of_difference [OF small(5,6)]
  define wa wb where "wa = unat (ml_weight ?a)" and "wb = unat (ml_weight ?b)"
  have "mdv_mstlink_cmp ?a ?b =
    (if wa \<noteq> wb then int wa - int wb else if ?lo ?a \<noteq> ?lo ?b then int (?lo ?a) - int (?lo ?b) else int (?hi ?a) - int (?hi ?b))"
    unfolding mdv_mstlink_cmp_def Let_def pair prod.case d weight_difference [OF small(1,2)] wa_def [symmetric] wb_def [symmetric]
    by simp
  moreover have "link_key (ends links) (weights links) j = (wa, ?lo ?a, ?hi ?a)"
    "link_key (ends links) (weights links) i = (wb, ?lo ?b, ?hi ?b)"
    using ij by (simp_all add: link_key_def wa_def wb_def)
  ultimately show ?thesis by (simp only: lex_positive)
qed

section \<open>The closest subsets\<close>

definition crossing :: "edges \<Rightarrow> (nat \<Rightarrow> nat) \<Rightarrow> nat \<Rightarrow> nat \<Rightarrow> nat set" where
  "crossing es cl m l = {i. i < m \<and> cl (fst (es ! i)) \<noteq> cl (snd (es ! i)) \<and> l \<in> {cl (fst (es ! i)), cl (snd (es ! i))}}"

definition is_best :: "(nat \<Rightarrow> 'k :: linorder) \<Rightarrow> nat set \<Rightarrow> nat option \<Rightarrow> bool" where
  "is_best ky C r = (case r of None \<Rightarrow> C = {} | Some j \<Rightarrow> j \<in> C \<and> (\<forall>i \<in> C. ky j \<le> ky i))"

lemma crossing_Suc: "crossing es cl (Suc m) l =
    (if cl (fst (es ! m)) \<noteq> cl (snd (es ! m)) \<and> l \<in> {cl (fst (es ! m)), cl (snd (es ! m))}
     then insert m (crossing es cl m l) else crossing es cl m l)"
  by (auto simp: crossing_def less_Suc_eq)

lemma minimize_ok:
  assumes g: "graph_ok n (ends links) (weights links)" and i: "i < length links" and C: "C \<subseteq> {..<i}"
    and b: "is_best (pos_key (ends links) (weights links)) C cur"
  shows "is_best (pos_key (ends links) (weights links)) (insert i C) (minimize_link links i cur)"
proof (cases cur)
  case None
  then show ?thesis using b by (simp add: is_best_def minimize_link_def)
next
  case (Some j)
  let ?k = "pos_key (ends links) (weights links)"
  have j: "j \<in> C" "\<forall>i \<in> C. ?k j \<le> ?k i" "j < i" using b C Some by (auto simp: is_best_def)
  have cmp: "mdv_mstlink_cmp (links ! j) (links ! i) > 0 \<longleftrightarrow> ?k i < ?k j"
    using cmp_key [OF g i, of j] j(3) i by (auto simp: pos_key_def less_prod_def)
  show ?thesis
  proof (cases "?k i < ?k j")
    case True
    then show ?thesis using cmp j Some by (auto simp: is_best_def minimize_link_def)
  next
    case False
    then show ?thesis using cmp j Some by (auto simp: is_best_def minimize_link_def not_less)
  qed
qed

definition same_sets :: "mdv_mstset list \<Rightarrow> mdv_mstset list \<Rightarrow> bool" where
  "same_sets ss ss' \<longleftrightarrow> map ms_set_id ss = map ms_set_id ss' \<and> map ms_next ss = map ms_next ss'"

lemma same_sets_refl [simp]: "same_sets ss ss"
  by (simp add: same_sets_def)

lemma same_sets_trans: "same_sets ss ss' \<Longrightarrow> same_sets ss' ss'' \<Longrightarrow> same_sets ss ss''"
  by (simp add: same_sets_def)

lemma same_setsD:
  assumes "same_sets ss ss'"
  shows "length ss' = length ss" "i < length ss \<Longrightarrow> set_of ss' i = set_of ss i" "i < length ss \<Longrightarrow> ms_next (ss' ! i) = ms_next (ss ! i)"
proof -
  have m: "map ms_set_id ss = map ms_set_id ss'" "map ms_next ss = map ms_next ss'" using assms by (auto simp: same_sets_def)
  show len: "length ss' = length ss" using m(1) by (metis length_map)
  show "i < length ss \<Longrightarrow> set_of ss' i = set_of ss i" using m(1) len by (metis nth_map set_of_def)
  show "i < length ss \<Longrightarrow> ms_next (ss' ! i) = ms_next (ss ! i)" using m(2) len by (metis nth_map)
qed

lemma same_sets_link: "i < length ss \<Longrightarrow> same_sets ss (ss[i := (ss ! i)\<lparr>ms_link := x\<rparr>])"
  by (auto simp: same_sets_def nth_list_update intro!: nth_equalityI)

lemma subsets_inv_same:
  assumes inv: "subsets_inv n ss" and same: "same_sets ss ss'"
  shows "subsets_inv n ss'"
proof -
  have len: "length ss = n" using inv by (simp add: subsets_inv_def)
  note s = same_setsD [OF same, unfolded len]
  have sets: "{i. i < n \<and> set_of ss' i = l} = {i. i < n \<and> set_of ss i = l}" for l using s(2) by auto
  have "\<exists>xs. ring ss' l xs \<and> set (l # xs) = {i. i < n \<and> set_of ss' i = l}" if l: "l < n" "set_of ss' l = l" for l
  proof -
    have "set_of ss l = l" using s(2) [OF l(1)] l(2) by simp
    with inv l(1) obtain xs where xs: "ring ss l xs" "set (l # xs) = {i. i < n \<and> set_of ss i = l}"
      unfolding subsets_inv_def by blast
    then have "\<And>x. x \<in> set (l # xs) \<Longrightarrow> x < n" by auto
    then have "ring ss' l xs" by (intro ring_cong [OF xs(1)]) (auto simp: s len)
    with xs(2) show ?thesis unfolding sets by blast
  qed
  moreover have "set_of ss' i < n \<and> set_of ss' (set_of ss' i) = set_of ss' i" if "i < n" for i
  proof -
    have i: "set_of ss i < n" "set_of ss (set_of ss i) = set_of ss i" using inv that by (auto simp: subsets_inv_def)
    show ?thesis unfolding s(2) [OF that] using i s(2) [OF i(1)] by simp
  qed
  ultimately show ?thesis using s(1) by (simp add: subsets_inv_def)
qed

lemma closest_step_ok:
  assumes g: "graph_ok n (ends links) (weights links)" and i: "i < length links" and inv: "subsets_inv n ss"
    and best: "\<And>l. l < n \<Longrightarrow> is_best (pos_key (ends links) (weights links)) (crossing (ends links) (set_of ss) i l) (ms_link (ss ! l))"
  shows "\<exists>ss'. closest_step links i ss = Some ss' \<and> same_sets ss ss' \<and>
    (\<forall>l<n. is_best (pos_key (ends links) (weights links)) (crossing (ends links) (set_of ss) (Suc i) l) (ms_link (ss' ! l)))"
proof -
  let ?u = "ml_src (links ! i)" and ?v = "ml_dst (links ! i)"
  have uv: "?u < n" "?v < n" using graph_okD [OF g, of i] i by auto
  have len: "length ss = n" using inv by (simp add: subsets_inv_def)
  define a b where "a = set_of ss ?u" and "b = set_of ss ?v"
  have ab: "a < n" "b < n" using inv uv by (auto simp: subsets_inv_def a_def b_def)
  have sub: "crossing (ends links) (set_of ss) i l \<subseteq> {..<i}" for l by (auto simp: crossing_def)
  show ?thesis
  proof (cases "a = b")
    case True
    then have "closest_step links i ss = Some ss"
      using uv len unfolding closest_step_def Let_def a_def b_def by (simp add: set_of_def)
    with True best show ?thesis using i by (auto simp: crossing_Suc a_def b_def)
  next
    case False
    define s1 where "s1 = ss[a := (ss ! a)\<lparr>ms_link := minimize_link links i (ms_link (ss ! a))\<rparr>]"
    define s2 where "s2 = s1[b := (s1 ! b)\<lparr>ms_link := minimize_link links i (ms_link (ss ! b))\<rparr>]"
    have "closest_step links i ss = Some s2"
      unfolding closest_step_def Let_def set_of_def [symmetric] a_def [symmetric] b_def [symmetric] s1_def [symmetric] s2_def
      using uv len ab False by simp
    moreover have "same_sets ss s1" "same_sets s1 s2"
      using ab len by (auto simp: s1_def s2_def intro!: same_sets_link)
    moreover have "ms_link (s2 ! l) = (if l = a \<or> l = b then minimize_link links i (ms_link (ss ! l)) else ms_link (ss ! l))"
      if "l < n" for l using that len False by (simp add: s1_def s2_def nth_list_update)
    moreover have "is_best (pos_key (ends links) (weights links)) (crossing (ends links) (set_of ss) (Suc i) l)
        (if l = a \<or> l = b then minimize_link links i (ms_link (ss ! l)) else ms_link (ss ! l))" if "l < n" for l
      using best [OF that] minimize_ok [OF g i sub best [OF that]] False i
      by (auto simp: crossing_Suc a_def b_def)
    ultimately show ?thesis using same_sets_trans by auto
  qed
qed

lemma crossing_same: "(\<And>i. i < n \<Longrightarrow> cl' i = cl i) \<Longrightarrow> list_all (\<lambda>(a, b). a < n \<and> b < n) es \<Longrightarrow> m \<le> length es \<Longrightarrow>
    crossing es cl' m l = crossing es cl m l"
  unfolding crossing_def by (intro Collect_cong) (fastforce simp: list_all_length split_beta)

lemma closest_loop_ok:
  assumes g: "graph_ok n (ends links) (weights links)" and inv: "subsets_inv n ss" and m: "m \<le> length links"
    and best: "\<And>l. l < n \<Longrightarrow> is_best (pos_key (ends links) (weights links)) (crossing (ends links) (set_of ss) m l) (ms_link (ss ! l))"
  shows "\<exists>ss'. closest_loop links [m..<length links] ss = Some ss' \<and> same_sets ss ss' \<and>
    (\<forall>l<n. is_best (pos_key (ends links) (weights links)) (crossing (ends links) (set_of ss) (length links) l) (ms_link (ss' ! l)))"
  using m inv best
proof (induction "length links - m" arbitrary: m ss)
  case 0
  then show ?case by simp
next
  case (Suc d)
  then have m: "m < length links" by simp
  obtain s1 where s1: "closest_step links m ss = Some s1" "same_sets ss s1"
    "\<And>l. l < n \<Longrightarrow> is_best (pos_key (ends links) (weights links)) (crossing (ends links) (set_of ss) (Suc m) l) (ms_link (s1 ! l))"
    using closest_step_ok [OF g m Suc.prems(2,3)] by blast
  have len: "length ss = n" using Suc.prems(2) by (simp add: subsets_inv_def)
  have cr: "crossing (ends links) (set_of s1) k l = crossing (ends links) (set_of ss) k l" if "k \<le> length links" for k l
    by (rule crossing_same [where n = n]) (use g same_setsD(2) [OF s1(2)] len that in \<open>auto simp: graph_ok_def\<close>)
  have "\<exists>ss'. closest_loop links [Suc m..<length links] s1 = Some ss' \<and> same_sets s1 ss' \<and>
    (\<forall>l<n. is_best (pos_key (ends links) (weights links)) (crossing (ends links) (set_of s1) (length links) l) (ms_link (ss' ! l)))"
    by (rule Suc.hyps(1)) (use Suc.hyps(2) m s1(3) cr [of "Suc m"] subsets_inv_same [OF Suc.prems(2) s1(2)] in auto)
  then show ?case using s1(1,2) cr [of "length links"] m same_sets_trans [OF s1(2)]
    by (auto simp: upt_conv_Cons)
qed

section \<open>Merging the subsets\<close>

definition marked :: "mdv_mstlink list \<Rightarrow> nat set" where
  "marked links = {k. k < length links \<and> ml_mst (links ! k) \<noteq> 0}"

text \<open>A link is minimal when the links that come before it in the order do not connect its ends.\<close>

definition minimal_link :: "edges \<Rightarrow> nat list \<Rightarrow> nat \<Rightarrow> bool" where
  "minimal_link es ws k \<longleftrightarrow> (fst (es ! k), snd (es ! k)) \<notin> conn es {j. j < length es \<and> pos_key es ws j < pos_key es ws k}"

definition mst_inv :: "nat \<Rightarrow> edges \<Rightarrow> nat list \<Rightarrow> mst_state \<Rightarrow> bool" where
  "mst_inv n es ws s \<longleftrightarrow> (case s of (ss, links, trees, sz) \<Rightarrow>
     ends links = es \<and> weights links = ws \<and> subsets_inv n ss \<and> labels es n (marked links) (set_of ss) \<and>
     trees = card (set_of ss ` {..<n}) \<and> sz + trees = n \<and> card (marked links) = sz \<and>
     (\<forall>k \<in> marked links. minimal_link es ws k))"

lemma best_minimal:
  assumes best: "is_best (pos_key es ws) (crossing es cl (length es) c) (Some l)"
  shows "minimal_link es ws l" "cl (fst (es ! l)) \<noteq> cl (snd (es ! l))" "l < length es"
proof -
  have l: "l \<in> crossing es cl (length es) c" "\<forall>i \<in> crossing es cl (length es) c. pos_key es ws l \<le> pos_key es ws i"
    using best by (auto simp: is_best_def)
  then show x: "cl (fst (es ! l)) \<noteq> cl (snd (es ! l))" "l < length es" by (auto simp: crossing_def)
  let ?J = "{j. j < length es \<and> pos_key es ws j < pos_key es ws l}"
  show "minimal_link es ws l"
    unfolding minimal_link_def
  proof
    assume conn: "(fst (es ! l), snd (es ! l)) \<in> conn es ?J"
    have "\<exists>k \<in> ?J. (cl (fst (es ! k)) = c) \<noteq> (cl (snd (es ! k)) = c)"
    proof (cases "cl (fst (es ! l)) = c")
      case True
      then have "cl (snd (es ! l)) \<noteq> c" using x by simp
      then show ?thesis using conn_cut [OF conn, of "\<lambda>x. cl x = c"] True by blast
    next
      case False
      then have "cl (snd (es ! l)) = c" using l by (auto simp: crossing_def)
      then show ?thesis using conn_cut [OF conn, of "\<lambda>x. cl x \<noteq> c"] False by blast
    qed
    then obtain k where "k \<in> ?J" "k \<in> crossing es cl (length es) c" by (auto simp: crossing_def)
    with l(2) show False by auto
  qed
qed

lemma merge_step_ok:
  assumes g: "graph_ok n es ws" and inv: "mst_inv n es ws (ss, links, trees, sz)" and i: "i < n"
    and best: "is_best (pos_key es ws) (crossing es cl (length es) i) (ms_link (ss ! i))"
  shows "(merge_step i (ss, links, trees, sz) = Some (ss, links, trees, sz) \<and>
      (case ms_link (ss ! i) of None \<Rightarrow> True | Some l \<Rightarrow> set_of ss (fst (es ! l)) = set_of ss (snd (es ! l)))) \<or>
    (\<exists>ss' links'. merge_step i (ss, links, trees, sz) = Some (ss', links', trees - 1, Suc sz) \<and> 0 < trees \<and>
      mst_inv n es ws (ss', links', trees - 1, Suc sz) \<and> (\<forall>j<n. ms_link (ss' ! j) = ms_link (ss ! j)))"
proof (cases "ms_link (ss ! i)")
  case None
  then show ?thesis by (simp add: merge_step_def)
next
  case (Some l)
  have es: "ends links = es" "weights links = ws" and sinv: "subsets_inv n ss" and lab: "labels es n (marked links) (set_of ss)"
    and cnt: "trees = card (set_of ss ` {..<n})" "sz + trees = n" "card (marked links) = sz"
    and mins: "\<And>k. k \<in> marked links \<Longrightarrow> minimal_link es ws k"
    using inv by (auto simp: mst_inv_def)
  have l: "minimal_link es ws l" "l < length es" using best_minimal [OF best [unfolded Some]] by auto
  then have ll: "l < length links" using es by auto
  define u v where "u = ml_src (links ! l)" and "v = ml_dst (links ! l)"
  have uv: "es ! l = (u, v)" "u < n" "v < n" using graph_okD [OF g l(2)] es ll by (auto simp: u_def v_def)
  have len: "length ss = n" and cl: "\<And>j. j < n \<Longrightarrow> set_of ss j < n \<and> set_of ss (set_of ss j) = set_of ss j"
    using sinv by (auto simp: subsets_inv_def)
  show ?thesis
  proof (cases "set_of ss u = set_of ss v")
    case True
    then have "merge_step i (ss, links, trees, sz) = Some (ss, links, trees, sz)"
      unfolding merge_step_def Let_def prod.case Some option.case u_def [symmetric] v_def [symmetric]
      using uv len by (simp add: set_of_def)
    with True Some uv show ?thesis by simp
  next
    case False
    obtain ss' where ss': "mdv_union_subsets ss (set_of ss u) (set_of ss v) = Some ss'" "subsets_inv n ss'"
      "\<And>j. j < n \<Longrightarrow> set_of ss' j = (if set_of ss j = set_of ss v then set_of ss u else set_of ss j)"
      "\<And>j. j < n \<Longrightarrow> ms_link (ss' ! j) = ms_link (ss ! j)"
      using union_subsets_ok [OF sinv, of "set_of ss u" "set_of ss v"] cl uv False by blast
    define links' where "links' = links[l := (links ! l)\<lparr>ml_mst := 1\<rparr>]"
    have step: "merge_step i (ss, links, trees, sz) = Some (ss', links', trees - 1, sz + 1)"
      unfolding merge_step_def Let_def prod.case Some option.case u_def [symmetric] v_def [symmetric] links'_def [symmetric]
      using uv len False ss'(1) by (simp add: set_of_def)
    have es': "ends links' = es" "weights links' = ws"
      unfolding es [symmetric] links'_def using ll by (auto simp: ends_def weights_def nth_list_update intro!: nth_equalityI)
    have mk: "marked links' = insert l (marked links)"
      using ll by (auto simp: marked_def links'_def nth_list_update split: if_splits)
    have "l \<notin> marked links"
    proof
      assume "l \<in> marked links"
      then have "(u, v) \<in> conn es (marked links)" using uv(1) by (rule conn_edge)
      then show False using labelsD [OF lab uv(2,3)] False by simp
    qed
    then have c1: "card (marked links') = Suc sz" unfolding mk using cnt(3) by (simp add: marked_def)
    have eqm: "\<And>j. j < n \<Longrightarrow> set_of ss' j = merged (set_of ss) u v j" using ss'(3) by (simp add: merged_def)
    have lab': "labels es n (marked links') (set_of ss')"
      unfolding mk using labels_merge [OF lab uv] labels_cong [of n "set_of ss'", OF eqm] by blast
    have "set_of ss' ` {..<n} = merged (set_of ss) u v ` {..<n}" using eqm by (auto intro!: image_cong)
    then have c2: "Suc (card (set_of ss' ` {..<n})) = trees" using card_merged [OF uv(2,3) False] cnt(1) by simp
    have "mst_inv n es ws (ss', links', trees - 1, Suc sz)"
      unfolding mst_inv_def prod.case using es' ss'(2) lab' c1 c2 cnt(2) mins l(1) unfolding mk by auto
    with step ss'(4) c2 show ?thesis by auto
  qed
qed

lemma merge_loop_ok:
  assumes g: "graph_ok n es ws"
  shows "mst_inv n es ws (ss, links, trees, sz) \<Longrightarrow> set is \<subseteq> {..<n} \<Longrightarrow>
    (\<And>i. i < n \<Longrightarrow> is_best (pos_key es ws) (crossing es cl (length es) i) (ms_link (ss ! i))) \<Longrightarrow>
    \<exists>ss' links' trees' sz'. merge_loop is (ss, links, trees, sz) = Some (ss', links', trees', sz') \<and>
      mst_inv n es ws (ss', links', trees', sz') \<and> trees' \<le> trees \<and>
      (trees' = trees \<longrightarrow> ss' = ss \<and> links' = links \<and>
        (\<forall>i \<in> set is. case ms_link (ss ! i) of None \<Rightarrow> True | Some l \<Rightarrow> set_of ss (fst (es ! l)) = set_of ss (snd (es ! l))))"
proof (induction "is" arbitrary: ss links trees sz)
  case Nil
  then show ?case by simp
next
  case (Cons i "is")
  have i: "i < n" "set is \<subseteq> {..<n}" using Cons.prems(2) by auto
  from merge_step_ok [OF g Cons.prems(1) i(1) Cons.prems(3) [OF i(1)]] show ?case
  proof (elim disjE exE conjE)
    assume "merge_step i (ss, links, trees, sz) = Some (ss, links, trees, sz)"
      "case ms_link (ss ! i) of None \<Rightarrow> True | Some l \<Rightarrow> set_of ss (fst (es ! l)) = set_of ss (snd (es ! l))"
    then show ?thesis using Cons.IH [OF Cons.prems(1) i(2) Cons.prems(3)] by auto
  next
    fix ss' links'
    assume s: "merge_step i (ss, links, trees, sz) = Some (ss', links', trees - 1, Suc sz)" "0 < trees"
      "mst_inv n es ws (ss', links', trees - 1, Suc sz)" "\<forall>j<n. ms_link (ss' ! j) = ms_link (ss ! j)"
    then have "\<And>i. i < n \<Longrightarrow> is_best (pos_key es ws) (crossing es cl (length es) i) (ms_link (ss' ! i))"
      using Cons.prems(3) by simp
    from Cons.IH [OF s(3) i(2) this] s(1,2) show ?thesis by fastforce
  qed
qed

lemma labels_all:
  assumes lab: "labels es n I lab" and I: "I \<subseteq> {..<length es}"
    and closed: "\<And>k. k < length es \<Longrightarrow> lab (fst (es ! k)) = lab (snd (es ! k))"
  shows "labels es n {..<length es} lab"
  unfolding labels_def
proof (intro allI impI)
  fix i j assume ij: "i < n" "j < n"
  show "lab i = lab j \<longleftrightarrow> (i, j) \<in> conn es {..<length es}"
  proof
    assume "lab i = lab j"
    then show "(i, j) \<in> conn es {..<length es}" using labelsD [OF lab ij] conn_mono [OF I] by simp
  next
    assume "(i, j) \<in> conn es {..<length es}"
    then show "lab i = lab j" using conn_cut [of i j es "{..<length es}" "\<lambda>x. lab x = lab i"] closed
      by (metis (mono_tags, lifting) lessThan_iff)
  qed
qed

lemma mst_loop_ok:
  assumes g: "graph_ok n es ws"
  shows "mst_inv n es ws s \<Longrightarrow> \<exists>ss' links' trees' sz'. mst_loop s = Some (ss', links', trees', sz') \<and>
    ends links' = es \<and> weights links' = ws \<and>
    (trees' \<le> 1 \<and> mst_inv n es ws (ss', links', trees', sz') \<or>
     sz' = 0 \<and> \<not> (\<forall>i<n. \<forall>j<n. (i, j) \<in> conn es {..<length es}))"
proof (induction "fst (snd (snd s))" arbitrary: s rule: less_induct)
  case less
  obtain ss links trees sz where s: "s = (ss, links, trees, sz)" by (cases s)
  have inv: "ends links = es" "weights links = ws" "subsets_inv n ss" "labels es n (marked links) (set_of ss)"
    "trees = card (set_of ss ` {..<n})" using less.prems by (auto simp: s mst_inv_def)
  have len: "length links = length es" "length ss = n" using inv(1,3) by (auto simp: subsets_inv_def)
  show ?case
  proof (cases "trees > 1")
    case False
    then show ?thesis using less.prems inv(1,2) by (simp add: s mst_loop.simps)
  next
    case True
    let ?s0 = "map (\<lambda>s. s\<lparr>ms_link := None\<rparr>) ss"
    have s0: "same_sets ss ?s0" by (simp add: same_sets_def)
    have b0: "is_best (pos_key es ws) (crossing es (set_of ?s0) 0 l) (ms_link (?s0 ! l))" if "l < n" for l
      using that len by (simp add: is_best_def crossing_def)
    obtain s1 where s1: "closest_loop links [0..<length links] ?s0 = Some s1" "same_sets ?s0 s1"
      "\<And>l. l < n \<Longrightarrow> is_best (pos_key es ws) (crossing es (set_of ?s0) (length es) l) (ms_link (s1 ! l))"
      using closest_loop_ok [of n links ?s0 0] g b0 subsets_inv_same [OF inv(3) s0] unfolding inv(1,2) len(1) by blast
    have same: "same_sets ss s1" using s0 s1(2) by (rule same_sets_trans)
    have so: "set_of s1 i = set_of ss i" if "i < n" for i using same_setsD(2) [OF same] that len by simp
    have img: "set_of s1 ` {..<n} = set_of ss ` {..<n}" using so by (auto intro!: image_cong)
    have inv1: "mst_inv n es ws (s1, links, trees, sz)"
      using less.prems subsets_inv_same [OF inv(3) same] labels_cong [of n "set_of s1" "set_of ss" es "marked links", OF so] img
      by (simp add: s mst_inv_def)
    have up: "set [0..<n] \<subseteq> {..<n}" by auto
    obtain s2 links' trees' sz' where m: "merge_loop [0..<n] (s1, links, trees, sz) = Some (s2, links', trees', sz')"
      "mst_inv n es ws (s2, links', trees', sz')" "trees' \<le> trees"
      "trees' = trees \<longrightarrow> s2 = s1 \<and> links' = links \<and>
        (\<forall>i \<in> set [0..<n]. case ms_link (s1 ! i) of None \<Rightarrow> True | Some l \<Rightarrow> set_of s1 (fst (es ! l)) = set_of s1 (snd (es ! l)))"
      using merge_loop_ok [OF g inv1 up s1(3)] by blast
    have step: "mst_loop s = (if trees' = trees then Some (s2, links', trees', 0) else mst_loop (s2, links', trees', sz'))"
      unfolding s mst_loop.simps [of ss] using True s1(1) m(1) len by simp
    have stat: "ends links' = es" "weights links' = ws" using m(2) by (auto simp: mst_inv_def)
    show ?thesis
    proof (cases "trees' = trees")
      case False
      then show ?thesis using less.hyps [OF _ m(2)] m(3) step by (simp add: s)
    next
      case eq: True
      have none: "crossing es (set_of ?s0) (length es) l = {}" if "l < n" for l
      proof (cases "ms_link (s1 ! l)")
        case None
        then show ?thesis using s1(3) [OF that] by (simp add: is_best_def)
      next
        case (Some k)
        have k: "set_of ?s0 (fst (es ! k)) \<noteq> set_of ?s0 (snd (es ! k))" "k < length es"
          using best_minimal [OF s1(3) [OF that, unfolded Some]] by auto
        have "case ms_link (s1 ! l) of None \<Rightarrow> True | Some k \<Rightarrow> set_of s1 (fst (es ! k)) = set_of s1 (snd (es ! k))"
          using m(4) eq that by simp
        then have "set_of s1 (fst (es ! k)) = set_of s1 (snd (es ! k))" using Some by simp
        moreover have "fst (es ! k) < n" "snd (es ! k) < n" using graph_okD [OF g k(2)] by auto
        ultimately have "set_of ?s0 (fst (es ! k)) = set_of ?s0 (snd (es ! k))"
          using same_setsD(2) [OF s1(2)] len by simp
        with k(1) show ?thesis by contradiction
      qed
      have "set_of ss (fst (es ! k)) = set_of ss (snd (es ! k))" if k: "k < length es" for k
      proof (rule ccontr)
        assume ne: "set_of ss (fst (es ! k)) \<noteq> set_of ss (snd (es ! k))"
        have uv: "fst (es ! k) < n" "snd (es ! k) < n" using graph_okD [OF g k] by auto
        then have "k \<in> crossing es (set_of ?s0) (length es) (set_of ss (fst (es ! k)))"
          using ne k same_setsD(2) [OF s0] len by (simp add: crossing_def)
        moreover have "set_of ss (fst (es ! k)) < n" using inv(3) uv by (simp add: subsets_inv_def)
        ultimately show False using none by blast
      qed
      then have "labels es n {..<length es} (set_of ss)"
        using labels_all [OF inv(4)] len by (auto simp: marked_def)
      then have "\<not> (\<forall>i<n. \<forall>j<n. (i, j) \<in> conn es {..<length es})"
        using labels_one_class [of es n "{..<length es}" "set_of ss"] inv(5) True by simp
      then show ?thesis using step eq stat by simp
    qed
  qed
qed

section \<open>Minimal links have minimal weight\<close>

text \<open>
  The links of a set \<open>S\<close> that the smaller links of \<open>S\<close> do not connect. They form a forest with the components of
  \<open>S\<close>, so counting them below every weight compares any two connecting sets of links.
\<close>

definition greedy :: "edges \<Rightarrow> nat list \<Rightarrow> nat set \<Rightarrow> nat set" where
  "greedy es ws S = {k \<in> S. (fst (es ! k), snd (es ! k)) \<notin> conn es {j \<in> S. pos_key es ws j < pos_key es ws k}}"

definition upto :: "nat list \<Rightarrow> nat \<Rightarrow> nat set" where
  "upto ws t = {k. ws ! k \<le> t}"

lemma greedy_insert:
  assumes "\<And>y. y \<in> S \<Longrightarrow> pos_key es ws y \<le> pos_key es ws k" "k \<notin> S"
  shows "greedy es ws (insert k S) = greedy es ws S \<union> (if (fst (es ! k), snd (es ! k)) \<in> conn es S then {} else {k})"
proof -
  have lt: "y \<in> S \<Longrightarrow> pos_key es ws y < pos_key es ws k" for y
    using assms pos_key_inj [of es ws y k] by (metis order_le_imp_less_or_eq)
  have "{j \<in> insert k S. pos_key es ws j < pos_key es ws y} = {j \<in> S. pos_key es ws j < pos_key es ws y}" if "y \<in> S" for y
    using lt [OF that] by auto
  moreover have "{j \<in> insert k S. pos_key es ws j < pos_key es ws k} = S" using lt by auto
  ultimately show ?thesis using assms(2) by (auto simp: greedy_def)
qed

lemma greedy_count:
  assumes g: "graph_ok n es ws" and "finite S"
  shows "S \<subseteq> {..<length es} \<Longrightarrow> \<exists>lab :: nat \<Rightarrow> nat. labels es n S lab \<and> card (greedy es ws S) + card (lab ` {..<n}) = n"
  using assms(2)
proof (induction S rule: finite_ranking_induct [where f = "pos_key es ws"])
  case empty
  have "labels es n {} (\<lambda>i. i)" by (rule labels_empty) simp
  moreover have "card (greedy es ws {}) + card ((\<lambda>i. i) ` {..<n}) = n" by (simp add: greedy_def)
  ultimately show ?case by blast
next
  case (insert k S)
  show ?case
  proof (cases "k \<in> S")
    case True
    then show ?thesis using insert by (simp add: insert_absorb)
  next
    case False
    obtain lab :: "nat \<Rightarrow> nat" where lab: "labels es n S lab" "card (greedy es ws S) + card (lab ` {..<n}) = n"
      using insert by auto
    obtain u v where uv: "es ! k = (u, v)" by (cases "es ! k")
    have b: "u < n" "v < n" using graph_okD [OF g, of k] insert.prems uv by auto
    note gi = greedy_insert [OF insert.hyps(2) False, unfolded uv, simplified]
    have fin: "finite (greedy es ws S)" "k \<notin> greedy es ws S" using insert.hyps(1) False by (auto simp: greedy_def)
    show ?thesis
    proof (cases "lab u = lab v")
      case True
      then show ?thesis using labels_same [OF lab(1) uv b True] labelsD [OF lab(1) b] lab(2) gi by auto
    next
      case ne: False
      have "card (greedy es ws (insert k S)) = Suc (card (greedy es ws S))"
        using gi labelsD [OF lab(1) b] ne fin by simp
      then have "card (greedy es ws (insert k S)) + card (merged lab u v ` {..<n}) = n"
        using card_merged [OF b ne] lab(2) by simp
      then show ?thesis using labels_merge [OF lab(1) uv b] by blast
    qed
  qed
qed

lemma greedy_upto: "greedy es ws S \<inter> upto ws t = greedy es ws (S \<inter> upto ws t)"
proof -
  have "{j \<in> S \<inter> upto ws t. pos_key es ws j < pos_key es ws k} = {j \<in> S. pos_key es ws j < pos_key es ws k}"
    if "k \<in> upto ws t" for k
    using that by (auto simp: upto_def intro: order_trans [OF pos_key_weight [OF less_imp_le]])
  then show ?thesis by (auto simp: greedy_def)
qed

lemma greedy_count_mono:
  assumes g: "graph_ok n es ws" and S: "S \<subseteq> A" "A \<subseteq> {..<length es}"
  shows "card (greedy es ws S) \<le> card (greedy es ws A)"
proof -
  have fin: "finite S" "finite A" "S \<subseteq> {..<length es}"
    using S finite_subset [OF S(2)] finite_subset [OF S(1)] by auto
  obtain lab :: "nat \<Rightarrow> nat" where 1: "labels es n S lab" "card (greedy es ws S) + card (lab ` {..<n}) = n"
    using greedy_count [OF g fin(1,3)] by blast
  obtain lab' :: "nat \<Rightarrow> nat" where 2: "labels es n A lab'" "card (greedy es ws A) + card (lab' ` {..<n}) = n"
    using greedy_count [OF g fin(2) S(2)] by blast
  from labels_card_mono [OF 1(1) 2(1) S(1)] 1(2) 2(2) show ?thesis by linarith
qed

lemma sum_by_levels:
  fixes w :: "nat \<Rightarrow> nat"
  assumes "finite X" "\<And>k. k \<in> X \<Longrightarrow> w k \<le> W"
  shows "sum w X = (\<Sum>t<W. card X - card (X \<inter> {k. w k \<le> t}))"
proof -
  have "card X - card (X \<inter> {k. w k \<le> t}) = (\<Sum>k \<in> X. if t < w k then 1 else 0)" for t
  proof -
    have "card X - card (X \<inter> {k. w k \<le> t}) = card (X - X \<inter> {k. w k \<le> t})"
      by (rule card_Diff_subset [symmetric]) (use assms(1) in auto)
    also have "X - X \<inter> {k. w k \<le> t} = {k \<in> X. t < w k}" by auto
    finally show ?thesis using assms(1) by (simp add: sum.If_cases Int_def)
  qed
  then have "(\<Sum>t<W. card X - card (X \<inter> {k. w k \<le> t})) = (\<Sum>t<W. \<Sum>k \<in> X. if t < w k then 1 else 0)" by simp
  also have "\<dots> = (\<Sum>k \<in> X. \<Sum>t<W. if t < w k then 1 else 0)" by (rule sum.swap)
  also have "\<dots> = sum w X"
  proof (rule sum.cong)
    fix k assume "k \<in> X"
    then have "{..<W} \<inter> {t. t < w k} = {..<w k}" using assms(2) by force
    then show "(\<Sum>t<W. if t < w k then 1 else 0) = w k" by (simp add: sum.If_cases)
  qed simp
  finally show ?thesis by simp
qed

lemma sum_levels_mono:
  assumes "finite X" "finite Y" "card X = card Y" "\<And>t. card (Y \<inter> upto ws t) \<le> card (X \<inter> upto ws t)"
  shows "(\<Sum>k \<in> X. ws ! k) \<le> (\<Sum>k \<in> Y. ws ! k)"
proof -
  define W where "W = Max (insert 0 ((!) ws ` (X \<union> Y)))"
  have W: "ws ! k \<le> W" if "k \<in> X \<union> Y" for k unfolding W_def by (rule Max_ge) (use that assms in auto)
  have "(\<Sum>t<W. card X - card (X \<inter> {k. ws ! k \<le> t})) \<le> (\<Sum>t<W. card Y - card (Y \<inter> {k. ws ! k \<le> t}))"
    using assms(3,4) by (intro sum_mono) (simp add: upto_def diff_le_mono2)
  then show ?thesis using sum_by_levels [of X "(!) ws" W] sum_by_levels [of Y "(!) ws" W] W assms(1,2) by simp
qed

lemma connecting_count:
  assumes g: "graph_ok n es ws" and S: "S \<subseteq> {..<length es}" and c: "\<forall>i<n. \<forall>j<n. (i, j) \<in> conn es S"
  shows "card (greedy es ws S) = n - 1"
proof -
  have "finite S" using finite_subset [OF S] by simp
  then obtain lab :: "nat \<Rightarrow> nat" where lab: "labels es n S lab" "card (greedy es ws S) + card (lab ` {..<n}) = n"
    using greedy_count [OF g _ S] by blast
  have "card (lab ` {..<n}) \<le> 1" using labels_one_class [OF lab(1)] c by blast
  moreover have "card (lab ` {..<n}) > 0" if "n > 0" using that by (auto simp: card_gt_0_iff)
  ultimately show ?thesis using lab(2) by (cases n) auto
qed

lemma minimal_weight:
  assumes g: "graph_ok n es ws" and F: "F \<subseteq> {..<length es}" "\<And>k. k \<in> F \<Longrightarrow> minimal_link es ws k" "card F = n - 1"
    and S: "S \<subseteq> {..<length es}" "\<forall>i<n. \<forall>j<n. (i, j) \<in> conn es S"
  shows "(\<Sum>k \<in> F. ws ! k) \<le> (\<Sum>k \<in> S. ws ! k)"
proof -
  let ?A = "{..<length es}"
  have conA: "\<forall>i<n. \<forall>j<n. (i, j) \<in> conn es ?A" using S(2) conn_mono [OF S(1)] by blast
  have "F \<subseteq> greedy es ws ?A" using F(1,2) by (auto simp: greedy_def minimal_link_def lessThan_def)
  moreover have cA: "card (greedy es ws ?A) = n - 1" by (rule connecting_count [OF g _ conA]) simp
  moreover have finA: "finite (greedy es ws ?A)" by (simp add: greedy_def)
  ultimately have F_eq: "F = greedy es ws ?A" using F(3) by (intro card_subset_eq) auto
  have finS: "finite S" "finite (greedy es ws S)" using finite_subset [OF S(1)] by (auto simp: greedy_def)
  have "(\<Sum>k \<in> greedy es ws ?A. ws ! k) \<le> (\<Sum>k \<in> greedy es ws S. ws ! k)"
  proof (rule sum_levels_mono [OF finA finS(2)])
    show "card (greedy es ws ?A) = card (greedy es ws S)" using cA connecting_count [OF g S] by simp
    fix t show "card (greedy es ws S \<inter> upto ws t) \<le> card (greedy es ws ?A \<inter> upto ws t)"
      unfolding greedy_upto by (rule greedy_count_mono [OF g]) (use S(1) in auto)
  qed
  also have "\<dots> \<le> (\<Sum>k \<in> S. ws ! k)" by (rule sum_mono2) (use finS in \<open>auto simp: greedy_def\<close>)
  finally show ?thesis unfolding F_eq .
qed

section \<open>The search\<close>

definition connects :: "nat \<Rightarrow> edges \<Rightarrow> nat set \<Rightarrow> bool" where
  "connects n es I \<longleftrightarrow> (\<forall>i<n. \<forall>j<n. (i, j) \<in> conn es I)"

lemma initial_inv:
  assumes "graph_ok n (ends links) (weights links)"
  shows "mst_inv n (ends links) (weights links)
    (map (\<lambda>i. \<lparr>ms_set_id = i, ms_link = None, ms_next = None\<rparr>) [0..<n], map (\<lambda>l. l\<lparr>ml_mst := 0\<rparr>) links, n, 0)"
proof -
  let ?ss = "map (\<lambda>i. \<lparr>ms_set_id = i, ms_link = None, ms_next = None\<rparr>) [0..<n] :: mdv_mstset list"
  have so: "set_of ?ss i = i" if "i < n" for i using that by (simp add: set_of_def)
  have "ring ?ss l [] \<and> set [l] = {i. i < n \<and> set_of ?ss i = l}" if "l < n" for l
    using that so by (auto simp: ring_def)
  then have "subsets_inv n ?ss" unfolding subsets_inv_def using so by fastforce
  moreover have "labels (ends links) n {} (set_of ?ss)" by (rule labels_empty) (auto simp: inj_on_def so)
  moreover have "set_of ?ss ` {..<n} = {..<n}" using so by force
  moreover have "marked (map (\<lambda>l. l\<lparr>ml_mst := 0\<rparr>) links) = {}" by (auto simp: marked_def)
  ultimately show ?thesis by (simp add: mst_inv_def ends_def weights_def comp_def)
qed

lemma mst_find_ok:
  assumes g: "graph_ok n (ends links) (weights links)"
  shows "\<exists>links' sz. mdv_mst_find True n links = Some (links', sz) \<and>
    ends links' = ends links \<and> weights links' = weights links \<and>
    (if connects n (ends links) {..<length links}
     then sz = n - 1 \<and> card (marked links') = n - 1 \<and> connects n (ends links) (marked links') \<and>
       (\<forall>S. S \<subseteq> {..<length links} \<and> connects n (ends links) S \<longrightarrow>
          (\<Sum>k \<in> marked links'. weights links ! k) \<le> (\<Sum>k \<in> S. weights links ! k))
     else sz = 0)"
proof -
  let ?es = "ends links" and ?ws = "weights links"
  obtain ss' links' trees' sz' where r: "mst_loop (map (\<lambda>i. \<lparr>ms_set_id = i, ms_link = None, ms_next = None\<rparr>) [0..<n],
      map (\<lambda>l. l\<lparr>ml_mst := 0\<rparr>) links, n, 0) = Some (ss', links', trees', sz')"
    "ends links' = ?es" "weights links' = ?ws"
    "trees' \<le> 1 \<and> mst_inv n ?es ?ws (ss', links', trees', sz') \<or> sz' = 0 \<and> \<not> connects n ?es {..<length ?es}"
    using mst_loop_ok [OF g initial_inv [OF g]] unfolding connects_def by blast
  have find: "mdv_mst_find True n links = Some (links', sz')" using r(1) by (simp add: mdv_mst_find_def Let_def)
  have len: "length links' = length links" using r(2) by (metis ends_simps(1))
  have tree: "sz' = n - 1 \<and> card (marked links') = n - 1 \<and> connects n ?es (marked links') \<and>
      (\<forall>k \<in> marked links'. minimal_link ?es ?ws k)" if t: "trees' \<le> 1" "mst_inv n ?es ?ws (ss', links', trees', sz')"
  proof -
    have i: "labels ?es n (marked links') (set_of ss')" "trees' = card (set_of ss' ` {..<n})" "sz' + trees' = n"
      "card (marked links') = sz'" "\<forall>k \<in> marked links'. minimal_link ?es ?ws k" using t(2) by (auto simp: mst_inv_def)
    have "trees' = 0 \<Longrightarrow> n = 0" using i(2) by (auto simp: card_eq_0_iff)
    then have "sz' = n - 1" using i(3) t(1) by linarith
    moreover have "connects n ?es (marked links')" using labels_one_class [OF i(1)] i(2) t(1) by (simp add: connects_def)
    ultimately show ?thesis using i by simp
  qed
  have sub: "marked links' \<subseteq> {..<length links}" using len by (auto simp: marked_def)
  show ?thesis
  proof (cases "connects n ?es {..<length links}")
    case True
    then have t: "trees' \<le> 1" "mst_inv n ?es ?ws (ss', links', trees', sz')" using r(4) by auto
    note tr = tree [OF t]
    have "(\<Sum>k \<in> marked links'. ?ws ! k) \<le> (\<Sum>k \<in> S. ?ws ! k)" if "S \<subseteq> {..<length links}" "connects n ?es S" for S
      by (rule minimal_weight [OF g]) (use sub tr that in \<open>auto simp: connects_def\<close>)
    with True tr find r(2,3) show ?thesis by auto
  next
    case False
    have "\<not> (trees' \<le> 1 \<and> mst_inv n ?es ?ws (ss', links', trees', sz'))"
      using tree False conn_mono [OF sub] by (auto simp: connects_def)
    with False find r(2-4) show ?thesis by auto
  qed
qed

text \<open>
  C5. For every graph of at most \<open>2 ^ 31\<close> nodes with weights below \<open>2 ^ 31\<close>, \<open>mdv_mst_find\<close> returns, and never
  reads outside its arrays. When the links connect all nodes it marks \<open>nodes_count - 1\<close> links, which still connect
  all nodes, and no connecting set of links has a smaller total weight: the marked links are a minimum spanning
  tree. When they do not connect all nodes it returns zero.
\<close>
theorem mst_find_minimum:
  assumes g: "graph_ok n (ends links) (weights links)"
  shows "\<exists>links' sz. mdv_mst_find True n links = Some (links', sz) \<and>
    ends links' = ends links \<and> weights links' = weights links \<and>
    (if connects n (ends links) {..<length links}
     then sz = n - 1 \<and> card (marked links') = n - 1 \<and> connects n (ends links) (marked links') \<and>
       (\<forall>S. S \<subseteq> {..<length links} \<and> connects n (ends links) S \<longrightarrow>
          (\<Sum>k \<in> marked links'. weights links ! k) \<le> (\<Sum>k \<in> S. weights links ! k))
     else sz = 0)"
  using assms by (rule mst_find_ok)

theorem mst_find_minimum_witness:
  "\<exists>links' sz. mdv_mst_find True 3 [\<lparr>ml_src = 0, ml_dst = 1, ml_weight = 5, ml_mst = 0\<rparr>,
      \<lparr>ml_src = 1, ml_dst = 2, ml_weight = 7, ml_mst = 0\<rparr>, \<lparr>ml_src = 0, ml_dst = 2, ml_weight = 1, ml_mst = 0\<rparr>] =
      Some (links', sz) \<and> sz = 2 \<and> card (marked links') = 2"
proof -
  let ?l = "[\<lparr>ml_src = 0, ml_dst = 1, ml_weight = 5, ml_mst = 0\<rparr>, \<lparr>ml_src = 1, ml_dst = 2, ml_weight = 7, ml_mst = 0\<rparr>,
    \<lparr>ml_src = 0, ml_dst = 2, ml_weight = 1, ml_mst = 0\<rparr>] :: mdv_mstlink list"
  have g: "graph_ok 3 (ends ?l) (weights ?l)" by (simp add: graph_ok_def ends_def weights_def)
  have e: "(0, 1) \<in> conn (ends ?l) {..<length ?l}" "(0, 2) \<in> conn (ends ?l) {..<length ?l}"
    by (rule conn_edge [of 0]; simp add: ends_def) (rule conn_edge [of 2]; simp add: ends_def)
  have "(0, i) \<in> conn (ends ?l) {..<length ?l}" if "i < 3" for i
    using that e by (auto simp: less_Suc_eq numeral_3_eq_3 numeral_2_eq_2)
  then have "connects 3 (ends ?l) {..<length ?l}" unfolding connects_def by (blast intro: conn_trans conn_sym)
  then show ?thesis using mst_find_minimum [OF g] by auto
qed

end
