(* ===== verification/Mdv_Topology.thy ===== *)
theory Mdv_Topology
  imports Mdv_Uuid
begin

text \<open>
  The network topologies of src/mdv_platform/mdv_topology.c: nodes with a global and a local identifier, and links
  between indices of the array of nodes. Vectors are lists, the hash maps that live inside one function are maps;
  \<open>mem i\<close> tells whether the allocation numbered \<open>i\<close> of the function succeeds. \<open>None\<close> is undefined
  behaviour. \<open>mdv_qsort\<close> of the C library is the sorting of the nodes by their UUIDs.
\<close>

section \<open>The code\<close>

record mdv_toponode =
  tn_uuid :: mdv_uuid
  tn_id :: nat
  tn_addr :: string

record mdv_topolink =
  tl_node0 :: nat
  tl_node1 :: nat
  tl_weight :: u32

record mdv_topology =
  tp_rc :: u32
  tp_nodes :: "mdv_toponode list"
  tp_links :: "mdv_topolink list"
  tp_extradata :: string

definition mdv_empty_topology :: mdv_topology where
  "mdv_empty_topology = \<lparr>tp_rc = 0, tp_nodes = [], tp_links = [], tp_extradata = []\<rparr>"

text \<open>A pointer to a topology: null, the shared empty topology, or an allocated one.\<close>

datatype topology_ptr = Null_topology | Empty_topology | Topology mdv_topology

definition mdv_link_cmp :: "mdv_topolink \<Rightarrow> mdv_topolink \<Rightarrow> int" where
  "mdv_link_cmp a b =
     (if tl_node0 a < tl_node0 b then -1
      else if tl_node0 a > tl_node0 b then 1
      else if tl_node1 a < tl_node1 b then -1
      else if tl_node1 a > tl_node1 b then 1
      else 0)"

definition mdv_node_cmp :: "mdv_toponode \<Rightarrow> mdv_toponode \<Rightarrow> int" where
  "mdv_node_cmp a b = mdv_uuid_cmp (tn_uuid a) (tn_uuid b)"

definition mdv_node_equ :: "mdv_toponode \<Rightarrow> mdv_toponode \<Rightarrow> bool" where
  "mdv_node_equ a b \<longleftrightarrow> mdv_node_cmp a b = 0"

text \<open>Building a topology: links to local identifiers, sorting, and back to indices.\<close>

definition link_to_ids :: "mdv_toponode list \<Rightarrow> mdv_topolink \<Rightarrow> mdv_topolink option" where
  "link_to_ids nodes link =
     (if tl_node0 link < length nodes \<and> tl_node1 link < length nodes
      then Some (link\<lparr>tl_node0 := tn_id (nodes ! tl_node0 link), tl_node1 := tn_id (nodes ! tl_node1 link)\<rparr>)
      else None)"

fun index_nodes :: "(nat \<Rightarrow> bool) \<Rightarrow> nat \<Rightarrow> mdv_toponode list \<Rightarrow> (nat \<rightharpoonup> nat) \<Rightarrow> (nat \<rightharpoonup> nat)" where
  "index_nodes mem n [] node_idxs = node_idxs"
| "index_nodes mem n (node # nodes) node_idxs =
     index_nodes mem (n + 1) nodes (if mem (n + 2) then node_idxs(tn_id node \<mapsto> n) else node_idxs)"

definition link_to_idx :: "(nat \<rightharpoonup> nat) \<Rightarrow> mdv_topolink \<Rightarrow> mdv_topolink option" where
  "link_to_idx node_idxs link =
     (case (node_idxs (tl_node0 link), node_idxs (tl_node1 link)) of
        (Some i, Some j) \<Rightarrow> Some (link\<lparr>tl_node0 := i, tl_node1 := j\<rparr>)
      | _ \<Rightarrow> None)"

definition mdv_topology_create ::
  "(nat \<Rightarrow> bool) \<Rightarrow> mdv_toponode list \<Rightarrow> mdv_topolink list \<Rightarrow> string \<Rightarrow> topology_ptr option" where
  "mdv_topology_create mem nodes links extradata =
     (if \<not> mem 0 \<or> \<not> mem 1 then Some Null_topology
      else case those (map (link_to_ids nodes) links) of None \<Rightarrow> None
      | Some links \<Rightarrow>
          let nodes = sort_key tn_uuid nodes;
              node_idxs = index_nodes mem 0 nodes Map.empty
          in case those (map (link_to_idx node_idxs) links) of None \<Rightarrow> None
             | Some links \<Rightarrow> Some (Topology \<lparr>tp_rc = 1, tp_nodes = nodes, tp_links = links, tp_extradata = extradata\<rparr>))"

definition mdv_topology_retain :: "topology_ptr \<Rightarrow> topology_ptr" where
  "mdv_topology_retain topology =
     (case topology of Topology t \<Rightarrow> Topology (t\<lparr>tp_rc := tp_rc t + 1\<rparr>) | p \<Rightarrow> p)"

text \<open>What the pointer refers to afterwards (null when freed) and the returned count.\<close>

definition mdv_topology_release :: "topology_ptr \<Rightarrow> topology_ptr \<times> u32" where
  "mdv_topology_release topology =
     (case topology of
        Null_topology \<Rightarrow> (Null_topology, 0)
      | Empty_topology \<Rightarrow> (Empty_topology, 1)
      | Topology t \<Rightarrow> let rc = tp_rc t - 1 in (if rc = 0 then Null_topology else Topology (t\<lparr>tp_rc := rc\<rparr>), rc))"

text \<open>
  The nodes that links use. The array \<open>node_idxs\<close> first marks them with 42, then holds their new index. The
  result is the renumbered links, the nodes and the size of their addresses.
\<close>

fun mark_nodes :: "mdv_topolink list \<Rightarrow> nat list \<Rightarrow> nat list option" where
  "mark_nodes [] node_idxs = Some node_idxs"
| "mark_nodes (link # links) node_idxs =
     (if tl_node0 link < length node_idxs \<and> tl_node1 link < length node_idxs
      then mark_nodes links (node_idxs[tl_node0 link := 42, tl_node1 link := 42])
      else None)"

fun number_nodes :: "nat \<Rightarrow> nat list \<Rightarrow> mdv_toponode list \<Rightarrow> nat list \<times> mdv_toponode list" where
  "number_nodes n (k # node_idxs) (node # nodes) =
     (if k \<noteq> 0 then let (ks, linked) = number_nodes (n + 1) node_idxs nodes in (n # ks, node # linked)
      else let (ks, linked) = number_nodes n node_idxs nodes in (k # ks, linked))"
| "number_nodes n node_idxs nodes = (node_idxs, [])"

definition mdv_topology_linked_nodes ::
  "(nat \<Rightarrow> bool) \<Rightarrow> mdv_topolink list \<Rightarrow> mdv_toponode list \<Rightarrow> (mdv_topolink list \<times> mdv_toponode list \<times> nat) option option" where
  "mdv_topology_linked_nodes mem topolinks toponodes =
     (if topolinks = [] then (if mem 0 then Some (Some ([], [], 0)) else Some None)
      else if \<not> mem 0 then Some None
      else case mark_nodes topolinks (replicate (length toponodes) 0) of None \<Rightarrow> None
      | Some node_idxs \<Rightarrow>
          if \<not> mem 1 then Some None
          else
            let (node_idxs, linked_nodes) = number_nodes 0 node_idxs toponodes;
                extrasize = sum_list (map (\<lambda>node. length (tn_addr node) + 1) linked_nodes);
                topolinks = map (\<lambda>link. link\<lparr>tl_node0 := node_idxs ! tl_node0 link,
                                             tl_node1 := node_idxs ! tl_node1 link\<rparr>) topolinks
            in Some (Some (topolinks, linked_nodes, extrasize)))"

text \<open>\<open>mdv_vector_find\<close> with \<open>mdv_node_equ\<close>, as an index.\<close>

fun find_node :: "mdv_toponode list \<Rightarrow> mdv_toponode \<Rightarrow> nat option" where
  "find_node [] node = None"
| "find_node (x # xs) node = (if mdv_node_equ x node then Some 0 else map_option Suc (find_node xs node))"

definition mdv_topology_linked_node_append ::
  "(nat \<Rightarrow> bool) \<Rightarrow> mdv_topolink list \<Rightarrow> mdv_toponode list \<Rightarrow> nat \<Rightarrow> (mdv_toponode \<times> mdv_toponode) option \<Rightarrow> u32 \<Rightarrow>
    (mdv_topolink list \<times> mdv_toponode list \<times> nat) option" where
  "mdv_topology_linked_node_append mem topolinks toponodes extrasize lnodes lweight =
     (case lnodes of None \<Rightarrow> None
      | Some (l, r) \<Rightarrow>
          let lnode = find_node toponodes l;
              rnode = find_node toponodes r;
              (lnode_idx, nodes1, ok1, extra1) =
                (case lnode of Some i \<Rightarrow> (i, toponodes, True, extrasize)
                 | None \<Rightarrow> (length toponodes, toponodes @ [l], mem 0, extrasize + length (tn_addr l) + 1));
              (rnode_idx, nodes2, ok2, extra2) =
                (case rnode of Some i \<Rightarrow> (i, nodes1, True, extra1)
                 | None \<Rightarrow> (length nodes1, nodes1 @ [r], mem 1, extra1 + length (tn_addr r) + 1))
          in if ok1 \<and> ok2 \<and> mem 2
             then Some (topolinks @ [\<lparr>tl_node0 = lnode_idx, tl_node1 = rnode_idx, tl_weight = lweight\<rparr>], nodes2, extra2)
             else None)"

text \<open>
  The addresses, each with its terminating zero, in one buffer. The \<open>addr\<close> pointers of the nodes move to the copies,
  which leaves the strings they refer to unchanged.
\<close>

definition mdv_topology_nodes_extradata :: "bool \<Rightarrow> mdv_toponode list \<Rightarrow> nat \<Rightarrow> string option" where
  "mdv_topology_nodes_extradata alloc toponodes extrasize =
     (if extrasize = 0 then Some []
      else if \<not> alloc then None
      else Some (concat (map (\<lambda>node. tn_addr node @ [CHR 0x00]) toponodes)))"

definition mdv_uuids_sort :: "mdv_uuid \<times> mdv_uuid \<Rightarrow> mdv_uuid \<times> mdv_uuid" where
  "mdv_uuids_sort n = (if mdv_uuid_cmp (fst n) (snd n) \<le> 0 then (fst n, snd n) else (snd n, fst n))"

definition mdv_utopolink_cmp :: "mdv_uuid \<times> mdv_uuid \<Rightarrow> mdv_uuid \<times> mdv_uuid \<Rightarrow> int" where
  "mdv_utopolink_cmp a b =
     (let aa = mdv_uuids_sort a; bb = mdv_uuids_sort b;
          cmp1 = mdv_uuid_cmp (fst aa) (fst bb);
          cmp2 = mdv_uuid_cmp (snd aa) (snd bb)
      in if cmp1 < 0 then -1 else if cmp1 > 0 then 1 else if cmp2 < 0 then -1 else if cmp2 > 0 then 1 else 0)"

definition mdv_utopolink_hash :: "mdv_uuid \<times> mdv_uuid \<Rightarrow> u64" where
  "mdv_utopolink_hash a = (let aa = mdv_uuids_sort a in mdv_uuid_hash (fst aa) * 37 + mdv_uuid_hash (snd aa))"

text \<open>The UUIDs of the ends of a link; an index outside the nodes is undefined.\<close>

definition link_uuids :: "mdv_toponode list \<Rightarrow> mdv_topolink \<Rightarrow> (mdv_uuid \<times> mdv_uuid) option" where
  "link_uuids nodes link =
     (if tl_node0 link < length nodes \<and> tl_node1 link < length nodes
      then Some (tn_uuid (nodes ! tl_node0 link), tn_uuid (nodes ! tl_node1 link)) else None)"

text \<open>The hash set of the links of a topology, by its list of keys; \<open>link_known\<close> is the lookup.\<close>

definition mdv_topology_links_map :: "mdv_topology \<Rightarrow> (mdv_uuid \<times> mdv_uuid) list option" where
  "mdv_topology_links_map topology = those (map (link_uuids (tp_nodes topology)) (tp_links topology))"

definition link_known :: "(mdv_uuid \<times> mdv_uuid) list \<Rightarrow> mdv_uuid \<times> mdv_uuid \<Rightarrow> bool" where
  "link_known blinks l = list_ex (\<lambda>k. mdv_utopolink_cmp k l = 0) blinks"

definition link_joins :: "mdv_uuid \<Rightarrow> mdv_uuid \<Rightarrow> mdv_uuid \<times> mdv_uuid \<Rightarrow> bool" where
  "link_joins nodea nodeb l \<longleftrightarrow>
     (mdv_uuid_cmp nodea (fst l) = 0 \<and> mdv_uuid_cmp nodeb (snd l) = 0) \<or>
     (mdv_uuid_cmp nodea (snd l) = 0 \<and> mdv_uuid_cmp nodeb (fst l) = 0)"

text \<open>The loop over the links of the first topology: the links that are kept, and the link between the two nodes.\<close>

fun diff_loop :: "mdv_uuid \<Rightarrow> mdv_uuid \<Rightarrow> (mdv_uuid \<times> mdv_uuid) list \<Rightarrow> mdv_toponode list \<Rightarrow> mdv_topolink list \<Rightarrow>
    mdv_topolink list \<Rightarrow> (mdv_toponode \<times> mdv_toponode \<times> u32) option \<Rightarrow>
    (mdv_topolink list \<times> (mdv_toponode \<times> mdv_toponode \<times> u32) option) option" where
  "diff_loop nodea nodeb blinks nodes [] ab_links found = Some (ab_links, found)"
| "diff_loop nodea nodeb blinks nodes (link # links) ab_links found =
     (case link_uuids nodes link of None \<Rightarrow> None
      | Some l \<Rightarrow>
          if found = None \<and> link_joins nodea nodeb l
          then diff_loop nodea nodeb blinks nodes links (ab_links @ [link])
                 (Some (nodes ! tl_node0 link, nodes ! tl_node1 link, tl_weight link))
          else diff_loop nodea nodeb blinks nodes links (if link_known blinks l then ab_links else ab_links @ [link]) found)"

text \<open>The search for the link between the two nodes in the second topology.\<close>

fun find_joining :: "mdv_uuid \<Rightarrow> mdv_uuid \<Rightarrow> mdv_toponode list \<Rightarrow> mdv_topolink list \<Rightarrow>
    (mdv_toponode \<times> mdv_toponode \<times> u32) option option" where
  "find_joining nodea nodeb nodes [] = Some None"
| "find_joining nodea nodeb nodes (link # links) =
     (case link_uuids nodes link of None \<Rightarrow> None
      | Some l \<Rightarrow>
          if link_joins nodea nodeb l then Some (Some (nodes ! tl_node0 link, nodes ! tl_node1 link, tl_weight link))
          else find_joining nodea nodeb nodes links)"

definition mdv_topology_diff ::
  "(nat \<Rightarrow> bool) \<Rightarrow> mdv_topology \<Rightarrow> mdv_uuid \<Rightarrow> mdv_topology \<Rightarrow> mdv_uuid \<Rightarrow> topology_ptr option" where
  "mdv_topology_diff mem a nodea b nodeb =
     (if tp_links a = [] then Some Empty_topology
      else if tp_links b = [] then Some (mdv_topology_retain (Topology a))
      else if \<not> mem 0 then Some Null_topology
      else case mdv_topology_links_map b of None \<Rightarrow> None
      | Some blinks \<Rightarrow>
          if \<not> mem 1 then Some Null_topology
          else case diff_loop nodea nodeb blinks (tp_nodes a) (tp_links a) [] None of None \<Rightarrow> None
          | Some (ab_links, found) \<Rightarrow>
              (case (if found = None then find_joining nodea nodeb (tp_nodes b) (tp_links b) else Some found) of
                 None \<Rightarrow> None
               | Some lnodes \<Rightarrow>
                   if ab_links = [] \<and> lnodes = None then Some Empty_topology
                   else case mdv_topology_linked_nodes (\<lambda>i. mem (i + 2)) ab_links (tp_nodes a) of
                     None \<Rightarrow> None
                   | Some None \<Rightarrow> Some Null_topology
                   | Some (Some (ab_links, ab_nodes, ab_extrasize)) \<Rightarrow>
                       (case (if found \<noteq> None then Some (ab_links, ab_nodes, ab_extrasize)
                              else mdv_topology_linked_node_append (\<lambda>i. mem (i + 4)) ab_links ab_nodes ab_extrasize
                                     (map_option (\<lambda>(l, r, w). (l, r)) lnodes)
                                     (case lnodes of None \<Rightarrow> 0 | Some (l, r, w) \<Rightarrow> w)) of
                          None \<Rightarrow> Some Null_topology
                        | Some (ab_links, ab_nodes, ab_extrasize) \<Rightarrow>
                            (case mdv_topology_nodes_extradata (mem 7) ab_nodes ab_extrasize of
                               None \<Rightarrow> Some Null_topology
                             | Some ab_extradata \<Rightarrow>
                                 mdv_topology_create (\<lambda>i. mem (i + 8)) ab_nodes ab_links ab_extradata))))"

text \<open>The neighbours of a node, as the hash set of their UUIDs; \<open>mem\<close> is the outcome of the allocations.\<close>

fun peers_loop :: "(nat \<Rightarrow> bool) \<Rightarrow> nat \<Rightarrow> mdv_uuid \<Rightarrow> mdv_toponode list \<Rightarrow> mdv_topolink list \<Rightarrow> mdv_uuid list \<Rightarrow>
    mdv_uuid list option option" where
  "peers_loop mem i node nodes [] peers = Some (Some peers)"
| "peers_loop mem i node nodes (link # links) peers =
     (case link_uuids nodes link of None \<Rightarrow> None
      | Some (l, r) \<Rightarrow>
          if mdv_uuid_cmp node l = 0
          then (if mem i then peers_loop mem (i + 1) node nodes links (List.insert r peers) else Some None)
          else if mdv_uuid_cmp node r = 0
          then (if mem i then peers_loop mem (i + 1) node nodes links (List.insert l peers) else Some None)
          else peers_loop mem i node nodes links peers)"

definition mdv_topology_peers :: "(nat \<Rightarrow> bool) \<Rightarrow> mdv_topology \<Rightarrow> mdv_uuid \<Rightarrow> mdv_uuid list option option" where
  "mdv_topology_peers mem topology node =
     (if \<not> mem 0 then Some None else peers_loop mem 1 node (tp_nodes topology) (tp_links topology) [])"

section \<open>The links by UUIDs\<close>

type_synonym ulink = "(mdv_uuid \<times> mdv_uuid) \<times> u32"

definition ulink :: "mdv_toponode list \<Rightarrow> mdv_topolink \<Rightarrow> ulink" where
  "ulink nodes link = ((tn_uuid (nodes ! tl_node0 link), tn_uuid (nodes ! tl_node1 link)), tl_weight link)"

definition ulinks :: "mdv_topology \<Rightarrow> ulink list" where
  "ulinks t = map (ulink (tp_nodes t)) (tp_links t)"

definition link_ok :: "mdv_toponode list \<Rightarrow> mdv_topolink \<Rightarrow> bool" where
  "link_ok nodes link \<longleftrightarrow> tl_node0 link < length nodes \<and> tl_node1 link < length nodes"

definition topology_ok :: "mdv_topology \<Rightarrow> bool" where
  "topology_ok t \<longleftrightarrow> list_all (link_ok (tp_nodes t)) (tp_links t) \<and>
     distinct (map tn_id (tp_nodes t)) \<and> distinct (map tn_uuid (tp_nodes t))"

definition same_ends :: "ulink \<Rightarrow> ulink \<Rightarrow> bool" where
  "same_ends x y \<longleftrightarrow> {fst (fst x), snd (fst x)} = {fst (fst y), snd (fst y)}"

lemma those_map: "(\<And>x. x \<in> set xs \<Longrightarrow> f x = Some (g x)) \<Longrightarrow> those (map f xs) = Some (map g xs)"
  by (induction xs) auto

lemma uuid_cmp_zero: "mdv_uuid_cmp a b = 0 \<longleftrightarrow> a = b"
  by (auto simp: mdv_uuid_cmp_def mdv_uuid.expand)

lemma uuid_cmp_le: "mdv_uuid_cmp a b \<le> 0 \<longleftrightarrow> a \<le> b"
  by (simp add: less_eq_mdv_uuid_def)

lemma link_uuids_ulink: "link_ok nodes link \<Longrightarrow> link_uuids nodes link = Some (fst (ulink nodes link))"
  by (simp add: link_uuids_def link_ok_def ulink_def)

lemma utopolink_cmp_zero: "mdv_utopolink_cmp a b = 0 \<longleftrightarrow> {fst a, snd a} = {fst b, snd b}"
proof -
  have "mdv_utopolink_cmp a b = 0 \<longleftrightarrow> mdv_uuids_sort a = mdv_uuids_sort b"
    by (auto simp: mdv_utopolink_cmp_def Let_def prod_eq_iff not_less uuid_cmp_zero dest: antisym
        simp flip: uuid_cmp_zero)
  also have "\<dots> \<longleftrightarrow> {fst a, snd a} = {fst b, snd b}"
    by (auto simp: mdv_uuids_sort_def uuid_cmp_le doubleton_eq_iff prod_eq_iff)
  finally show ?thesis .
qed

lemma link_joins_iff: "nodea \<noteq> nodeb \<Longrightarrow> link_joins nodea nodeb l \<longleftrightarrow> {fst l, snd l} = {nodea, nodeb}"
  by (auto simp: link_joins_def uuid_cmp_zero doubleton_eq_iff)

section \<open>Building a topology\<close>

lemma index_nodes_other: "x \<notin> tn_id ` set nodes \<Longrightarrow> index_nodes mem n nodes m x = m x"
  by (induction mem n nodes m rule: index_nodes.induct) auto

lemma index_nodes_at:
  assumes "\<And>i. mem i"
  shows "distinct (map tn_id nodes) \<Longrightarrow> k < length nodes \<Longrightarrow> index_nodes mem n nodes m (tn_id (nodes ! k)) = Some (n + k)"
proof (induction nodes arbitrary: n m k)
  case (Cons node nodes)
  show ?case
  proof (cases k)
    case 0
    then show ?thesis using Cons.prems assms by (simp add: index_nodes_other)
  next
    case (Suc j)
    then show ?thesis using Cons by (simp add: assms)
  qed
qed simp

lemma create_ok:
  assumes mem: "\<And>i. mem i" and rng: "list_all (link_ok nodes) links" and ids: "distinct (map tn_id nodes)"
  shows "\<exists>t. mdv_topology_create mem nodes links ex = Some (Topology t) \<and> tp_rc t = 1 \<and>
    tp_nodes t = sort_key tn_uuid nodes \<and> ulinks t = map (ulink nodes) links \<and> list_all (link_ok (tp_nodes t)) (tp_links t) \<and>
    tp_extradata t = ex"
proof -
  define sorted where "sorted = sort_key tn_uuid nodes"
  have perm: "set sorted = set nodes" "distinct (map tn_id sorted)" "length sorted = length nodes"
    using ids by (simp_all add: sorted_def distinct_map)
  define pos where "pos x = (THE k. k < length sorted \<and> sorted ! k = x)" for x
  have pos: "pos x < length sorted \<and> sorted ! pos x = x" if "x \<in> set nodes" for x
  proof -
    have "\<exists>!k. k < length sorted \<and> sorted ! k = x"
      using that perm(1,2) distinct_Ex1 [of sorted x] by (simp add: distinct_map)
    then show ?thesis unfolding pos_def by (rule theI')
  qed
  have idx: "index_nodes mem 0 sorted Map.empty (tn_id x) = Some (pos x)" if "x \<in> set nodes" for x
    using index_nodes_at [of mem sorted "pos x" 0 Map.empty, OF mem perm(2)] pos [OF that] by simp
  have in_set: "nodes ! tl_node0 l \<in> set nodes" "nodes ! tl_node1 l \<in> set nodes" if "l \<in> set links" for l
    using rng that by (auto simp: list_all_iff link_ok_def)
  define byid where "byid l = l\<lparr>tl_node0 := tn_id (nodes ! tl_node0 l), tl_node1 := tn_id (nodes ! tl_node1 l)\<rparr>"
    for l :: mdv_topolink
  define new where "new l = l\<lparr>tl_node0 := pos (nodes ! tl_node0 l), tl_node1 := pos (nodes ! tl_node1 l)\<rparr>" for l :: mdv_topolink
  have s1: "those (map (link_to_ids nodes) links) = Some (map byid links)"
    using rng by (intro those_map) (auto simp: link_to_ids_def byid_def link_ok_def list_all_iff)
  have s2: "those (map (link_to_idx (index_nodes mem 0 sorted Map.empty)) (map byid links)) = Some (map new links)"
    unfolding map_map using in_set idx by (intro those_map) (simp add: link_to_idx_def byid_def new_def)
  have "mdv_topology_create mem nodes links ex =
    Some (Topology \<lparr>tp_rc = 1, tp_nodes = sorted, tp_links = map new links, tp_extradata = ex\<rparr>)"
    using mem s1 s2 by (simp add: mdv_topology_create_def Let_def sorted_def)
  moreover have "map (ulink sorted) (map new links) = map (ulink nodes) links"
    using in_set pos by (simp add: ulink_def new_def)
  moreover have "list_all (link_ok sorted) (map new links)"
    using in_set pos by (simp add: list_all_iff link_ok_def new_def)
  ultimately show ?thesis by (simp add: ulinks_def sorted_def)
qed

lemma peers_loop_ok:
  assumes "\<And>i. mem i"
  shows "list_all (link_ok nodes) links \<Longrightarrow> \<exists>ps. peers_loop mem i node nodes links peers = Some (Some ps) \<and>
    set ps = set peers \<union> {v. \<exists>x \<in> set links. fst (ulink nodes x) = (node, v) \<or> fst (ulink nodes x) = (v, node)}"
proof (induction links arbitrary: i peers)
  case (Cons link links)
  obtain l r where lr: "fst (ulink nodes link) = (l, r)" by fastforce
  have u: "link_uuids nodes link = Some (l, r)" using Cons.prems link_uuids_ulink [of nodes link] lr by simp
  show ?case
    using Cons.IH [of "i + 1" "List.insert r peers"] Cons.IH [of "i + 1" "List.insert l peers"] Cons.IH [of i peers]
      Cons.prems assms u lr
    by (auto simp: uuid_cmp_zero)
qed simp

section \<open>The linked nodes\<close>

lemma mark_nodes_ok:
  "list_all (\<lambda>l. tl_node0 l < length ks \<and> tl_node1 l < length ks) links \<Longrightarrow>
   \<exists>ks'. mark_nodes links ks = Some ks' \<and> length ks' = length ks \<and>
     (\<forall>l \<in> set links. ks' ! tl_node0 l \<noteq> 0 \<and> ks' ! tl_node1 l \<noteq> 0) \<and> (\<forall>i < length ks. ks ! i \<noteq> 0 \<longrightarrow> ks' ! i \<noteq> 0)"
proof (induction links arbitrary: ks)
  case (Cons link links)
  let ?ks = "ks[tl_node0 link := 42, tl_node1 link := 42]"
  have r: "tl_node0 link < length ks" "tl_node1 link < length ks" using Cons.prems by auto
  obtain ks' where ks': "mark_nodes links ?ks = Some ks'" "length ks' = length ?ks"
    "\<forall>l \<in> set links. ks' ! tl_node0 l \<noteq> 0 \<and> ks' ! tl_node1 l \<noteq> 0" "\<forall>i < length ?ks. ?ks ! i \<noteq> 0 \<longrightarrow> ks' ! i \<noteq> 0"
    using Cons.IH [of ?ks] Cons.prems by auto
  have "ks' ! tl_node0 link \<noteq> 0" "ks' ! tl_node1 link \<noteq> 0" using ks'(4) r by (auto simp: nth_list_update)
  moreover have "\<forall>i < length ks. ks ! i \<noteq> 0 \<longrightarrow> ks' ! i \<noteq> 0" using ks'(4) r by (simp add: nth_list_update)
  ultimately show ?case using ks' r by auto
qed simp

lemma number_nodes_ok:
  "length ks = length nodes \<Longrightarrow> number_nodes n ks nodes = (ks', linked) \<Longrightarrow>
   length ks' = length ks \<and> linked = map snd (filter (\<lambda>(k, _). k \<noteq> 0) (zip ks nodes)) \<and>
   (\<forall>i < length ks. ks ! i \<noteq> 0 \<longrightarrow> n \<le> ks' ! i \<and> ks' ! i - n < length linked \<and> linked ! (ks' ! i - n) = nodes ! i)"
proof (induction n ks nodes arbitrary: ks' linked rule: number_nodes.induct)
  case (1 n k ks node nodes)
  show ?case
  proof (cases "k = 0")
    case True
    then obtain ks1 where 2: "number_nodes n ks nodes = (ks1, linked)" "ks' = 0 # ks1"
      using 1(4) by (auto split: prod.splits)
    show ?thesis using 1(2) [OF _ _ 2(1)] 1(3) True 2(2) by (auto simp: nth_Cons split: nat.splits)
  next
    case False
    then obtain ks1 linked1 where 2: "number_nodes (n + 1) ks nodes = (ks1, linked1)" "ks' = n # ks1" "linked = node # linked1"
      using 1(4) by (auto split: prod.splits)
    have ih: "length ks1 = length ks" "linked1 = map snd (filter (\<lambda>(k, _). k \<noteq> 0) (zip ks nodes))"
      "\<And>i. i < length ks \<Longrightarrow> ks ! i \<noteq> 0 \<Longrightarrow>
        n + 1 \<le> ks1 ! i \<and> ks1 ! i - (n + 1) < length linked1 \<and> linked1 ! (ks1 ! i - (n + 1)) = nodes ! i"
      using 1(1) [OF False _ 2(1)] 1(3) by auto
    have "n \<le> ks' ! i \<and> ks' ! i - n < length linked \<and> linked ! (ks' ! i - n) = (node # nodes) ! i"
      if "i < length (k # ks)" "(k # ks) ! i \<noteq> 0" for i
    proof (cases i)
      case 0
      then show ?thesis using 2 by simp
    next
      case (Suc j)
      then have "n + 1 \<le> ks1 ! j \<and> ks1 ! j - (n + 1) < length linked1 \<and> linked1 ! (ks1 ! j - (n + 1)) = nodes ! j"
        using ih(3) [of j] that by simp
      then show ?thesis using Suc 2 by (simp add: Suc_diff_Suc [symmetric] nth_Cons split: nat.splits)
    qed
    then show ?thesis using ih 2 False by simp
  qed
qed auto

lemma sub_distinct:
  assumes "length ks = length nodes" "distinct (map f nodes)"
  shows "distinct (map f (map snd (filter P (zip ks nodes))))"
proof -
  have "map (f \<circ> snd) (zip ks nodes) = map f nodes" using assms(1) by (metis map_map map_snd_zip)
  then show ?thesis using assms(2) distinct_map_filter [of "f \<circ> snd" "zip ks nodes" P] by simp
qed

lemma linked_nodes_ok:
  assumes mem: "\<And>i. mem i" and rng: "list_all (link_ok nodes) links"
  shows "\<exists>links' linked n. mdv_topology_linked_nodes mem links nodes = Some (Some (links', linked, n)) \<and>
    map (ulink linked) links' = map (ulink nodes) links \<and> list_all (link_ok linked) links' \<and>
    n = sum_list (map (\<lambda>node. length (tn_addr node) + 1) linked) \<and> set linked \<subseteq> set nodes \<and>
    (distinct (map tn_id nodes) \<longrightarrow> distinct (map tn_id linked)) \<and> (distinct (map tn_uuid nodes) \<longrightarrow> distinct (map tn_uuid linked))"
proof (cases "links = []")
  case True
  then show ?thesis using mem by (simp add: mdv_topology_linked_nodes_def)
next
  case False
  obtain ks where ks: "mark_nodes links (replicate (length nodes) 0) = Some ks" "length ks = length nodes"
    "\<forall>l \<in> set links. ks ! tl_node0 l \<noteq> 0 \<and> ks ! tl_node1 l \<noteq> 0"
    using mark_nodes_ok [of "replicate (length nodes) 0" links] rng unfolding link_ok_def by auto
  obtain ks' linked where kl: "number_nodes 0 ks nodes = (ks', linked)" by fastforce
  note nn = number_nodes_ok [OF ks(2) kl]
  have at: "linked ! (ks' ! tl_node0 l) = nodes ! tl_node0 l \<and> ks' ! tl_node0 l < length linked \<and>
    linked ! (ks' ! tl_node1 l) = nodes ! tl_node1 l \<and> ks' ! tl_node1 l < length linked" if "l \<in> set links" for l
    using nn ks(2,3) rng that by (auto simp: list_all_iff link_ok_def)
  have ids: "distinct (map tn_id nodes) \<longrightarrow> distinct (map tn_id linked)" "distinct (map tn_uuid nodes) \<longrightarrow> distinct (map tn_uuid linked)"
    using sub_distinct [OF ks(2)] nn by auto
  moreover have "set linked \<subseteq> set nodes" using nn by (auto dest: set_zip_rightD)
  ultimately show ?thesis
    using False mem ks(1) kl at by (simp add: mdv_topology_linked_nodes_def Let_def ulink_def list_all_iff link_ok_def)
qed

lemma find_node_None: "find_node nodes x = None \<longleftrightarrow> tn_uuid x \<notin> tn_uuid ` set nodes"
  by (induction nodes x rule: find_node.induct) (auto simp: mdv_node_equ_def mdv_node_cmp_def uuid_cmp_zero)

lemma find_node_Some: "find_node nodes x = Some i \<Longrightarrow> i < length nodes \<and> tn_uuid (nodes ! i) = tn_uuid x"
  by (induction nodes x arbitrary: i rule: find_node.induct)
    (auto simp: mdv_node_equ_def mdv_node_cmp_def uuid_cmp_zero split: if_splits)

text \<open>Two sets of nodes name the same nodes by the same local identifiers.\<close>

definition ids_agree :: "mdv_toponode set \<Rightarrow> mdv_toponode set \<Rightarrow> bool" where
  "ids_agree X Y \<longleftrightarrow> (\<forall>x \<in> X. \<forall>y \<in> Y. tn_id x = tn_id y \<longleftrightarrow> tn_uuid x = tn_uuid y)"

text \<open>A node joins the list when it is not there yet.\<close>

definition with_node :: "mdv_toponode list \<Rightarrow> mdv_toponode \<Rightarrow> mdv_toponode list" where
  "with_node nodes x = (if find_node nodes x = None then nodes @ [x] else nodes)"

lemma with_node_distinct:
  assumes "ids_agree (set nodes) {x}" "distinct (map tn_id nodes)" "distinct (map tn_uuid nodes)"
  shows "distinct (map tn_id (with_node nodes x)) \<and> distinct (map tn_uuid (with_node nodes x))"
proof (cases "find_node nodes x = None")
  case True
  then have "tn_uuid x \<notin> tn_uuid ` set nodes" by (simp add: find_node_None)
  moreover from this have "tn_id x \<notin> tn_id ` set nodes" using assms(1) unfolding ids_agree_def image_iff by (metis insertI1)
  ultimately show ?thesis using True assms(2,3) by (simp add: with_node_def)
next
  case False
  then show ?thesis using assms by (auto simp: with_node_def)
qed

lemma ulink_append: "link_ok nodes l \<Longrightarrow> ulink (nodes @ ys) l = ulink nodes l \<and> link_ok (nodes @ ys) l"
  by (auto simp: ulink_def link_ok_def nth_append)

lemma find_node_with: "tn_uuid l \<noteq> tn_uuid r \<Longrightarrow> find_node (with_node nodes l) r = None \<longleftrightarrow> find_node nodes r = None"
  by (auto simp: with_node_def find_node_None)

lemma node_append_ok:
  assumes mem: "\<And>i. mem i" and rng: "list_all (link_ok nodes) links" and d: "distinct (map tn_id nodes)" "distinct (map tn_uuid nodes)"
    and ne: "tn_uuid l \<noteq> tn_uuid r" and agree: "ids_agree (insert l (set nodes)) {l, r}"
  shows "\<exists>links' nodes' n'. mdv_topology_linked_node_append mem links nodes n (Some (l, r)) w = Some (links', nodes', n') \<and>
    map (ulink nodes') links' = map (ulink nodes) links @ [((tn_uuid l, tn_uuid r), w)] \<and> list_all (link_ok nodes') links' \<and>
    distinct (map tn_id nodes') \<and> distinct (map tn_uuid nodes')"
proof -
  define nodes' where "nodes' = with_node (with_node nodes l) r"
  have nodes': "nodes' = nodes @ (if find_node nodes l = None then [l] else []) @ (if find_node nodes r = None then [r] else [])"
    using find_node_with [OF ne, of nodes] by (simp add: nodes'_def with_node_def)
  define i where "i = (case find_node nodes l of Some i \<Rightarrow> i | None \<Rightarrow> length nodes)"
  define j where "j = (case find_node nodes r of Some j \<Rightarrow> j | None \<Rightarrow> length (with_node nodes l))"
  define n' where "n' = n + (if find_node nodes l = None then length (tn_addr l) + 1 else 0) +
    (if find_node nodes r = None then length (tn_addr r) + 1 else 0)"
  have run: "mdv_topology_linked_node_append mem links nodes n (Some (l, r)) w =
      Some (links @ [\<lparr>tl_node0 = i, tl_node1 = j, tl_weight = w\<rparr>], nodes', n')"
    using mem by (auto simp: mdv_topology_linked_node_append_def Let_def i_def j_def n'_def nodes' with_node_def split: option.splits)
  have ij: "i < length nodes' \<and> tn_uuid (nodes' ! i) = tn_uuid l" "j < length nodes' \<and> tn_uuid (nodes' ! j) = tn_uuid r"
    using find_node_Some [of nodes l] find_node_Some [of nodes r]
    by (cases "find_node nodes l"; cases "find_node nodes r"; simp add: nodes' i_def j_def with_node_def nth_append)+
  have old: "map (ulink nodes') links = map (ulink nodes) links" "list_all (link_ok nodes') links"
    using rng ulink_append unfolding nodes' by (auto simp: list_all_iff)
  have "ids_agree (set nodes) {l}" "ids_agree (set (with_node nodes l)) {r}"
    using agree by (auto simp: ids_agree_def with_node_def)
  then have "distinct (map tn_id nodes') \<and> distinct (map tn_uuid nodes')"
    unfolding nodes'_def using with_node_distinct d by blast
  with run old ij show ?thesis by (simp add: ulink_def link_ok_def)
qed

section \<open>The difference of topologies\<close>

definition joining :: "mdv_uuid \<Rightarrow> mdv_uuid \<Rightarrow> ulink \<Rightarrow> bool" where
  "joining nodea nodeb x \<longleftrightarrow> {fst (fst x), snd (fst x)} = {nodea, nodeb}"

definition found_at :: "mdv_toponode list \<Rightarrow> mdv_topolink \<Rightarrow> mdv_toponode \<times> mdv_toponode \<times> u32" where
  "found_at nodes link = (nodes ! tl_node0 link, nodes ! tl_node1 link, tl_weight link)"

lemma find_joining_ok:
  assumes "nodea \<noteq> nodeb"
  shows "list_all (link_ok nodes) links \<Longrightarrow>
    find_joining nodea nodeb nodes links = Some (map_option (found_at nodes) (List.find (joining nodea nodeb \<circ> ulink nodes) links))"
  by (induction links) (simp_all add: link_uuids_ulink link_joins_iff [OF assms] joining_def found_at_def)

lemma diff_loop_ok:
  assumes ne: "nodea \<noteq> nodeb"
  shows "list_all (link_ok nodes) links \<Longrightarrow> \<exists>ab'. diff_loop nodea nodeb blinks nodes links ab found =
      Some (ab @ ab', if found = None then map_option (found_at nodes) (List.find (joining nodea nodeb \<circ> ulink nodes) links) else found) \<and>
    set ab' = {x \<in> set links. \<not> link_known blinks (fst (ulink nodes x))} \<union>
      (if found = None then set_option (List.find (joining nodea nodeb \<circ> ulink nodes) links) else {})"
proof (induction links arbitrary: ab found)
  case (Cons link links)
  let ?l = "fst (ulink nodes link)"
  have ok: "link_uuids nodes link = Some ?l" "list_all (link_ok nodes) links" using Cons.prems by (simp_all add: link_uuids_ulink)
  have j: "link_joins nodea nodeb ?l \<longleftrightarrow> (joining nodea nodeb \<circ> ulink nodes) link"
    by (simp add: link_joins_iff [OF ne] joining_def)
  show ?case
  proof (cases "found = None \<and> (joining nodea nodeb \<circ> ulink nodes) link")
    case True
    obtain ab' where ab': "diff_loop nodea nodeb blinks nodes links (ab @ [link]) (Some (found_at nodes link)) =
        Some ((ab @ [link]) @ ab', Some (found_at nodes link))"
      "set ab' = {x \<in> set links. \<not> link_known blinks (fst (ulink nodes x))}"
      using Cons.IH [OF ok(2), of "ab @ [link]" "Some (found_at nodes link)"] by auto
    have "diff_loop nodea nodeb blinks nodes (link # links) ab found = Some (ab @ link # ab', Some (found_at nodes link))"
      using ok(1) j True ab'(1) by (simp add: found_at_def)
    with ab'(2) True show ?thesis by (intro exI [of _ "link # ab'"]) auto
  next
    case False
    let ?k = "if link_known blinks ?l then [] else [link]"
    obtain ab' where ab': "diff_loop nodea nodeb blinks nodes links (ab @ ?k) found = Some ((ab @ ?k) @ ab',
        if found = None then map_option (found_at nodes) (List.find (joining nodea nodeb \<circ> ulink nodes) links) else found)"
      "set ab' = {x \<in> set links. \<not> link_known blinks (fst (ulink nodes x))} \<union>
        (if found = None then set_option (List.find (joining nodea nodeb \<circ> ulink nodes) links) else {})"
      using Cons.IH [OF ok(2), of "ab @ ?k" found] by auto
    have "diff_loop nodea nodeb blinks nodes (link # links) ab found = diff_loop nodea nodeb blinks nodes links (ab @ ?k) found"
      using ok(1) j False by auto
    with ab' False show ?thesis by (intro exI [of _ "?k @ ab'"]) auto
  qed
qed simp

lemma find_map: "List.find P (map f xs) = map_option f (List.find (P \<circ> f) xs)"
  by (induction xs) auto

lemma find_append: "List.find P (xs @ ys) = (case List.find P xs of None \<Rightarrow> List.find P ys | Some x \<Rightarrow> Some x)"
  by (induction xs) auto

lemma find_in_set: "List.find P xs = Some x \<Longrightarrow> x \<in> set xs \<and> P x"
  by (induction xs) (auto split: if_splits)

lemma known_same_ends: "link_known (map (fst \<circ> f) links) (fst x) \<longleftrightarrow> (\<exists>z \<in> f ` set links. same_ends x z)"
  by (auto simp: link_known_def list_ex_iff utopolink_cmp_zero same_ends_def)

lemma extradata_ok: "\<exists>ex. mdv_topology_nodes_extradata True nodes n = Some ex"
  by (simp add: mdv_topology_nodes_extradata_def)

text \<open>Both ways the last steps of the difference go: the links and nodes of the result, then the topology.\<close>

lemma diff_finish:
  assumes "\<And>i. mem i" "list_all (link_ok nodes) links" "distinct (map tn_id nodes)" "distinct (map tn_uuid nodes)"
  shows "\<exists>t. (case mdv_topology_nodes_extradata True nodes n of None \<Rightarrow> Some Null_topology
      | Some ex \<Rightarrow> mdv_topology_create (\<lambda>i. mem (i + 8)) nodes links ex) = Some (Topology t) \<and>
    ulinks t = map (ulink nodes) links \<and> topology_ok t"
proof -
  obtain ex where ex: "mdv_topology_nodes_extradata True nodes n = Some ex" using extradata_ok by blast
  obtain t where t: "mdv_topology_create (\<lambda>i. mem (i + 8)) nodes links ex = Some (Topology t)"
    "tp_nodes t = sort_key tn_uuid nodes" "ulinks t = map (ulink nodes) links" "list_all (link_ok (tp_nodes t)) (tp_links t)"
    using create_ok [of "\<lambda>i. mem (i + 8)", OF _ assms(2,3)] assms(1) by blast
  then have "topology_ok t" using assms(3,4) by (simp add: topology_ok_def distinct_map)
  with ex t show ?thesis by simp
qed

lemma diff_ok:
  assumes ok: "topology_ok a" "topology_ok b" and agree: "ids_agree (set (tp_nodes a)) (set (tp_nodes b))"
    and links: "tp_links a \<noteq> []" "tp_links b \<noteq> []" and ne: "nodea \<noteq> nodeb"
    and x: "List.find (joining nodea nodeb) (ulinks a @ ulinks b) = Some x"
  shows "\<exists>t. mdv_topology_diff (\<lambda>_. True) a nodea b nodeb = Some (Topology t) \<and> topology_ok t \<and>
    set (ulinks t) = insert x {y \<in> set (ulinks a). \<not> (\<exists>z \<in> set (ulinks b). same_ends y z)}"
proof -
  let ?na = "tp_nodes a" and ?nb = "tp_nodes b" and ?J = "joining nodea nodeb"
  have rng: "list_all (link_ok ?na) (tp_links a)" "list_all (link_ok ?nb) (tp_links b)"
    and da: "distinct (map tn_id ?na)" "distinct (map tn_uuid ?na)" using ok by (auto simp: topology_ok_def)
  define blinks where "blinks = map (fst \<circ> ulink ?nb) (tp_links b)"
  have bl: "mdv_topology_links_map b = Some blinks"
    unfolding mdv_topology_links_map_def blinks_def using rng(2)
    by (intro those_map) (simp add: link_uuids_ulink list_all_iff)
  define fa where "fa = List.find (?J \<circ> ulink ?na) (tp_links a)"
  obtain ab where ab: "diff_loop nodea nodeb blinks ?na (tp_links a) [] None = Some (ab, map_option (found_at ?na) fa)"
    "set ab = {x \<in> set (tp_links a). \<not> link_known blinks (fst (ulink ?na x))} \<union> set_option fa"
    using diff_loop_ok [OF ne rng(1), of blinks "[]" None] by (auto simp: fa_def)
  have rab: "list_all (link_ok ?na) ab"
    using rng(1) ab(2) find_in_set [of "?J \<circ> ulink ?na" "tp_links a"] by (auto simp: list_all_iff fa_def split: option.splits)
  obtain links' linked n where ln: "mdv_topology_linked_nodes (\<lambda>i. True) ab ?na = Some (Some (links', linked, n))"
    "map (ulink linked) links' = map (ulink ?na) ab" "list_all (link_ok linked) links'" "set linked \<subseteq> set ?na"
    "distinct (map tn_id linked)" "distinct (map tn_uuid linked)"
    using linked_nodes_ok [of "\<lambda>_. True", OF _ rab] da by auto
  have uab: "ulink ?na ` set ab = {y \<in> set (ulinks a). \<not> (\<exists>z \<in> set (ulinks b). same_ends y z)} \<union> set_option (map_option (ulink ?na) fa)"
    unfolding ab(2) blinks_def known_same_ends ulinks_def by (auto split: option.splits)
  have ua: "List.find ?J (ulinks a) = map_option (ulink ?na) fa" by (simp add: ulinks_def find_map fa_def)
  have xf: "Some x = (case map_option (ulink ?na) fa of None \<Rightarrow> List.find ?J (ulinks b) | Some y \<Rightarrow> Some y)"
    using x unfolding find_append ua by simp
  show ?thesis
  proof (cases fa)
    case (Some k)
    have "ab \<noteq> []" using ab(2) Some by auto
    then have run: "mdv_topology_diff (\<lambda>_. True) a nodea b nodeb =
      (case mdv_topology_nodes_extradata True linked n of None \<Rightarrow> Some Null_topology
       | Some ex \<Rightarrow> mdv_topology_create (\<lambda>_. True) linked links' ex)"
      using links bl ab(1) ln(1) Some by (simp add: mdv_topology_diff_def)
    obtain t where t: "mdv_topology_diff (\<lambda>_. True) a nodea b nodeb = Some (Topology t)" "ulinks t = map (ulink ?na) ab" "topology_ok t"
      using diff_finish [of "\<lambda>_. True", OF _ ln(3,5,6)] unfolding run ln(2) by blast
    have "set (ulinks t) = ulink ?na ` set ab" using t(2) by simp
    then show ?thesis using t uab xf Some by auto
  next
    case None
    obtain k where k: "List.find (?J \<circ> ulink ?nb) (tp_links b) = Some k" "x = ulink ?nb k"
      using xf [symmetric] None by (auto simp: ulinks_def find_map)
    define l r w where "l = ?nb ! tl_node0 k" and "r = ?nb ! tl_node1 k" and "w = tl_weight k"
    have kin: "k \<in> set (tp_links b)" "?J (ulink ?nb k)" using find_in_set [OF k(1)] by auto
    then have lr: "l \<in> set ?nb" "r \<in> set ?nb" "tn_uuid l \<noteq> tn_uuid r"
      using rng(2) ne by (auto simp: list_all_iff link_ok_def l_def r_def joining_def ulink_def doubleton_eq_iff)
    have fj: "find_joining nodea nodeb ?nb (tp_links b) = Some (Some (l, r, w))"
      using find_joining_ok [OF ne rng(2)] k(1) by (simp add: found_at_def l_def r_def w_def)
    have ag: "ids_agree (insert l (set linked)) {l, r}"
    proof -
      have "inj_on tn_id (set ?nb)" "inj_on tn_uuid (set ?nb)" using ok(2) by (auto simp: topology_ok_def distinct_map)
      then have "tn_id l = tn_id r \<longleftrightarrow> tn_uuid l = tn_uuid r" using lr by (metis inj_on_eq_iff)
      then show ?thesis using agree ln(4) lr by (auto simp: ids_agree_def)
    qed
    obtain links2 nodes2 n2 where ap: "mdv_topology_linked_node_append (\<lambda>i. True) links' linked n (Some (l, r)) w = Some (links2, nodes2, n2)"
      "map (ulink nodes2) links2 = map (ulink linked) links' @ [((tn_uuid l, tn_uuid r), w)]" "list_all (link_ok nodes2) links2"
      "distinct (map tn_id nodes2)" "distinct (map tn_uuid nodes2)"
      using node_append_ok [of "\<lambda>_. True", OF _ ln(3,5,6) lr(3) ag] by blast
    have run: "mdv_topology_diff (\<lambda>_. True) a nodea b nodeb =
      (case mdv_topology_nodes_extradata True nodes2 n2 of None \<Rightarrow> Some Null_topology
       | Some ex \<Rightarrow> mdv_topology_create (\<lambda>_. True) nodes2 links2 ex)"
      using links bl ab(1) ln(1) None fj ap(1) by (simp add: mdv_topology_diff_def)
    obtain t where t: "mdv_topology_diff (\<lambda>_. True) a nodea b nodeb = Some (Topology t)"
      "ulinks t = map (ulink ?na) ab @ [((tn_uuid l, tn_uuid r), w)]" "topology_ok t"
      using diff_finish [of "\<lambda>_. True", OF _ ap(3-5)] unfolding run ap(2) ln(2) by blast
    have "x = ((tn_uuid l, tn_uuid r), w)" using k(2) by (simp add: ulink_def l_def r_def w_def)
    then have "set (ulinks t) = insert x (ulink ?na ` set ab)" using t(2) by simp
    then show ?thesis using t uab None by simp
  qed
qed

section \<open>Properties\<close>




text \<open>Three nodes, as seen by the first of them; and by the second, which numbers itself zero.\<close>

definition view_a :: mdv_topology where
  "view_a = \<lparr>tp_rc = 1, tp_nodes = [\<lparr>tn_uuid = Uuid 1 0, tn_id = 0, tn_addr = ''a''\<rparr>, \<lparr>tn_uuid = Uuid 3 0, tn_id = 1, tn_addr = ''c''\<rparr>],
     tp_links = [\<lparr>tl_node0 = 0, tl_node1 = 1, tl_weight = 1\<rparr>], tp_extradata = []\<rparr>"

definition view_b :: "nat \<Rightarrow> nat \<Rightarrow> mdv_topology" where
  "view_b i j = \<lparr>tp_rc = 1, tp_nodes = [\<lparr>tn_uuid = Uuid 1 0, tn_id = i, tn_addr = ''a''\<rparr>, \<lparr>tn_uuid = Uuid 2 0, tn_id = j, tn_addr = ''b''\<rparr>],
     tp_links = [\<lparr>tl_node0 = 0, tl_node1 = 1, tl_weight = 1\<rparr>], tp_extradata = []\<rparr>"


text \<open>
  Local identifiers are local: every node numbers itself zero. When the two topologies use one identifier
  for different nodes and the link between them is known to the second only, \<open>mdv_topology_diff\<close> puts nodes of both
  numberings into one topology, and \<open>mdv_topology_create\<close> confuses them: the difference of the link (1, 3) and the
  link (1, 2) has the links (2, 3) and (2, 2), none of which exists.
\<close>
theorem topology_diff_id_clash:
  "\<exists>t. mdv_topology_diff (\<lambda>_. True) view_a (Uuid 1 0) (view_b 1 0) (Uuid 2 0) = Some (Topology t) \<and>
     ulinks t = [((Uuid 2 0, Uuid 3 0), 1), ((Uuid 2 0, Uuid 2 0), 1)]"
proof -
  have le: "Uuid 1 0 \<le> Uuid 2 0" "Uuid 1 0 \<le> Uuid 3 0" "Uuid 2 0 \<le> Uuid 3 0" "\<not> Uuid 3 0 \<le> Uuid 2 0"
    by (simp_all add: less_eq_mdv_uuid_def mdv_uuid_cmp_def)
  show ?thesis
    by (simp add: mdv_topology_diff_def view_a_def view_b_def mdv_topology_links_map_def link_uuids_def link_known_def
        utopolink_cmp_zero link_joins_def uuid_cmp_zero doubleton_eq_iff mdv_topology_linked_nodes_def Let_def
        mdv_topology_linked_node_append_def mdv_node_equ_def mdv_node_cmp_def mdv_topology_nodes_extradata_def
        mdv_topology_create_def link_to_ids_def link_to_idx_def ulinks_def ulink_def le)
qed

end
