(* ===== verification/Mdv_Router.thy ===== *)
theory Mdv_Router
  imports Mdv_Topology Mdv_Mst
begin

text \<open>
  The calculation of routes of src/mdv_platform/mdv_router.c: the neighbours of a node in a spanning tree of
  the topology. The iteration order of the hash map of the linked nodes is the argument \<open>enum\<close>, which lists
  its keys; \<open>mem i\<close> tells whether allocation \<open>i\<close> succeeds.

  What the router needs from the search for a spanning tree is the locale \<open>spanning_tree_search\<close>; the interpretation
  \<open>boruvka\<close> discharges it for \<open>mdv_mst_find\<close>.
\<close>

section \<open>The code\<close>

definition MDV_LINK_WEIGHT_MAX :: u32 where
  "MDV_LINK_WEIGHT_MAX = 1024 * 1024"

text \<open>The ids of the linked nodes, in the order of their new index.\<close>

definition mdv_router_unique_nodes :: "(nat list \<Rightarrow> nat list) \<Rightarrow> mdv_topolink list \<Rightarrow> nat list" where
  "mdv_router_unique_nodes enum topolinks =
     enum (fold (\<lambda>link nodes.
             let nodes = (if tl_node0 link \<in> set nodes then nodes else nodes @ [tl_node0 link])
             in if tl_node1 link \<in> set nodes then nodes else nodes @ [tl_node1 link]) topolinks [])"

text \<open>The index of a node in the hash map.\<close>

fun position :: "nat list \<Rightarrow> nat \<Rightarrow> nat option" where
  "position [] k = None"
| "position (x # xs) k = (if x = k then Some 0 else map_option Suc (position xs k))"

definition router_link :: "nat list \<Rightarrow> mdv_topolink \<Rightarrow> mdv_mstlink option" where
  "router_link unique_nodes link =
     (let weight = (if tl_weight link > MDV_LINK_WEIGHT_MAX then MDV_LINK_WEIGHT_MAX else tl_weight link) in
      case (position unique_nodes (tl_node0 link), position unique_nodes (tl_node1 link)) of
        (Some n0, Some n1) \<Rightarrow>
          Some \<lparr>ml_src = n0, ml_dst = n1, ml_weight = MDV_LINK_WEIGHT_MAX - weight, ml_mst = 0\<rparr>
      | _ \<Rightarrow> None)"

text \<open>The loop that collects the next hops: the other ends of the tree links of the source node.\<close>

fun routes_loop :: "(nat \<Rightarrow> bool) \<Rightarrow> nat \<Rightarrow> mdv_toponode list \<Rightarrow> mdv_uuid \<Rightarrow> mdv_mstlink list \<Rightarrow> mdv_uuid list \<Rightarrow> mdv_uuid list option" where
  "routes_loop mem i mst_nodes src [] routes = Some routes"
| "routes_loop mem i mst_nodes src (link # links) routes =
     (if ml_mst link \<noteq> 0 then
        let lnode = mst_nodes ! ml_src link; rnode = mst_nodes ! ml_dst link in
        if mdv_uuid_cmp src (tn_uuid lnode) = 0
        then (if mem i then routes_loop mem (i + 1) mst_nodes src links (List.insert (tn_uuid rnode) routes) else None)
        else if mdv_uuid_cmp src (tn_uuid rnode) = 0
        then (if mem i then routes_loop mem (i + 1) mst_nodes src links (List.insert (tn_uuid lnode) routes) else None)
        else routes_loop mem i mst_nodes src links routes
      else routes_loop mem i mst_nodes src links routes)"

text \<open>\<open>None\<close> is undefined behaviour, \<open>Some None\<close> the null result.\<close>

definition routes_with ::
  "(nat \<Rightarrow> mdv_mstlink list \<Rightarrow> (mdv_mstlink list \<times> nat) option) \<Rightarrow> (nat \<Rightarrow> bool) \<Rightarrow> (nat list \<Rightarrow> nat list) \<Rightarrow>
    mdv_topology \<Rightarrow> mdv_uuid \<Rightarrow> mdv_uuid list option option" where
  "routes_with search mem enum topology src =
     (let topolinks = tp_links topology; toponodes = tp_nodes topology in
      if topolinks = [] then Some (if mem 0 then Some [] else None)
      else if \<not> mem 0 \<or> \<not> mem 1 then Some None
      else
        let unique_nodes = mdv_router_unique_nodes enum topolinks in
        if \<not> list_all (\<lambda>k. k < length toponodes) unique_nodes then None
        else if \<not> mem 2 then Some None
        else
          let mst_nodes = map ((!) toponodes) unique_nodes in
          case those (map (router_link unique_nodes) topolinks) of None \<Rightarrow> None
          | Some mst_links \<Rightarrow>
              (case search (length unique_nodes) mst_links of None \<Rightarrow> None
               | Some (mst_links, mst_size) \<Rightarrow>
                   if \<not> mem 3 then Some None
                   else if mst_size \<noteq> 0 then Some (routes_loop mem 4 mst_nodes src mst_links [])
                   else Some (Some [])))"

definition mdv_routes_find ::
  "(nat \<Rightarrow> bool) \<Rightarrow> bool \<Rightarrow> (nat list \<Rightarrow> nat list) \<Rightarrow> mdv_topology \<Rightarrow> mdv_uuid \<Rightarrow> mdv_uuid list option option" where
  "mdv_routes_find mem mst_alloc enum = routes_with (mdv_mst_find mst_alloc) mem enum"

section \<open>The linked nodes\<close>

definition enumerates :: "(nat list \<Rightarrow> nat list) \<Rightarrow> bool" where
  "enumerates enum \<longleftrightarrow> (\<forall>ks. distinct ks \<longrightarrow> distinct (enum ks) \<and> set (enum ks) = set ks)"

definition linked_ids :: "mdv_topolink list \<Rightarrow> nat set" where
  "linked_ids links = (\<Union>l \<in> set links. {tl_node0 l, tl_node1 l})"

lemma unique_fold:
  "distinct acc \<Longrightarrow> (let r = fold (\<lambda>link nodes.
       let nodes = (if tl_node0 link \<in> set nodes then nodes else nodes @ [tl_node0 link])
       in if tl_node1 link \<in> set nodes then nodes else nodes @ [tl_node1 link]) links acc
   in distinct r \<and> set r = set acc \<union> linked_ids links)"
proof (induction links arbitrary: acc)
  case (Cons l links)
  define acc1 where "acc1 = (if tl_node0 l \<in> set acc then acc else acc @ [tl_node0 l])"
  define acc2 where "acc2 = (if tl_node1 l \<in> set acc1 then acc1 else acc1 @ [tl_node1 l])"
  have "distinct acc2" "set acc2 = set acc \<union> {tl_node0 l, tl_node1 l}"
    using Cons.prems by (auto simp: acc1_def acc2_def)
  with Cons.IH [of acc2] show ?case by (auto simp: Let_def acc1_def acc2_def linked_ids_def)
qed (simp add: linked_ids_def)

lemma unique_nodes_ok:
  assumes "enumerates enum"
  shows "distinct (mdv_router_unique_nodes enum links)" "set (mdv_router_unique_nodes enum links) = linked_ids links"
  using assms unique_fold [of "[]" links] by (auto simp: mdv_router_unique_nodes_def enumerates_def Let_def)

lemma position_at: "k \<in> set xs \<Longrightarrow> \<exists>i. position xs k = Some i \<and> i < length xs \<and> xs ! i = k"
  by (induction xs) auto

section \<open>What the router needs from the search\<close>

definition mst_result :: "nat \<Rightarrow> mdv_mstlink list \<Rightarrow> mdv_mstlink list \<Rightarrow> nat \<Rightarrow> bool" where
  "mst_result n links links' sz \<longleftrightarrow> ends links' = ends links \<and>
     (connects n (ends links) {..<length links} \<longrightarrow>
        sz = n - 1 \<and> card (marked links') = n - 1 \<and> connects n (ends links) (marked links') \<and>
        (\<forall>S. S \<subseteq> {..<length links} \<and> connects n (ends links) S \<longrightarrow>
           (\<Sum>k \<in> marked links'. weights links ! k) \<le> (\<Sum>k \<in> S. weights links ! k)))"

text \<open>Two nodes are neighbours when one of the links with an index in \<open>K\<close> joins them.\<close>

definition neighbours :: "mdv_topology \<Rightarrow> nat set \<Rightarrow> (mdv_uuid \<times> mdv_uuid) set" where
  "neighbours t K = {(x, y). \<exists>k \<in> K. fst (ulinks t ! k) = (x, y) \<or> fst (ulinks t ! k) = (y, x)}"

definition linked_uuids :: "mdv_topology \<Rightarrow> mdv_uuid set" where
  "linked_uuids t = (\<lambda>k. tn_uuid (tp_nodes t ! k)) ` linked_ids (tp_links t)"

definition joined :: "mdv_topology \<Rightarrow> nat set \<Rightarrow> bool" where
  "joined t K \<longleftrightarrow> (\<forall>x \<in> linked_uuids t. \<forall>y \<in> linked_uuids t. (x, y) \<in> (neighbours t K)\<^sup>*)"

text \<open>The cost of a link: how far its weight is below the maximum.\<close>

definition route_cost :: "mdv_topology \<Rightarrow> nat \<Rightarrow> nat" where
  "route_cost t k = unat MDV_LINK_WEIGHT_MAX - min (unat MDV_LINK_WEIGHT_MAX) (unat (tl_weight (tp_links t ! k)))"

definition router_ok :: "mdv_topology \<Rightarrow> bool" where
  "router_ok t \<longleftrightarrow> topology_ok t \<and> card (linked_uuids t) \<le> 2 ^ 31"

lemma rtrancl_image:
  assumes R: "R \<subseteq> A \<times> A" and inj: "inj_on f A" and ab: "a \<in> A" "b \<in> A"
  shows "(f a, f b) \<in> {(f x, f y) | x y. (x, y) \<in> R}\<^sup>* \<longleftrightarrow> (a, b) \<in> R\<^sup>*" (is "_ \<in> ?R\<^sup>* \<longleftrightarrow> _")
proof
  have "\<exists>y. z = f y \<and> y \<in> A \<and> (a, y) \<in> R\<^sup>*" if "(f a, z) \<in> ?R\<^sup>*" for z
    using that
  proof induction
    case base
    then show ?case using ab(1) by blast
  next
    case (step y z)
    then obtain y' where y': "y = f y'" "y' \<in> A" "(a, y') \<in> R\<^sup>*" by blast
    obtain u v where uv: "y = f u" "z = f v" "(u, v) \<in> R" using step.hyps(2) by blast
    then have A: "u \<in> A" "v \<in> A" using R by blast+
    then have "u = y'" using inj_onD [OF inj, of u y'] uv(1) y'(1,2) by simp
    then have "(a, v) \<in> R\<^sup>*" using rtrancl_into_rtrancl [OF y'(3)] uv(3) by simp
    then show ?case using uv(2) A(2) by blast
  qed
  moreover assume "(f a, f b) \<in> ?R\<^sup>*"
  ultimately obtain y where "f b = f y" "y \<in> A" "(a, y) \<in> R\<^sup>*" by blast
  then show "(a, b) \<in> R\<^sup>*" using inj_onD [OF inj, of b y] ab(2) by simp
next
  assume "(a, b) \<in> R\<^sup>*"
  then show "(f a, f b) \<in> ?R\<^sup>*"
  proof induction
    case (step y z)
    then have "(f y, f z) \<in> ?R" by blast
    with step.IH show ?case by (rule rtrancl_into_rtrancl)
  qed simp
qed

lemma routes_loop_ok:
  assumes "\<And>i. mem i"
  shows "\<exists>rs'. routes_loop mem i mst_nodes src links rs = Some rs' \<and>
    set rs' = set rs \<union> {v. \<exists>l \<in> set links. ml_mst l \<noteq> 0 \<and>
      ((tn_uuid (mst_nodes ! ml_src l), tn_uuid (mst_nodes ! ml_dst l)) = (src, v) \<or>
       (tn_uuid (mst_nodes ! ml_src l), tn_uuid (mst_nodes ! ml_dst l)) = (v, src))}"
proof (induction links arbitrary: i rs)
  case (Cons l links)
  let ?a = "tn_uuid (mst_nodes ! ml_src l)" and ?b = "tn_uuid (mst_nodes ! ml_dst l)"
  show ?case
    using Cons.IH [of "i + 1" "List.insert ?b rs"] Cons.IH [of "i + 1" "List.insert ?a rs"] Cons.IH [of i rs] assms
    by (auto simp: Let_def uuid_cmp_zero)
qed simp

text \<open>The translation to the nodes and links of the search.\<close>

lemma router_links_ok:
  assumes d: "distinct u" and sub: "linked_ids links \<subseteq> set u"
  shows "\<exists>ml. those (map (router_link u) links) = Some ml \<and> length ml = length links \<and>
    (\<forall>k < length links. ml_src (ml ! k) < length u \<and> ml_dst (ml ! k) < length u \<and>
      u ! ml_src (ml ! k) = tl_node0 (links ! k) \<and> u ! ml_dst (ml ! k) = tl_node1 (links ! k) \<and>
      unat (ml_weight (ml ! k)) = unat MDV_LINK_WEIGHT_MAX - min (unat MDV_LINK_WEIGHT_MAX) (unat (tl_weight (links ! k))))"
proof -
  define g where "g l = \<lparr>ml_src = the (position u (tl_node0 l)), ml_dst = the (position u (tl_node1 l)),
    ml_weight = MDV_LINK_WEIGHT_MAX - (if tl_weight l > MDV_LINK_WEIGHT_MAX then MDV_LINK_WEIGHT_MAX else tl_weight l), ml_mst = 0\<rparr>"
    for l :: mdv_topolink
  have pos: "\<exists>i. position u (tl_node0 l) = Some i \<and> i < length u \<and> u ! i = tl_node0 l"
    "\<exists>i. position u (tl_node1 l) = Some i \<and> i < length u \<and> u ! i = tl_node1 l" if "l \<in> set links" for l
    using that sub by (auto simp: linked_ids_def intro!: position_at)
  have "those (map (router_link u) links) = Some (map g links)"
    using pos by (intro those_map) (fastforce simp: router_link_def Let_def g_def)
  moreover have "unat (ml_weight (g l)) = unat MDV_LINK_WEIGHT_MAX - min (unat MDV_LINK_WEIGHT_MAX) (unat (tl_weight l))" for l
  proof (cases "tl_weight l > MDV_LINK_WEIGHT_MAX")
    case True
    then show ?thesis by (simp add: g_def word_less_nat_alt)
  next
    case False
    then have "tl_weight l \<le> MDV_LINK_WEIGHT_MAX" by simp
    then show ?thesis using False by (simp add: g_def unat_sub word_le_nat_alt)
  qed
  moreover have "ml_src (g l) < length u \<and> ml_dst (g l) < length u \<and> u ! ml_src (g l) = tl_node0 l \<and> u ! ml_dst (g l) = tl_node1 l"
    if "l \<in> set links" for l using pos [OF that] by (auto simp: g_def)
  ultimately show ?thesis by (intro exI [of _ "map g links"]) simp
qed

section \<open>The graph of a topology\<close>

definition node_at :: "mdv_topology \<Rightarrow> nat list \<Rightarrow> nat \<Rightarrow> mdv_uuid" where
  "node_at t u i = tn_uuid (tp_nodes t ! (u ! i))"

definition represents :: "mdv_topology \<Rightarrow> nat list \<Rightarrow> mdv_mstlink list \<Rightarrow> bool" where
  "represents t u ml \<longleftrightarrow> inj_on (node_at t u) {..<length u} \<and> linked_uuids t = node_at t u ` {..<length u} \<and>
     length ml = length (tp_links t) \<and> (\<forall>k < length (tp_links t). ml_src (ml ! k) < length u \<and> ml_dst (ml ! k) < length u \<and>
       fst (ulinks t ! k) = (node_at t u (ml_src (ml ! k)), node_at t u (ml_dst (ml ! k))) \<and>
       unat (ml_weight (ml ! k)) = route_cost t k)"

lemma unique_nodes_represent:
  assumes ok: "router_ok t" and u: "distinct u" "set u = linked_ids (tp_links t)"
  shows "\<exists>ml. those (map (router_link u) (tp_links t)) = Some ml \<and> represents t u ml \<and>
    list_all (\<lambda>k. k < length (tp_nodes t)) u"
proof -
  have rng: "list_all (link_ok (tp_nodes t)) (tp_links t)" and du: "distinct (map tn_uuid (tp_nodes t))"
    using ok by (auto simp: router_ok_def topology_ok_def)
  have uin: "k < length (tp_nodes t)" if "k \<in> set u" for k
    using that rng unfolding u(2) linked_ids_def by (auto simp: list_all_iff link_ok_def)
  have inj: "inj_on (node_at t u) {..<length u}"
  proof (rule inj_onI)
    fix i j assume ij: "i \<in> {..<length u}" "j \<in> {..<length u}" "node_at t u i = node_at t u j"
    then have b: "u ! i < length (tp_nodes t)" "u ! j < length (tp_nodes t)" using uin by auto
    then have "u ! i = u ! j" using ij(3) nth_eq_iff_index_eq [OF du, of "u ! i" "u ! j"] by (simp add: node_at_def)
    then show "i = j" using ij u(1) by (simp add: nth_eq_iff_index_eq)
  qed
  have "set u = (!) u ` {..<length u}" unfolding set_conv_nth by blast
  then have lu: "linked_uuids t = node_at t u ` {..<length u}"
    unfolding linked_uuids_def u(2) [symmetric] by (simp add: node_at_def image_image)
  obtain ml where ml: "those (map (router_link u) (tp_links t)) = Some ml" "length ml = length (tp_links t)"
    "\<forall>k < length (tp_links t). ml_src (ml ! k) < length u \<and> ml_dst (ml ! k) < length u \<and>
      u ! ml_src (ml ! k) = tl_node0 (tp_links t ! k) \<and> u ! ml_dst (ml ! k) = tl_node1 (tp_links t ! k) \<and>
      unat (ml_weight (ml ! k)) = unat MDV_LINK_WEIGHT_MAX - min (unat MDV_LINK_WEIGHT_MAX) (unat (tl_weight (tp_links t ! k)))"
    using router_links_ok [OF u(1), of "tp_links t"] unfolding u(2) by blast
  have "represents t u ml"
    unfolding represents_def using inj lu ml(2,3) by (simp add: node_at_def ulinks_def ulink_def route_cost_def)
  with ml(1) uin show ?thesis by (auto simp: list_all_iff)
qed

lemma rep_link:
  assumes "represents t u ml" "k < length (tp_links t)"
  shows "ends ml ! k = (ml_src (ml ! k), ml_dst (ml ! k))" "fst (ends ml ! k) < length u" "snd (ends ml ! k) < length u"
    "fst (ulinks t ! k) = (node_at t u (fst (ends ml ! k)), node_at t u (snd (ends ml ! k)))" "weights ml ! k = route_cost t k"
  using assms by (simp_all add: represents_def)

lemma rep_card: "represents t u ml \<Longrightarrow> card (linked_uuids t) = length u"
  by (simp add: represents_def card_image)

lemma rep_graph_ok:
  assumes rep: "represents t u ml" and n: "card (linked_uuids t) \<le> 2 ^ 31"
  shows "graph_ok (length u) (ends ml) (weights ml)"
proof -
  have "route_cost t k < 2 ^ 31" for k by (simp add: route_cost_def MDV_LINK_WEIGHT_MAX_def)
  moreover have "length ml = length (tp_links t)" using rep by (simp add: represents_def)
  ultimately show ?thesis
    unfolding graph_ok_def list_all_length using rep_link [OF rep] n rep_card [OF rep] by (simp add: split_beta weights_def)
qed

lemma rep_neighbours:
  assumes rep: "represents t u ml" and K: "K \<subseteq> {..<length (tp_links t)}"
  shows "neighbours t K = {(node_at t u x, node_at t u y) | x y. (x, y) \<in> adj (ends ml) K}"
proof -
  let ?f = "node_at t u" and ?e = "\<lambda>k. ends ml ! k"
  have k: "fst (ulinks t ! k) = (?f (fst (?e k)), ?f (snd (?e k)))" if "k \<in> K" for k
    using rep_link(4) [OF rep] K that by blast
  have "(a, b) \<in> neighbours t K \<longleftrightarrow> (\<exists>x y. a = ?f x \<and> b = ?f y \<and> (x, y) \<in> adj (ends ml) K)" for a b
  proof
    assume "(a, b) \<in> neighbours t K"
    then obtain k where "k \<in> K" "(?f (fst (?e k)), ?f (snd (?e k))) = (a, b) \<or> (?f (fst (?e k)), ?f (snd (?e k))) = (b, a)"
      unfolding neighbours_def using k by auto
    then show "\<exists>x y. a = ?f x \<and> b = ?f y \<and> (x, y) \<in> adj (ends ml) K" unfolding adj_def by force
  next
    assume "\<exists>x y. a = ?f x \<and> b = ?f y \<and> (x, y) \<in> adj (ends ml) K"
    then show "(a, b) \<in> neighbours t K" unfolding adj_def neighbours_def using k by fastforce
  qed
  then show ?thesis by auto
qed

lemma rep_joined:
  assumes rep: "represents t u ml" and K: "K \<subseteq> {..<length (tp_links t)}"
  shows "joined t K \<longleftrightarrow> connects (length u) (ends ml) K"
proof -
  have inj: "inj_on (node_at t u) {..<length u}" and lu: "linked_uuids t = node_at t u ` {..<length u}"
    using rep by (auto simp: represents_def)
  have "adj (ends ml) K \<subseteq> {..<length u} \<times> {..<length u}"
  proof -
    have "fst (ends ml ! k) < length u \<and> snd (ends ml ! k) < length u" if "k \<in> K" for k
      using rep_link(2,3) [OF rep] K that by blast
    then show ?thesis unfolding adj_def by fastforce
  qed
  from rtrancl_image [OF this inj] show ?thesis
    unfolding joined_def connects_def lu conn_def rep_neighbours [OF rep K] by (simp only: ball_simps lessThan_iff) blast
qed

lemma rep_routes:
  assumes rep: "represents t u ml" and e: "ends links' = ends ml" and u: "list_all (\<lambda>k. k < length (tp_nodes t)) u"
  shows "\<exists>rs. routes_loop (\<lambda>_. True) 4 (map ((!) (tp_nodes t)) u) src links' [] = Some rs \<and>
    set rs = {v. (src, v) \<in> neighbours t (marked links')}"
proof -
  have len: "length links' = length (tp_links t)" using e rep by (metis ends_simps(1) represents_def)
  have K: "marked links' \<subseteq> {..<length (tp_links t)}" using len by (auto simp: marked_def)
  let ?n = "map ((!) (tp_nodes t)) u"
  have k: "(tn_uuid (?n ! ml_src (links' ! k)), tn_uuid (?n ! ml_dst (links' ! k))) = fst (ulinks t ! k)"
    if "k < length (tp_links t)" for k
  proof -
    have "(ml_src (links' ! k), ml_dst (links' ! k)) = ends ml ! k" using e that len by (metis ends_simps(2))
    then show ?thesis using rep_link [OF rep that] by (auto simp: node_at_def)
  qed
  obtain rs where rs: "routes_loop (\<lambda>_. True) 4 ?n src links' [] = Some rs"
    "set rs = {v. \<exists>l \<in> set links'. ml_mst l \<noteq> 0 \<and> ((tn_uuid (?n ! ml_src l), tn_uuid (?n ! ml_dst l)) = (src, v) \<or>
      (tn_uuid (?n ! ml_src l), tn_uuid (?n ! ml_dst l)) = (v, src))}"
    using routes_loop_ok [of "\<lambda>_. True" 4 ?n src links' "[]"] by auto
  have "set rs = {v. \<exists>k \<in> marked links'. fst (ulinks t ! k) = (src, v) \<or> fst (ulinks t ! k) = (v, src)}"
  proof -
    have "(\<exists>l \<in> set links'. P l) \<longleftrightarrow> (\<exists>k < length links'. P (links' ! k))" for P by (auto simp: set_conv_nth)
    then show ?thesis unfolding rs(2) marked_def using k len by (simp only: Bex_def mem_Collect_eq) (simp cong: conj_cong)
  qed
  with rs(1) show ?thesis by (auto simp: neighbours_def)
qed

locale spanning_tree_search =
  fixes search :: "nat \<Rightarrow> mdv_mstlink list \<Rightarrow> (mdv_mstlink list \<times> nat) option"
  assumes search_ok: "graph_ok n (ends links) (weights links) \<Longrightarrow>
    \<exists>links' sz. search n links = Some (links', sz) \<and> mst_result n links links' sz"
begin

lemma routes_tree:
  assumes ok: "router_ok t" and enum: "enumerates enum" and ne: "tp_links t \<noteq> []" and jn: "joined t {..<length (tp_links t)}"
  shows "\<exists>T. T \<subseteq> {..<length (tp_links t)} \<and> Suc (card T) = card (linked_uuids t) \<and> joined t T \<and>
    (\<forall>S. S \<subseteq> {..<length (tp_links t)} \<and> joined t S \<longrightarrow> (\<Sum>k \<in> T. route_cost t k) \<le> (\<Sum>k \<in> S. route_cost t k)) \<and>
    (\<forall>src. \<exists>rs. routes_with search (\<lambda>_. True) enum t src = Some (Some rs) \<and> set rs = {v. (src, v) \<in> neighbours t T})"
proof -
  let ?all = "{..<length (tp_links t)}"
  define u where "u = mdv_router_unique_nodes enum (tp_links t)"
  have u: "distinct u" "set u = linked_ids (tp_links t)" unfolding u_def by (rule unique_nodes_ok [OF enum])+
  obtain ml where ml: "those (map (router_link u) (tp_links t)) = Some ml" "represents t u ml"
    "list_all (\<lambda>k. k < length (tp_nodes t)) u" using unique_nodes_represent [OF ok u] by blast
  have lm: "length ml = length (tp_links t)" using ml(2) by (simp add: represents_def)
  have g: "graph_ok (length u) (ends ml) (weights ml)" using rep_graph_ok [OF ml(2)] ok by (simp add: router_ok_def)
  obtain links' sz where s: "search (length u) ml = Some (links', sz)" "mst_result (length u) ml links' sz"
    using search_ok [OF g] by blast
  define T where "T = marked links'"
  have el: "ends links' = ends ml" using s(2) by (simp add: mst_result_def)
  then have T: "T \<subseteq> ?all" using lm unfolding T_def marked_def by (metis (mono_tags) ends_simps(1) lessThan_iff mem_Collect_eq subsetI)
  have "connects (length u) (ends ml) {..<length ml}" using rep_joined [OF ml(2), of ?all] jn lm by simp
  then have r: "sz = length u - 1" "card T = length u - 1" "connects (length u) (ends ml) T"
    "\<And>S. S \<subseteq> ?all \<Longrightarrow> connects (length u) (ends ml) S \<Longrightarrow> (\<Sum>k \<in> T. weights ml ! k) \<le> (\<Sum>k \<in> S. weights ml ! k)"
    using s(2) unfolding mst_result_def T_def lm by auto
  have n0: "length u > 0" using ne u(2) by (cases "tp_links t") (auto simp: linked_ids_def)
  have cost: "(\<Sum>k \<in> S. weights ml ! k) = (\<Sum>k \<in> S. route_cost t k)" if "S \<subseteq> ?all" for S
    using that rep_link(5) [OF ml(2)] by (intro sum.cong) auto
  have run: "routes_with search (\<lambda>_. True) enum t src =
      (if sz \<noteq> 0 then Some (routes_loop (\<lambda>_. True) 4 (map ((!) (tp_nodes t)) u) src links' []) else Some (Some []))" for src
    using ne ml(1,3) s(1) by (simp add: routes_with_def Let_def u_def [symmetric])
  have routes: "\<exists>rs. routes_with search (\<lambda>_. True) enum t src = Some (Some rs) \<and> set rs = {v. (src, v) \<in> neighbours t T}" for src
  proof (cases "sz = 0")
    case True
    then have "T = {}" using r(1,2) T finite_subset [OF T] by simp
    then show ?thesis using run True by (simp add: neighbours_def)
  next
    case False
    then show ?thesis using run rep_routes [OF ml(2) el ml(3)] by (simp add: T_def)
  qed
  show ?thesis
    using T r(2) n0 rep_card [OF ml(2)] r(3) r(4) rep_joined [OF ml(2)] cost routes by (intro exI [of _ T]) auto
qed

end

interpretation boruvka: spanning_tree_search "mdv_mst_find True"
  using mst_find_ok by unfold_locales (fastforce simp: mst_result_def)

section \<open>Property\<close>

text \<open>
  C1. On every well-formed topology whose links join all linked nodes, the routes computed on the different nodes fit
  together: there is one spanning tree of the linked nodes, of least total cost, such that the routes of every node are
  its neighbours in that tree. This holds for any iteration order of the hash map of nodes. So a message that every
  node forwards along its routes reaches every node, and no node has a route the other end does not have.
\<close>
theorem routes_spanning_tree:
  assumes "router_ok t" "enumerates enum" "tp_links t \<noteq> []" "joined t {..<length (tp_links t)}"
  shows "\<exists>T. T \<subseteq> {..<length (tp_links t)} \<and> Suc (card T) = card (linked_uuids t) \<and> joined t T \<and>
    (\<forall>S. S \<subseteq> {..<length (tp_links t)} \<and> joined t S \<longrightarrow> (\<Sum>k \<in> T. route_cost t k) \<le> (\<Sum>k \<in> S. route_cost t k)) \<and>
    (\<forall>src. \<exists>rs. mdv_routes_find (\<lambda>_. True) True enum t src = Some (Some rs) \<and> set rs = {v. (src, v) \<in> neighbours t T})"
  unfolding mdv_routes_find_def using assms by (rule boruvka.routes_tree)

text \<open>Two nodes and their link.\<close>

definition pair_topology :: mdv_topology where
  "pair_topology = \<lparr>tp_rc = 1, tp_nodes = [\<lparr>tn_uuid = Uuid 1 0, tn_id = 0, tn_addr = ''a''\<rparr>, \<lparr>tn_uuid = Uuid 2 0, tn_id = 1, tn_addr = ''b''\<rparr>],
     tp_links = [\<lparr>tl_node0 = 0, tl_node1 = 1, tl_weight = 1\<rparr>], tp_extradata = []\<rparr>"

lemma pair_uuids: "linked_uuids pair_topology = {Uuid 1 0, Uuid 2 0}"
  by (auto simp: linked_uuids_def linked_ids_def pair_topology_def)

lemma pair_neighbours: "neighbours pair_topology {0} = {(Uuid 1 0, Uuid 2 0), (Uuid 2 0, Uuid 1 0)}"
  by (auto simp: neighbours_def ulinks_def ulink_def pair_topology_def)

theorem routes_spanning_tree_witness:
  "\<exists>rs. mdv_routes_find (\<lambda>_. True) True (\<lambda>ks. ks) pair_topology (Uuid 1 0) = Some (Some rs) \<and> set rs = {Uuid 2 0}"
proof -
  have one: "{..<length (tp_links pair_topology)} = {0}" by (auto simp: pair_topology_def)
  have "router_ok pair_topology" unfolding router_ok_def pair_uuids
    by (simp add: topology_ok_def pair_topology_def link_ok_def)
  moreover have "enumerates (\<lambda>ks. ks)" "tp_links pair_topology \<noteq> []" by (simp_all add: enumerates_def pair_topology_def)
  moreover have "joined pair_topology {..<length (tp_links pair_topology)}"
    unfolding one joined_def pair_uuids pair_neighbours by auto
  ultimately obtain T where T: "T \<subseteq> {0}" "Suc (card T) = 2"
    "\<exists>rs. mdv_routes_find (\<lambda>_. True) True (\<lambda>ks. ks) pair_topology (Uuid 1 0) = Some (Some rs) \<and> set rs = {v. (Uuid 1 0, v) \<in> neighbours pair_topology T}"
    using routes_spanning_tree [of pair_topology "\<lambda>ks. ks"] unfolding one pair_uuids by auto
  then have "T = {0}" by (cases "T = {}") auto
  with T(3) show ?thesis by (simp add: pair_neighbours)
qed

end
