(* ===== verification/Mdv_Msg.thy ===== *)
theory Mdv_Msg
  imports Mdv_Prelude
begin

text \<open>
  Messages on a connection: src/mdv_platform/mdv_errno.c, the reading and writing of src/mdv_platform/mdv_def.c, and
  src/mdv_net/mdv_msg.c.

  The system calls are driven by a schedule, one event per call: \<open>Accept n\<close> takes at most \<open>n\<close> bytes, \<open>Chunk bs\<close> is what has
  arrived and is not read yet, an error event sets \<open>errno\<close>. A \<open>read\<close> with no event left finds no data (\<open>EAGAIN\<close>); a
  \<open>write\<close> with no event left has not returned yet, so the result is \<open>None\<close>.
\<close>

section \<open>Errors of system calls\<close>

abbreviation "EPERM \<equiv> 1 :: int"
abbreviation "EAGAIN \<equiv> 11 :: int"

text \<open>The codes of mdv_errno.h are numbers: \<open>MDV_OK\<close> is one and \<open>MDV_FALSE\<close> is zero.\<close>

definition mdv_error :: "int \<Rightarrow> mdv_errno" where
  "mdv_error errno =
     (if errno = 2 then MDV_ENOENT
      else if errno = EAGAIN then MDV_EAGAIN
      else if errno = 17 then MDV_EEXIST
      else if errno = 115 then MDV_INPROGRESS
      else if errno = 110 then MDV_ETIMEDOUT
      else if errno = 1 then MDV_OK
      else if errno = 0 then MDV_FALSE
      else MDV_SYS errno)"

section \<open>Writing\<close>

datatype write_event = Accept nat | Write_errno int

text \<open>The result and the length that the call reports.\<close>

fun mdv_write :: "write_event \<Rightarrow> bytes \<Rightarrow> nat \<Rightarrow> mdv_errno \<times> nat \<times> bytes" where
  "mdv_write (Accept n) data len = (if len = 0 then (MDV_OK, len, []) else (MDV_OK, min n len, take (min n len) data))"
| "mdv_write (Write_errno e) data len = (if len = 0 then (MDV_OK, len, []) else (mdv_error e, len, []))"

text \<open>The loop of \<open>mdv_write_all\<close>; \<open>data\<close> is what is left, \<open>sent\<close> what the descriptor has taken so far.\<close>

fun mdv_write_all :: "write_event list \<Rightarrow> bytes \<Rightarrow> bytes \<Rightarrow> (mdv_errno \<times> bytes \<times> write_event list) option" where
  "mdv_write_all [] sent data = (if data = [] then Some (MDV_OK, sent, []) else None)"
| "mdv_write_all (ev # evs) sent data =
     (if data = [] then Some (MDV_OK, sent, ev # evs)
      else case mdv_write ev data (length data) of (err, wlen, taken) \<Rightarrow>
        (case err of
           MDV_EAGAIN \<Rightarrow> mdv_write_all evs (sent @ taken) data
         | MDV_OK \<Rightarrow> mdv_write_all evs (sent @ taken) (drop wlen data)
         | _ \<Rightarrow> Some (err, sent @ taken, evs)))"

section \<open>Reading\<close>

datatype read_event = Chunk bytes | Read_errno int

text \<open>The result, the reported length, the bytes stored and the rest of the schedule. A read of zero bytes is the end of the stream.\<close>

definition mdv_read :: "read_event list \<Rightarrow> nat \<Rightarrow> mdv_errno \<times> nat \<times> bytes \<times> read_event list" where
  "mdv_read evs len =
     (if len = 0 then (MDV_OK, len, [], evs)
      else case evs of
        [] \<Rightarrow> (mdv_error EAGAIN, len, [], [])
      | Read_errno e # evs \<Rightarrow> (mdv_error e, len, [], evs)
      | Chunk bs # evs \<Rightarrow>
          if bs = [] then (MDV_CLOSED, len, [], Chunk bs # evs)
          else (MDV_OK, min len (length bs), take len bs, if length bs \<le> len then evs else Chunk (drop len bs) # evs))"

lemma mdv_read_ok:
  assumes "mdv_read evs len = (MDV_OK, n, bs, evs')" "0 < len"
  shows "0 < n" "n \<le> len" "length bs \<le> n"
  using assms by (auto simp: mdv_read_def split: if_splits list.splits read_event.splits)

section \<open>Messages\<close>

definition MDV_MSG_SIZE_MAX :: nat where
  "MDV_MSG_SIZE_MAX = 100 * 1024 * 1024"

record mdv_msghdr =
  mh_id :: u16
  mh_number :: u16
  mh_size :: u32

text \<open>A null payload is the empty list; a message with a payload has at least one byte.\<close>

record mdv_msg =
  mm_hdr :: mdv_msghdr
  mm_available_size :: nat
  mm_payload :: bytes

definition zero_msg :: mdv_msg where
  "zero_msg = \<lparr>mm_hdr = \<lparr>mh_id = 0, mh_number = 0, mh_size = 0\<rparr>, mm_available_size = 0, mm_payload = []\<rparr>"

text \<open>The header in memory (little endian, no padding), and the conversions to and from network byte order.\<close>

definition hdr_bytes :: "mdv_msghdr \<Rightarrow> bytes" where
  "hdr_bytes h = le_bytes 2 (unat (mh_id h)) @ le_bytes 2 (unat (mh_number h)) @ le_bytes 4 (unat (mh_size h))"

definition hdr_of_bytes :: "bytes \<Rightarrow> mdv_msghdr" where
  "hdr_of_bytes bs = \<lparr>mh_id = word_of_nat (le_val (slice 0 2 bs)), mh_number = word_of_nat (le_val (slice 2 2 bs)),
     mh_size = word_of_nat (le_val (slice 4 4 bs))\<rparr>"

definition mdv_hton16 :: "u16 \<Rightarrow> u16" where
  "mdv_hton16 w = word_of_nat (be_val (le_bytes 2 (unat w)))"

definition mdv_hton32 :: "u32 \<Rightarrow> u32" where
  "mdv_hton32 w = word_of_nat (be_val (le_bytes 4 (unat w)))"

definition mdv_ntoh16 :: "u16 \<Rightarrow> u16" where
  "mdv_ntoh16 w = word_of_nat (be_val (le_bytes 2 (unat w)))"

definition mdv_ntoh32 :: "u32 \<Rightarrow> u32" where
  "mdv_ntoh32 w = word_of_nat (be_val (le_bytes 4 (unat w)))"

definition mdv_write_msg :: "write_event list \<Rightarrow> bytes \<Rightarrow> mdv_msg \<Rightarrow> (mdv_errno \<times> bytes \<times> write_event list) option" where
  "mdv_write_msg evs sent msg =
     (if unat (mh_size (mm_hdr msg)) > MDV_MSG_SIZE_MAX then Some (MDV_FAILED, sent, evs)
      else if length (mm_payload msg) < unat (mh_size (mm_hdr msg)) then None
      else
        let hdr = \<lparr>mh_id = mdv_hton16 (mh_id (mm_hdr msg)), mh_number = mdv_hton16 (mh_number (mm_hdr msg)),
                   mh_size = mdv_hton32 (mh_size (mm_hdr msg))\<rparr> in
        case mdv_write_all evs sent (hdr_bytes hdr) of None \<Rightarrow> None
        | Some (err, sent, evs) \<Rightarrow>
            if err \<noteq> MDV_OK then Some (err, sent, evs)
            else mdv_write_all evs sent (take (unat (mh_size (mm_hdr msg))) (mm_payload msg)))"

text \<open>Bytes stored at an offset of the header or of the payload; \<open>None\<close> when they do not fit.\<close>

definition store_hdr :: "nat \<Rightarrow> bytes \<Rightarrow> mdv_msg \<Rightarrow> mdv_msg option" where
  "store_hdr off bs msg =
     (if off + length bs \<le> 8 then Some (msg\<lparr>mm_hdr := hdr_of_bytes (blit off bs (hdr_bytes (mm_hdr msg)))\<rparr>) else None)"

definition store_payload :: "nat \<Rightarrow> bytes \<Rightarrow> mdv_msg \<Rightarrow> mdv_msg option" where
  "store_payload off bs msg =
     (if off + length bs \<le> length (mm_payload msg) then Some (msg\<lparr>mm_payload := blit off bs (mm_payload msg)\<rparr>) else None)"

text \<open>What follows the last byte of the header. \<open>garbage\<close> is the content of the fresh buffer.\<close>

definition finish_hdr :: "(nat \<Rightarrow> bytes) option \<Rightarrow> mdv_msg \<Rightarrow> mdv_errno \<times> mdv_msg" where
  "finish_hdr garbage msg =
     (let hdr = \<lparr>mh_id = mdv_ntoh16 (mh_id (mm_hdr msg)), mh_number = mdv_ntoh16 (mh_number (mm_hdr msg)),
                 mh_size = mdv_ntoh32 (mh_size (mm_hdr msg))\<rparr>;
          msg = msg\<lparr>mm_hdr := hdr\<rparr> in
      if unat (mh_size hdr) > MDV_MSG_SIZE_MAX then (MDV_FAILED, zero_msg)
      else if mh_size hdr \<noteq> 0 then
        (case garbage of None \<Rightarrow> (MDV_NO_MEM, zero_msg)
         | Some g \<Rightarrow> (MDV_OK, msg\<lparr>mm_payload := g (unat (mh_size hdr))\<rparr>))
      else (MDV_OK, msg\<lparr>mm_payload := []\<rparr>))"

text \<open>The two loops. The header loop returns \<open>MDV_OK\<close> when the header is complete.\<close>

function read_hdr :: "(nat \<Rightarrow> bytes) option \<Rightarrow> read_event list \<Rightarrow> mdv_msg \<Rightarrow> (mdv_errno \<times> mdv_msg \<times> read_event list) option" where
  "read_hdr garbage evs msg =
     (if mm_available_size msg < 8 then
        case mdv_read evs (8 - mm_available_size msg) of (err, len, bs, evs) \<Rightarrow>
          if err \<noteq> MDV_OK then Some (err, msg, evs)
          else
            case store_hdr (mm_available_size msg) bs msg of None \<Rightarrow> None
            | Some msg' \<Rightarrow>
                let msg' = msg'\<lparr>mm_available_size := mm_available_size msg + len\<rparr> in
                if mm_available_size msg' = 8 then (case finish_hdr garbage msg' of (err, msg') \<Rightarrow> Some (err, msg', evs))
                else read_hdr garbage evs msg'
      else Some (MDV_OK, msg, evs))"
  by pat_completeness auto
termination
  by (relation "measure (\<lambda>(g, evs, msg). 8 - mm_available_size msg)") (auto dest!: sym [of _ "mdv_read _ _"] mdv_read_ok(1))

function read_payload :: "read_event list \<Rightarrow> mdv_msg \<Rightarrow> (mdv_errno \<times> mdv_msg \<times> read_event list) option" where
  "read_payload evs msg =
     (if mm_available_size msg - 8 < unat (mh_size (mm_hdr msg)) then
        case mdv_read evs (unat (mh_size (mm_hdr msg)) - (mm_available_size msg - 8)) of (err, len, bs, evs) \<Rightarrow>
          if err \<noteq> MDV_OK then Some (err, msg, evs)
          else
            case store_payload (mm_available_size msg - 8) bs msg of None \<Rightarrow> None
            | Some msg' \<Rightarrow> read_payload evs (msg'\<lparr>mm_available_size := mm_available_size msg + len\<rparr>)
      else Some (MDV_OK, msg, evs))"
  by pat_completeness auto
termination
  by (relation "measure (\<lambda>(evs, msg). 8 + unat (mh_size (mm_hdr msg)) - mm_available_size msg)")
     (auto simp: store_payload_def dest!: sym [of _ "mdv_read _ _"] mdv_read_ok(1) split: if_splits)

declare read_hdr.simps [simp del] read_payload.simps [simp del]

definition mdv_read_msg :: "(nat \<Rightarrow> bytes) option \<Rightarrow> read_event list \<Rightarrow> mdv_msg \<Rightarrow> (mdv_errno \<times> mdv_msg \<times> read_event list) option" where
  "mdv_read_msg garbage evs msg =
     (case read_hdr garbage evs msg of None \<Rightarrow> None
      | Some (err, msg, evs) \<Rightarrow> if err \<noteq> MDV_OK then Some (err, msg, evs) else read_payload evs msg)"

definition mdv_free_msg :: "mdv_msg \<Rightarrow> mdv_msg" where
  "mdv_free_msg msg = zero_msg"

section \<open>The bytes of a message\<close>

lemma length_hdr_bytes [simp]: "length (hdr_bytes h) = 8"
  by (simp add: hdr_bytes_def)

lemma hdr_of_hdr_bytes [simp]: "hdr_of_bytes (hdr_bytes h) = h"
proof -
  have "unat (mh_id h) < 65536" "unat (mh_number h) < 65536" "unat (mh_size h) < 4294967296"
    using unsigned_less [of "mh_id h"] unsigned_less [of "mh_number h"] unsigned_less [of "mh_size h"] by simp_all
  then show ?thesis by (simp add: hdr_of_bytes_def hdr_bytes_def slice_def le_val_le_bytes)
qed

lemma hdr_bytes_of [simp]:
  assumes "length bs = 8"
  shows "hdr_bytes (hdr_of_bytes bs) = bs"
proof -
  have "unat (word_of_nat (le_val (slice 0 2 bs)) :: u16) = le_val (slice 0 2 bs)"
    "unat (word_of_nat (le_val (slice 2 2 bs)) :: u16) = le_val (slice 2 2 bs)"
    "unat (word_of_nat (le_val (slice 4 4 bs)) :: u32) = le_val (slice 4 4 bs)"
    using le_val_bound [of "slice 0 2 bs"] le_val_bound [of "slice 2 2 bs"] le_val_bound [of "slice 4 4 bs"] assms
    by (simp_all add: length_slice unat_of_nat)
  moreover have "slice 0 2 bs @ slice 2 2 bs @ slice 4 4 bs = bs"
    using assms append_take_drop_id [of 2 bs] append_take_drop_id [of 2 "drop 2 bs"] by (simp add: slice_def)
  ultimately show ?thesis using assms by (simp add: hdr_bytes_def hdr_of_bytes_def le_bytes_le_val length_slice)
qed

lemma swap_bytes:
  assumes "x < 256 ^ n"
  shows "be_val (le_bytes n (be_val (le_bytes n x))) = x" "be_val (le_bytes n x) < 256 ^ n"
proof -
  have "le_bytes n (be_val (le_bytes n x)) = rev (le_bytes n x)" by (simp add: be_val_def le_bytes_le_val)
  then show "be_val (le_bytes n (be_val (le_bytes n x))) = x" using assms by (simp add: be_val_def le_val_le_bytes)
  show "be_val (le_bytes n x) < 256 ^ n" using le_val_bound [of "rev (le_bytes n x)"] by (simp add: be_val_def)
qed

lemma ntoh_hton [simp]: "mdv_ntoh16 (mdv_hton16 w) = w" "mdv_ntoh32 (mdv_hton32 v) = v"
proof -
  have "unat w < 256 ^ 2" "unat v < 256 ^ 4" using unsigned_less [of w] unsigned_less [of v] by simp_all
  from swap_bytes [OF this(1)] swap_bytes [OF this(2)] show "mdv_ntoh16 (mdv_hton16 w) = w" "mdv_ntoh32 (mdv_hton32 v) = v"
    by (simp_all add: mdv_ntoh16_def mdv_hton16_def mdv_ntoh32_def mdv_hton32_def unat_of_nat)
qed

definition net_hdr :: "mdv_msghdr \<Rightarrow> mdv_msghdr" where
  "net_hdr h = \<lparr>mh_id = mdv_hton16 (mh_id h), mh_number = mdv_hton16 (mh_number h), mh_size = mdv_hton32 (mh_size h)\<rparr>"

definition wire :: "mdv_msg \<Rightarrow> bytes" where
  "wire msg = hdr_bytes (net_hdr (mm_hdr msg)) @ mm_payload msg"

definition msg_fits :: "mdv_msg \<Rightarrow> bool" where
  "msg_fits msg \<longleftrightarrow> length (mm_payload msg) = unat (mh_size (mm_hdr msg)) \<and> length (mm_payload msg) \<le> MDV_MSG_SIZE_MAX"

section \<open>Writing returns\<close>

text \<open>Schedules with no error but a full buffer, and how many of their calls take bytes.\<close>

definition no_write_error :: "write_event list \<Rightarrow> bool" where
  "no_write_error evs \<longleftrightarrow> list_all (\<lambda>ev. case ev of Accept n \<Rightarrow> True | Write_errno e \<Rightarrow> e = EAGAIN) evs"

definition progress :: "write_event list \<Rightarrow> nat" where
  "progress evs = length (filter (\<lambda>ev. case ev of Accept n \<Rightarrow> 0 < n | Write_errno e \<Rightarrow> False) evs)"

lemma write_all_ok:
  "no_write_error evs \<Longrightarrow> length data \<le> progress evs \<Longrightarrow>
   \<exists>rest. mdv_write_all evs sent data = Some (MDV_OK, sent @ data, rest) \<and> no_write_error rest \<and>
     progress evs \<le> progress rest + length data"
proof (induction evs arbitrary: sent data)
  case (Cons ev evs)
  show ?case
  proof (cases ev)
    case (Accept n)
    have "progress (ev # evs) = (if 0 < n then 1 else 0) + progress evs" by (simp add: progress_def Accept)
    moreover have "no_write_error evs" using Cons.prems by (simp add: no_write_error_def)
    moreover have "length (drop (min n (length data)) data) \<le> progress evs" if "data \<noteq> []"
      using Cons.prems(2) that calculation(1) by (cases data) (auto simp: min_def split: if_splits)
    moreover have "take (min n (length data)) data @ drop (min n (length data)) data = data" by simp
    ultimately show ?thesis
      using Cons.IH [of "drop (min n (length data)) data" "sent @ take (min n (length data)) data"] Cons.prems(1) Accept
      by (cases data) (auto split: if_splits)
  next
    case (Write_errno e)
    then have "e = EAGAIN" "no_write_error evs" "progress (ev # evs) = progress evs"
      using Cons.prems by (simp_all add: no_write_error_def progress_def)
    then show ?thesis using Cons Write_errno by (auto simp: mdv_error_def)
  qed
qed (simp add: progress_def)

lemma write_msg_ok:
  assumes "msg_fits msg" "no_write_error evs" "length (wire msg) \<le> progress evs"
  shows "\<exists>rest. mdv_write_msg evs sent msg = Some (MDV_OK, sent @ wire msg, rest) \<and> no_write_error rest \<and>
    progress evs \<le> progress rest + length (wire msg)"
proof -
  let ?h = "hdr_bytes (net_hdr (mm_hdr msg))"
  obtain r1 where r1: "mdv_write_all evs sent ?h = Some (MDV_OK, sent @ ?h, r1)" "no_write_error r1" "progress evs \<le> progress r1 + 8"
    using write_all_ok [of evs ?h sent] assms by (auto simp: wire_def)
  obtain r2 where "mdv_write_all r1 (sent @ ?h) (mm_payload msg) = Some (MDV_OK, (sent @ ?h) @ mm_payload msg, r2)"
    "no_write_error r2" "progress r1 \<le> progress r2 + length (mm_payload msg)"
    using write_all_ok [of r1 "mm_payload msg" "sent @ ?h"] assms r1 by (auto simp: wire_def)
  then show ?thesis using assms(1) r1 by (simp add: mdv_write_msg_def Let_def msg_fits_def net_hdr_def wire_def)
qed

section \<open>Reading a message\<close>

text \<open>Schedules of arriving bytes with pauses, and the bytes that are still to be read.\<close>

definition arrivals :: "read_event list \<Rightarrow> bool" where
  "arrivals evs \<longleftrightarrow> list_all (\<lambda>ev. case ev of Chunk bs \<Rightarrow> bs \<noteq> [] | Read_errno e \<Rightarrow> e = EAGAIN) evs"

definition pending :: "read_event list \<Rightarrow> bytes" where
  "pending evs = concat (map (\<lambda>ev. case ev of Chunk bs \<Rightarrow> bs | Read_errno e \<Rightarrow> []) evs)"

lemma pending_simps [simp]:
  "pending [] = []" "pending (Chunk bs # evs) = bs @ pending evs" "pending (Read_errno e # evs) = pending evs"
  by (simp_all add: pending_def)

lemma arrivals_simps [simp]:
  "arrivals []" "arrivals (Chunk bs # evs) \<longleftrightarrow> bs \<noteq> [] \<and> arrivals evs" "arrivals (Read_errno e # evs) \<longleftrightarrow> e = EAGAIN \<and> arrivals evs"
  by (simp_all add: arrivals_def)

lemma read_arrivals:
  assumes "arrivals evs" "0 < len"
  obtains (data) n evs' where "mdv_read evs len = (MDV_OK, n, take n (pending evs), evs')" "0 < n" "n \<le> len" "n \<le> length (pending evs)"
      "pending evs' = drop n (pending evs)" "arrivals evs'" "length evs' \<le> length evs"
    | (pause) evs' where "mdv_read evs len = (MDV_EAGAIN, len, [], evs')" "pending evs' = pending evs" "arrivals evs'"
      "length evs' < length evs \<or> pending evs = []"
proof (cases evs)
  case Nil
  with assms show ?thesis by (intro pause [of "[]"]) (simp_all add: mdv_read_def mdv_error_def)
next
  case (Cons ev rest)
  show ?thesis
  proof (cases ev)
    case (Chunk bs)
    with Cons assms show ?thesis
      by (intro data [of "min len (length bs)" "if length bs \<le> len then rest else Chunk (drop len bs) # rest"])
         (auto simp: mdv_read_def min_def)
  next
    case (Read_errno e)
    with Cons assms show ?thesis by (intro pause [of rest]) (simp_all add: mdv_read_def mdv_error_def)
  qed
qed

text \<open>\<open>holds m k msg\<close>: the first \<open>k\<close> bytes of message \<open>m\<close> are in \<open>msg\<close>.\<close>

definition holds :: "mdv_msg \<Rightarrow> nat \<Rightarrow> mdv_msg \<Rightarrow> bool" where
  "holds m k msg \<longleftrightarrow> mm_available_size msg = k \<and>
     (if k < 8 then take k (hdr_bytes (mm_hdr msg)) = take k (wire m)
      else mm_hdr msg = mm_hdr m \<and> length (mm_payload msg) = length (mm_payload m) \<and>
        take (k - 8) (mm_payload msg) = take (k - 8) (mm_payload m) \<and> k \<le> length (wire m))"

lemma length_wire: "length (wire m) = 8 + length (mm_payload m)"
  by (simp add: wire_def)

lemma blit_extends:
  assumes "off + length bs \<le> length buf" "take off buf = take off w" "bs = take (length bs) (drop off w)"
  shows "take (off + length bs) (blit off bs buf) = take (off + length bs) w"
proof -
  have "length (take off w) = off" using assms(1) by (simp flip: assms(2))
  then show ?thesis using assms by (simp add: blit_def take_add)
qed

lemma finish_hdr_ok:
  assumes m: "msg_fits m" and g: "\<And>n. length (g n) = n" and h: "hdr_bytes (mm_hdr msg) = take 8 (wire m)" "mm_available_size msg = 8"
  shows "\<exists>msg'. finish_hdr (Some g) msg = (MDV_OK, msg') \<and> holds m 8 msg'"
proof -
  have "hdr_bytes (mm_hdr msg) = hdr_bytes (net_hdr (mm_hdr m))" using h by (simp add: wire_def)
  then have "mm_hdr msg = net_hdr (mm_hdr m)" by (metis hdr_of_hdr_bytes)
  then show ?thesis
    using m g h(2) by (auto simp: finish_hdr_def Let_def net_hdr_def holds_def msg_fits_def length_wire unat_eq_0)
qed

lemma store_hdr_holds:
  assumes "holds m k msg" "k < 8" "n \<le> 8 - k" "bs = take n (drop k (wire m))" "length bs = n"
  shows "\<exists>msg'. store_hdr k bs msg = Some msg' \<and> take (k + n) (hdr_bytes (mm_hdr msg')) = take (k + n) (wire m)"
proof -
  let ?b = "blit k bs (hdr_bytes (mm_hdr msg))"
  have "take (k + length bs) ?b = take (k + length bs) (wire m)"
    using assms by (intro blit_extends) (auto simp: holds_def)
  moreover have "length ?b = 8" using assms by (intro trans [OF length_blit]) auto
  ultimately show ?thesis using assms by (simp add: store_hdr_def)
qed

text \<open>
  How a loop that wants the first \<open>full\<close> bytes of \<open>m\<close> can end: with all of them, or with \<open>MDV_EAGAIN\<close> and fewer, and then
  an event of the schedule has been used up. Nothing that arrived is lost.
\<close>

definition outcome :: "mdv_msg \<Rightarrow> bytes \<Rightarrow> nat \<Rightarrow> nat \<Rightarrow> (mdv_errno \<times> mdv_msg \<times> read_event list) option \<Rightarrow> bool" where
  "outcome m later full n r \<longleftrightarrow> (\<exists>err k msg evs. r = Some (err, msg, evs) \<and> holds m k msg \<and> arrivals evs \<and>
     pending evs = drop k (wire m) @ later \<and>
     (err = MDV_OK \<and> k = full \<and> length evs \<le> n \<or> err = MDV_EAGAIN \<and> k < full \<and> length evs < n))"

lemma outcome_mono: "outcome m later full n r \<Longrightarrow> n \<le> n' \<Longrightarrow> outcome m later full n' r"
  unfolding outcome_def by fastforce

lemma outcomeI: "r = Some (err, msg, evs) \<Longrightarrow> holds m k msg \<Longrightarrow> arrivals evs \<Longrightarrow> pending evs = drop k (wire m) @ later \<Longrightarrow>
    err = MDV_OK \<and> k = full \<and> length evs \<le> n \<or> err = MDV_EAGAIN \<and> k < full \<and> length evs < n \<Longrightarrow> outcome m later full n r"
  unfolding outcome_def by blast

lemma read_hdr_ok:
  assumes "holds m k msg" "msg_fits m" "\<And>n. length (g n) = n" "arrivals evs" "pending evs = drop k (wire m) @ later" "k \<le> 8"
  shows "outcome m later 8 (length evs) (read_hdr (Some g) evs msg)"
  using assms
proof (induction "8 - k" arbitrary: k msg evs rule: less_induct)
  case less
  have av: "mm_available_size msg = k" using less.prems(1) by (simp add: holds_def)
  show ?case
  proof (cases "k < 8")
    case False
    then have "k = 8" "read_hdr (Some g) evs msg = Some (MDV_OK, msg, evs)" using less.prems(6) av by (auto simp: read_hdr.simps)
    then show ?thesis using less.prems by (intro outcomeI) auto
  next
    case True
    have ne: "pending evs \<noteq> []" using less.prems(5) True length_wire [of m] by auto
    have "0 < 8 - k" using True by simp
    with less.prems(4) show ?thesis
    proof (cases rule: read_arrivals)
      case (data n evs')
      let ?bs = "take n (pending evs)"
      have bs: "?bs = take n (drop k (wire m))" "length ?bs = n" using data less.prems(5) True length_wire [of m] by auto
      obtain msg' where s: "store_hdr k ?bs msg = Some msg'" "take (k + n) (hdr_bytes (mm_hdr msg')) = take (k + n) (wire m)"
        using store_hdr_holds [OF less.prems(1) True data(3) bs] by blast
      have p: "pending evs' = drop (k + n) (wire m) @ later" using data less.prems(5) True length_wire [of m] by (simp add: add.commute)
      let ?m = "msg'\<lparr>mm_available_size := k + n\<rparr>"
      show ?thesis
      proof (cases "k + n = 8")
        case True
        then obtain msg'' where f: "finish_hdr (Some g) ?m = (MDV_OK, msg'')" "holds m 8 msg''"
          using finish_hdr_ok [OF less.prems(2,3), of ?m] s(2) by auto
        then have "read_hdr (Some g) evs msg = Some (MDV_OK, msg'', evs')"
          using av \<open>k < 8\<close> data s True by (subst read_hdr.simps) (simp add: Let_def)
        then show ?thesis using f p data True by (intro outcomeI) auto
      next
        case False
        then have "k + n < 8" using data(3) \<open>k < 8\<close> by simp
        then have "holds m (k + n) ?m" using s by (simp add: holds_def)
        from less.hyps [OF _ this less.prems(2,3) data(6) p] have "outcome m later 8 (length evs') (read_hdr (Some g) evs' ?m)"
          using data(2,3) False by simp
        moreover have "read_hdr (Some g) evs msg = read_hdr (Some g) evs' ?m"
          using av \<open>k < 8\<close> data s False by (subst (1) read_hdr.simps) (simp add: Let_def)
        ultimately show ?thesis using data(7) by (simp add: outcome_mono)
      qed
    next
      case (pause evs')
      then have "read_hdr (Some g) evs msg = Some (MDV_EAGAIN, msg, evs')" using av True by (subst read_hdr.simps) simp
      then show ?thesis using pause less.prems(1,5) True ne by (intro outcomeI) auto
    qed
  qed
qed

lemma read_payload_ok:
  assumes "holds m k msg" "msg_fits m" "arrivals evs" "pending evs = drop k (wire m) @ later" "8 \<le> k"
  shows "outcome m later (length (wire m)) (length evs) (read_payload evs msg)"
  using assms
proof (induction "length (wire m) - k" arbitrary: k msg evs rule: less_induct)
  case less
  have av: "mm_available_size msg = k" "mm_hdr msg = mm_hdr m" "k \<le> length (wire m)"
    "length (mm_payload msg) = length (mm_payload m)" "take (k - 8) (mm_payload msg) = take (k - 8) (mm_payload m)"
    using less.prems(1,5) by (auto simp: holds_def)
  have sz: "unat (mh_size (mm_hdr m)) = length (mm_payload m)" using less.prems(2) by (simp add: msg_fits_def)
  show ?case
  proof (cases "k < length (wire m)")
    case False
    then have "k = length (wire m)" "read_payload evs msg = Some (MDV_OK, msg, evs)"
      using av sz length_wire [of m] by (auto simp: read_payload.simps)
    then show ?thesis using less.prems by (intro outcomeI) auto
  next
    case True
    have len: "length (mm_payload m) - (k - 8) = length (wire m) - k" using length_wire [of m] less.prems(5) by simp
    have lt: "k - 8 < length (mm_payload m)" using True length_wire [of m] less.prems(5) by simp
    have ne: "pending evs \<noteq> []" using less.prems(4) True by auto
    have "0 < length (wire m) - k" using True by simp
    with less.prems(3) show ?thesis
    proof (cases rule: read_arrivals)
      case (data n evs')
      let ?bs = "take n (pending evs)" and ?p = "blit (k - 8) (take n (pending evs)) (mm_payload msg)"
      have bs: "?bs = take n (drop (k - 8) (mm_payload m))" "length ?bs = n"
        using data(3) less.prems(4,5) True by (auto simp: wire_def)
      have fit: "k - 8 + n \<le> length (mm_payload msg)" using data(3) True len av(4) length_wire [of m] less.prems(5) by simp
      have "take (k - 8 + length ?bs) ?p = take (k - 8 + length ?bs) (mm_payload m)"
        using fit av(4,5) bs by (intro blit_extends) auto
      then have tk: "take (k + n - 8) ?p = take (k + n - 8) (mm_payload m)" "length ?p = length (mm_payload m)"
        using bs(2) less.prems(5) fit av(4) length_blit [of "k - 8" ?bs "mm_payload msg"] by simp_all
      let ?m = "msg\<lparr>mm_payload := ?p, mm_available_size := k + n\<rparr>"
      have h: "holds m (k + n) ?m" using tk av data(3) less.prems(5) True by (simp add: holds_def)
      have p: "pending evs' = drop (k + n) (wire m) @ later" using data less.prems(4) True by (simp add: add.commute)
      have "outcome m later (length (wire m)) (length evs') (read_payload evs' ?m)"
        using less.hyps [OF _ h less.prems(2) data(6) p] data(2) True less.prems(5) by simp
      moreover have "read_payload evs msg = read_payload evs' ?m"
        using av(1,2) sz True len less.prems(5) lt data(1) fit bs(2) by (subst (1) read_payload.simps) (simp add: store_payload_def)
      ultimately show ?thesis using data(7) by (simp add: outcome_mono)
    next
      case (pause evs')
      then have "read_payload evs msg = Some (MDV_EAGAIN, msg, evs')"
        using av sz True len length_wire [of m] less.prems(5) by (subst read_payload.simps) simp
      then show ?thesis using pause less.prems(1,4) True ne by (intro outcomeI) auto
    qed
  qed
qed

lemma read_msg_ok:
  assumes "holds m k msg" "msg_fits m" "\<And>n. length (g n) = n" "arrivals evs" "pending evs = drop k (wire m) @ later"
  shows "outcome m later (length (wire m)) (length evs) (mdv_read_msg (Some g) evs msg)"
proof (cases "k < 8")
  case True
  then have "outcome m later 8 (length evs) (read_hdr (Some g) evs msg)" using assms by (intro read_hdr_ok) auto
  then obtain err k' msg' evs' where r: "read_hdr (Some g) evs msg = Some (err, msg', evs')" "holds m k' msg'" "arrivals evs'"
    "pending evs' = drop k' (wire m) @ later"
    "err = MDV_OK \<and> k' = 8 \<and> length evs' \<le> length evs \<or> err = MDV_EAGAIN \<and> k' < 8 \<and> length evs' < length evs"
    unfolding outcome_def by blast
  show ?thesis
  proof (cases "err = MDV_OK")
    case True
    then have "outcome m later (length (wire m)) (length evs') (read_payload evs' msg')" using r assms(2) by (intro read_payload_ok) auto
    then show ?thesis using r True by (auto simp: mdv_read_msg_def intro: outcome_mono)
  next
    case False
    then show ?thesis using r length_wire [of m] by (intro outcomeI [OF _ r(2)]) (auto simp: mdv_read_msg_def)
  qed
next
  case False
  then have "read_hdr (Some g) evs msg = Some (MDV_OK, msg, evs)" using assms(1) by (simp add: read_hdr.simps holds_def)
  then show ?thesis using read_payload_ok [OF assms(1,2,4,5)] False by (simp add: mdv_read_msg_def)
qed

text \<open>A receiver: \<open>n\<close> calls of \<open>mdv_read_msg\<close>, each complete message is taken and the buffer released.\<close>

fun receive :: "nat \<Rightarrow> (nat \<Rightarrow> bytes) \<Rightarrow> read_event list \<Rightarrow> mdv_msg \<Rightarrow> (mdv_msghdr \<times> bytes) list" where
  "receive 0 g evs msg = []"
| "receive (Suc n) g evs msg =
     (case mdv_read_msg (Some g) evs msg of None \<Rightarrow> []
      | Some (err, msg, evs) \<Rightarrow>
          if err = MDV_OK then (mm_hdr msg, mm_payload msg) # receive n g evs (mdv_free_msg msg) else receive n g evs msg)"

fun send_all :: "write_event list \<Rightarrow> bytes \<Rightarrow> mdv_msg list \<Rightarrow> (mdv_errno \<times> bytes \<times> write_event list) option" where
  "send_all evs sent [] = Some (MDV_OK, sent, evs)"
| "send_all evs sent (m # ms) =
     (case mdv_write_msg evs sent m of None \<Rightarrow> None
      | Some (err, sent, evs) \<Rightarrow> if err = MDV_OK then send_all evs sent ms else Some (err, sent, evs))"

lemma read_nothing:
  assumes "arrivals evs" "pending evs = []"
  shows "\<exists>evs'. mdv_read_msg (Some g) evs zero_msg = Some (MDV_EAGAIN, zero_msg, evs') \<and> arrivals evs' \<and> pending evs' = []"
proof -
  obtain evs' where "mdv_read evs 8 = (MDV_EAGAIN, 8, [], evs')" "arrivals evs'" "pending evs' = []"
    using assms(1) by (cases rule: read_arrivals [of _ 8]) (use assms(2) in auto)
  then show ?thesis by (simp add: mdv_read_msg_def read_hdr.simps zero_msg_def)
qed

lemma receive_nothing: "arrivals evs \<Longrightarrow> pending evs = [] \<Longrightarrow> receive n g evs zero_msg = []"
proof (induction n arbitrary: evs)
  case (Suc n)
  then show ?case using read_nothing [of evs g] by auto
qed simp

lemma holds_zero: "holds m 0 zero_msg"
  by (simp add: holds_def zero_msg_def)

lemma receive_all:
  assumes g: "\<And>n. length (g n) = n"
  shows "holds m k msg \<Longrightarrow> msg_fits m \<Longrightarrow> list_all msg_fits ms \<Longrightarrow> arrivals evs \<Longrightarrow>
    pending evs = drop k (wire m) @ concat (map wire ms) \<Longrightarrow> length evs + Suc (length ms) \<le> n \<Longrightarrow>
    receive n g evs msg = map (\<lambda>m. (mm_hdr m, mm_payload m)) (m # ms)"
proof (induction n arbitrary: m k msg ms evs)
  case (Suc n)
  let ?out = "\<lambda>m. (mm_hdr m, mm_payload m)"
  from read_msg_ok [OF Suc.prems(1,2) g Suc.prems(4,5)] obtain err k' msg' evs' where
    r: "mdv_read_msg (Some g) evs msg = Some (err, msg', evs')" "holds m k' msg'" "arrivals evs'"
    "pending evs' = drop k' (wire m) @ concat (map wire ms)"
    "err = MDV_OK \<and> k' = length (wire m) \<and> length evs' \<le> length evs \<or> err = MDV_EAGAIN \<and> k' < length (wire m) \<and> length evs' < length evs"
    unfolding outcome_def by blast
  show ?case
  proof (cases "err = MDV_OK")
    case True
    then have d: "?out msg' = ?out m" using r(2,5) length_wire [of m] by (auto simp: holds_def)
    have "receive n g evs' zero_msg = map ?out ms"
    proof (cases ms)
      case Nil
      then show ?thesis using receive_nothing r(3,4,5) True by simp
    next
      case (Cons m' ms')
      then show ?thesis using Suc.IH [of m' 0 zero_msg ms' evs'] holds_zero Suc.prems(3,6) r(3,4,5) True by simp
    qed
    then show ?thesis using r(1) True d by (simp add: mdv_free_msg_def)
  next
    case False
    then show ?thesis using Suc.IH [OF r(2) Suc.prems(2,3) r(3,4)] r(1,5) Suc.prems(6) by simp
  qed
qed simp

lemma send_all_ok:
  "list_all msg_fits ms \<Longrightarrow> no_write_error evs \<Longrightarrow> length (concat (map wire ms)) \<le> progress evs \<Longrightarrow>
   \<exists>rest. send_all evs sent ms = Some (MDV_OK, sent @ concat (map wire ms), rest)"
proof (induction ms arbitrary: evs sent)
  case (Cons m ms)
  obtain r where r: "mdv_write_msg evs sent m = Some (MDV_OK, sent @ wire m, r)" "no_write_error r" "progress evs \<le> progress r + length (wire m)"
    using write_msg_ok [of m evs sent] Cons.prems by auto
  then have "length (concat (map wire ms)) \<le> progress r" using Cons.prems(3) by simp
  from Cons.IH [OF _ r(2) this, of "sent @ wire m"] show ?case using Cons.prems(1) r(1) by auto
qed simp

section \<open>Whatever arrives stays inside the buffers\<close>

definition msg_ok :: "mdv_msg \<Rightarrow> bool" where
  "msg_ok msg \<longleftrightarrow> (if mm_available_size msg < 8 then mm_payload msg = []
     else length (mm_payload msg) = unat (mh_size (mm_hdr msg)) \<and> length (mm_payload msg) \<le> MDV_MSG_SIZE_MAX \<and>
       mm_available_size msg \<le> 8 + length (mm_payload msg))"

definition fresh_buffers :: "(nat \<Rightarrow> bytes) option \<Rightarrow> bool" where
  "fresh_buffers garbage \<longleftrightarrow> (\<forall>g. garbage = Some g \<longrightarrow> (\<forall>n. length (g n) = n))"

lemma zero_msg_ok: "msg_ok zero_msg"
  by (simp add: msg_ok_def zero_msg_def)

lemma finish_hdr_safe:
  assumes "finish_hdr garbage msg = (err, msg')" "fresh_buffers garbage" "mm_available_size msg = 8"
  shows "msg_ok msg' \<and> (err = MDV_OK \<longrightarrow> 8 \<le> mm_available_size msg')"
  using assms zero_msg_ok
  by (auto simp: finish_hdr_def Let_def msg_ok_def fresh_buffers_def unat_eq_0 split: if_splits option.splits)

lemma read_hdr_safe:
  assumes "msg_ok msg" "fresh_buffers garbage"
  shows "\<exists>err msg' evs'. read_hdr garbage evs msg = Some (err, msg', evs') \<and> msg_ok msg' \<and> (err = MDV_OK \<longrightarrow> 8 \<le> mm_available_size msg')"
  using assms
proof (induction garbage evs msg rule: read_hdr.induct)
  case (1 garbage evs msg)
  show ?case
  proof (cases "mm_available_size msg < 8")
    case False
    then show ?thesis using "1.prems" by (simp add: read_hdr.simps)
  next
    case True
    obtain err len bs evs' where r: "mdv_read evs (8 - mm_available_size msg) = (err, len, bs, evs')" by (metis prod_cases4)
    show ?thesis
    proof (cases "err = MDV_OK")
      case False
      then show ?thesis using True r "1.prems" by (subst read_hdr.simps) simp
    next
      case ok: True
      have b: "0 < len" "len \<le> 8 - mm_available_size msg" "length bs \<le> len" using mdv_read_ok r ok True by auto
      obtain msg' where s: "store_hdr (mm_available_size msg) bs msg = Some msg'" "mm_payload msg' = []"
      proof -
        have "mm_available_size msg + length bs \<le> 8" "mm_payload msg = []" using b True "1.prems"(1) by (simp_all add: msg_ok_def)
        then show ?thesis using that by (simp add: store_hdr_def)
      qed
      let ?m = "msg'\<lparr>mm_available_size := mm_available_size msg + len\<rparr>"
      show ?thesis
      proof (cases "mm_available_size ?m = 8")
        case full: True
        obtain e m where f: "finish_hdr garbage ?m = (e, m)" by fastforce
        then show ?thesis using finish_hdr_safe [OF f "1.prems"(2) full] True r ok s full by (subst read_hdr.simps) (simp add: Let_def)
      next
        case False
        then have "msg_ok ?m" using b s True by (simp add: msg_ok_def)
        from "1.IH" [OF True r [symmetric] refl refl _ s(1) refl _ this "1.prems"(2)] ok False
        show ?thesis using True r ok s False by (subst read_hdr.simps) (simp add: Let_def)
      qed
    qed
  qed
qed

lemma read_payload_safe:
  assumes "msg_ok msg" "8 \<le> mm_available_size msg"
  shows "\<exists>err msg' evs'. read_payload evs msg = Some (err, msg', evs') \<and> msg_ok msg' \<and>
    (err = MDV_OK \<longrightarrow> mm_available_size msg' = 8 + unat (mh_size (mm_hdr msg')))"
  using assms
proof (induction evs msg rule: read_payload.induct)
  case (1 evs msg)
  let ?a = "mm_available_size msg - 8" and ?n = "unat (mh_size (mm_hdr msg))"
  show ?case
  proof (cases "?a < ?n")
    case False
    then show ?thesis using "1.prems" by (auto simp: read_payload.simps msg_ok_def)
  next
    case True
    obtain err len bs evs' where r: "mdv_read evs (?n - ?a) = (err, len, bs, evs')" by (metis prod_cases4)
    show ?thesis
    proof (cases "err = MDV_OK")
      case False
      then show ?thesis using True r "1.prems" by (subst read_payload.simps) simp
    next
      case ok: True
      have b: "len \<le> ?n - ?a" "length bs \<le> len" using mdv_read_ok [of evs "?n - ?a" len bs evs'] r ok True by auto
      let ?m = "msg\<lparr>mm_payload := blit ?a bs (mm_payload msg)\<rparr>"
      have pl: "length (mm_payload msg) = ?n" "?n \<le> MDV_MSG_SIZE_MAX" using "1.prems" by (auto simp: msg_ok_def)
      then have s: "store_payload ?a bs msg = Some ?m" "length (mm_payload ?m) = ?n"
        using b True length_blit [of ?a bs "mm_payload msg"] by (simp_all add: store_payload_def)
      have "msg_ok (?m\<lparr>mm_available_size := mm_available_size msg + len\<rparr>)" "8 \<le> mm_available_size msg + len"
        using b True "1.prems"(2) s(2) pl by (simp_all add: msg_ok_def)
      with "1.IH" [OF True r [symmetric] refl refl _ s(1)] ok show ?thesis
        using True r s(1) by (subst read_payload.simps) simp
    qed
  qed
qed

section \<open>Properties\<close>

text \<open>
  C4. Messages sent over a connection arrive. When no call fails, every list of messages within the size limit is
  written completely however the writes are cut, provided the descriptor takes bytes often enough; and however the
  bytes of the stream then arrive, in any pieces and with any pauses, the receiver gets exactly these messages, in this
  order, after at most as many calls as there are arrivals, pauses and messages.
\<close>
theorem msg_stream_roundtrip:
  assumes "list_all msg_fits ms" "no_write_error wevs" "length (concat (map wire ms)) \<le> progress wevs" "\<And>n. length (g n) = n"
  shows "\<exists>sent rest. send_all wevs [] ms = Some (MDV_OK, sent, rest) \<and>
    (\<forall>evs n. arrivals evs \<and> pending evs = sent \<and> length evs + length ms \<le> n \<longrightarrow>
       receive n g evs zero_msg = map (\<lambda>m. (mm_hdr m, mm_payload m)) ms)"
proof -
  obtain rest where s: "send_all wevs [] ms = Some (MDV_OK, [] @ concat (map wire ms), rest)"
    using send_all_ok [OF assms(1-3)] by blast
  have "receive n g evs zero_msg = map (\<lambda>m. (mm_hdr m, mm_payload m)) ms"
    if "arrivals evs" "pending evs = concat (map wire ms)" "length evs + length ms \<le> n" for evs n
    using that receive_nothing receive_all [OF assms(4) holds_zero] assms(1) by (cases ms) auto
  with s show ?thesis by auto
qed

definition ping :: mdv_msg where
  "ping = \<lparr>mm_hdr = \<lparr>mh_id = 1, mh_number = 7, mh_size = 2\<rparr>, mm_available_size = 0, mm_payload = [104, 105]\<rparr>"

theorem msg_stream_roundtrip_witness:
  "\<exists>sent rest. send_all (Write_errno EAGAIN # replicate 12 (Accept 3)) [] [ping] = Some (MDV_OK, sent, rest) \<and>
     (\<forall>evs. arrivals evs \<and> pending evs = sent \<and> length evs \<le> 3 \<longrightarrow>
        receive 4 (\<lambda>n. replicate n 0) evs zero_msg = [(\<lparr>mh_id = 1, mh_number = 7, mh_size = 2\<rparr>, [104, 105])])"
proof -
  have "list_all msg_fits [ping]" "no_write_error (Write_errno EAGAIN # replicate 12 (Accept 3))"
    "length (concat (map wire [ping])) \<le> progress (Write_errno EAGAIN # replicate 12 (Accept 3))"
    by (simp_all add: msg_fits_def ping_def MDV_MSG_SIZE_MAX_def no_write_error_def progress_def length_wire list_all_iff)
  from msg_stream_roundtrip [OF this, of "\<lambda>n. replicate n 0"] obtain sent rest where
    "send_all (Write_errno EAGAIN # replicate 12 (Accept 3)) [] [ping] = Some (MDV_OK, sent, rest)"
    "\<And>evs n. arrivals evs \<and> pending evs = sent \<and> length evs + 1 \<le> n \<Longrightarrow>
       receive n (\<lambda>n. replicate n 0) evs zero_msg = [(mm_hdr ping, mm_payload ping)]" by auto
  then show ?thesis by (simp add: ping_def)
qed



text \<open>
  \<open>mdv_error\<close> hands unknown error numbers through, and \<open>EPERM\<close> has the number of \<open>MDV_OK\<close>: when a write fails with
  \<open>EPERM\<close>, \<open>mdv_write_all\<close> reports success for any data, and nothing has been sent.
\<close>
theorem write_eperm_reports_ok:
  "mdv_error EPERM = MDV_OK \<and> mdv_write_all (Write_errno EPERM # evs) sent (x # xs) = Some (MDV_OK, sent, evs)"
proof -
  have "mdv_write_all evs sent [] = Some (MDV_OK, sent, evs)" by (cases evs) simp_all
  then show ?thesis by (simp add: mdv_error_def)
qed

end
