(* ===== verification/Mdv_Dispatcher.thy ===== *)
theory Mdv_Dispatcher
  imports Mdv_Msg
begin

text \<open>
  The message dispatcher of src/mdv_net/mdv_dispatcher.c: requests that wait for a response with their number, and handlers
  for all other messages. The hash maps of handlers and requests are maps; the stack of free condition variables is
  a list of their indices with the top at the end. Mutexes lock.

  \<open>mdv_dispatcher_send\<close> runs concurrently in several clients and with the thread that calls \<open>mdv_dispatcher_read\<close>. Its
  sections between two locks are the functions \<open>send_*\<close>; the relation \<open>disp_step\<close> interleaves them. The response buffer of
  a client is its number in \<open>ds_resp\<close>.
\<close>

section \<open>The code\<close>

definition MDV_DISP_REQS :: nat where
  "MDV_DISP_REQS = 4"

record mdv_request =
  rq_cv :: nat
  rq_resp :: nat
  rq_request_id :: u16
  rq_ready :: bool

text \<open>\<open>pd_fd\<close> tells whether the descriptor is valid. A handler is the number of its function.\<close>

record mdv_dispatcher =
  pd_fd :: bool
  pd_message :: mdv_msg
  pd_handlers :: "u16 \<Rightarrow> nat option"
  pd_requests :: "u16 \<Rightarrow> mdv_request option"
  pd_cvs :: "nat list"
  pd_id :: u16

text \<open>The outcomes of the nine allocations: the dispatcher, two mutexes, two maps and four condition variables.\<close>

definition mdv_dispatcher_create :: "(nat \<Rightarrow> bool) \<Rightarrow> bool \<Rightarrow> mdv_dispatcher option" where
  "mdv_dispatcher_create mem fd =
     (if list_all mem [0..<5 + MDV_DISP_REQS]
      then Some \<lparr>pd_fd = fd, pd_message = zero_msg, pd_handlers = Map.empty, pd_requests = Map.empty,
                 pd_cvs = [0..<MDV_DISP_REQS], pd_id = 0\<rparr>
      else None)"

definition mdv_dispatcher_reg :: "bool \<Rightarrow> bool \<Rightarrow> mdv_dispatcher \<Rightarrow> u16 \<Rightarrow> nat \<Rightarrow> mdv_errno \<times> mdv_dispatcher" where
  "mdv_dispatcher_reg resized alloc pd msg_id fn =
     (if \<not> resized then (MDV_NO_MEM, pd)
      else if alloc then (MDV_OK, pd\<lparr>pd_handlers := (pd_handlers pd)(msg_id \<mapsto> fn)\<rparr>)
      else (MDV_NO_MEM, pd\<lparr>pd_handlers := (pd_handlers pd)(msg_id := None)\<rparr>))"

definition mdv_dispatcher_set_fd :: "mdv_dispatcher \<Rightarrow> bool \<Rightarrow> mdv_dispatcher" where
  "mdv_dispatcher_set_fd pd fd = pd\<lparr>pd_fd := fd\<rparr>"

text \<open>\<open>atomic_fetch_add\<close> on the generator of message numbers.\<close>

definition next_number :: "mdv_dispatcher \<Rightarrow> u16 \<times> mdv_dispatcher" where
  "next_number pd = (pd_id pd, pd\<lparr>pd_id := pd_id pd + 1\<rparr>)"

definition push_cv :: "nat list \<Rightarrow> nat \<Rightarrow> nat list" where
  "push_cv cvs cv = (if length cvs < MDV_DISP_REQS then cvs @ [cv] else cvs)"

text \<open>Registration of a request. With no free condition variable \<open>mdv_stack_pop\<close> returns null, and \<open>*pcv\<close> is undefined.\<close>

definition send_register :: "bool \<Rightarrow> mdv_dispatcher \<Rightarrow> nat \<Rightarrow> u16 \<Rightarrow> (mdv_errno \<times> mdv_dispatcher) option" where
  "send_register alloc pd resp number =
     (if pd_cvs pd = [] then None
      else
        let cv = last (pd_cvs pd); pd = pd\<lparr>pd_cvs := butlast (pd_cvs pd)\<rparr> in
        if alloc
        then Some (MDV_OK, pd\<lparr>pd_requests := (pd_requests pd)(number \<mapsto>
               \<lparr>rq_cv = cv, rq_resp = resp, rq_request_id = number, rq_ready = False\<rparr>)\<rparr>)
        else Some (MDV_NO_MEM, pd\<lparr>pd_cvs := push_cv (pd_cvs pd) cv, pd_requests := (pd_requests pd)(number := None)\<rparr>))"

text \<open>The end of a request: its condition variable is free again. A missing entry is a dangling pointer.\<close>

definition send_unregister :: "mdv_dispatcher \<Rightarrow> u16 \<Rightarrow> mdv_dispatcher option" where
  "send_unregister pd number =
     (case pd_requests pd number of None \<Rightarrow> None
      | Some entry \<Rightarrow> Some (pd\<lparr>pd_cvs := push_cv (pd_cvs pd) (rq_cv entry), pd_requests := (pd_requests pd)(number := None)\<rparr>))"

text \<open>After \<open>mdv_condvar_timedwait\<close> returned \<open>err\<close>: \<open>Inl\<close> leaves the loop, \<open>Inr\<close> goes on.\<close>

definition send_woken :: "mdv_dispatcher \<Rightarrow> mdv_errno \<Rightarrow> mdv_errno + mdv_errno" where
  "send_woken pd err =
     (if \<not> pd_fd pd then Inl MDV_CLOSED
      else if err = MDV_ETIMEDOUT then Inl MDV_ETIMEDOUT
      else Inr err)"

definition send_finish :: "mdv_dispatcher \<Rightarrow> u16 \<Rightarrow> mdv_errno \<Rightarrow> (mdv_errno \<times> mdv_dispatcher) option" where
  "send_finish pd number err =
     (case pd_requests pd number of None \<Rightarrow> None
      | Some entry \<Rightarrow>
          let err = (if rq_ready entry \<and> err = MDV_OK then MDV_OK else if err = MDV_OK then MDV_ETIMEDOUT else err) in
          map_option (Pair err) (send_unregister pd number))"

definition mdv_dispatcher_reply :: "write_event list \<Rightarrow> bytes \<Rightarrow> mdv_msg \<Rightarrow> (mdv_errno \<times> bytes \<times> write_event list) option" where
  "mdv_dispatcher_reply evs sent msg = mdv_write_msg evs sent msg"

definition mdv_dispatcher_post ::
  "write_event list \<Rightarrow> bytes \<Rightarrow> mdv_dispatcher \<Rightarrow> mdv_msg \<Rightarrow> mdv_dispatcher \<times> (mdv_errno \<times> bytes \<times> write_event list) option" where
  "mdv_dispatcher_post evs sent pd msg =
     (case next_number pd of (number, pd) \<Rightarrow>
        (pd, mdv_dispatcher_reply evs sent (msg\<lparr>mm_hdr := (mm_hdr msg)\<lparr>mh_number := number\<rparr>\<rparr>)))"

definition mdv_dispatcher_write_raw :: "write_event list \<Rightarrow> bytes \<Rightarrow> bytes \<Rightarrow> (mdv_errno \<times> bytes \<times> write_event list) option" where
  "mdv_dispatcher_write_raw evs sent data = mdv_write_all evs sent data"

text \<open>
  The reader: a message whose number is that of a waiting request is the response, any other one goes to its handler.
  \<open>fns\<close> are the functions of the handlers, \<open>resps\<close> the response buffers of the clients, \<open>signalled\<close> the outcome of
  \<open>mdv_condvar_signal\<close>.
\<close>

definition mdv_dispatcher_read ::
  "(nat \<Rightarrow> bytes) option \<Rightarrow> bool \<Rightarrow> (nat \<Rightarrow> mdv_msg \<Rightarrow> mdv_errno) \<Rightarrow> read_event list \<Rightarrow> mdv_dispatcher \<Rightarrow> (nat \<Rightarrow> mdv_msg) \<Rightarrow>
    (mdv_errno \<times> mdv_dispatcher \<times> (nat \<Rightarrow> mdv_msg) \<times> read_event list) option" where
  "mdv_dispatcher_read garbage signalled fns evs pd resps =
     (case mdv_read_msg garbage evs (pd_message pd) of None \<Rightarrow> None
      | Some (err, message, evs) \<Rightarrow>
          let pd = pd\<lparr>pd_message := message\<rparr>; number = mh_number (mm_hdr message) in
          if err \<noteq> MDV_OK then Some (err, pd, resps, evs)
          else
            case pd_requests pd number of
              Some req \<Rightarrow>
                let resps = resps(rq_resp req := message);
                    pd = pd\<lparr>pd_requests := (pd_requests pd)(number \<mapsto> req\<lparr>rq_ready := True\<rparr>), pd_message := zero_msg\<rparr> in
                if signalled then Some (MDV_OK, pd, resps, evs)
                else Some (MDV_OK, pd\<lparr>pd_cvs := push_cv (pd_cvs pd) (rq_cv req), pd_requests := (pd_requests pd)(number := None)\<rparr>,
                           resps(rq_resp req := mdv_free_msg message), evs)
            | None \<Rightarrow>
                let err = (case pd_handlers pd (mh_id (mm_hdr message)) of Some fn \<Rightarrow> fns fn message | None \<Rightarrow> MDV_NO_IMPL) in
                Some (err, pd\<lparr>pd_message := mdv_free_msg message\<rparr>, resps, evs))"

section \<open>Interleaved clients\<close>

text \<open>Where a client is in \<open>mdv_dispatcher_send\<close>; the number is that of its request, the error the local \<open>err\<close>.\<close>

datatype send_pc =
    Idle
  | Numbered u16
  | Registered u16
  | Aborting u16 mdv_errno
  | Waiting u16 mdv_errno
  | Sleeping u16
  | Finishing u16 mdv_errno
  | Returned u16 mdv_errno
  | Undefined

record disp_sys =
  ds_pd :: mdv_dispatcher
  ds_pc :: "nat \<Rightarrow> send_pc"
  ds_resp :: "nat \<Rightarrow> mdv_msg"

inductive disp_step :: "disp_sys \<Rightarrow> disp_sys \<Rightarrow> bool" where
  take_number: "ds_pc s t \<in> {Idle, Returned m e} \<Longrightarrow> next_number (ds_pd s) = (n, pd) \<Longrightarrow>
    disp_step s (s\<lparr>ds_pd := pd, ds_pc := (ds_pc s)(t := Numbered n)\<rparr>)"
| register: "ds_pc s t = Numbered n \<Longrightarrow> send_register alloc (ds_pd s) t n = Some (err, pd) \<Longrightarrow>
    disp_step s (s\<lparr>ds_pd := pd, ds_pc := (ds_pc s)(t := if err = MDV_OK then Registered n else Returned n err)\<rparr>)"
| no_condvar: "ds_pc s t = Numbered n \<Longrightarrow> send_register alloc (ds_pd s) t n = None \<Longrightarrow>
    disp_step s (s\<lparr>ds_pc := (ds_pc s)(t := Undefined)\<rparr>)"
| write_request: "ds_pc s t = Registered n \<Longrightarrow> mdv_write_msg evs sent req = Some (err, sent', evs') \<Longrightarrow>
    disp_step s (s\<lparr>ds_pc := (ds_pc s)(t := if err = MDV_OK then Waiting n MDV_OK else Aborting n err)\<rparr>)"
| abort_request: "ds_pc s t = Aborting n err \<Longrightarrow> send_unregister (ds_pd s) n = Some pd \<Longrightarrow>
    disp_step s (s\<lparr>ds_pd := pd, ds_pc := (ds_pc s)(t := Returned n err)\<rparr>)"
| check_ready: "ds_pc s t = Waiting n err \<Longrightarrow> pd_requests (ds_pd s) n = Some entry \<Longrightarrow>
    disp_step s (s\<lparr>ds_pc := (ds_pc s)(t := if rq_ready entry then Finishing n err else Sleeping n)\<rparr>)"
| woken: "ds_pc s t = Sleeping n \<Longrightarrow>
    disp_step s (s\<lparr>ds_pc := (ds_pc s)(t := case send_woken (ds_pd s) err of Inl e \<Rightarrow> Finishing n e | Inr e \<Rightarrow> Waiting n e)\<rparr>)"
| finish_request: "ds_pc s t = Finishing n err \<Longrightarrow> send_finish (ds_pd s) n err = Some (err', pd) \<Longrightarrow>
    disp_step s (s\<lparr>ds_pd := pd, ds_pc := (ds_pc s)(t := Returned n err')\<rparr>)"
| entry_gone: "ds_pc s t \<in> {Aborting n err, Waiting n err, Sleeping n, Finishing n err} \<Longrightarrow> pd_requests (ds_pd s) n = None \<Longrightarrow>
    disp_step s (s\<lparr>ds_pc := (ds_pc s)(t := Undefined)\<rparr>)"
| post: "mdv_dispatcher_post evs sent (ds_pd s) msg = (pd, r) \<Longrightarrow> disp_step s (s\<lparr>ds_pd := pd\<rparr>)"
| set_fd: "disp_step s (s\<lparr>ds_pd := mdv_dispatcher_set_fd (ds_pd s) fd\<rparr>)"
| reg: "mdv_dispatcher_reg resized alloc (ds_pd s) msg_id fn = (err, pd) \<Longrightarrow> disp_step s (s\<lparr>ds_pd := pd\<rparr>)"
| read_message: "mdv_dispatcher_read garbage True fns evs (ds_pd s) (ds_resp s) = Some (err, pd, resps, evs') \<Longrightarrow>
    disp_step s (s\<lparr>ds_pd := pd, ds_resp := resps\<rparr>)"

section \<open>Invariant\<close>

text \<open>The numbers of the requests that clients hold, before and after their registration.\<close>

fun pc_entry :: "send_pc \<Rightarrow> u16 option" where
  "pc_entry (Registered n) = Some n"
| "pc_entry (Aborting n e) = Some n"
| "pc_entry (Waiting n e) = Some n"
| "pc_entry (Sleeping n) = Some n"
| "pc_entry (Finishing n e) = Some n"
| "pc_entry pc = None"

fun pc_number :: "send_pc \<Rightarrow> u16 option" where
  "pc_number (Numbered n) = Some n"
| "pc_number pc = pc_entry pc"

text \<open>
  Numbers are sixteen bits wide. A run in which no number comes round again while an older request still has it; that
  takes 65536 further messages.
\<close>

definition distinct_numbers :: "disp_sys \<Rightarrow> bool" where
  "distinct_numbers s \<longleftrightarrow> (\<forall>t u n. pc_number (ds_pc s t) = Some n \<and> pc_number (ds_pc s u) = Some n \<longrightarrow> t = u)"

definition disp_init :: "(nat \<Rightarrow> mdv_msg) \<Rightarrow> mdv_dispatcher \<Rightarrow> disp_sys" where
  "disp_init resps pd = \<lparr>ds_pd = pd, ds_pc = (\<lambda>_. Idle), ds_resp = resps\<rparr>"

inductive disp_reachable :: "disp_sys \<Rightarrow> bool" where
  init: "mdv_dispatcher_create mem fd = Some pd \<Longrightarrow> disp_reachable (disp_init resps pd)"
| step: "disp_reachable s \<Longrightarrow> disp_step s s' \<Longrightarrow> distinct_numbers s' \<Longrightarrow> disp_reachable s'"

text \<open>Every condition variable is either free or belongs to exactly one request.\<close>

definition pool_ok :: "nat list \<Rightarrow> (u16 \<Rightarrow> mdv_request option) \<Rightarrow> bool" where
  "pool_ok cvs reqs \<longleftrightarrow> distinct cvs \<and> inj_on (\<lambda>n. rq_cv (the (reqs n))) (dom reqs) \<and>
     set cvs \<inter> (\<lambda>n. rq_cv (the (reqs n))) ` dom reqs = {} \<and> set cvs \<union> (\<lambda>n. rq_cv (the (reqs n))) ` dom reqs = {..<MDV_DISP_REQS}"

lemma pool_init: "pool_ok [0..<MDV_DISP_REQS] Map.empty"
  by (auto simp: pool_ok_def)

lemma pool_card: "pool_ok cvs reqs \<Longrightarrow> length cvs + card (dom reqs) = MDV_DISP_REQS"
proof -
  assume p: "pool_ok cvs reqs"
  have "card (set cvs \<union> (\<lambda>n. rq_cv (the (reqs n))) ` dom reqs) = card (set cvs) + card ((\<lambda>n. rq_cv (the (reqs n))) ` dom reqs)"
    using p by (intro card_Un_disjoint) (auto simp: pool_ok_def)
  then show ?thesis using p by (auto simp: pool_ok_def card_image distinct_card)
qed

lemma pool_take:
  assumes "pool_ok cvs reqs" "cvs \<noteq> []" "reqs n = None" "rq_cv r = last cvs"
  shows "pool_ok (butlast cvs) (reqs(n \<mapsto> r))"
proof -
  obtain cs c where c: "cvs = cs @ [c]" using assms(2) by (metis rev_exhaust)
  let ?f = "\<lambda>m. rq_cv (the (reqs m))"
  have f: "(\<lambda>m. rq_cv (the ((reqs(n \<mapsto> r)) m))) = ?f(n := c)" "dom (reqs(n \<mapsto> r)) = insert n (dom reqs)" "n \<notin> dom reqs"
    using assms(3,4) c by auto
  then have "(?f(n := c)) ` insert n (dom reqs) = insert c (?f ` dom reqs)" "inj_on (?f(n := c)) (insert n (dom reqs))"
    using assms(1) c by (auto simp: pool_ok_def inj_on_def)
  then show ?thesis using assms(1) c unfolding pool_ok_def f by auto
qed

lemma pool_give:
  assumes "pool_ok cvs reqs" "reqs n = Some r"
  shows "pool_ok (push_cv cvs (rq_cv r)) (reqs(n := None))"
proof -
  have n: "n \<in> dom reqs" using assms(2) by blast
  have "0 < card (dom reqs)" using n by (auto simp: card_gt_0_iff)
  then have len: "length cvs < MDV_DISP_REQS" using pool_card [OF assms(1)] by simp
  have inj: "inj_on (\<lambda>m. rq_cv (the (reqs m))) (dom reqs)" using assms(1) by (simp add: pool_ok_def)
  have img: "(\<lambda>m. rq_cv (the ((reqs(n := None)) m))) ` dom (reqs(n := None)) = (\<lambda>m. rq_cv (the (reqs m))) ` dom reqs - {rq_cv r}"
  proof -
    have "(\<lambda>m. rq_cv (the ((reqs(n := None)) m))) ` dom (reqs(n := None)) = (\<lambda>m. rq_cv (the (reqs m))) ` (dom reqs - {n})"
      by (intro image_cong) auto
    also have "\<dots> = (\<lambda>m. rq_cv (the (reqs m))) ` dom reqs - (\<lambda>m. rq_cv (the (reqs m))) ` {n}"
      using n by (intro inj_on_image_set_diff [OF inj]) auto
    finally show ?thesis using assms(2) by simp
  qed
  have "rq_cv r \<in> (\<lambda>m. rq_cv (the (reqs m))) ` dom reqs" using n assms(2) by force
  moreover have "inj_on (\<lambda>m. rq_cv (the ((reqs(n := None)) m))) (dom (reqs(n := None)))" using inj by (auto simp: inj_on_def)
  ultimately show ?thesis using assms(1) len unfolding pool_ok_def img push_cv_def by auto
qed

lemma pool_same:
  assumes "pool_ok cvs reqs" "reqs n = Some r" "rq_cv r' = rq_cv r"
  shows "pool_ok cvs (reqs(n \<mapsto> r'))"
proof -
  have "(\<lambda>m. rq_cv (the ((reqs(n \<mapsto> r')) m))) = (\<lambda>m. rq_cv (the (reqs m)))" "dom (reqs(n \<mapsto> r')) = dom reqs"
    using assms(2,3) by auto
  then show ?thesis using assms(1) by (simp only: pool_ok_def)
qed

definition disp_inv :: "disp_sys \<Rightarrow> bool" where
  "disp_inv s \<longleftrightarrow> pool_ok (pd_cvs (ds_pd s)) (pd_requests (ds_pd s)) \<and>
     (\<forall>n r. pd_requests (ds_pd s) n = Some r \<longrightarrow> pc_entry (ds_pc s (rq_resp r)) = Some n \<and>
        (rq_ready r \<longrightarrow> mh_number (mm_hdr (ds_resp s (rq_resp r))) = n)) \<and>
     (\<forall>t n. pc_entry (ds_pc s t) = Some n \<longrightarrow> (\<exists>r. pd_requests (ds_pd s) n = Some r \<and> rq_resp r = t)) \<and>
     (\<forall>t n. ds_pc s t \<noteq> Aborting n MDV_OK) \<and>
     (\<forall>t n. ds_pc s t = Returned n MDV_OK \<longrightarrow> mh_number (mm_hdr (ds_resp s t)) = n)"

lemma disp_invD:
  assumes "disp_inv s"
  shows "pool_ok (pd_cvs (ds_pd s)) (pd_requests (ds_pd s))"
    "\<And>n r. pd_requests (ds_pd s) n = Some r \<Longrightarrow> pc_entry (ds_pc s (rq_resp r)) = Some n"
    "\<And>n r. pd_requests (ds_pd s) n = Some r \<Longrightarrow> rq_ready r \<Longrightarrow> mh_number (mm_hdr (ds_resp s (rq_resp r))) = n"
    "\<And>t n. pc_entry (ds_pc s t) = Some n \<Longrightarrow> \<exists>r. pd_requests (ds_pd s) n = Some r \<and> rq_resp r = t"
    "\<And>t n. ds_pc s t \<noteq> Aborting n MDV_OK"
    "\<And>t n. ds_pc s t = Returned n MDV_OK \<Longrightarrow> mh_number (mm_hdr (ds_resp s t)) = n"
  using assms unfolding disp_inv_def by blast+

text \<open>Steps that leave the requests alone.\<close>

lemma inv_same_requests:
  assumes "disp_inv s" "pd_cvs pd = pd_cvs (ds_pd s)" "pd_requests pd = pd_requests (ds_pd s)"
    "\<And>u. u \<noteq> t \<Longrightarrow> pc u = ds_pc s u" "pc_entry (pc t) = pc_entry (ds_pc s t)"
    "\<And>n. pc t \<noteq> Aborting n MDV_OK" "\<And>n. pc t = Returned n MDV_OK \<Longrightarrow> ds_pc s t = Returned n MDV_OK"
  shows "disp_inv (s\<lparr>ds_pd := pd, ds_pc := pc\<rparr>)"
proof -
  have "pc_entry (pc u) = pc_entry (ds_pc s u)" "pc u \<noteq> Aborting n MDV_OK" "pc u = Returned n MDV_OK \<Longrightarrow> ds_pc s u = Returned n MDV_OK" for u n
    using assms(4-7) disp_invD(5) [OF assms(1)] by (cases "u = t"; simp)+
  then show ?thesis using assms(1-3) unfolding disp_inv_def by simp
qed

text \<open>A request enters: the client had no entry, and its number is new.\<close>

lemma inv_register:
  assumes inv: "disp_inv s" and n: "pd_requests (ds_pd s) n = None" "pc_entry (ds_pc s t) = None" "pd_cvs (ds_pd s) \<noteq> []"
  shows "disp_inv (s\<lparr>ds_pd := (ds_pd s)\<lparr>pd_cvs := butlast (pd_cvs (ds_pd s)), pd_requests := (pd_requests (ds_pd s))(n \<mapsto>
      \<lparr>rq_cv = last (pd_cvs (ds_pd s)), rq_resp = t, rq_request_id = n, rq_ready = False\<rparr>)\<rparr>, ds_pc := (ds_pc s)(t := Registered n)\<rparr>)"
proof -
  note i = disp_invD [OF inv]
  have "rq_resp r \<noteq> t" if "pd_requests (ds_pd s) m = Some r" for m r using i(2) [OF that] n(2) by auto
  moreover have "m \<noteq> n" if "pc_entry (ds_pc s u) = Some m" for u m using i(4) [OF that] n(1) by auto
  ultimately show ?thesis
    unfolding disp_inv_def using i pool_take [OF i(1) n(3,1)] by auto
qed

text \<open>A request leaves.\<close>

lemma inv_unregister:
  assumes inv: "disp_inv s" and t: "pc_entry (ds_pc s t) = Some n" and u: "send_unregister (ds_pd s) n = Some pd"
    and e: "e = MDV_OK \<Longrightarrow> mh_number (mm_hdr (ds_resp s t)) = n"
  shows "disp_inv (s\<lparr>ds_pd := pd, ds_pc := (ds_pc s)(t := Returned n e)\<rparr>)"
proof -
  note i = disp_invD [OF inv]
  obtain r where r: "pd_requests (ds_pd s) n = Some r" "rq_resp r = t" using i(4) [OF t] by blast
  have pd: "pd = (ds_pd s)\<lparr>pd_cvs := push_cv (pd_cvs (ds_pd s)) (rq_cv r), pd_requests := (pd_requests (ds_pd s))(n := None)\<rparr>"
    using u r by (simp add: send_unregister_def)
  have "rq_resp r' \<noteq> t" if "pd_requests (ds_pd s) m = Some r'" "m \<noteq> n" for m r' using i(2) [OF that(1)] t that(2) by auto
  moreover have "m \<noteq> n" if "pc_entry (ds_pc s v) = Some m" "v \<noteq> t" for v m using i(4) [OF that(1)] r that(2) by auto
  ultimately show ?thesis
    unfolding disp_inv_def pd using i pool_give [OF i(1) r(1)] e by auto
qed

text \<open>A response is delivered.\<close>

lemma inv_deliver:
  assumes inv: "disp_inv s" and r: "pd_requests (ds_pd s) n = Some r" and m: "mh_number (mm_hdr msg) = n"
    and pd: "pd_cvs pd = pd_cvs (ds_pd s)" "pd_requests pd = (pd_requests (ds_pd s))(n \<mapsto> r\<lparr>rq_ready := True\<rparr>)"
  shows "disp_inv (s\<lparr>ds_pd := pd, ds_resp := (ds_resp s)(rq_resp r := msg)\<rparr>)"
proof -
  note i = disp_invD [OF inv]
  have "rq_resp r' \<noteq> rq_resp r" if "pd_requests (ds_pd s) k = Some r'" "k \<noteq> n" for k r'
    using i(2) [OF that(1)] i(2) [OF r] that(2) by auto
  moreover have "ds_pc s (rq_resp r) \<noteq> Returned k e" for k e using i(2) [OF r] by auto
  moreover have "\<exists>r'. ((pd_requests (ds_pd s))(n \<mapsto> r\<lparr>rq_ready := True\<rparr>)) k = Some r' \<and> rq_resp r' = t"
    if "pc_entry (ds_pc s t) = Some k" for t k using i(4) [OF that] r by auto
  ultimately show ?thesis
    unfolding disp_inv_def using i pool_same [OF i(1) r, of "r\<lparr>rq_ready := True\<rparr>"] m r pd by auto
qed

lemma inv_read:
  assumes inv: "disp_inv s" and r: "mdv_dispatcher_read garbage True fns evs (ds_pd s) (ds_resp s) = Some (err, pd, resps, evs')"
  shows "disp_inv (s\<lparr>ds_pd := pd, ds_resp := resps\<rparr>)"
proof -
  obtain e msg evs1 where m: "mdv_read_msg garbage evs (pd_message (ds_pd s)) = Some (e, msg, evs1)"
    using r by (auto simp: mdv_dispatcher_read_def split: option.splits)
  show ?thesis
  proof (cases "e = MDV_OK \<and> pd_requests (ds_pd s) (mh_number (mm_hdr msg)) \<noteq> None")
    case True
    then obtain rq where q: "pd_requests (ds_pd s) (mh_number (mm_hdr msg)) = Some rq" by blast
    then have "resps = (ds_resp s)(rq_resp rq := msg)" "pd_cvs pd = pd_cvs (ds_pd s)"
      "pd_requests pd = (pd_requests (ds_pd s))(mh_number (mm_hdr msg) \<mapsto> rq\<lparr>rq_ready := True\<rparr>)"
      using r m True by (auto simp: mdv_dispatcher_read_def Let_def)
    with inv_deliver [OF inv q refl] show ?thesis by simp
  next
    case False
    then have "resps = ds_resp s" "pd_cvs pd = pd_cvs (ds_pd s)" "pd_requests pd = pd_requests (ds_pd s)"
      using r m by (auto simp: mdv_dispatcher_read_def Let_def split: if_splits option.splits)
    with inv show ?thesis by (simp add: disp_inv_def)
  qed
qed

lemma inv_register_step:
  assumes inv: "disp_inv s" and dn: "distinct_numbers s" and pc: "ds_pc s t = Numbered n"
    and reg: "send_register alloc (ds_pd s) t n = Some (err, pd)"
  shows "disp_inv (s\<lparr>ds_pd := pd, ds_pc := (ds_pc s)(t := if err = MDV_OK then Registered n else Returned n err)\<rparr>)"
proof -
  have ne: "pd_cvs (ds_pd s) \<noteq> []" using reg by (auto simp: send_register_def)
  have fresh: "pd_requests (ds_pd s) n = None"
  proof (rule ccontr)
    assume "pd_requests (ds_pd s) n \<noteq> None"
    then obtain r where "pd_requests (ds_pd s) n = Some r" by blast
    then have "pc_entry (ds_pc s (rq_resp r)) = Some n" by (rule disp_invD(2) [OF inv])
    moreover have "pc_number (ds_pc s u) = Some n" if "pc_entry (ds_pc s u) = Some n" for u using that by (cases "ds_pc s u") auto
    ultimately show False using dn pc unfolding distinct_numbers_def
      by (metis option.distinct(1) pc_entry.simps(7) pc_number.simps(1))
  qed
  show ?thesis
  proof (cases alloc)
    case True
    then show ?thesis using inv_register [OF inv fresh, of t] pc reg ne by (simp add: send_register_def Let_def)
  next
    case False
    have "length (butlast (pd_cvs (ds_pd s))) < MDV_DISP_REQS" using pool_card [OF disp_invD(1) [OF inv]] ne
      by (cases "pd_cvs (ds_pd s)" rule: rev_cases) auto
    moreover have "(pd_requests (ds_pd s))(n := None) = pd_requests (ds_pd s)" using fresh by auto
    ultimately have "pd = (ds_pd s)\<lparr>pd_cvs := pd_cvs (ds_pd s), pd_requests := pd_requests (ds_pd s)\<rparr>" "err = MDV_NO_MEM"
      using reg False ne fresh by (auto simp: send_register_def Let_def push_cv_def)
    then show ?thesis using pc by (intro inv_same_requests [OF inv]) auto
  qed
qed

lemma inv_step:
  assumes "disp_step s s'" "disp_inv s" "distinct_numbers s"
  shows "disp_inv s'"
  using assms
proof cases
  case (take_number t m e n pd)
  then show ?thesis unfolding take_number(1)
    by (intro inv_same_requests [OF assms(2)]) (auto simp: next_number_def)
next
  case (register t n alloc err pd)
  then show ?thesis using inv_register_step [OF assms(2,3)] by simp
next
  case (no_condvar t n alloc)
  then show ?thesis using inv_same_requests [OF assms(2), of "ds_pd s" t "(ds_pc s)(t := Undefined)"] by simp
next
  case (write_request t n evs sent req err sent' evs')
  then show ?thesis
    using inv_same_requests [OF assms(2), of "ds_pd s" t "(ds_pc s)(t := if err = MDV_OK then Waiting n MDV_OK else Aborting n err)"] by auto
next
  case (abort_request t n err pd)
  then have "err \<noteq> MDV_OK" using disp_invD(5) [OF assms(2)] by metis
  then show ?thesis using inv_unregister [OF assms(2) _ abort_request(3), of t err] abort_request by simp
next
  case (check_ready t n err entry)
  then show ?thesis
    using inv_same_requests [OF assms(2), of "ds_pd s" t "(ds_pc s)(t := if rq_ready entry then Finishing n err else Sleeping n)"] by auto
next
  case (woken t n err)
  then show ?thesis
    using inv_same_requests [OF assms(2), of "ds_pd s" t "(ds_pc s)(t := case send_woken (ds_pd s) err of Inl e \<Rightarrow> Finishing n e | Inr e \<Rightarrow> Waiting n e)"]
    by (auto split: sum.splits)
next
  case (finish_request t n err err' pd)
  then have t: "pc_entry (ds_pc s t) = Some n" by simp
  obtain r where r: "pd_requests (ds_pd s) n = Some r" "rq_resp r = t" using disp_invD(4) [OF assms(2) t] by blast
  then have "send_unregister (ds_pd s) n = Some pd" "err' = MDV_OK \<Longrightarrow> rq_ready r"
    using finish_request(3) by (auto simp: send_finish_def Let_def split: if_splits)
  then show ?thesis using inv_unregister [OF assms(2) t] disp_invD(3) [OF assms(2) r(1)] r(2) finish_request(1) by auto
next
  case (entry_gone t n err)
  then have "pc_entry (ds_pc s t) = Some n" by auto
  then obtain r where "pd_requests (ds_pd s) n = Some r" using disp_invD(4) [OF assms(2)] by blast
  then show ?thesis using entry_gone(3) by simp
next
  case (post evs sent msg pd r)
  then show ?thesis using assms(2) by (auto simp: mdv_dispatcher_post_def next_number_def disp_inv_def)
next
  case (set_fd fd)
  then show ?thesis using assms(2) by (simp add: mdv_dispatcher_set_fd_def disp_inv_def)
next
  case (reg resized alloc msg_id fn err pd)
  then show ?thesis using assms(2) by (auto simp: mdv_dispatcher_reg_def disp_inv_def split: if_splits)
next
  case (read_message garbage fns evs err pd resps evs')
  then show ?thesis using inv_read [OF assms(2)] by simp
qed

lemma reachable_inv: "disp_reachable s \<Longrightarrow> disp_inv s \<and> distinct_numbers s"
proof (induction rule: disp_reachable.induct)
  case (init mem fd pd resps)
  then show ?case using pool_init
    by (auto simp: mdv_dispatcher_create_def disp_init_def disp_inv_def distinct_numbers_def split: if_splits)
next
  case (step s s')
  then show ?case using inv_step by blast
qed

section \<open>Properties\<close>


text \<open>Runs with several waiting clients.\<close>

definition crowd :: "nat \<Rightarrow> disp_sys \<Rightarrow> bool" where
  "crowd k s \<longleftrightarrow> disp_reachable s \<and> pd_id (ds_pd s) = word_of_nat k \<and> length (pd_cvs (ds_pd s)) = 4 - k \<and>
     (\<forall>t. ds_pc s t = (if t < k then Registered (word_of_nat t) else Idle))"

lemma distinct_numbersI: "(\<And>t n. pc_number (ds_pc s t) = Some n \<Longrightarrow> n = word_of_nat t \<and> t < 65536) \<Longrightarrow> distinct_numbers s"
  unfolding distinct_numbers_def
proof (intro allI impI, elim conjE)
  fix t u n
  assume h: "\<And>t n. pc_number (ds_pc s t) = Some n \<Longrightarrow> n = word_of_nat t \<and> t < 65536"
    and "pc_number (ds_pc s t) = Some n" "pc_number (ds_pc s u) = Some n"
  then have "(word_of_nat t :: u16) = word_of_nat u" "t < 65536" "u < 65536" by auto
  then have "t mod 65536 = u mod 65536" using word_of_nat_eq_iff [where 'a = 16, of t u] by (simp add: take_bit_eq_mod)
  with \<open>t < 65536\<close> \<open>u < 65536\<close> show "t = u" by simp
qed

lemma crowd_numbers: "crowd k s \<Longrightarrow> k \<le> 4 \<Longrightarrow> pc_number (ds_pc s t) = Some n \<Longrightarrow> n = word_of_nat t \<and> t < 65536"
  by (cases "t < k") (auto simp: crowd_def)

lemma crowd_number:
  assumes "crowd k s" "k \<le> 4"
  shows "\<exists>s'. disp_reachable s' \<and> ds_pc s' = (ds_pc s)(k := Numbered (word_of_nat k)) \<and>
    ds_pd s' = (ds_pd s)\<lparr>pd_id := word_of_nat (Suc k)\<rparr>"
proof -
  let ?s = "s\<lparr>ds_pd := (ds_pd s)\<lparr>pd_id := word_of_nat (Suc k)\<rparr>, ds_pc := (ds_pc s)(k := Numbered (word_of_nat k))\<rparr>"
  have "disp_step s ?s" using assms
    by (intro disp_step.take_number) (auto simp: crowd_def next_number_def add.commute)
  moreover have "distinct_numbers ?s" using crowd_numbers [OF assms] assms(2)
    by (intro distinct_numbersI) (auto split: if_splits)
  ultimately have "disp_reachable ?s" using assms(1) by (auto simp: crowd_def intro: disp_reachable.step)
  then show ?thesis by (intro exI [of _ ?s]) simp
qed

lemma crowd_exists: "k \<le> 4 \<Longrightarrow> \<exists>s. crowd k s"
proof (induction k)
  case 0
  have "mdv_dispatcher_create (\<lambda>_. True) True = Some \<lparr>pd_fd = True, pd_message = zero_msg, pd_handlers = Map.empty,
      pd_requests = Map.empty, pd_cvs = [0..<MDV_DISP_REQS], pd_id = 0\<rparr>" by (simp add: mdv_dispatcher_create_def list_all_iff)
  from disp_reachable.init [OF this, of "\<lambda>_. zero_msg"] show ?case by (force simp: crowd_def disp_init_def MDV_DISP_REQS_def)
next
  case (Suc k)
  then obtain s where s: "crowd k s" by auto
  obtain s1 where s1: "disp_reachable s1" "ds_pc s1 = (ds_pc s)(k := Numbered (word_of_nat k))" "ds_pd s1 = (ds_pd s)\<lparr>pd_id := word_of_nat (Suc k)\<rparr>"
    using crowd_number [OF s] Suc.prems by auto
  have ne: "pd_cvs (ds_pd s1) \<noteq> []" using s s1(3) Suc.prems by (auto simp: crowd_def)
  then obtain pd where pd: "send_register True (ds_pd s1) k (word_of_nat k) = Some (MDV_OK, pd)"
    "pd_id pd = pd_id (ds_pd s1)" "pd_cvs pd = butlast (pd_cvs (ds_pd s1))" by (simp add: send_register_def Let_def)
  let ?s = "s1\<lparr>ds_pd := pd, ds_pc := (ds_pc s1)(k := Registered (word_of_nat k))\<rparr>"
  have "disp_step s1 ?s" using disp_step.register [OF _ pd(1)] s1(2) by simp
  moreover have "distinct_numbers ?s" using crowd_numbers [OF s] s1(2) Suc.prems
    by (intro distinct_numbersI) (auto split: if_splits)
  ultimately have "disp_reachable ?s" using s1(1) by (auto intro: disp_reachable.step)
  then have "crowd (Suc k) ?s" using s s1 pd by (auto simp: crowd_def)
  then show ?case by blast
qed


text \<open>
  C31. The fifth simultaneous request is undefined behaviour: four clients that wait use up the condition variables,
  \<open>mdv_stack_pop\<close> returns null for the next one, and \<open>*pcv\<close> reads through it. The answer \<open>MDV_BUSY\<close> is never given.
\<close>
theorem dispatcher_fifth_request:
  "\<exists>s s'. disp_reachable s \<and> ds_pc s 4 = Numbered 4 \<and> send_register True (ds_pd s) 4 4 = None \<and> disp_step s s' \<and> ds_pc s' 4 = Undefined"
proof -
  obtain s where s: "crowd 4 s" using crowd_exists [of 4] by auto
  obtain s1 where s1: "disp_reachable s1" "ds_pc s1 = (ds_pc s)(4 := Numbered (word_of_nat 4))" "ds_pd s1 = (ds_pd s)\<lparr>pd_id := word_of_nat (Suc 4)\<rparr>"
    using crowd_number [OF s] by auto
  have "pd_cvs (ds_pd s1) = []" using s s1(3) by (simp add: crowd_def)
  then have r: "send_register True (ds_pd s1) 4 4 = None" by (simp add: send_register_def)
  have pc: "ds_pc s1 4 = Numbered 4" using s1(2) by simp
  show ?thesis using s1(1) pc r disp_step.no_condvar [OF pc r] by fastforce
qed

end
