(* ===== verification/Mdv_Lmdb.thy ===== *)
theory Mdv_Lmdb
  imports Mdv_Prelude
begin

text \<open>
  The key-value storage of src/mdv_storage/mdv_lmdb.c: reference-counted handles on an LMDB environment, transactions,
  named maps and cursors.

  LMDB itself is the parameter \<open>eng\<close>, a record of its operations on the content of an environment; \<open>lmdb_laws\<close> states
  what its documentation promises of them. A transaction works on a copy of the content, which a commit installs. Each
  call of LMDB can fail: the functions take the outcome of their call as a boolean.
\<close>

section \<open>LMDB\<close>

datatype mdv_cursor_op =
    MDV_CURSOR_FIRST | MDV_CURSOR_CURRENT | MDV_CURSOR_LAST | MDV_CURSOR_LAST_DUP | MDV_CURSOR_NEXT
  | MDV_CURSOR_NEXT_DUP | MDV_CURSOR_PREV | MDV_CURSOR_SET | MDV_CURSOR_SET_RANGE

text \<open>
  \<open>mdb_dbi\<close> tells whether a named database exists, \<open>mdb_dbi_open\<close> creates it. A cursor operation takes the key at which the
  cursor stands, or the key given with \<open>MDV_CURSOR_SET\<close> and \<open>MDV_CURSOR_SET_RANGE\<close>.
\<close>

record 'd mdb =
  mdb_dbi :: "'d \<Rightarrow> string \<Rightarrow> bool"
  mdb_dbi_open :: "'d \<Rightarrow> string \<Rightarrow> 'd"
  mdb_get :: "'d \<Rightarrow> string \<Rightarrow> bytes \<Rightarrow> bytes option"
  mdb_put :: "'d \<Rightarrow> string \<Rightarrow> bytes \<Rightarrow> bytes \<Rightarrow> 'd"
  mdb_cursor_get :: "'d \<Rightarrow> string \<Rightarrow> mdv_cursor_op \<Rightarrow> bytes \<Rightarrow> (bytes \<times> bytes) option"

definition mdb_keys :: "'d mdb \<Rightarrow> 'd \<Rightarrow> string \<Rightarrow> bytes set" where
  "mdb_keys eng d db = {k. mdb_get eng d db k \<noteq> None}"

text \<open>\<open>kv\<close> is the item that the cursor finds: the one with the key at the given end of the keys in \<open>K\<close>, as integers.\<close>

definition at_end :: "(nat \<Rightarrow> nat \<Rightarrow> bool) \<Rightarrow> bytes set \<Rightarrow> (bytes \<Rightarrow> bytes option) \<Rightarrow> (bytes \<times> bytes) option \<Rightarrow> bool" where
  "at_end ord K get kv \<longleftrightarrow>
     (case kv of None \<Rightarrow> K = {}
      | Some (k, v) \<Rightarrow> k \<in> K \<and> get k = Some v \<and> (\<forall>k' \<in> K. ord (le_val k) (le_val k')))"

text \<open>
  The documented behaviour: databases are independent maps, and the cursor of a database that was opened with integer keys
  (\<open>ints\<close> are their names), all of one size, follows their order.
\<close>

definition cursor_laws :: "'d mdb \<Rightarrow> 'd \<Rightarrow> string \<Rightarrow> bool" where
  "cursor_laws eng d db \<longleftrightarrow>
     at_end (\<ge>) (mdb_keys eng d db) (mdb_get eng d db) (mdb_cursor_get eng d db MDV_CURSOR_LAST []) \<and>
     (\<forall>k. at_end (\<le>) {k' \<in> mdb_keys eng d db. le_val k \<le> le_val k'} (mdb_get eng d db)
        (mdb_cursor_get eng d db MDV_CURSOR_SET_RANGE k)) \<and>
     (\<forall>k. at_end (\<le>) {k' \<in> mdb_keys eng d db. le_val k < le_val k'} (mdb_get eng d db)
        (mdb_cursor_get eng d db MDV_CURSOR_NEXT k))"

definition lmdb_laws :: "string set \<Rightarrow> 'd mdb \<Rightarrow> bool" where
  "lmdb_laws ints eng \<longleftrightarrow>
     (\<forall>d db db'. mdb_dbi eng (mdb_dbi_open eng d db) db' \<longleftrightarrow> db' = db \<or> mdb_dbi eng d db') \<and>
     (\<forall>d db db' k. mdb_get eng (mdb_dbi_open eng d db) db' k = mdb_get eng d db' k) \<and>
     (\<forall>d db k v db'. mdb_dbi eng (mdb_put eng d db k v) db' \<longleftrightarrow> mdb_dbi eng d db') \<and>
     (\<forall>d db k v db' k'. mdb_dbi eng d db \<longrightarrow> mdb_get eng (mdb_put eng d db k v) db' k' = (if db' = db \<and> k' = k then Some v else mdb_get eng d db' k')) \<and>
     (\<forall>d db k. \<not> mdb_dbi eng d db \<longrightarrow> mdb_get eng d db k = None) \<and>
     (\<forall>d db n. db \<in> ints \<and> (\<forall>k \<in> mdb_keys eng d db. length k = n) \<longrightarrow> cursor_laws eng d db)"

section \<open>The code\<close>

record 'd mdv_lmdb =
  lm_ref_counter :: u32
  lm_env :: 'd

definition mdv_storage_retain :: "'d mdv_lmdb \<Rightarrow> 'd mdv_lmdb" where
  "mdv_storage_retain db = db\<lparr>lm_ref_counter := lm_ref_counter db + 1\<rparr>"

text \<open>The environment is closed when the counter comes to zero; its content stays on disk.\<close>

definition mdv_storage_release :: "'d mdv_lmdb \<Rightarrow> 'd mdv_lmdb \<times> u32" where
  "mdv_storage_release db = (let rc = lm_ref_counter db - 1 in (db\<lparr>lm_ref_counter := rc\<rparr>, rc))"

abbreviation storage_released :: "'d mdv_lmdb \<Rightarrow> 'd mdv_lmdb" where
  "storage_released db \<equiv> fst (mdv_storage_release db)"

text \<open>A storage with the transaction that is open on it; no transaction is a null pointer.\<close>

type_synonym 'd txn = "'d mdv_lmdb \<times> 'd option"

definition mdv_transaction_start :: "bool \<Rightarrow> 'd mdv_lmdb \<Rightarrow> 'd txn" where
  "mdv_transaction_start ok db = (if ok then (mdv_storage_retain db, Some (lm_env db)) else (db, None))"

definition mdv_transaction_commit :: "bool \<Rightarrow> 'd txn \<Rightarrow> bool \<times> 'd txn" where
  "mdv_transaction_commit ok t =
     (case t of (db, None) \<Rightarrow> (False, t)
      | (db, Some d) \<Rightarrow> (ok, storage_released (if ok then db\<lparr>lm_env := d\<rparr> else db), None))"

definition mdv_transaction_abort :: "'d txn \<Rightarrow> 'd txn" where
  "mdv_transaction_abort t = (case t of (db, None) \<Rightarrow> t | (db, Some d) \<Rightarrow> (storage_released db, None))"

text \<open>An open map is its name. Opening in a transaction that is gone reads a null pointer; the callers check before.\<close>

definition mdv_map_open :: "'d mdb \<Rightarrow> bool \<Rightarrow> bool \<Rightarrow> string \<Rightarrow> 'd txn \<Rightarrow> string option \<times> 'd txn" where
  "mdv_map_open eng ok create name t =
     (case t of (db, None) \<Rightarrow> (None, t)
      | (db, Some d) \<Rightarrow>
          if ok \<and> (create \<or> mdb_dbi eng d name)
          then (Some name, mdv_storage_retain db, Some (if create then mdb_dbi_open eng d name else d))
          else (None, t))"

definition mdv_map_close :: "string option \<Rightarrow> 'd txn \<Rightarrow> 'd txn" where
  "mdv_map_close m t = (case m of None \<Rightarrow> t | Some name \<Rightarrow> (storage_released (fst t), snd t))"

definition mdv_map_put_impl :: "'d mdb \<Rightarrow> bool \<Rightarrow> bool \<Rightarrow> string \<Rightarrow> bytes \<Rightarrow> bytes \<Rightarrow> 'd txn \<Rightarrow> bool \<times> 'd txn" where
  "mdv_map_put_impl eng ok nooverwrite name key value t =
     (case t of (db, None) \<Rightarrow> (False, t)
      | (db, Some d) \<Rightarrow>
          if ok \<and> \<not> (nooverwrite \<and> mdb_get eng d name key \<noteq> None)
          then (True, db, Some (mdb_put eng d name key value)) else (False, t))"

definition mdv_map_put :: "'d mdb \<Rightarrow> bool \<Rightarrow> string \<Rightarrow> bytes \<Rightarrow> bytes \<Rightarrow> 'd txn \<Rightarrow> bool \<times> 'd txn" where
  "mdv_map_put eng ok = mdv_map_put_impl eng ok False"

definition mdv_map_put_unique :: "'d mdb \<Rightarrow> bool \<Rightarrow> string \<Rightarrow> bytes \<Rightarrow> bytes \<Rightarrow> 'd txn \<Rightarrow> bool \<times> 'd txn" where
  "mdv_map_put_unique eng ok = mdv_map_put_impl eng ok True"

definition mdv_map_get :: "'d mdb \<Rightarrow> string \<Rightarrow> bytes \<Rightarrow> 'd txn \<Rightarrow> bytes option" where
  "mdv_map_get eng name key t = (case snd t of None \<Rightarrow> None | Some d \<Rightarrow> mdb_get eng d name key)"

text \<open>The cursor is the item at which it stands; the null cursor is \<open>None\<close>. An open cursor holds a reference to the storage.\<close>

definition mdv_cursor_get :: "'d mdb \<Rightarrow> string \<Rightarrow> mdv_cursor_op \<Rightarrow> bytes \<Rightarrow> 'd txn \<Rightarrow> (bytes \<times> bytes) option" where
  "mdv_cursor_get eng name op key t = (case snd t of None \<Rightarrow> None | Some d \<Rightarrow> mdb_cursor_get eng d name op key)"

definition mdv_cursor_open_explicit ::
  "'d mdb \<Rightarrow> bool \<Rightarrow> string \<Rightarrow> mdv_cursor_op \<Rightarrow> bytes \<Rightarrow> 'd txn \<Rightarrow> (bytes \<times> bytes) option \<times> 'd txn" where
  "mdv_cursor_open_explicit eng ok name op key t =
     (if \<not> ok then (None, t)
      else
        let t = (mdv_storage_retain (fst t), snd t) in
        case mdv_cursor_get eng name op key t of
          None \<Rightarrow> (None, storage_released (fst t), snd t)
        | Some kv \<Rightarrow> (Some kv, t))"

definition mdv_cursor_close :: "'d txn \<Rightarrow> 'd txn" where
  "mdv_cursor_close t = (storage_released (fst t), snd t)"

section \<open>Lemmas\<close>

named_theorems lmdb_simps "the operations of the storage on an open transaction"

lemma lmdb_laws_simps:
  assumes "lmdb_laws ints eng"
  shows "mdb_dbi eng (mdb_dbi_open eng d db) db' \<longleftrightarrow> db' = db \<or> mdb_dbi eng d db'"
    "mdb_get eng (mdb_dbi_open eng d db) db' k = mdb_get eng d db' k"
    "mdb_dbi eng (mdb_put eng d db k v) db' \<longleftrightarrow> mdb_dbi eng d db'"
    "mdb_dbi eng d db \<Longrightarrow> mdb_get eng (mdb_put eng d db k v) db' k' = (if db' = db \<and> k' = k then Some v else mdb_get eng d db' k')"
    "\<not> mdb_dbi eng d db \<Longrightarrow> mdb_get eng d db k = None"
  using assms unfolding lmdb_laws_def by simp_all

lemma lmdb_laws_cursor:
  assumes "lmdb_laws ints eng" "db \<in> ints" "\<forall>k \<in> mdb_keys eng d db. length k = n"
  shows "cursor_laws eng d db"
proof -
  have "\<forall>d db n. db \<in> ints \<and> (\<forall>k \<in> mdb_keys eng d db. length k = n) \<longrightarrow> cursor_laws eng d db"
    using assms(1) unfolding lmdb_laws_def by (elim conjE)
  then show ?thesis using assms(2,3) by blast
qed

lemma storage_retain_simps [lmdb_simps, simp]:
  "lm_env (mdv_storage_retain db) = lm_env db" "storage_released (mdv_storage_retain db) = db"
  "lm_env (storage_released db) = lm_env db"
  "storage_released (db\<lparr>lm_env := d\<rparr>) = (storage_released db)\<lparr>lm_env := d\<rparr>"
  "(mdv_storage_retain db)\<lparr>lm_env := d\<rparr> = mdv_storage_retain (db\<lparr>lm_env := d\<rparr>)"
  by (simp_all add: mdv_storage_retain_def mdv_storage_release_def Let_def)

lemma txn_simps [lmdb_simps]:
  "mdv_transaction_commit ok (db, Some d) = (ok, storage_released (if ok then db\<lparr>lm_env := d\<rparr> else db), None)"
  "mdv_transaction_commit ok (db, None) = (False, db, None)"
  "mdv_transaction_abort (db, Some d) = (storage_released db, None)"
  "mdv_transaction_abort (db, None) = (db, None)"
  "mdv_map_close None t = t" "mdv_map_close (Some name) (db, x) = (storage_released db, x)"
  "mdv_map_get eng name key (db, Some d) = mdb_get eng d name key" "mdv_map_get eng name key (db, None) = None"
  "mdv_cursor_close (db, x) = (storage_released db, x)"
  by (simp_all add: mdv_transaction_commit_def mdv_transaction_abort_def mdv_map_close_def mdv_map_get_def mdv_cursor_close_def)

section \<open>An environment with the documented behaviour\<close>

fun find_end :: "(nat \<Rightarrow> nat \<Rightarrow> bool) \<Rightarrow> bytes list \<Rightarrow> bytes option" where
  "find_end ord [] = None"
| "find_end ord (k # ks) =
     (case find_end ord ks of None \<Rightarrow> Some k
      | Some k' \<Rightarrow> if ord (le_val k) (le_val k') then Some k else Some k')"

definition item_at :: "(bytes \<times> bytes) list \<Rightarrow> bytes option \<Rightarrow> (bytes \<times> bytes) option" where
  "item_at m k = (case k of None \<Rightarrow> None | Some k \<Rightarrow> map_option (Pair k) (map_of m k))"

type_synonym alists = "string \<Rightarrow> (bytes \<times> bytes) list option"

definition content :: "alists \<Rightarrow> string \<Rightarrow> (bytes \<times> bytes) list" where
  "content d db = (case d db of None \<Rightarrow> [] | Some m \<Rightarrow> m)"

fun alist_cursor :: "(bytes \<times> bytes) list \<Rightarrow> mdv_cursor_op \<Rightarrow> bytes \<Rightarrow> (bytes \<times> bytes) option" where
  "alist_cursor m MDV_CURSOR_LAST k = item_at m (find_end (\<ge>) (map fst m))"
| "alist_cursor m MDV_CURSOR_FIRST k = item_at m (find_end (\<le>) (map fst m))"
| "alist_cursor m MDV_CURSOR_SET_RANGE k = item_at m (find_end (\<le>) (filter (\<lambda>k'. le_val k \<le> le_val k') (map fst m)))"
| "alist_cursor m MDV_CURSOR_NEXT k = item_at m (find_end (\<le>) (filter (\<lambda>k'. le_val k < le_val k') (map fst m)))"
| "alist_cursor m _ k = item_at m (Some k)"

definition alist_mdb :: "alists mdb" where
  "alist_mdb = \<lparr>mdb_dbi = (\<lambda>d db. d db \<noteq> None), mdb_dbi_open = (\<lambda>d db. if d db = None then d(db := Some []) else d),
     mdb_get = (\<lambda>d db. map_of (content d db)),
     mdb_put = (\<lambda>d db k v. d(db := map_option (Cons (k, v)) (d db))),
     mdb_cursor_get = (\<lambda>d db. alist_cursor (content d db))\<rparr>"

lemma find_end_at:
  assumes ord: "\<And>x y. ord x y \<or> ord y x" "\<And>x y z. ord x y \<Longrightarrow> ord y z \<Longrightarrow> ord x z"
  shows "(case find_end ord ks of None \<Rightarrow> ks = [] | Some k \<Rightarrow> k \<in> set ks \<and> (\<forall>k' \<in> set ks. ord (le_val k) (le_val k')))"
proof (induction ks)
  case (Cons k ks)
  show ?case
  proof (cases "find_end ord ks")
    case None
    then show ?thesis using Cons ord(1) [of "le_val k" "le_val k"] by simp
  next
    case (Some k')
    then have k': "k' \<in> set ks" "\<forall>x \<in> set ks. ord (le_val k') (le_val x)" using Cons by auto
    show ?thesis
    proof (cases "ord (le_val k) (le_val k')")
      case True
      then show ?thesis using k' Some ord(1) [of "le_val k" "le_val k"] ord(2) [OF True] by auto
    next
      case False
      then show ?thesis using k' Some ord(1) [of "le_val k" "le_val k'"] by auto
    qed
  qed
qed simp

lemma at_end_item:
  assumes ord: "\<And>x y. ord x y \<or> ord y x" "\<And>x y z. ord x y \<Longrightarrow> ord y z \<Longrightarrow> ord x z" and K: "set ks = K" "K \<subseteq> fst ` set m"
  shows "at_end ord K (map_of m) (item_at m (find_end ord ks))"
proof (cases "find_end ord ks")
  case None
  then show ?thesis using find_end_at [of ord ks] ord K(1) by (simp add: at_end_def item_at_def)
next
  case (Some k)
  then have k: "k \<in> K" "\<forall>k' \<in> K. ord (le_val k) (le_val k')" using find_end_at [of ord ks] ord K(1) by auto
  then obtain v where "map_of m k = Some v" using K(2) by (metis imageE map_of_eq_None_iff not_None_eq subsetD)
  with k show ?thesis by (simp add: at_end_def item_at_def Some)
qed

lemma alist_laws: "lmdb_laws ints alist_mdb"
proof -
  have keys: "mdb_keys alist_mdb d db = fst ` set (content d db)" for d db
    by (auto simp: mdb_keys_def alist_mdb_def map_of_eq_None_iff)
  have "cursor_laws alist_mdb d db" for d db
    unfolding cursor_laws_def keys by (auto simp: alist_mdb_def intro!: at_end_item) force+
  then show ?thesis unfolding lmdb_laws_def by (auto simp: alist_mdb_def content_def split: option.splits)
qed

end
