(* ===== verification/Mdv_2pset.thy ===== *)
theory Mdv_2pset
  imports Mdv_Lmdb
begin

text \<open>
  The two-phase set of objects of src/mdv_storage/mdv_2pset.c on the storage of \<open>Mdv_Lmdb\<close>: objects are added once, and a
  removed identifier stays removed. \<open>ok i\<close> is the outcome of the fallible call number \<open>i\<close> of an operation, in the order
  of the code.
\<close>

section \<open>The code\<close>

abbreviation "MDV_MAP_OBJECTS \<equiv> ''OBJECTS''"
abbreviation "MDV_MAP_REMOVED \<equiv> ''REMOVED''"
abbreviation "MDV_MAP_IDGEN \<equiv> ''IDGEN''"

record 'd mdv_2pset =
  ps_storage :: "'d mdv_lmdb"
  ps_idgen :: u64

definition MDV_OBJECTS_IDGEN :: bytes where
  "MDV_OBJECTS_IDGEN = le_bytes 2 0"

text \<open>The loaded value; \<open>None\<close> when the transaction does not start.\<close>

definition mdv_objects_idgen_init :: "'d mdb \<Rightarrow> (nat \<Rightarrow> bool) \<Rightarrow> 'd mdv_2pset \<Rightarrow> bool \<times> 'd mdv_2pset" where
  "mdv_objects_idgen_init eng ok objs =
     (let objs = objs\<lparr>ps_idgen := 0\<rparr> in
      case mdv_transaction_start (ok 0) (ps_storage objs) of
        (db, None) \<Rightarrow> (False, objs\<lparr>ps_storage := db\<rparr>)
      | t \<Rightarrow>
          case mdv_map_open eng (ok 1) False MDV_MAP_IDGEN t of
            (None, t) \<Rightarrow> (True, objs\<lparr>ps_storage := fst (mdv_transaction_abort t)\<rparr>)
          | (m, t) \<Rightarrow>
              let idgen = (case mdv_map_get eng MDV_MAP_IDGEN MDV_OBJECTS_IDGEN t of None \<Rightarrow> 0 | Some v \<Rightarrow> word_of_nat (le_val v))
              in (True, objs\<lparr>ps_storage := fst (mdv_map_close m (mdv_transaction_abort t)), ps_idgen := idgen\<rparr>))"

text \<open>Opening a storage with the content \<open>d\<close>; a failure releases everything and returns null.\<close>

definition mdv_2pset_open :: "'d mdb \<Rightarrow> (nat \<Rightarrow> bool) \<Rightarrow> 'd \<Rightarrow> 'd mdv_2pset option" where
  "mdv_2pset_open eng ok d =
     (if ok 0 \<and> ok 1 \<and> ok 2 then
        case mdv_objects_idgen_init eng (\<lambda>i. ok (i + 3)) \<lparr>ps_storage = \<lparr>lm_ref_counter = 1, lm_env = d\<rparr>, ps_idgen = 0\<rparr> of
          (True, objs) \<Rightarrow> Some objs
        | (False, objs) \<Rightarrow> None
      else None)"

definition mdv_2pset_retain :: "'d mdv_2pset \<Rightarrow> 'd mdv_2pset" where
  "mdv_2pset_retain objs = objs\<lparr>ps_storage := mdv_storage_retain (ps_storage objs)\<rparr>"

definition mdv_2pset_release :: "'d mdv_2pset \<Rightarrow> 'd mdv_2pset option \<times> u32" where
  "mdv_2pset_release objs =
     (case mdv_storage_release (ps_storage objs) of (db, rc) \<Rightarrow> (if rc = 0 then None else Some (objs\<lparr>ps_storage := db\<rparr>), rc))"

definition mdv_2pset_reserve_ids_range ::
  "'d mdb \<Rightarrow> (nat \<Rightarrow> bool) \<Rightarrow> 'd mdv_2pset \<Rightarrow> u32 \<Rightarrow> mdv_errno \<times> u64 option \<times> 'd mdv_2pset" where
  "mdv_2pset_reserve_ids_range eng ok objs count =
     (case mdv_transaction_start (ok 0) (ps_storage objs) of
        (db, None) \<Rightarrow> (MDV_FAILED, None, objs\<lparr>ps_storage := db\<rparr>)
      | t \<Rightarrow>
          case mdv_map_open eng (ok 1) True MDV_MAP_IDGEN t of
            (None, t) \<Rightarrow> (MDV_FAILED, None, objs\<lparr>ps_storage := fst (mdv_transaction_abort t)\<rparr>)
          | (m, t) \<Rightarrow>
              let new_id = ps_idgen objs + ucast count in
              case mdv_map_put eng (ok 2) MDV_MAP_IDGEN MDV_OBJECTS_IDGEN (le_bytes 8 (unat new_id)) t of
                (False, t) \<Rightarrow> (MDV_FAILED, None, objs\<lparr>ps_storage := fst (mdv_transaction_abort (mdv_map_close m t))\<rparr>)
              | (True, t) \<Rightarrow>
                  (case mdv_transaction_commit (ok 3) t of
                     (False, t) \<Rightarrow> (MDV_FAILED, None, objs\<lparr>ps_storage := fst (mdv_transaction_abort (mdv_map_close m t))\<rparr>)
                   | (True, t) \<Rightarrow>
                       (MDV_OK, Some (ps_idgen objs), objs\<lparr>ps_idgen := new_id, ps_storage := fst (mdv_map_close m t)\<rparr>)))"

definition mdv_objects_is_deleted :: "'d mdb \<Rightarrow> bytes \<Rightarrow> 'd txn \<Rightarrow> bool" where
  "mdv_objects_is_deleted eng key t = (mdv_map_get eng MDV_MAP_REMOVED key t \<noteq> None)"

text \<open>The two maps of an operation; \<open>None\<close> and the storage as it was when one of them does not open.\<close>

definition open_maps :: "'d mdb \<Rightarrow> bool \<Rightarrow> (nat \<Rightarrow> bool) \<Rightarrow> 'd mdv_lmdb \<Rightarrow> ('d txn) option \<times> 'd mdv_lmdb" where
  "open_maps eng create ok db =
     (case mdv_transaction_start (ok 0) db of
        (db, None) \<Rightarrow> (None, db)
      | t \<Rightarrow>
          case mdv_map_open eng (ok 1) create MDV_MAP_OBJECTS t of
            (None, t) \<Rightarrow> (None, fst (mdv_transaction_abort t))
          | (objs_map, t) \<Rightarrow>
              (case mdv_map_open eng (ok 2) create MDV_MAP_REMOVED t of
                 (None, t) \<Rightarrow> (None, fst (mdv_transaction_abort (mdv_map_close objs_map t)))
               | (rem_map, t) \<Rightarrow> (Some t, fst t)))"

definition close_maps :: "'d txn \<Rightarrow> 'd txn" where
  "close_maps t = mdv_map_close (Some MDV_MAP_REMOVED) (mdv_map_close (Some MDV_MAP_OBJECTS) t)"

definition mdv_2pset_add :: "'d mdb \<Rightarrow> (nat \<Rightarrow> bool) \<Rightarrow> 'd mdv_2pset \<Rightarrow> bytes \<Rightarrow> bytes \<Rightarrow> mdv_errno \<times> 'd mdv_2pset" where
  "mdv_2pset_add eng ok objs key obj =
     (case open_maps eng True ok (ps_storage objs) of
        (None, db) \<Rightarrow> (MDV_FAILED, objs\<lparr>ps_storage := db\<rparr>)
      | (Some t, db) \<Rightarrow>
          if \<not> mdv_objects_is_deleted eng key t then
            case mdv_map_put_unique eng (ok 3) MDV_MAP_OBJECTS key obj t of (_, t) \<Rightarrow>
              (case mdv_transaction_commit (ok 4) t of
                 (False, t) \<Rightarrow> (MDV_FAILED, objs\<lparr>ps_storage := fst (mdv_transaction_abort (close_maps t))\<rparr>)
               | (True, t) \<Rightarrow> (MDV_OK, objs\<lparr>ps_storage := fst (close_maps t)\<rparr>))
          else (MDV_OK, objs\<lparr>ps_storage := fst (close_maps (mdv_transaction_abort t))\<rparr>))"

text \<open>The loop over the batch, with the flag \<open>commit\<close>; the put of item \<open>i\<close> has the outcome \<open>put i\<close>.\<close>

fun add_batch_loop :: "'d mdb \<Rightarrow> (nat \<Rightarrow> bool) \<Rightarrow> nat \<Rightarrow> (bytes \<times> bytes) list \<Rightarrow> bool \<times> 'd txn \<Rightarrow> bool \<times> 'd txn" where
  "add_batch_loop eng put i [] (commit, t) = (commit, t)"
| "add_batch_loop eng put i ((key, obj) # items) (commit, t) =
     (if \<not> mdv_objects_is_deleted eng key t then
        case mdv_map_put_unique eng (put i) MDV_MAP_OBJECTS key obj t of
          (True, t) \<Rightarrow> add_batch_loop eng put (i + 1) items (True, t)
        | (False, t) \<Rightarrow> add_batch_loop eng put (i + 1) items (commit, t)
      else add_batch_loop eng put (i + 1) items (commit, mdv_transaction_abort t))"

definition mdv_2pset_add_batch ::
  "'d mdb \<Rightarrow> (nat \<Rightarrow> bool) \<Rightarrow> (nat \<Rightarrow> bool) \<Rightarrow> 'd mdv_2pset \<Rightarrow> (bytes \<times> bytes) list \<Rightarrow> mdv_errno \<times> 'd mdv_2pset" where
  "mdv_2pset_add_batch eng ok put objs items =
     (case open_maps eng True ok (ps_storage objs) of
        (None, db) \<Rightarrow> (MDV_FAILED, objs\<lparr>ps_storage := db\<rparr>)
      | (Some t, db) \<Rightarrow>
          case add_batch_loop eng put 0 items (False, t) of (commit, t) \<Rightarrow>
            if commit then
              (case mdv_transaction_commit (ok 3) t of
                 (False, t) \<Rightarrow> (MDV_FAILED, objs\<lparr>ps_storage := fst (mdv_transaction_abort (close_maps t))\<rparr>)
               | (True, t) \<Rightarrow> (MDV_OK, objs\<lparr>ps_storage := fst (close_maps t)\<rparr>))
            else (MDV_OK, objs\<lparr>ps_storage := fst (close_maps (mdv_transaction_abort t))\<rparr>))"

definition mdv_2pset_get :: "'d mdb \<Rightarrow> (nat \<Rightarrow> bool) \<Rightarrow> 'd mdv_2pset \<Rightarrow> bytes \<Rightarrow> (bytes \<Rightarrow> 'o option) \<Rightarrow> 'o option \<times> 'd mdv_2pset" where
  "mdv_2pset_get eng ok objs key restore =
     (case open_maps eng False ok (ps_storage objs) of
        (None, db) \<Rightarrow> (None, objs\<lparr>ps_storage := db\<rparr>)
      | (Some t, db) \<Rightarrow>
          let closed = objs\<lparr>ps_storage := fst (close_maps (mdv_transaction_abort t))\<rparr> in
          if mdv_objects_is_deleted eng key t then (None, closed)
          else
            case mdv_map_get eng MDV_MAP_OBJECTS key t of None \<Rightarrow> (None, closed)
            | Some value \<Rightarrow> (restore value, closed))"

section \<open>The set of objects\<close>

definition objects :: "'d mdb \<Rightarrow> 'd mdv_2pset \<Rightarrow> bytes \<Rightarrow> bytes option" where
  "objects eng objs = mdb_get eng (lm_env (ps_storage objs)) MDV_MAP_OBJECTS"

definition removed :: "'d mdb \<Rightarrow> 'd mdv_2pset \<Rightarrow> bytes set" where
  "removed eng objs = {k. mdb_get eng (lm_env (ps_storage objs)) MDV_MAP_REMOVED k \<noteq> None}"

text \<open>What remains of the outside of the set: its references and its generator of identifiers.\<close>

definition same_frame :: "'d mdb \<Rightarrow> 'd mdv_2pset \<Rightarrow> 'd mdv_2pset \<Rightarrow> bool" where
  "same_frame eng objs objs' \<longleftrightarrow> lm_ref_counter (ps_storage objs') = lm_ref_counter (ps_storage objs) \<and>
     ps_idgen objs' = ps_idgen objs \<and> removed eng objs' = removed eng objs"

lemmas map_open_defs = mdv_transaction_start_def mdv_map_open_def

lemma open_maps_cases:
  assumes "lmdb_laws ints eng"
  obtains (failed) "open_maps eng create ok db = (None, db)"
    | (opened) d where "open_maps eng create ok db = (Some (mdv_storage_retain (mdv_storage_retain (mdv_storage_retain db)), Some d),
        mdv_storage_retain (mdv_storage_retain (mdv_storage_retain db)))" "\<And>n k. mdb_get eng d n k = mdb_get eng (lm_env db) n k"
        "mdb_dbi eng d MDV_MAP_OBJECTS"
proof -
  have "open_maps eng create ok db = (None, db) \<or> (\<exists>d. open_maps eng create ok db = (Some (mdv_storage_retain (mdv_storage_retain (mdv_storage_retain db)), Some d),
        mdv_storage_retain (mdv_storage_retain (mdv_storage_retain db))) \<and> (\<forall>n k. mdb_get eng d n k = mdb_get eng (lm_env db) n k) \<and> mdb_dbi eng d MDV_MAP_OBJECTS)"
    by (auto simp: open_maps_def map_open_defs lmdb_simps lmdb_laws_simps [OF assms])
  with failed opened show thesis by blast
qed

lemma open_maps_ok:
  assumes "create \<or> mdb_dbi eng (lm_env db) MDV_MAP_OBJECTS \<and> mdb_dbi eng (lm_env db) MDV_MAP_REMOVED"
  shows "\<exists>t db'. open_maps eng create (\<lambda>_. True) db = (Some t, db')"
  using assms by (auto simp: open_maps_def map_open_defs)

lemma close_two [simp]: "close_maps (mdv_storage_retain (mdv_storage_retain db), x) = (db, x)"
  by (simp add: close_maps_def lmdb_simps)

text \<open>The specification: the first value of a new identifier stays, a removed identifier is never added.\<close>

definition twopset_after :: "bytes set \<Rightarrow> (bytes \<times> bytes) list \<Rightarrow> (bytes \<Rightarrow> bytes option) \<Rightarrow> bytes \<Rightarrow> bytes option" where
  "twopset_after R items A k = (case A k of Some v \<Rightarrow> Some v | None \<Rightarrow> if k \<in> R then None else map_of items k)"

lemma add_batch_loop_commit: "add_batch_loop eng put i items (True, t) = (c, t') \<Longrightarrow> c"
proof (induction items arbitrary: i t)
  case (Cons kv items)
  then show ?case by (cases kv) (simp split: if_splits prod.splits bool.splits)
qed simp

lemma add_batch_loop_ok:
  assumes laws: "lmdb_laws ints eng"
  shows "list_all (\<lambda>(k, v). mdb_get eng d MDV_MAP_REMOVED k = None) items \<Longrightarrow> mdb_dbi eng d MDV_MAP_OBJECTS \<Longrightarrow>
    \<exists>d' commit'. add_batch_loop eng (\<lambda>_. True) i items (commit, db, Some d) = (commit', db, Some d') \<and>
      mdb_get eng d' MDV_MAP_OBJECTS = twopset_after {k. mdb_get eng d MDV_MAP_REMOVED k \<noteq> None} items (mdb_get eng d MDV_MAP_OBJECTS) \<and>
      mdb_get eng d' MDV_MAP_REMOVED = mdb_get eng d MDV_MAP_REMOVED \<and>
      (\<not> commit' \<longrightarrow> mdb_get eng d' MDV_MAP_OBJECTS = mdb_get eng d MDV_MAP_OBJECTS)"
proof (induction items arbitrary: i commit d)
  case Nil
  show ?case by (auto simp: twopset_after_def fun_eq_iff split: option.splits)
next
  case (Cons kv items)
  obtain k v where kv: "kv = (k, v)" by fastforce
  note s = lmdb_laws_simps [OF laws]
  note s = s Cons.prems(2)
  have nd: "mdb_get eng d MDV_MAP_REMOVED k = None" using Cons.prems kv by simp
  let ?d = "if mdb_get eng d MDV_MAP_OBJECTS k = None then mdb_put eng d MDV_MAP_OBJECTS k v else d"
  let ?c = "commit \<or> mdb_get eng d MDV_MAP_OBJECTS k = None"
  have rem: "mdb_get eng ?d MDV_MAP_REMOVED = mdb_get eng d MDV_MAP_REMOVED" by (simp add: s fun_eq_iff)
  then have "list_all (\<lambda>(k, v). mdb_get eng ?d MDV_MAP_REMOVED k = None) items" "mdb_dbi eng ?d MDV_MAP_OBJECTS" using Cons.prems by (simp_all add: s)
  then obtain d' c' where IH: "add_batch_loop eng (\<lambda>_. True) (i + 1) items (?c, db, Some ?d) = (c', db, Some d')"
    "mdb_get eng d' MDV_MAP_OBJECTS = twopset_after {k. mdb_get eng ?d MDV_MAP_REMOVED k \<noteq> None} items (mdb_get eng ?d MDV_MAP_OBJECTS)"
    "mdb_get eng d' MDV_MAP_REMOVED = mdb_get eng ?d MDV_MAP_REMOVED"
    "\<not> c' \<longrightarrow> mdb_get eng d' MDV_MAP_OBJECTS = mdb_get eng ?d MDV_MAP_OBJECTS"
    using Cons.IH [of ?d "i + 1" ?c] by blast
  have "add_batch_loop eng (\<lambda>_. True) i (kv # items) (commit, db, Some d) = (c', db, Some d')"
    using IH(1) nd by (auto simp: kv mdv_objects_is_deleted_def mdv_map_put_unique_def mdv_map_put_impl_def lmdb_simps)
  moreover have "twopset_after {k. mdb_get eng ?d MDV_MAP_REMOVED k \<noteq> None} items (mdb_get eng ?d MDV_MAP_OBJECTS) =
      twopset_after {k. mdb_get eng d MDV_MAP_REMOVED k \<noteq> None} (kv # items) (mdb_get eng d MDV_MAP_OBJECTS)"
    unfolding rem using nd by (auto simp: twopset_after_def kv s fun_eq_iff split: option.splits)
  moreover have "c'" if "mdb_get eng d MDV_MAP_OBJECTS k = None" using add_batch_loop_commit IH(1) that by fastforce
  ultimately show ?case using IH(2-4) rem by (intro exI [of _ d'] exI [of _ c']) auto
qed

text \<open>One object, whatever the calls answer.\<close>

lemma add_ok:
  assumes laws: "lmdb_laws ints eng" and r: "mdv_2pset_add eng ok objs k v = (err, objs')"
  shows "same_frame eng objs objs' \<and> (err \<noteq> MDV_OK \<or> \<not> ok 3 \<longrightarrow> objects eng objs' = objects eng objs) \<and>
    (err = MDV_OK \<and> ok 3 \<longrightarrow> objects eng objs' = twopset_after (removed eng objs) [(k, v)] (objects eng objs))"
  using laws
proof (cases rule: open_maps_cases [of ints eng True ok "ps_storage objs"])
  case failed
  then show ?thesis using r by (auto simp: mdv_2pset_add_def same_frame_def objects_def removed_def)
next
  case (opened d)
  note s = lmdb_laws_simps [OF laws]
  show ?thesis
    using r opened
    by (auto simp: mdv_2pset_add_def mdv_objects_is_deleted_def mdv_map_put_unique_def mdv_map_put_impl_def lmdb_simps s
        same_frame_def objects_def removed_def twopset_after_def fun_eq_iff split: if_splits option.splits)
qed

lemma add_batch_ok:
  assumes laws: "lmdb_laws ints eng" and nr: "fst ` set items \<inter> removed eng objs = {}"
  shows "\<exists>objs'. mdv_2pset_add_batch eng (\<lambda>_. True) (\<lambda>_. True) objs items = (MDV_OK, objs') \<and> same_frame eng objs objs' \<and>
    objects eng objs' = twopset_after (removed eng objs) items (objects eng objs)"
  using laws
proof (cases rule: open_maps_cases [of ints eng True "\<lambda>_. True" "ps_storage objs"])
  case failed
  then show ?thesis using open_maps_ok [of True eng "ps_storage objs"] by simp
next
  case (opened d)
  then have "list_all (\<lambda>(k, v). mdb_get eng d MDV_MAP_REMOVED k = None) items"
    using nr by (auto simp: list_all_iff removed_def image_iff)
  from add_batch_loop_ok [OF laws this opened(3), of 0 False] obtain d' c where
    l: "add_batch_loop eng (\<lambda>_. True) 0 items (False, mdv_storage_retain (mdv_storage_retain (mdv_storage_retain (ps_storage objs))), Some d) =
      (c, mdv_storage_retain (mdv_storage_retain (mdv_storage_retain (ps_storage objs))), Some d')"
    "mdb_get eng d' MDV_MAP_OBJECTS = twopset_after {k. mdb_get eng d MDV_MAP_REMOVED k \<noteq> None} items (mdb_get eng d MDV_MAP_OBJECTS)"
    "mdb_get eng d' MDV_MAP_REMOVED = mdb_get eng d MDV_MAP_REMOVED"
    "\<not> c \<longrightarrow> mdb_get eng d' MDV_MAP_OBJECTS = mdb_get eng d MDV_MAP_OBJECTS" by blast
  have g: "mdb_get eng d n = mdb_get eng (lm_env (ps_storage objs)) n" for n using opened(2) by (simp add: fun_eq_iff)
  show ?thesis
    using opened(1) l(1) l(2-4) [unfolded g]
    by (auto simp: mdv_2pset_add_batch_def lmdb_simps same_frame_def objects_def removed_def)
qed

lemma get_ok:
  assumes laws: "lmdb_laws ints eng"
  shows "mdv_2pset_get eng ok objs k restore = (r, objs') \<Longrightarrow> objs' = objs"
    "mdb_dbi eng (lm_env (ps_storage objs)) MDV_MAP_OBJECTS \<and> mdb_dbi eng (lm_env (ps_storage objs)) MDV_MAP_REMOVED \<Longrightarrow>
     fst (mdv_2pset_get eng (\<lambda>_. True) objs k restore) =
       (if k \<in> removed eng objs then None else case objects eng objs k of None \<Rightarrow> None | Some v \<Rightarrow> restore v)"
proof -
  show "objs' = objs" if "mdv_2pset_get eng ok objs k restore = (r, objs')"
    using laws
  proof (cases rule: open_maps_cases [of ints eng False ok "ps_storage objs"])
    case failed
    then show ?thesis using that by (simp add: mdv_2pset_get_def)
  next
    case (opened d)
    then show ?thesis using that by (auto simp: mdv_2pset_get_def Let_def lmdb_simps split: if_splits option.splits)
  qed
  show "fst (mdv_2pset_get eng (\<lambda>_. True) objs k restore) =
       (if k \<in> removed eng objs then None else case objects eng objs k of None \<Rightarrow> None | Some v \<Rightarrow> restore v)"
    if ex: "mdb_dbi eng (lm_env (ps_storage objs)) MDV_MAP_OBJECTS \<and> mdb_dbi eng (lm_env (ps_storage objs)) MDV_MAP_REMOVED"
    using laws
  proof (cases rule: open_maps_cases [of ints eng False "\<lambda>_. True" "ps_storage objs"])
    case failed
    then show ?thesis using open_maps_ok [of False eng "ps_storage objs"] ex by simp
  next
    case (opened d)
    then show ?thesis
      by (auto simp: mdv_2pset_get_def Let_def lmdb_simps mdv_objects_is_deleted_def removed_def objects_def split: option.splits)
  qed
qed

section \<open>Identifiers\<close>

definition stored_id :: "'d mdb \<Rightarrow> 'd \<Rightarrow> u64" where
  "stored_id eng d = (case mdb_get eng d MDV_MAP_IDGEN MDV_OBJECTS_IDGEN of None \<Rightarrow> 0 | Some v \<Rightarrow> word_of_nat (le_val v))"

lemma stored_le_bytes [simp]: "word_of_nat (le_val (le_bytes 8 (unat w))) = (w :: u64)"
proof -
  have "unat w < 256 ^ 8" using unsigned_less [of w] by simp
  then show ?thesis by (simp add: le_val_le_bytes)
qed

lemma reserve_range_ok:
  assumes laws: "lmdb_laws ints eng" and r: "mdv_2pset_reserve_ids_range eng ok objs n = (err, i, objs')"
  shows "lm_ref_counter (ps_storage objs') = lm_ref_counter (ps_storage objs) \<and>
    (if err = MDV_OK then i = Some (ps_idgen objs) \<and> ps_idgen objs' = ps_idgen objs + ucast n \<and>
       stored_id eng (lm_env (ps_storage objs')) = ps_idgen objs'
     else i = None \<and> objs' = objs)"
  using r lmdb_laws_simps [OF laws]
  by (auto simp: mdv_2pset_reserve_ids_range_def map_open_defs mdv_map_put_def mdv_map_put_impl_def lmdb_simps Let_def stored_id_def
      split: if_splits)

lemma open_ok:
  assumes laws: "lmdb_laws ints eng"
  shows "\<exists>objs. mdv_2pset_open eng (\<lambda>_. True) d = Some objs \<and> ps_idgen objs = stored_id eng d \<and> lm_env (ps_storage objs) = d \<and>
    lm_ref_counter (ps_storage objs) = 1"
  using lmdb_laws_simps(5) [OF laws, of d MDV_MAP_IDGEN]
  by (auto simp: mdv_2pset_open_def mdv_objects_idgen_init_def map_open_defs lmdb_simps Let_def stored_id_def split: option.splits)

text \<open>A history of a storage: ranges are reserved, with any outcome of the calls, and the program is started again.\<close>

datatype id_event = Reserve "nat \<Rightarrow> bool" u32 | Restart

fun granted :: "'d mdb \<Rightarrow> 'd mdv_2pset \<Rightarrow> id_event list \<Rightarrow> (u64 \<times> u32) list" where
  "granted eng objs [] = []"
| "granted eng objs (Reserve ok n # evs) =
     (case mdv_2pset_reserve_ids_range eng ok objs n of (err, i, objs) \<Rightarrow>
        (case i of None \<Rightarrow> granted eng objs evs | Some i \<Rightarrow> (i, n) # granted eng objs evs))"
| "granted eng objs (Restart # evs) =
     (case mdv_2pset_open eng (\<lambda>_. True) (lm_env (ps_storage objs)) of None \<Rightarrow> [] | Some objs \<Rightarrow> granted eng objs evs)"

fun requested :: "id_event list \<Rightarrow> nat" where
  "requested [] = 0"
| "requested (Reserve ok n # evs) = unat n + requested evs"
| "requested (Restart # evs) = requested evs"

definition id_range :: "u64 \<times> u32 \<Rightarrow> nat list" where
  "id_range r = [unat (fst r)..<unat (fst r) + unat (snd r)]"

lemma granted_ranges:
  assumes laws: "lmdb_laws ints eng"
  shows "ps_idgen objs = stored_id eng (lm_env (ps_storage objs)) \<Longrightarrow> unat (ps_idgen objs) + requested evs < 2 ^ 64 \<Longrightarrow>
    distinct (concat (map id_range (granted eng objs evs))) \<and>
    (\<forall>x \<in> set (concat (map id_range (granted eng objs evs))). unat (ps_idgen objs) \<le> x)"
proof (induction evs arbitrary: objs)
  case (Cons ev evs)
  show ?case
  proof (cases ev)
    case (Reserve ok n)
    obtain err i objs' where r: "mdv_2pset_reserve_ids_range eng ok objs n = (err, i, objs')" by (metis prod_cases3)
    note ok = reserve_range_ok [OF laws r]
    show ?thesis
    proof (cases "err = MDV_OK")
      case False
      then show ?thesis using ok Cons Reserve r by simp
    next
      case True
      have "unat n < 2 ^ 32" using unsigned_less [of n] by simp
      then have "unat (ucast n :: u64) = unat n" by (simp add: unsigned_ucast_eq take_bit_nat_eq_self_iff)
      then have u: "unat (ps_idgen objs') = unat (ps_idgen objs) + unat n"
        using ok True Cons.prems(2) Reserve by (simp add: unat_word_ariths)
      then have IH: "distinct (concat (map id_range (granted eng objs' evs)))"
        "\<forall>x \<in> set (concat (map id_range (granted eng objs' evs))). unat (ps_idgen objs') \<le> x"
        using Cons.IH [of objs'] ok True Cons.prems(2) Reserve by auto
      have g: "granted eng objs (ev # evs) = (ps_idgen objs, n) # granted eng objs' evs" using r ok True Reserve by simp
      have s: "set (id_range (ps_idgen objs, n)) = {unat (ps_idgen objs)..<unat (ps_idgen objs')}" by (auto simp: id_range_def u)
      have "x \<notin> set (concat (map id_range (granted eng objs' evs)))" if "x \<in> set (id_range (ps_idgen objs, n))" for x
        using IH(2) that unfolding s by fastforce
      moreover have "distinct (id_range (ps_idgen objs, n))" by (simp add: id_range_def)
      moreover have "unat (ps_idgen objs) \<le> x" if "x \<in> set (concat (map id_range (granted eng objs' evs)))" for x
        using bspec [OF IH(2) that] u by simp
      ultimately show ?thesis unfolding g using IH(1) s by auto
    qed
  next
    case Restart
    obtain o' where o': "mdv_2pset_open eng (\<lambda>_. True) (lm_env (ps_storage objs)) = Some o'" "ps_idgen o' = ps_idgen objs"
      "lm_env (ps_storage o') = lm_env (ps_storage objs)" using open_ok [OF laws, of "lm_env (ps_storage objs)"] Cons.prems(1) by auto
    then show ?thesis using Cons.IH [of o'] Cons.prems Restart by simp
  qed
qed simp

text \<open>One value for each identifier.\<close>

definition consistent :: "(bytes \<times> bytes) list \<Rightarrow> bool" where
  "consistent items \<longleftrightarrow> (\<forall>k v w. (k, v) \<in> set items \<and> (k, w) \<in> set items \<longrightarrow> v = w)"

lemma map_of_same_set:
  assumes "set xs = set ys" "consistent xs"
  shows "map_of xs = map_of ys"
proof -
  have "map_of zs k = Some v \<longleftrightarrow> (k, v) \<in> set xs" if zs: "set zs = set xs" for zs k v
  proof
    assume "map_of zs k = Some v"
    then show "(k, v) \<in> set xs" using map_of_SomeD zs by metis
  next
    assume kv: "(k, v) \<in> set xs"
    then obtain w where w: "map_of zs k = Some w" using weak_map_of_SomeI [of k v zs] zs by auto
    then have "(k, w) \<in> set xs" using map_of_SomeD zs by metis
    then show "map_of zs k = Some v" using assms(2) kv w unfolding consistent_def by metis
  qed
  then show ?thesis using assms(1) by (intro ext option_eqI) simp
qed

section \<open>Properties\<close>

text \<open>
  C17. Adding one object, for every outcome of every call of LMDB: all references to the storage that the operation takes
  are given back, the generator of identifiers and the removed identifiers stay; an error leaves the objects as they
  were; with \<open>MDV_OK\<close> and a put that did not fail, the object is there unless its identifier was removed or
  already has an object, which keeps its value. Reading an object afterwards gives back exactly what the set holds.
\<close>
theorem twopset_add_get:
  assumes "lmdb_laws ints eng"
  shows "(\<forall>ok err objs'. mdv_2pset_add eng ok objs k v = (err, objs') \<longrightarrow>
      same_frame eng objs objs' \<and> (err \<noteq> MDV_OK \<or> \<not> ok 3 \<longrightarrow> objects eng objs' = objects eng objs) \<and>
      (err = MDV_OK \<and> ok 3 \<longrightarrow> objects eng objs' = twopset_after (removed eng objs) [(k, v)] (objects eng objs))) \<and>
    (\<forall>ok r objs'. mdv_2pset_get eng ok objs k restore = (r, objs') \<longrightarrow> objs' = objs) \<and>
    (mdb_dbi eng (lm_env (ps_storage objs)) MDV_MAP_OBJECTS \<and> mdb_dbi eng (lm_env (ps_storage objs)) MDV_MAP_REMOVED \<longrightarrow>
      fst (mdv_2pset_get eng (\<lambda>_. True) objs k restore) =
        (if k \<in> removed eng objs then None else case objects eng objs k of None \<Rightarrow> None | Some v \<Rightarrow> restore v))"
  using add_ok [OF assms] get_ok [OF assms] by blast

definition empty_2pset :: "alists mdv_2pset" where
  "empty_2pset = \<lparr>ps_storage = \<lparr>lm_ref_counter = 1, lm_env = (\<lambda>_. None)\<rparr>, ps_idgen = 0\<rparr>"

theorem twopset_add_get_witness:
  "objects alist_mdb (snd (mdv_2pset_add alist_mdb (\<lambda>_. True) empty_2pset [1] [2])) [1] = Some [2]"
proof -
  have "fst (mdv_2pset_add alist_mdb (\<lambda>_. True) empty_2pset [1] [2]) = MDV_OK"
    by (simp add: mdv_2pset_add_def open_maps_def map_open_defs empty_2pset_def mdv_objects_is_deleted_def mdv_map_put_unique_def
        mdv_map_put_impl_def lmdb_simps alist_mdb_def content_def)
  then obtain objs' where r: "mdv_2pset_add alist_mdb (\<lambda>_. True) empty_2pset [1] [2] = (MDV_OK, objs')" by (metis prod.collapse)
  have "objects alist_mdb objs' = twopset_after (removed alist_mdb empty_2pset) [([1], [2])] (objects alist_mdb empty_2pset)"
    using twopset_add_get [OF alist_laws, of empty_2pset "[1]" "[2]"] r by blast
  then show ?thesis using r by (simp add: twopset_after_def objects_def removed_def empty_2pset_def alist_mdb_def content_def)
qed

text \<open>
  C9. Replicas converge: two sets that hold the same objects and removed identifiers hold the same objects again after
  they got the same items, whatever the order of the items and their division into transactions, when one identifier
  comes with one value and no item has a removed identifier.
\<close>
theorem twopset_converges:
  assumes "lmdb_laws ints eng" "objects eng a = objects eng b" "removed eng a = removed eng b"
    "set xs = set ys" "consistent xs"
    "fst ` set xs \<inter> removed eng a = {}" "xs = xs1 @ xs2"
  shows "\<exists>a1 a2 b'. mdv_2pset_add_batch eng (\<lambda>_. True) (\<lambda>_. True) a xs1 = (MDV_OK, a1) \<and>
    mdv_2pset_add_batch eng (\<lambda>_. True) (\<lambda>_. True) a1 xs2 = (MDV_OK, a2) \<and>
    mdv_2pset_add_batch eng (\<lambda>_. True) (\<lambda>_. True) b ys = (MDV_OK, b') \<and>
    objects eng a2 = objects eng b' \<and> removed eng a2 = removed eng b'"
proof -
  obtain a1 where a1: "mdv_2pset_add_batch eng (\<lambda>_. True) (\<lambda>_. True) a xs1 = (MDV_OK, a1)" "same_frame eng a a1"
    "objects eng a1 = twopset_after (removed eng a) xs1 (objects eng a)"
    using add_batch_ok [OF assms(1), of xs1 a] assms(6,7) by auto
  have ra: "removed eng a1 = removed eng a" using a1(2) by (simp add: same_frame_def)
  obtain a2 where a2: "mdv_2pset_add_batch eng (\<lambda>_. True) (\<lambda>_. True) a1 xs2 = (MDV_OK, a2)" "same_frame eng a1 a2"
    "objects eng a2 = twopset_after (removed eng a) xs2 (objects eng a1)"
    using add_batch_ok [OF assms(1), of xs2 a1] assms(6,7) ra by auto
  obtain b' where b': "mdv_2pset_add_batch eng (\<lambda>_. True) (\<lambda>_. True) b ys = (MDV_OK, b')" "same_frame eng b b'"
    "objects eng b' = twopset_after (removed eng a) ys (objects eng a)"
    using add_batch_ok [OF assms(1), of ys b] assms(2,3,4,6) by auto
  have "map_of xs = map_of ys" using assms(4,5) by (rule map_of_same_set)
  then have "map_of ys k = (case map_of xs1 k of None \<Rightarrow> map_of xs2 k | Some v \<Rightarrow> Some v)" for k
    unfolding assms(7) by (metis map_of_append map_add_def)
  then have "twopset_after (removed eng a) xs2 (twopset_after (removed eng a) xs1 (objects eng a)) = twopset_after (removed eng a) ys (objects eng a)"
    by (intro ext) (simp add: twopset_after_def split: option.splits)
  then show ?thesis using a1 a2 b' assms(3) by (auto simp: same_frame_def)
qed

theorem twopset_converges_witness:
  "\<exists>a1 a2 b'. mdv_2pset_add_batch alist_mdb (\<lambda>_. True) (\<lambda>_. True) empty_2pset [([1], [2])] = (MDV_OK, a1) \<and>
    mdv_2pset_add_batch alist_mdb (\<lambda>_. True) (\<lambda>_. True) a1 [([3], [4])] = (MDV_OK, a2) \<and>
    mdv_2pset_add_batch alist_mdb (\<lambda>_. True) (\<lambda>_. True) empty_2pset [([3], [4]), ([1], [2])] = (MDV_OK, b') \<and>
    objects alist_mdb a2 = objects alist_mdb b'"
proof -
  have r: "fst ` set [([1], [2]), ([3], [4])] \<inter> removed alist_mdb empty_2pset = {}"
    by (simp add: removed_def empty_2pset_def alist_mdb_def content_def)
  have e: "set [([1], [2]), ([3], [4])] = set [([3], [4]), ([1 :: u8], [2 :: u8])]" by auto
  have f: "consistent [([1], [2]), ([3], [4])]" by (auto simp: consistent_def)
  have s: "[([1], [2]), ([3], [4])] = [([1 :: u8], [2 :: u8])] @ [([3], [4])]" by simp
  show ?thesis using twopset_converges [OF alist_laws refl refl e f r s] by blast
qed




definition removed_2pset :: "alists mdv_2pset" where
  "removed_2pset = \<lparr>ps_storage = \<lparr>lm_ref_counter = 1, lm_env = [''REMOVED'' \<mapsto> [([9], [])]]\<rparr>, ps_idgen = 0\<rparr>"


end
