(* ===== verification/Mdv_Trlog.thy ===== *)
theory Mdv_Trlog
  imports Mdv_Lmdb Mdv_Uuid
begin

text \<open>
  The transaction log of src/mdv_core/storage/mdv_trlog.c on the storage of \<open>Mdv_Lmdb\<close>, and the loop of
  src/mdv_core/storage/mdv_tablespace.c that applies it. Operations are byte strings with their identifier; \<open>ok i\<close> is the
  outcome of the fallible call number \<open>i\<close> of a function. The notification of a change on the event bus is the last
  component of the result.
\<close>

section \<open>The code\<close>

abbreviation "MDV_MAP_TRLOG \<equiv> ''TRLOG''"
abbreviation "MDV_MAP_APPLIED \<equiv> ''APPLIED''"

type_synonym trlog_data = "u64 \<times> bytes"

record 'd mdv_trlog =
  tg_uuid :: mdv_uuid
  tg_id :: u32
  tg_storage :: "'d mdv_lmdb"
  tg_top :: u64
  tg_applied :: u64

definition MDV_TRLOG_APPLIED_POS_KEY :: bytes where
  "MDV_TRLOG_APPLIED_POS_KEY = le_bytes 4 0"

definition u64_key :: "u64 \<Rightarrow> bytes" where
  "u64_key w = le_bytes 8 (unat w)"

definition key_u64 :: "bytes \<Rightarrow> u64" where
  "key_u64 k = word_of_nat (le_val k)"

definition mdv_trlog_init :: "'d mdb \<Rightarrow> (nat \<Rightarrow> bool) \<Rightarrow> 'd mdv_trlog \<Rightarrow> 'd mdv_trlog" where
  "mdv_trlog_init eng ok trlog =
     (let trlog = trlog\<lparr>tg_top := 0, tg_applied := 0\<rparr> in
      case mdv_transaction_start (ok 0) (tg_storage trlog) of
        (db, None) \<Rightarrow> trlog\<lparr>tg_storage := db\<rparr>
      | t \<Rightarrow>
          let (top, t) = (case mdv_map_open eng (ok 1) False MDV_MAP_TRLOG t of
                            (None, t) \<Rightarrow> (0, t)
                          | (m, t) \<Rightarrow>
                              (case mdv_cursor_open_explicit eng (ok 2) MDV_MAP_TRLOG MDV_CURSOR_LAST [] t of
                                 (None, t) \<Rightarrow> (0, mdv_map_close m t)
                               | (Some (k, v), t) \<Rightarrow> (key_u64 k + 1, mdv_map_close m (mdv_cursor_close t))));
              (applied, t) = (case mdv_map_open eng (ok 3) False MDV_MAP_APPLIED t of
                                (None, t) \<Rightarrow> (0, t)
                              | (m, t) \<Rightarrow>
                                  (case mdv_map_get eng MDV_MAP_APPLIED MDV_TRLOG_APPLIED_POS_KEY t of
                                     None \<Rightarrow> 0 | Some v \<Rightarrow> key_u64 v, mdv_map_close m t))
          in trlog\<lparr>tg_top := top, tg_applied := applied, tg_storage := fst (mdv_transaction_abort t)\<rparr>)"

text \<open>Opening a storage with the content \<open>d\<close>.\<close>

definition mdv_trlog_open :: "'d mdb \<Rightarrow> (nat \<Rightarrow> bool) \<Rightarrow> 'd \<Rightarrow> mdv_uuid \<Rightarrow> u32 \<Rightarrow> 'd mdv_trlog option" where
  "mdv_trlog_open eng ok d uuid i =
     (if ok 0 \<and> ok 1 then
        let trlog = mdv_trlog_init eng (\<lambda>i. ok (i + 2))
              \<lparr>tg_uuid = uuid, tg_id = i, tg_storage = \<lparr>lm_ref_counter = 1, lm_env = d\<rparr>, tg_top = 0, tg_applied = 0\<rparr>
        in if ok 6 then Some trlog else None
      else None)"

definition mdv_trlog_new_id :: "'d mdv_trlog \<Rightarrow> u64 \<times> 'd mdv_trlog" where
  "mdv_trlog_new_id trlog = (tg_top trlog, trlog\<lparr>tg_top := tg_top trlog + 1\<rparr>)"

definition mdv_trlog_id_maximize :: "'d mdv_trlog \<Rightarrow> u64 \<Rightarrow> 'd mdv_trlog" where
  "mdv_trlog_id_maximize trlog i = (if i + 1 > tg_top trlog then trlog\<lparr>tg_top := i + 1\<rparr> else trlog)"

definition mdv_trlog_applied_pos_set :: "'d mdb \<Rightarrow> (nat \<Rightarrow> bool) \<Rightarrow> 'd mdv_trlog \<Rightarrow> u64 \<Rightarrow> 'd mdv_trlog" where
  "mdv_trlog_applied_pos_set eng ok trlog applied_pos =
     (let trlog = trlog\<lparr>tg_applied := applied_pos\<rparr> in
      case mdv_transaction_start (ok 0) (tg_storage trlog) of
        (db, None) \<Rightarrow> trlog\<lparr>tg_storage := db\<rparr>
      | t \<Rightarrow>
          case mdv_map_open eng (ok 1) True MDV_MAP_APPLIED t of
            (None, t) \<Rightarrow> trlog\<lparr>tg_storage := fst (mdv_transaction_abort t)\<rparr>
          | (m, t) \<Rightarrow>
              (case mdv_map_put eng (ok 2) MDV_MAP_APPLIED MDV_TRLOG_APPLIED_POS_KEY (u64_key applied_pos) t of
                 (True, t) \<Rightarrow> trlog\<lparr>tg_storage := fst (mdv_map_close m (snd (mdv_transaction_commit (ok 3) t)))\<rparr>
               | (False, t) \<Rightarrow> trlog\<lparr>tg_storage := fst (mdv_transaction_abort (mdv_map_close m t))\<rparr>))"

text \<open>The loop over the operations of a peer; \<open>put i\<close> is the outcome of the put of operation \<open>i\<close>.\<close>

fun trlog_add_loop :: "'d mdb \<Rightarrow> (nat \<Rightarrow> bool) \<Rightarrow> nat \<Rightarrow> trlog_data list \<Rightarrow> bool \<Rightarrow> 'd mdv_trlog \<Rightarrow> 'd txn \<Rightarrow> bool \<times> 'd mdv_trlog \<times> 'd txn" where
  "trlog_add_loop eng put i [] changed trlog t = (changed, trlog, t)"
| "trlog_add_loop eng put i ((op_id, op) # ops) changed trlog t =
     (case mdv_map_put_unique eng (put i) MDV_MAP_TRLOG (u64_key op_id) op t of
        (True, t) \<Rightarrow> trlog_add_loop eng put (i + 1) ops True (mdv_trlog_id_maximize trlog op_id) t
      | (False, t) \<Rightarrow> trlog_add_loop eng put (i + 1) ops changed trlog t)"

definition mdv_trlog_add :: "'d mdb \<Rightarrow> (nat \<Rightarrow> bool) \<Rightarrow> (nat \<Rightarrow> bool) \<Rightarrow> 'd mdv_trlog \<Rightarrow> trlog_data list \<Rightarrow> bool \<times> 'd mdv_trlog \<times> bool" where
  "mdv_trlog_add eng ok put trlog ops =
     (case mdv_transaction_start (ok 0) (tg_storage trlog) of
        (db, None) \<Rightarrow> (False, trlog\<lparr>tg_storage := db\<rparr>, False)
      | t \<Rightarrow>
          case mdv_map_open eng (ok 1) True MDV_MAP_TRLOG t of
            (None, t) \<Rightarrow> (False, trlog\<lparr>tg_storage := fst (mdv_transaction_abort t)\<rparr>, False)
          | (m, t) \<Rightarrow>
              case trlog_add_loop eng put 0 ops False trlog t of (changed, trlog, t) \<Rightarrow>
                (case mdv_transaction_commit (ok 2) t of
                   (False, t) \<Rightarrow> (False, trlog\<lparr>tg_storage := fst (mdv_transaction_abort (mdv_map_close m t))\<rparr>, False)
                 | (True, t) \<Rightarrow> (True, trlog\<lparr>tg_storage := fst (mdv_map_close m t)\<rparr>, changed)))"

definition mdv_trlog_add_op :: "'d mdb \<Rightarrow> (nat \<Rightarrow> bool) \<Rightarrow> 'd mdv_trlog \<Rightarrow> bytes \<Rightarrow> bool \<times> 'd mdv_trlog \<times> bool" where
  "mdv_trlog_add_op eng ok trlog op =
     (case mdv_transaction_start (ok 0) (tg_storage trlog) of
        (db, None) \<Rightarrow> (False, trlog\<lparr>tg_storage := db\<rparr>, False)
      | t \<Rightarrow>
          case mdv_map_open eng (ok 1) True MDV_MAP_TRLOG t of
            (None, t) \<Rightarrow> (False, trlog\<lparr>tg_storage := fst (mdv_transaction_abort t)\<rparr>, False)
          | (m, t) \<Rightarrow>
              case mdv_trlog_new_id trlog of (i, trlog) \<Rightarrow>
                (case mdv_map_put_unique eng (ok 2) MDV_MAP_TRLOG (u64_key i) op t of
                   (False, t) \<Rightarrow> (False, trlog\<lparr>tg_storage := fst (mdv_transaction_abort (mdv_map_close m t))\<rparr>, False)
                 | (True, t) \<Rightarrow>
                     (case mdv_transaction_commit (ok 3) t of
                        (False, t) \<Rightarrow> (False, trlog\<lparr>tg_storage := fst (mdv_transaction_abort (mdv_map_close m t))\<rparr>, False)
                      | (True, t) \<Rightarrow> (True, trlog\<lparr>tg_storage := fst (mdv_map_close m t)\<rparr>, True))))"

text \<open>The loop that reads at most \<open>Suc n\<close> operations, from the item at the cursor; \<open>mem i\<close> is the allocation of entry \<open>i\<close>.\<close>

fun trlog_read_loop :: "'d mdb \<Rightarrow> (nat \<Rightarrow> bool) \<Rightarrow> nat \<Rightarrow> nat \<Rightarrow> bytes \<times> bytes \<Rightarrow> 'd txn \<Rightarrow> trlog_data list" where
  "trlog_read_loop eng mem i n (k, v) t =
     (if \<not> mem i then []
      else (key_u64 k, v) #
        (case n of 0 \<Rightarrow> []
         | Suc m \<Rightarrow>
             (case mdv_cursor_get eng MDV_MAP_TRLOG MDV_CURSOR_NEXT k t of None \<Rightarrow> []
              | Some kv \<Rightarrow> trlog_read_loop eng mem (i + 1) m kv t)))"

declare trlog_read_loop.simps [simp del]

definition mdv_trlog_read :: "'d mdb \<Rightarrow> (nat \<Rightarrow> bool) \<Rightarrow> (nat \<Rightarrow> bool) \<Rightarrow> 'd mdv_trlog \<Rightarrow> u64 \<Rightarrow> nat \<Rightarrow> trlog_data list \<times> 'd mdv_trlog" where
  "mdv_trlog_read eng ok mem trlog pos batch =
     (case mdv_transaction_start (ok 0) (tg_storage trlog) of
        (db, None) \<Rightarrow> ([], trlog\<lparr>tg_storage := db\<rparr>)
      | t \<Rightarrow>
          case mdv_map_open eng (ok 1) False MDV_MAP_TRLOG t of
            (None, t) \<Rightarrow> ([], trlog\<lparr>tg_storage := fst (mdv_transaction_abort t)\<rparr>)
          | (m, t) \<Rightarrow>
              (case mdv_cursor_open_explicit eng (ok 2) MDV_MAP_TRLOG MDV_CURSOR_SET_RANGE (u64_key pos) t of
                 (None, t) \<Rightarrow> ([], trlog\<lparr>tg_storage := fst (mdv_transaction_abort (mdv_map_close m t))\<rparr>)
               | (Some kv, t) \<Rightarrow>
                   (trlog_read_loop eng mem 0 (batch - 1) kv t,
                    trlog\<lparr>tg_storage := fst (mdv_transaction_abort (mdv_map_close m (mdv_cursor_close t)))\<rparr>)))"

definition mdv_trlog_changed :: "'d mdv_trlog \<Rightarrow> bool" where
  "mdv_trlog_changed trlog = (tg_top trlog > tg_applied trlog)"

text \<open>The application of operations to a state; the function tells whether it succeeded.\<close>

fun apply_loop :: "('a \<Rightarrow> bytes \<Rightarrow> bool \<times> 'a) \<Rightarrow> 'a \<Rightarrow> u64 \<Rightarrow> nat \<Rightarrow> trlog_data list \<Rightarrow> 'a \<times> u64 \<times> nat" where
  "apply_loop fn arg pos n [] = (arg, pos, n)"
| "apply_loop fn arg pos n ((op_id, op) # ops) =
     (case fn arg op of
        (False, arg) \<Rightarrow> (arg, pos, n)
      | (True, arg) \<Rightarrow> apply_loop fn arg (op_id + 1) (n + 1) ops)"

definition mdv_trlog_apply ::
  "'d mdb \<Rightarrow> (nat \<Rightarrow> bool) \<Rightarrow> (nat \<Rightarrow> bool) \<Rightarrow> 'd mdv_trlog \<Rightarrow> nat \<Rightarrow> 'a \<Rightarrow> ('a \<Rightarrow> bytes \<Rightarrow> bool \<times> 'a) \<Rightarrow> nat \<times> 'a \<times> 'd mdv_trlog" where
  "mdv_trlog_apply eng ok mem trlog batch_size arg fn =
     (let applied_pos = tg_applied trlog in
      if applied_pos \<ge> tg_top trlog then (0, arg, trlog)
      else
        case mdv_trlog_read eng ok mem trlog applied_pos batch_size of (ops, trlog) \<Rightarrow>
          if ops = [] then (0, arg, trlog)
          else
            case apply_loop fn arg applied_pos 0 ops of (arg, new_applied_pos, n) \<Rightarrow>
              if n \<noteq> 0 then (n, arg, mdv_trlog_applied_pos_set eng (\<lambda>i. ok (i + 3)) trlog new_applied_pos)
              else (n, arg, trlog))"

text \<open>The loop of \<open>mdv_tablespace_log_apply\<close>; with a batch size of zero it does not end.\<close>

partial_function (option) mdv_tablespace_log_apply ::
  "'d mdb \<Rightarrow> 'd mdv_trlog \<Rightarrow> nat \<Rightarrow> 'a \<Rightarrow> ('a \<Rightarrow> bytes \<Rightarrow> bool \<times> 'a) \<Rightarrow> ('a \<times> 'd mdv_trlog) option" where
  "mdv_tablespace_log_apply eng trlog batch_size arg fn =
     (case mdv_trlog_apply eng (\<lambda>_. True) (\<lambda>_. True) trlog batch_size arg fn of (n, arg, trlog) \<Rightarrow>
        if n \<ge> batch_size then mdv_tablespace_log_apply eng trlog batch_size arg fn
        else Some (arg, trlog))"

section \<open>The log as a sequence\<close>

definition log_at :: "'d mdb \<Rightarrow> 'd \<Rightarrow> u64 \<Rightarrow> bytes option" where
  "log_at eng d w = mdb_get eng d MDV_MAP_TRLOG (u64_key w)"

text \<open>The operations with identifiers in a set, in their order.\<close>

definition ids_in :: "'d mdb \<Rightarrow> 'd \<Rightarrow> u64 set \<Rightarrow> u64 list" where
  "ids_in eng d S = sorted_list_of_set {w \<in> S. log_at eng d w \<noteq> None}"

definition ops_in :: "'d mdb \<Rightarrow> 'd \<Rightarrow> u64 set \<Rightarrow> trlog_data list" where
  "ops_in eng d S = map (\<lambda>w. (w, the (log_at eng d w))) (ids_in eng d S)"

definition stored_pos :: "'d mdb \<Rightarrow> 'd \<Rightarrow> u64" where
  "stored_pos eng d = (case mdb_get eng d MDV_MAP_APPLIED MDV_TRLOG_APPLIED_POS_KEY of None \<Rightarrow> 0 | Some v \<Rightarrow> key_u64 v)"

definition log_ok :: "'d mdb \<Rightarrow> 'd mdv_trlog \<Rightarrow> bool" where
  "log_ok eng trlog \<longleftrightarrow>
     (\<forall>k \<in> mdb_keys eng (lm_env (tg_storage trlog)) MDV_MAP_TRLOG. length k = 8) \<and>
     (\<forall>w. log_at eng (lm_env (tg_storage trlog)) w \<noteq> None \<longrightarrow> w < tg_top trlog) \<and>
     tg_applied trlog = stored_pos eng (lm_env (tg_storage trlog))"

lemma u64_key_inverse [simp]: "key_u64 (u64_key w) = w"
proof -
  have "unat w < 256 ^ 8" using unsigned_less [of w] by simp
  then show ?thesis by (simp add: key_u64_def u64_key_def le_val_le_bytes)
qed

lemma length_u64_key [simp]: "length (u64_key w) = 8"
  by (simp add: u64_key_def)

lemma key_u64_unat: "length k = 8 \<Longrightarrow> unat (key_u64 k) = le_val k"
  using le_val_bound [of k] by (simp add: key_u64_def unat_of_nat)

lemma key_u64_inverse: "length k = 8 \<Longrightarrow> u64_key (key_u64 k) = k"
  by (simp add: u64_key_def key_u64_unat le_bytes_le_val)

lemma u64_key_inj [simp]: "u64_key v = u64_key w \<longleftrightarrow> v = w"
  by (metis u64_key_inverse)

lemma ids_in_props [simp]: "sorted (ids_in eng d S)" "distinct (ids_in eng d S)" "set (ids_in eng d S) = {w \<in> S. log_at eng d w \<noteq> None}"
  by (simp_all add: ids_in_def)

lemma ids_in_eqI: "sorted xs \<Longrightarrow> distinct xs \<Longrightarrow> set xs = {w \<in> S. log_at eng d w \<noteq> None} \<Longrightarrow> ids_in eng d S = xs"
  by (intro sorted_distinct_set_unique) simp_all

lemma ops_in_cong: "log_at eng d = log_at eng d' \<Longrightarrow> ops_in eng d S = ops_in eng d' S"
  by (simp add: ops_in_def ids_in_def)

lemma ops_in_head:
  assumes "w \<in> S" "log_at eng d w = Some v" "\<And>x. x \<in> S \<Longrightarrow> log_at eng d x \<noteq> None \<Longrightarrow> w \<le> x" "{w<..} \<subseteq> S"
  shows "ops_in eng d S = (w, v) # ops_in eng d {w<..}"
proof -
  have "ids_in eng d S = w # ids_in eng d {w<..}"
    using assms by (intro ids_in_eqI) (auto simp: less_le)
  then show ?thesis using assms(2) by (simp add: ops_in_def)
qed

lemma drop_sorted:
  assumes "sorted xs" "distinct xs" "m < length xs"
  shows "drop (Suc m) xs = filter (\<lambda>x. xs ! m < x) (xs :: 'a :: linorder list)"
proof -
  have xs: "xs = take m xs @ xs ! m # drop (Suc m) xs" using assms(3) by (rule id_take_nth_drop)
  have sw: "sorted_wrt (<) xs" using assms(1,2) by (simp add: strict_sorted_iff)
  then have "sorted_wrt (<) (take m xs @ xs ! m # drop (Suc m) xs)" using xs by simp
  then have lt: "\<forall>x \<in> set (take m xs). x < xs ! m" "\<forall>x \<in> set (drop (Suc m) xs). xs ! m < x"
    by (auto simp: sorted_wrt_append)
  have "filter (\<lambda>x. xs ! m < x) (take m xs) = []" using lt(1) by (auto simp: filter_empty_conv)
  moreover have "filter (\<lambda>x. xs ! m < x) (drop (Suc m) xs) = drop (Suc m) xs" using lt(2) by (auto simp: filter_id_conv)
  ultimately show ?thesis by (subst (2) xs) simp
qed

lemma ops_in_drop:
  assumes "m < length (ops_in eng d {a..})"
  shows "drop (Suc m) (ops_in eng d {a..}) = ops_in eng d {fst (ops_in eng d {a..} ! m)<..}"
proof -
  let ?i = "ids_in eng d {a..}"
  have m: "m < length ?i" using assms by (simp add: ops_in_def)
  then have "?i ! m \<in> set ?i" by (rule nth_mem)
  then have am: "a \<le> ?i ! m" by (simp del: nth_mem)
  have "ids_in eng d {?i ! m<..} = filter (\<lambda>x. ?i ! m < x) ?i"
    using am by (intro ids_in_eqI) (auto intro: sorted_filter [of id, simplified])
  also have "\<dots> = drop (Suc m) ?i" by (rule drop_sorted [symmetric]) (simp_all add: m)
  finally show ?thesis using m by (simp add: ops_in_def drop_map)
qed

text \<open>What a cursor finds, as an operation.\<close>

lemma cursor_ops:
  assumes at: "at_end (\<le>) {k' \<in> mdb_keys eng d MDV_MAP_TRLOG. P (le_val k')} (mdb_get eng d MDV_MAP_TRLOG) kv"
    and keys: "\<forall>k \<in> mdb_keys eng d MDV_MAP_TRLOG. length k = 8" and up: "\<And>x y. P x \<Longrightarrow> x \<le> y \<Longrightarrow> P y"
  shows "ops_in eng d {w. P (unat w)} =
    (case kv of None \<Rightarrow> [] | Some (k, v) \<Rightarrow> (key_u64 k, v) # ops_in eng d {key_u64 k<..})"
    "\<And>k v. kv = Some (k, v) \<Longrightarrow> length k = 8"
proof -
  have mem: "u64_key w \<in> {k' \<in> mdb_keys eng d MDV_MAP_TRLOG. P (le_val k')} \<longleftrightarrow> P (unat w) \<and> log_at eng d w \<noteq> None" for w
    using key_u64_unat [of "u64_key w"] by (auto simp: mdb_keys_def log_at_def)
  show "length k = 8" if "kv = Some (k, v)" for k v using at that keys by (simp add: at_end_def)
  show "ops_in eng d {w. P (unat w)} =
    (case kv of None \<Rightarrow> [] | Some (k, v) \<Rightarrow> (key_u64 k, v) # ops_in eng d {key_u64 k<..})"
  proof (cases kv)
    case None
    then have "{k' \<in> mdb_keys eng d MDV_MAP_TRLOG. P (le_val k')} = {}" using at by (simp add: at_end_def)
    then have "{w \<in> {w. P (unat w)}. log_at eng d w \<noteq> None} = {}" using mem by blast
    then show ?thesis using None unfolding ops_in_def ids_in_def by simp
  next
    case (Some kv')
    obtain k v where kv': "kv' = (k, v)" by fastforce
    then have k: "k \<in> mdb_keys eng d MDV_MAP_TRLOG" "P (le_val k)" "mdb_get eng d MDV_MAP_TRLOG k = Some v"
      "\<forall>k' \<in> {k' \<in> mdb_keys eng d MDV_MAP_TRLOG. P (le_val k')}. le_val k \<le> le_val k'"
      using at Some by (auto simp: at_end_def)
    then have l: "length k = 8" using keys by blast
    have "key_u64 k \<le> x" if "P (unat x)" "log_at eng d x \<noteq> None" for x
      using bspec [OF k(4) mem [THEN iffD2, OF conjI [OF that]]] key_u64_unat [OF l] key_u64_unat [of "u64_key x"]
      by (simp add: word_le_nat_alt)
    moreover have "{key_u64 k<..} \<subseteq> {w. P (unat w)}"
      using up [OF k(2)] key_u64_unat [OF l] by (auto simp: word_less_nat_alt)
    ultimately show ?thesis
      using k l ops_in_head [of "key_u64 k" "{w. P (unat w)}" eng d v] by (simp add: Some kv' log_at_def key_u64_inverse key_u64_unat)
  qed
qed

lemma read_loop_ok:
  assumes laws: "lmdb_laws ints eng" "MDV_MAP_TRLOG \<in> ints" and keys: "\<forall>k \<in> mdb_keys eng d MDV_MAP_TRLOG. length k = 8"
  shows "length k = 8 \<Longrightarrow> trlog_read_loop eng (\<lambda>_. True) i n (k, v) (db, Some d) =
    take (Suc n) ((key_u64 k, v) # ops_in eng d {key_u64 k<..})"
proof (induction n arbitrary: i k v)
  case 0
  then show ?case by (simp add: trlog_read_loop.simps)
next
  case (Suc n)
  note c = lmdb_laws_cursor [OF laws keys]
  have "at_end (\<le>) {k' \<in> mdb_keys eng d MDV_MAP_TRLOG. le_val k < le_val k'} (mdb_get eng d MDV_MAP_TRLOG)
      (mdb_cursor_get eng d MDV_MAP_TRLOG MDV_CURSOR_NEXT k)" using c by (simp add: cursor_laws_def)
  note o = cursor_ops [OF this keys]
  have "{w. le_val k < unat w} = {key_u64 k<..}" using key_u64_unat [OF Suc.prems] by (auto simp: word_less_nat_alt)
  then show ?case using o Suc
    by (subst trlog_read_loop.simps) (auto simp: mdv_cursor_get_def split: option.splits)
qed

lemmas trlog_txn_defs = mdv_transaction_start_def mdv_map_open_def mdv_cursor_open_explicit_def mdv_cursor_get_def

lemma unat_atLeast: "{w :: u64. unat a \<le> unat w} = {a..}"
  by (auto simp: word_le_nat_alt)

lemma log_read_ok:
  assumes laws: "lmdb_laws ints eng" "MDV_MAP_TRLOG \<in> ints" and ok: "log_ok eng trlog"
  shows "mdv_trlog_read eng (\<lambda>_. True) (\<lambda>_. True) trlog pos batch =
    (take (Suc (batch - 1)) (ops_in eng (lm_env (tg_storage trlog)) {pos..}), trlog)"
proof -
  let ?d = "lm_env (tg_storage trlog)" and ?kv = "mdb_cursor_get eng (lm_env (tg_storage trlog)) MDV_MAP_TRLOG MDV_CURSOR_SET_RANGE (u64_key pos)"
  have keys: "\<forall>k \<in> mdb_keys eng ?d MDV_MAP_TRLOG. length k = 8" using ok by (simp add: log_ok_def)
  have "at_end (\<le>) {k' \<in> mdb_keys eng ?d MDV_MAP_TRLOG. le_val (u64_key pos) \<le> le_val k'} (mdb_get eng ?d MDV_MAP_TRLOG) ?kv"
    using lmdb_laws_cursor [OF laws keys] by (simp add: cursor_laws_def)
  note o = cursor_ops [OF this keys]
  have pos: "le_val (u64_key pos) = unat pos" using key_u64_unat [of "u64_key pos"] by simp
  show ?thesis
  proof (cases "mdb_dbi eng ?d MDV_MAP_TRLOG")
    case False
    then have "ops_in eng ?d {pos..} = []" using lmdb_laws_simps(5) [OF laws(1)] by (simp add: ops_in_def ids_in_def log_at_def)
    then show ?thesis using False by (simp add: mdv_trlog_read_def trlog_txn_defs lmdb_simps)
  next
    case True
    show ?thesis
    proof (cases ?kv)
      case None
      then show ?thesis using True o(1) unfolding pos unat_atLeast
        by (simp add: mdv_trlog_read_def trlog_txn_defs lmdb_simps Let_def)
    next
      case (Some kv)
      obtain k v where kv: "kv = (k, v)" by fastforce
      have "mdv_trlog_read eng (\<lambda>_. True) (\<lambda>_. True) trlog pos batch =
          (trlog_read_loop eng (\<lambda>_. True) 0 (batch - 1) (k, v) (mdv_storage_retain (mdv_storage_retain (mdv_storage_retain (tg_storage trlog))), Some ?d), trlog)"
        using True Some kv by (simp add: mdv_trlog_read_def trlog_txn_defs lmdb_simps Let_def)
      then show ?thesis using read_loop_ok [OF laws keys, of k] o Some kv unfolding pos unat_atLeast by simp
    qed
  qed
qed

lemma pos_set_ok:
  assumes laws: "lmdb_laws ints eng" and ok: "log_ok eng trlog"
  shows "\<exists>d'. mdv_trlog_applied_pos_set eng (\<lambda>_. True) trlog p = trlog\<lparr>tg_applied := p, tg_storage := (tg_storage trlog)\<lparr>lm_env := d'\<rparr>\<rparr> \<and>
    mdb_get eng d' MDV_MAP_TRLOG = mdb_get eng (lm_env (tg_storage trlog)) MDV_MAP_TRLOG \<and> stored_pos eng d' = p"
  using lmdb_laws_simps [OF laws]
  by (auto simp: mdv_trlog_applied_pos_set_def trlog_txn_defs mdv_map_put_def mdv_map_put_impl_def lmdb_simps Let_def stored_pos_def fun_eq_iff)

text \<open>Running operations until one fails, and how many succeeded.\<close>

fun run_ops :: "('a \<Rightarrow> bytes \<Rightarrow> bool \<times> 'a) \<Rightarrow> 'a \<Rightarrow> bytes list \<Rightarrow> 'a \<times> nat" where
  "run_ops fn arg [] = (arg, 0)"
| "run_ops fn arg (op # ops) =
     (case fn arg op of (False, arg) \<Rightarrow> (arg, 0)
      | (True, arg) \<Rightarrow> (case run_ops fn arg ops of (arg, n) \<Rightarrow> (arg, Suc n)))"

lemma apply_loop_run:
  "apply_loop fn arg pos n ops = (case run_ops fn arg (map snd ops) of (arg', m) \<Rightarrow>
     (arg', if m = 0 then pos else fst (ops ! (m - 1)) + 1, n + m))"
proof (induction ops arbitrary: arg pos n)
  case (Cons x ops)
  obtain i op where x: "x = (i, op)" by fastforce
  obtain b a where "fn arg op = (b, a)" by fastforce
  then show ?case using Cons x by (cases b) (auto simp: nth_Cons' split: prod.splits)
qed simp

lemma run_ops_le: "snd (run_ops fn arg ops) \<le> length ops"
  by (induction ops arbitrary: arg) (auto split: prod.splits bool.splits, metis snd_conv)

lemma run_ops_take:
  "run_ops fn arg ops = (case run_ops fn arg (take b ops) of (arg', m) \<Rightarrow>
     if m < b then (arg', m) else (case run_ops fn arg' (drop b ops) of (arg'', m') \<Rightarrow> (arg'', m + m')))"
proof (induction b arbitrary: arg ops)
  case (Suc b)
  show ?case
  proof (cases ops)
    case (Cons op ops')
    obtain s a where "fn arg op = (s, a)" by fastforce
    then show ?thesis using Suc.IH [of a ops'] Cons by (cases s) (auto split: prod.splits)
  qed simp
qed (simp split: prod.splits)

lemma log_batch_ok:
  assumes laws: "lmdb_laws ints eng" "MDV_MAP_TRLOG \<in> ints" and ok: "log_ok eng trlog"
  defines "ops \<equiv> ops_in eng (lm_env (tg_storage trlog)) {tg_applied trlog..}"
  assumes r: "run_ops fn arg (map snd (take (Suc (batch - 1)) ops)) = (arg', m)"
  shows "\<exists>trlog'. mdv_trlog_apply eng (\<lambda>_. True) (\<lambda>_. True) trlog batch arg fn = (m, arg', trlog') \<and> log_ok eng trlog' \<and>
    lm_ref_counter (tg_storage trlog') = lm_ref_counter (tg_storage trlog) \<and>
    log_at eng (lm_env (tg_storage trlog')) = log_at eng (lm_env (tg_storage trlog)) \<and>
    ops_in eng (lm_env (tg_storage trlog')) {tg_applied trlog'..} = drop m ops"
proof (cases "ops = []")
  case True
  then have "m = 0" "arg' = arg" using r by auto
  then show ?thesis using True ok log_read_ok [OF laws ok] ops_def by (simp add: mdv_trlog_apply_def Let_def)
next
  case False
  let ?d = "lm_env (tg_storage trlog)"
  have top: "w < tg_top trlog" "w \<in> {tg_applied trlog..}" if "w \<in> fst ` set ops" for w
    using that ok by (auto simp: ops_def ops_in_def log_ok_def)
  obtain w where "w \<in> fst ` set ops" using False by (cases ops) auto
  then have lt: "\<not> tg_top trlog \<le> tg_applied trlog" using top by fastforce
  have rd: "mdv_trlog_read eng (\<lambda>_. True) (\<lambda>_. True) trlog (tg_applied trlog) batch = (take (Suc (batch - 1)) ops, trlog)"
    using log_read_ok [OF laws ok] by (simp add: ops_def)
  show ?thesis
  proof (cases m)
    case 0
    then show ?thesis using lt rd r False ok by (auto simp: mdv_trlog_apply_def Let_def apply_loop_run ops_def)
  next
    case (Suc m')
    have "m \<le> length (take (Suc (batch - 1)) ops)" using run_ops_le [of fn arg "map snd (take (Suc (batch - 1)) ops)"] r by simp
    then have m: "m' < length ops" "take (Suc (batch - 1)) ops ! m' = ops ! m'" using Suc by auto
    let ?i = "fst (ops ! m')"
    obtain d' where d': "mdv_trlog_applied_pos_set eng (\<lambda>_. True) trlog (?i + 1) = trlog\<lparr>tg_applied := ?i + 1, tg_storage := (tg_storage trlog)\<lparr>lm_env := d'\<rparr>\<rparr>"
      "mdb_get eng d' MDV_MAP_TRLOG = mdb_get eng ?d MDV_MAP_TRLOG" "stored_pos eng d' = ?i + 1" using pos_set_ok [OF laws(1) ok] by blast
    have la: "log_at eng d' = log_at eng ?d" by (simp add: log_at_def fun_eq_iff d'(2))
    have "?i < tg_top trlog" using top(1) m(1) by simp
    moreover have "unat (tg_top trlog) < 2 ^ 64" using unsigned_less [of "tg_top trlog"] by simp
    ultimately have "unat (?i + 1) = unat ?i + 1" by (simp add: word_less_nat_alt unat_word_ariths)
    then have "{?i + 1..} = {?i<..}" by (auto simp: word_le_nat_alt word_less_nat_alt)
    then have "ops_in eng d' {?i + 1..} = drop m ops"
      using ops_in_drop [of m' eng ?d "tg_applied trlog"] m(1) Suc ops_in_cong [OF la] by (simp add: ops_def)
    moreover have "mdv_trlog_apply eng (\<lambda>_. True) (\<lambda>_. True) trlog batch arg fn =
        (m, arg', trlog\<lparr>tg_applied := ?i + 1, tg_storage := (tg_storage trlog)\<lparr>lm_env := d'\<rparr>\<rparr>)"
      using lt rd r False Suc m(2) d'(1) by (simp add: mdv_trlog_apply_def Let_def apply_loop_run)
    moreover have "log_ok eng (trlog\<lparr>tg_applied := ?i + 1, tg_storage := (tg_storage trlog)\<lparr>lm_env := d'\<rparr>\<rparr>)"
      using ok la d'(2,3) by (simp add: log_ok_def mdb_keys_def)
    ultimately show ?thesis using la by simp
  qed
qed

lemma log_apply_ok:
  assumes laws: "lmdb_laws ints eng" "MDV_MAP_TRLOG \<in> ints" and b: "0 < batch"
  shows "log_ok eng trlog \<Longrightarrow> ops = ops_in eng (lm_env (tg_storage trlog)) {tg_applied trlog..} \<Longrightarrow>
    run_ops fn arg (map snd ops) = (arg', m) \<Longrightarrow>
    \<exists>trlog'. mdv_tablespace_log_apply eng trlog batch arg fn = Some (arg', trlog') \<and> log_ok eng trlog' \<and>
      lm_ref_counter (tg_storage trlog') = lm_ref_counter (tg_storage trlog) \<and>
      log_at eng (lm_env (tg_storage trlog')) = log_at eng (lm_env (tg_storage trlog)) \<and>
      ops_in eng (lm_env (tg_storage trlog')) {tg_applied trlog'..} = drop m ops"
proof (induction "length ops" arbitrary: trlog ops arg m rule: less_induct)
  case less
  obtain a1 m1 where r1: "run_ops fn arg (map snd (take batch ops)) = (a1, m1)" by fastforce
  then obtain t1 where t1: "mdv_trlog_apply eng (\<lambda>_. True) (\<lambda>_. True) trlog batch arg fn = (m1, a1, t1)" "log_ok eng t1"
    "lm_ref_counter (tg_storage t1) = lm_ref_counter (tg_storage trlog)" "log_at eng (lm_env (tg_storage t1)) = log_at eng (lm_env (tg_storage trlog))"
    "ops_in eng (lm_env (tg_storage t1)) {tg_applied t1..} = drop m1 ops"
    using log_batch_ok [OF laws less.prems(1), of fn arg batch a1 m1] less.prems(2) b by auto
  have whole: "run_ops fn arg (map snd ops) = (if m1 < batch then (a1, m1) else
      case run_ops fn a1 (map snd (drop batch ops)) of (a2, m2) \<Rightarrow> (a2, m1 + m2))"
    using run_ops_take [of fn arg "map snd ops" batch] r1 by (simp add: take_map drop_map)
  have "m1 \<le> batch" "m1 \<le> length ops" using run_ops_le [of fn arg "map snd (take batch ops)"] r1 by simp_all
  show ?case
  proof (cases "m1 < batch")
    case True
    then have "mdv_tablespace_log_apply eng trlog batch arg fn = Some (a1, t1)"
      using t1(1) by (subst mdv_tablespace_log_apply.simps) simp
    then show ?thesis using True whole less.prems(3) t1 by simp
  next
    case False
    then have m1: "m1 = batch" using \<open>m1 \<le> batch\<close> by simp
    obtain a2 m2 where r2: "run_ops fn a1 (map snd (drop m1 ops)) = (a2, m2)" by fastforce
    then have eq: "arg' = a2" "m = m1 + m2" using whole False less.prems(3) m1 by simp_all
    have "length (drop m1 ops) < length ops" using m1 b \<open>m1 \<le> length ops\<close> by simp
    from less.hyps [OF this t1(2) t1(5) [symmetric], of a1 m2] r2 eq(1) obtain t2 where
      "mdv_tablespace_log_apply eng t1 batch a1 fn = Some (arg', t2)" "log_ok eng t2"
      "lm_ref_counter (tg_storage t2) = lm_ref_counter (tg_storage t1)" "log_at eng (lm_env (tg_storage t2)) = log_at eng (lm_env (tg_storage t1))"
      "ops_in eng (lm_env (tg_storage t2)) {tg_applied t2..} = drop m2 (drop m1 ops)" by auto
    moreover have "mdv_tablespace_log_apply eng trlog batch arg fn = mdv_tablespace_log_apply eng t1 batch a1 fn"
      using t1(1) m1 by (subst mdv_tablespace_log_apply.simps) simp
    ultimately show ?thesis using t1(3,4) eq(2) by (simp add: add.commute)
  qed
qed

section \<open>Adding operations\<close>

text \<open>Identifiers are below the largest 64-bit number, so that the next one exists.\<close>

lemma succ_gt:
  assumes "i \<noteq> -1"
  shows "i < i + (1 :: u64)"
proof -
  have "unat i \<noteq> unat (-1 :: u64)" using assms by (simp only: unsigned_word_eqI word_unat_eq_iff not_False_eq_True)
  moreover have "unat i < 2 ^ 64" using unsigned_less [of i] by simp
  moreover have "unat (-1 :: u64) = 2 ^ 64 - 1" by (simp add: unsigned_minus_1_eq_mask mask_eq_exp_minus_1)
  ultimately show ?thesis by (simp add: word_less_nat_alt unat_word_ariths)
qed

lemma add_loop_ok:
  assumes laws: "lmdb_laws ints eng"
  shows "mdb_dbi eng d MDV_MAP_TRLOG \<Longrightarrow> list_all (\<lambda>(i, op). i \<noteq> -1) ops \<Longrightarrow>
    (\<And>w. log_at eng d w \<noteq> None \<Longrightarrow> w < tg_top trlog) \<Longrightarrow> \<forall>k \<in> mdb_keys eng d MDV_MAP_TRLOG. length k = 8 \<Longrightarrow>
    \<exists>changed' top' d'. trlog_add_loop eng (\<lambda>_. True) n ops changed trlog (db, Some d) = (changed', trlog\<lparr>tg_top := top'\<rparr>, db, Some d') \<and>
      (\<forall>w. log_at eng d' w = (case log_at eng d w of None \<Rightarrow> map_of ops w | Some v \<Rightarrow> Some v)) \<and>
      (\<forall>w. log_at eng d' w \<noteq> None \<longrightarrow> w < top') \<and> (\<forall>k \<in> mdb_keys eng d' MDV_MAP_TRLOG. length k = 8) \<and>
      stored_pos eng d' = stored_pos eng d \<and> (changed' \<longleftrightarrow> changed \<or> (\<exists>w. log_at eng d w = None \<and> map_of ops w \<noteq> None))"
proof (induction ops arbitrary: n changed trlog d)
  case Nil
  then show ?case by (intro exI [of _ changed] exI [of _ "tg_top trlog"] exI [of _ d]) (auto split: option.splits)
next
  case (Cons x ops)
  obtain i op where x: "x = (i, op)" by fastforce
  note s = lmdb_laws_simps [OF laws]
  show ?case
  proof (cases "log_at eng d i")
    case None
    let ?d = "mdb_put eng d MDV_MAP_TRLOG (u64_key i) op" and ?t = "mdv_trlog_id_maximize trlog i"
    have la: "log_at eng ?d w = (if w = i then Some op else log_at eng d w)" for w using s(4) [OF Cons.prems(1)] by (simp add: log_at_def)
    have t: "?t = trlog\<lparr>tg_top := tg_top ?t\<rparr>" "i < tg_top ?t" "tg_top trlog \<le> tg_top ?t"
      using succ_gt [of i] Cons.prems(2) x by (auto simp: mdv_trlog_id_maximize_def)
    have "w < tg_top ?t" if "log_at eng ?d w \<noteq> None" for w
      using that la t(2,3) Cons.prems(3) [of w] by (auto split: if_splits)
    moreover have "\<forall>k \<in> mdb_keys eng ?d MDV_MAP_TRLOG. length k = 8"
      using Cons.prems(4) s(4) [OF Cons.prems(1)] by (auto simp: mdb_keys_def split: if_splits)
    moreover have "mdb_dbi eng ?d MDV_MAP_TRLOG" using Cons.prems(1) s(3) by simp
    ultimately obtain c' top' d' where IH:
      "trlog_add_loop eng (\<lambda>_. True) (n + 1) ops True ?t (db, Some ?d) = (c', ?t\<lparr>tg_top := top'\<rparr>, db, Some d')"
      "\<forall>w. log_at eng d' w = (case log_at eng ?d w of None \<Rightarrow> map_of ops w | Some v \<Rightarrow> Some v)"
      "\<forall>w. log_at eng d' w \<noteq> None \<longrightarrow> w < top'" "\<forall>k \<in> mdb_keys eng d' MDV_MAP_TRLOG. length k = 8"
      "stored_pos eng d' = stored_pos eng ?d" "c'"
      using Cons.IH [of ?d ?t "n + 1" True] Cons.prems(2) x by auto
    have "trlog_add_loop eng (\<lambda>_. True) n (x # ops) changed trlog (db, Some d) = (c', trlog\<lparr>tg_top := top'\<rparr>, db, Some d')"
      using IH(1) None t(1) by (simp add: x mdv_map_put_unique_def mdv_map_put_impl_def log_at_def) (metis (no_types) mdv_trlog.update_convs(4) mdv_trlog.surjective)
    moreover have "stored_pos eng ?d = stored_pos eng d" using s(4) [OF Cons.prems(1)] by (simp add: stored_pos_def)
    moreover have "(case log_at eng ?d w of None \<Rightarrow> map_of ops w | Some v \<Rightarrow> Some v) = (case log_at eng d w of None \<Rightarrow> map_of (x # ops) w | Some v \<Rightarrow> Some v)" for w
      using la None x by (auto split: option.splits)
    moreover have "\<exists>w. log_at eng d w = None \<and> map_of (x # ops) w \<noteq> None" using None x by (intro exI [of _ i]) simp
    ultimately show ?thesis using IH(2-6) by (intro exI [of _ c'] exI [of _ top'] exI [of _ d']) simp
  next
    case (Some v)
    then have "mdv_map_put_unique eng True MDV_MAP_TRLOG (u64_key i) op (db, Some d) = (False, db, Some d)"
      by (simp add: mdv_map_put_unique_def mdv_map_put_impl_def log_at_def)
    then have step: "trlog_add_loop eng (\<lambda>_. True) n (x # ops) changed trlog (db, Some d) =
        trlog_add_loop eng (\<lambda>_. True) (n + 1) ops changed trlog (db, Some d)" by (simp add: x)
    have cs: "(case log_at eng d w of None \<Rightarrow> map_of (x # ops) w | Some v \<Rightarrow> Some v) = (case log_at eng d w of None \<Rightarrow> map_of ops w | Some v \<Rightarrow> Some v)" for w
      using Some x by (auto split: option.splits)
    have ch: "(\<exists>w. log_at eng d w = None \<and> map_of (x # ops) w \<noteq> None) \<longleftrightarrow> (\<exists>w. log_at eng d w = None \<and> map_of ops w \<noteq> None)"
      using Some x by (intro ex_cong1) auto
    show ?thesis unfolding step cs ch using Cons x by simp
  qed
qed

lemma log_add_ok:
  assumes laws: "lmdb_laws ints eng" and ok: "log_ok eng trlog" and ids: "list_all (\<lambda>(i, op). i \<noteq> -1) ops"
  shows "\<exists>trlog' changed. mdv_trlog_add eng (\<lambda>_. True) (\<lambda>_. True) trlog ops = (True, trlog', changed) \<and> log_ok eng trlog' \<and>
    tg_applied trlog' = tg_applied trlog \<and> lm_ref_counter (tg_storage trlog') = lm_ref_counter (tg_storage trlog) \<and>
    (\<forall>w. log_at eng (lm_env (tg_storage trlog')) w =
       (case log_at eng (lm_env (tg_storage trlog)) w of None \<Rightarrow> map_of ops w | Some v \<Rightarrow> Some v)) \<and>
    (changed \<longleftrightarrow> (\<exists>w. log_at eng (lm_env (tg_storage trlog)) w = None \<and> map_of ops w \<noteq> None))"
proof -
  let ?d = "lm_env (tg_storage trlog)"
  let ?d1 = "mdb_dbi_open eng ?d MDV_MAP_TRLOG" and ?db = "mdv_storage_retain (mdv_storage_retain (tg_storage trlog))"
  note s = lmdb_laws_simps [OF laws]
  have la: "log_at eng ?d1 = log_at eng ?d" "stored_pos eng ?d1 = stored_pos eng ?d" "mdb_keys eng ?d1 = mdb_keys eng ?d"
    using s(2) by (simp_all add: log_at_def stored_pos_def mdb_keys_def fun_eq_iff)
  obtain c top' d' where l: "trlog_add_loop eng (\<lambda>_. True) 0 ops False trlog (?db, Some ?d1) = (c, trlog\<lparr>tg_top := top'\<rparr>, ?db, Some d')"
    "\<forall>w. log_at eng d' w = (case log_at eng ?d w of None \<Rightarrow> map_of ops w | Some v \<Rightarrow> Some v)"
    "\<forall>w. log_at eng d' w \<noteq> None \<longrightarrow> w < top'" "\<forall>k \<in> mdb_keys eng d' MDV_MAP_TRLOG. length k = 8"
    "stored_pos eng d' = stored_pos eng ?d" "c \<longleftrightarrow> (\<exists>w. log_at eng ?d w = None \<and> map_of ops w \<noteq> None)"
    using add_loop_ok [OF laws, of ?d1 ops trlog 0 False ?db] ids ok s(1) unfolding la by (auto simp: log_ok_def)
  have "mdv_trlog_add eng (\<lambda>_. True) (\<lambda>_. True) trlog ops =
      (True, trlog\<lparr>tg_top := top', tg_storage := (tg_storage trlog)\<lparr>lm_env := d'\<rparr>\<rparr>, c)"
    using l(1) by (simp add: mdv_trlog_add_def trlog_txn_defs lmdb_simps)
  moreover have "log_ok eng (trlog\<lparr>tg_top := top', tg_storage := (tg_storage trlog)\<lparr>lm_env := d'\<rparr>\<rparr>)"
    using l(3-5) ok by (simp add: log_ok_def)
  ultimately show ?thesis using l(2,6) by simp
qed

lemma log_add_op_ok:
  assumes laws: "lmdb_laws ints eng" and ok: "log_ok eng trlog" and top: "tg_top trlog \<noteq> -1"
  shows "\<exists>trlog'. mdv_trlog_add_op eng (\<lambda>_. True) trlog op = (True, trlog', True) \<and> log_ok eng trlog' \<and>
    tg_applied trlog' = tg_applied trlog \<and> lm_ref_counter (tg_storage trlog') = lm_ref_counter (tg_storage trlog) \<and>
    log_at eng (lm_env (tg_storage trlog')) = (log_at eng (lm_env (tg_storage trlog)))(tg_top trlog \<mapsto> op)"
proof -
  let ?d = "lm_env (tg_storage trlog)" and ?i = "tg_top trlog"
  note s = lmdb_laws_simps [OF laws]
  define d' where "d' = mdb_put eng (mdb_dbi_open eng ?d MDV_MAP_TRLOG) MDV_MAP_TRLOG (u64_key ?i) op"
  have new: "log_at eng ?d ?i = None" using ok by (auto simp: log_ok_def)
  have la: "log_at eng d' = (log_at eng ?d)(?i \<mapsto> op)" using s by (auto simp: d'_def log_at_def fun_eq_iff)
  have "mdv_trlog_add_op eng (\<lambda>_. True) trlog op =
      (True, trlog\<lparr>tg_top := ?i + 1, tg_storage := (tg_storage trlog)\<lparr>lm_env := d'\<rparr>\<rparr>, True)"
    using new s by (simp add: mdv_trlog_add_op_def trlog_txn_defs lmdb_simps mdv_trlog_new_id_def mdv_map_put_unique_def mdv_map_put_impl_def
        log_at_def d'_def)
  moreover have "log_ok eng (trlog\<lparr>tg_top := ?i + 1, tg_storage := (tg_storage trlog)\<lparr>lm_env := d'\<rparr>\<rparr>)"
  proof -
    have "w < ?i + 1" if "log_at eng d' w \<noteq> None" for w
      using that la ok succ_gt [OF top] by (auto simp: log_ok_def split: if_splits)
    moreover have "\<forall>k \<in> mdb_keys eng d' MDV_MAP_TRLOG. length k = 8"
      using ok s by (auto simp: d'_def mdb_keys_def log_ok_def split: if_splits)
    moreover have "stored_pos eng d' = stored_pos eng ?d" using s by (simp add: d'_def stored_pos_def)
    ultimately show ?thesis using ok by (simp add: log_ok_def)
  qed
  ultimately show ?thesis using la by simp
qed

lemma log_open_ok:
  assumes laws: "lmdb_laws ints eng" "MDV_MAP_TRLOG \<in> ints"
    and keys: "\<forall>k \<in> mdb_keys eng d MDV_MAP_TRLOG. length k = 8" and ids: "log_at eng d (-1) = None"
  shows "\<exists>trlog. mdv_trlog_open eng (\<lambda>_. True) d uuid i = Some trlog \<and> log_ok eng trlog \<and> lm_env (tg_storage trlog) = d"
proof -
  let ?kv = "mdb_cursor_get eng d MDV_MAP_TRLOG MDV_CURSOR_LAST []"
  note s = lmdb_laws_simps [OF laws(1)]
  define top where "top = (if mdb_dbi eng d MDV_MAP_TRLOG then case ?kv of None \<Rightarrow> 0 | Some (k, v) \<Rightarrow> key_u64 k + 1 else 0)"
  have at: "at_end (\<ge>) (mdb_keys eng d MDV_MAP_TRLOG) (mdb_get eng d MDV_MAP_TRLOG) ?kv"
    using lmdb_laws_cursor [OF laws keys] by (simp add: cursor_laws_def)
  have "w < top" if w: "log_at eng d w \<noteq> None" for w
  proof -
    have wk: "u64_key w \<in> mdb_keys eng d MDV_MAP_TRLOG" using w by (simp add: mdb_keys_def log_at_def)
    then obtain k v where kv: "?kv = Some (k, v)" "k \<in> mdb_keys eng d MDV_MAP_TRLOG" "le_val (u64_key w) \<le> le_val k"
      using at by (cases ?kv) (auto simp: at_end_def)
    have l: "length k = 8" using kv(2) keys by blast
    have "log_at eng d (key_u64 k) \<noteq> None" using kv(2) l by (simp add: log_at_def key_u64_inverse mdb_keys_def)
    then have "key_u64 k \<noteq> -1" using ids by metis
    moreover have "w \<le> key_u64 k" using kv(3) key_u64_unat [OF l] key_u64_unat [of "u64_key w"] by (simp add: word_le_nat_alt)
    moreover have "mdb_dbi eng d MDV_MAP_TRLOG" using w s(5) by (metis log_at_def)
    ultimately show ?thesis using succ_gt [of "key_u64 k"] kv(1) by (simp add: top_def)
  qed
  moreover have "mdv_trlog_open eng (\<lambda>_. True) d uuid i = Some \<lparr>tg_uuid = uuid, tg_id = i, tg_storage = \<lparr>lm_ref_counter = 1, lm_env = d\<rparr>,
      tg_top = top, tg_applied = stored_pos eng d\<rparr>"
    using s(5) by (auto simp: mdv_trlog_open_def mdv_trlog_init_def trlog_txn_defs lmdb_simps Let_def top_def stored_pos_def split: option.splits)
  ultimately show ?thesis using keys by (simp add: log_ok_def)
qed

section \<open>Properties\<close>

text \<open>
  C18. The log is consistent when it is opened, its last position is above every recorded operation, and both kinds of
  additions keep it so: an operation of this node gets a new identifier and is recorded under it, operations of a peer
  are recorded under theirs unless the identifier is taken, and the change is announced exactly when something was recorded.
\<close>
theorem trlog_records:
  assumes "lmdb_laws ints eng" "MDV_MAP_TRLOG \<in> ints"
  shows "(\<forall>d uuid i. (\<forall>k \<in> mdb_keys eng d MDV_MAP_TRLOG. length k = 8) \<and> log_at eng d (-1) = None \<longrightarrow>
      (\<exists>trlog. mdv_trlog_open eng (\<lambda>_. True) d uuid i = Some trlog \<and> log_ok eng trlog \<and> lm_env (tg_storage trlog) = d)) \<and>
    (\<forall>trlog op. log_ok eng trlog \<and> tg_top trlog \<noteq> -1 \<longrightarrow>
      (\<exists>trlog'. mdv_trlog_add_op eng (\<lambda>_. True) trlog op = (True, trlog', True) \<and> log_ok eng trlog' \<and>
        tg_applied trlog' = tg_applied trlog \<and> lm_ref_counter (tg_storage trlog') = lm_ref_counter (tg_storage trlog) \<and>
        log_at eng (lm_env (tg_storage trlog')) = (log_at eng (lm_env (tg_storage trlog)))(tg_top trlog \<mapsto> op))) \<and>
    (\<forall>trlog ops. log_ok eng trlog \<and> list_all (\<lambda>(i, op). i \<noteq> -1) ops \<longrightarrow>
      (\<exists>trlog' changed. mdv_trlog_add eng (\<lambda>_. True) (\<lambda>_. True) trlog ops = (True, trlog', changed) \<and> log_ok eng trlog' \<and>
        tg_applied trlog' = tg_applied trlog \<and> lm_ref_counter (tg_storage trlog') = lm_ref_counter (tg_storage trlog) \<and>
        (\<forall>w. log_at eng (lm_env (tg_storage trlog')) w =
           (case log_at eng (lm_env (tg_storage trlog)) w of None \<Rightarrow> map_of ops w | Some v \<Rightarrow> Some v)) \<and>
        (changed \<longleftrightarrow> (\<exists>w. log_at eng (lm_env (tg_storage trlog)) w = None \<and> map_of ops w \<noteq> None))))"
  using log_open_ok [OF assms] log_add_op_ok [OF assms(1)] log_add_ok [OF assms(1)] by simp

text \<open>An empty log.\<close>

lemma empty_log: "\<forall>k \<in> mdb_keys alist_mdb (\<lambda>_. None) MDV_MAP_TRLOG. length k = 8" "log_at alist_mdb (\<lambda>_. None) w = None"
  by (simp_all add: mdb_keys_def log_at_def alist_mdb_def content_def)

theorem trlog_records_witness:
  "\<exists>trlog. mdv_trlog_open alist_mdb (\<lambda>_. True) (\<lambda>_. None) (Uuid 1 0) 0 = Some trlog \<and> log_ok alist_mdb trlog"
proof -
  have "MDV_MAP_TRLOG \<in> {MDV_MAP_TRLOG}" by simp
  from trlog_records [OF alist_laws this] empty_log show ?thesis by blast
qed

text \<open>
  C2. Applying the log: for every batch size above zero the loop ends; it runs the operations from the applied position
  on, each once and in the order of their identifiers, up to the first one that fails; afterwards exactly the operations
  that did not succeed are left, the position is stored, and nothing else has changed.
\<close>
theorem trlog_applied_in_order:
  assumes "lmdb_laws ints eng" "MDV_MAP_TRLOG \<in> ints" "0 < batch" "log_ok eng trlog"
    "ops = ops_in eng (lm_env (tg_storage trlog)) {tg_applied trlog..}" "run_ops fn arg (map snd ops) = (arg', m)"
  shows "\<exists>trlog'. mdv_tablespace_log_apply eng trlog batch arg fn = Some (arg', trlog') \<and> log_ok eng trlog' \<and>
    lm_ref_counter (tg_storage trlog') = lm_ref_counter (tg_storage trlog) \<and>
    log_at eng (lm_env (tg_storage trlog')) = log_at eng (lm_env (tg_storage trlog)) \<and>
    ops_in eng (lm_env (tg_storage trlog')) {tg_applied trlog'..} = drop m ops"
  using assms(1-3) assms(4-6) by (rule log_apply_ok)

text \<open>
  C33. An operation of a peer that arrives after a later one has been applied is recorded and announced, but never applied:
  applying the log does the same with it and without it.
\<close>
theorem trlog_late_op_skipped:
  assumes "lmdb_laws ints eng" "MDV_MAP_TRLOG \<in> ints" "0 < batch" "log_ok eng trlog"
    "i < tg_applied trlog" "log_at eng (lm_env (tg_storage trlog)) i = None"
  shows "\<exists>trlog'. mdv_trlog_add eng (\<lambda>_. True) (\<lambda>_. True) trlog [(i, op)] = (True, trlog', True) \<and>
    log_at eng (lm_env (tg_storage trlog')) i = Some op \<and>
    map_option fst (mdv_tablespace_log_apply eng trlog' batch arg fn) = map_option fst (mdv_tablespace_log_apply eng trlog batch arg fn)"
proof -
  have "i \<noteq> -1" using assms(5) word_order.extremum_strict by blast
  then obtain t c where t: "mdv_trlog_add eng (\<lambda>_. True) (\<lambda>_. True) trlog [(i, op)] = (True, t, c)" "log_ok eng t" "tg_applied t = tg_applied trlog"
    "\<forall>w. log_at eng (lm_env (tg_storage t)) w = (case log_at eng (lm_env (tg_storage trlog)) w of None \<Rightarrow> map_of [(i, op)] w | Some v \<Rightarrow> Some v)"
    "c \<longleftrightarrow> (\<exists>w. log_at eng (lm_env (tg_storage trlog)) w = None \<and> map_of [(i, op)] w \<noteq> None)"
    using log_add_ok [OF assms(1,4), of "[(i, op)]"] by auto
  have c: "c" using t(5) assms(6) by auto
  have same: "log_at eng (lm_env (tg_storage t)) w = log_at eng (lm_env (tg_storage trlog)) w" if "w \<in> {tg_applied trlog..}" for w
    using t(4) that assms(5) by (auto split: option.splits)
  then have "ids_in eng (lm_env (tg_storage t)) {tg_applied trlog..} = ids_in eng (lm_env (tg_storage trlog)) {tg_applied trlog..}"
    unfolding ids_in_def by (intro arg_cong [of _ _ sorted_list_of_set]) auto
  then have ops: "ops_in eng (lm_env (tg_storage t)) {tg_applied t..} = ops_in eng (lm_env (tg_storage trlog)) {tg_applied trlog..}"
    unfolding ops_in_def t(3) using same by (auto intro!: map_cong)
  obtain arg' m where r: "run_ops fn arg (map snd (ops_in eng (lm_env (tg_storage trlog)) {tg_applied trlog..})) = (arg', m)" by fastforce
  have "map_option fst (mdv_tablespace_log_apply eng t batch arg fn) = map_option fst (mdv_tablespace_log_apply eng trlog batch arg fn)"
    using log_apply_ok [OF assms(1-3) assms(4) refl r] log_apply_ok [OF assms(1-3) t(2) refl, unfolded ops, OF r] by auto
  then show ?thesis using t(1,4) c assms(6) by (intro exI [of _ t]) simp
qed

text \<open>A log with two operations, and one where the second has been applied before the first arrived.\<close>

definition two_ops :: "alists mdv_trlog" where
  "two_ops = \<lparr>tg_uuid = Uuid 1 0, tg_id = 0,
     tg_storage = \<lparr>lm_ref_counter = 1, lm_env = [''TRLOG'' \<mapsto> [(u64_key 0, [7]), (u64_key 1, [8])]]\<rparr>, tg_top = 2, tg_applied = 0\<rparr>"

definition gap :: "alists mdv_trlog" where
  "gap = \<lparr>tg_uuid = Uuid 1 0, tg_id = 0,
     tg_storage = \<lparr>lm_ref_counter = 1, lm_env = [''TRLOG'' \<mapsto> [(u64_key 1, [8])],
       ''APPLIED'' \<mapsto> [(MDV_TRLOG_APPLIED_POS_KEY, u64_key 2)]]\<rparr>, tg_top = 2, tg_applied = 2\<rparr>"

lemma two_ops_log: "log_at alist_mdb (lm_env (tg_storage two_ops)) w = (if w = 0 then Some [7] else if w = 1 then Some [8] else None)"
  by (simp add: log_at_def two_ops_def alist_mdb_def content_def)

lemma two_ops_ok: "log_ok alist_mdb two_ops"
  unfolding log_ok_def two_ops_log
  by (auto simp: two_ops_def mdb_keys_def alist_mdb_def content_def stored_pos_def split: if_splits)

lemma gap_log: "log_at alist_mdb (lm_env (tg_storage gap)) w = (if w = 1 then Some [8] else None)"
  by (simp add: log_at_def gap_def alist_mdb_def content_def)

lemma gap_ok: "log_ok alist_mdb gap"
  unfolding log_ok_def gap_log
  by (auto simp: gap_def mdb_keys_def alist_mdb_def content_def stored_pos_def split: if_splits)

theorem trlog_applied_in_order_witness:
  "\<exists>trlog'. mdv_tablespace_log_apply alist_mdb two_ops 1 [] (\<lambda>xs op. (True, xs @ [op])) = Some ([[7], [8]], trlog') \<and>
     ops_in alist_mdb (lm_env (tg_storage trlog')) {tg_applied trlog'..} = []"
proof -
  have i: "MDV_MAP_TRLOG \<in> {MDV_MAP_TRLOG}" by simp
  have "ids_in alist_mdb (lm_env (tg_storage two_ops)) {tg_applied two_ops..} = [0, 1]"
    by (rule ids_in_eqI) (simp_all add: two_ops_log, auto simp: two_ops_def split: if_splits)
  then have o: "[(0, [7]), (1, [8])] = ops_in alist_mdb (lm_env (tg_storage two_ops)) {tg_applied two_ops..}"
    by (simp add: ops_in_def two_ops_log)
  have "run_ops (\<lambda>xs op. (True, xs @ [op])) [] (map snd [(0 :: u64, [7]), (1, [8])]) = ([[7], [8]], 2)" by simp
  from trlog_applied_in_order [OF alist_laws i zero_less_one two_ops_ok o this] show ?thesis by auto
qed

theorem trlog_late_op_skipped_witness:
  "\<exists>trlog'. mdv_trlog_add alist_mdb (\<lambda>_. True) (\<lambda>_. True) gap [(0, [7])] = (True, trlog', True) \<and>
     map_option fst (mdv_tablespace_log_apply alist_mdb trlog' 1 [] (\<lambda>xs op. (True, xs @ [op]))) =
     map_option fst (mdv_tablespace_log_apply alist_mdb gap 1 [] (\<lambda>xs op. (True, xs @ [op])))"
proof -
  have i: "MDV_MAP_TRLOG \<in> {MDV_MAP_TRLOG}" by simp
  have "0 < tg_applied gap" "log_at alist_mdb (lm_env (tg_storage gap)) 0 = None" by (simp_all add: gap_log) (simp add: gap_def)
  from trlog_late_op_skipped [OF alist_laws i zero_less_one gap_ok this, of "[7]" "[]" "\<lambda>xs op. (True, xs @ [op])"] show ?thesis by auto
qed

end
