(* ===== verification/Mdv_Float.thy ===== *)
theory Mdv_Float
  imports Mdv_Prelude Complex_Main
begin

text \<open>
  The floating-point operations of C that src/mdv_thirdparty/binn/binn.c and src/mdv_types/mdv_serialization.c use, on
  the bit patterns of IEEE 754: conversion between \<open>float\<close> and \<open>double\<close>, from integers and from decimal text, the
  sums of the macro \<open>roundval\<close>, and casts to \<open>int\<close>. Rounding is to nearest, ties to even. A cast that C leaves
  undefined is \<open>None\<close>. The theorem of the theory is that a \<open>float\<close> survives the way through a \<open>double\<close>.
\<close>

section \<open>Rounding\<close>

fun ilog2 :: "nat \<Rightarrow> nat" where
  "ilog2 n = (if n \<le> 1 then 0 else Suc (ilog2 (n div 2)))"

declare ilog2.simps [simp del]

definition round_half_even :: "nat \<Rightarrow> nat \<Rightarrow> nat" where
  "round_half_even num den =
     (let q = num div den; r = num mod den in if den < 2 * r \<or> (2 * r = den \<and> odd q) then q + 1 else q)"

text \<open>The exponent of the power of two at or below \<open>num / den\<close>.\<close>

definition frac_log2 :: "nat \<Rightarrow> nat \<Rightarrow> int" where
  "frac_log2 num den =
     (let l = int (ilog2 num) - int (ilog2 den) in if num * 2 ^ nat (- l) < den * 2 ^ nat l then l - 1 else l)"

text \<open>
  The magnitude bits of \<open>num / den\<close> in a format with \<open>p\<close> bits of precision, smallest exponent \<open>emin\<close> and the
  magnitude \<open>tp\<close> of infinity.
\<close>

definition fp_round :: "nat \<Rightarrow> int \<Rightarrow> nat \<Rightarrow> nat \<Rightarrow> nat \<Rightarrow> nat" where
  "fp_round p emin tp num den =
     (if num = 0 then 0
      else let t = max emin (frac_log2 num den - (int p - 1));
               r = round_half_even (num * 2 ^ nat (- t)) (den * 2 ^ nat t)
           in min tp (nat (t - emin) * 2 ^ (p - 1) + r))"

text \<open>A finite magnitude is \<open>M * 2 ^ q\<close>, here as a fraction.\<close>

definition fp_frac :: "nat \<Rightarrow> int \<Rightarrow> nat \<Rightarrow> nat \<times> nat" where
  "fp_frac p emin mag =
     (let e = mag div 2 ^ (p - 1); m = mag mod 2 ^ (p - 1);
          M = (if e = 0 then m else m + 2 ^ (p - 1)); q = emin + int (e - 1)
      in (M * 2 ^ nat q, 2 ^ nat (- q)))"

abbreviation inf32 :: nat where "inf32 \<equiv> 255 * 2 ^ 23"
abbreviation inf64 :: nat where "inf64 \<equiv> 2047 * 2 ^ 52"

definition mag32 :: "u32 \<Rightarrow> nat" where "mag32 x = unat x mod 2 ^ 31"
definition mag64 :: "u64 \<Rightarrow> nat" where "mag64 x = unat x mod 2 ^ 63"
definition neg32 :: "u32 \<Rightarrow> bool" where "neg32 x \<longleftrightarrow> 2 ^ 31 \<le> unat x"
definition neg64 :: "u64 \<Rightarrow> bool" where "neg64 x \<longleftrightarrow> 2 ^ 63 \<le> unat x"

definition float_bits :: "bool \<Rightarrow> nat \<Rightarrow> u32" where
  "float_bits neg mag = word_of_nat ((if neg then 2 ^ 31 else 0) + mag)"

definition double_bits :: "bool \<Rightarrow> nat \<Rightarrow> u64" where
  "double_bits neg mag = word_of_nat ((if neg then 2 ^ 63 else 0) + mag)"

section \<open>Conversions\<close>

text \<open>A conversion of a NaN keeps the leading bits of its payload and makes it quiet.\<close>

definition double_of_float :: "u32 \<Rightarrow> u64" where
  "double_of_float x =
     (let mag = mag32 x in
      double_bits (neg32 x)
        (if inf32 < mag then inf64 + 2 ^ 51 + (mag mod 2 ^ 22) * 2 ^ 29
         else if mag = inf32 then inf64
         else case fp_frac 24 (-149) mag of (num, den) \<Rightarrow> fp_round 53 (-1074) inf64 num den))"

definition float_of_double :: "u64 \<Rightarrow> u32" where
  "float_of_double x =
     (let mag = mag64 x in
      float_bits (neg64 x)
        (if inf64 < mag then inf32 + 2 ^ 22 + (mag mod 2 ^ 51) div 2 ^ 29
         else if mag = inf64 then inf32
         else case fp_frac 53 (-1074) mag of (num, den) \<Rightarrow> fp_round 24 (-149) inf32 num den))"

definition double_of_rat :: "bool \<Rightarrow> rat \<Rightarrow> u64" where
  "double_of_rat neg_zero r =
     (case quotient_of r of (n, d) \<Rightarrow>
        double_bits (n < 0 \<or> (n = 0 \<and> neg_zero)) (fp_round 53 (-1074) inf64 (nat \<bar>n\<bar>) (nat d)))"

definition double_of_int :: "int \<Rightarrow> u64" where
  "double_of_int i = double_of_rat False (of_int i)"

text \<open>The exact value of a finite \<open>double\<close>; \<open>None\<close> for infinities and NaN.\<close>

definition double_val :: "u64 \<Rightarrow> rat option" where
  "double_val x =
     (if inf64 \<le> mag64 x then None
      else case fp_frac 53 (-1074) (mag64 x) of (num, den) \<Rightarrow>
        Some ((if neg64 x then - 1 else 1) * of_nat num / of_nat den))"

definition double_is_nan :: "u64 \<Rightarrow> bool" where
  "double_is_nan x \<longleftrightarrow> inf64 < mag64 x"

text \<open>Comparison with an integer constant; a comparison with a NaN is false.\<close>

definition double_less_int :: "u64 \<Rightarrow> int \<Rightarrow> bool" where
  "double_less_int x i =
     (case double_val x of Some v \<Rightarrow> v < of_int i | None \<Rightarrow> \<not> double_is_nan x \<and> neg64 x)"

definition double_greater_int :: "u64 \<Rightarrow> int \<Rightarrow> bool" where
  "double_greater_int x i =
     (case double_val x of Some v \<Rightarrow> of_int i < v | None \<Rightarrow> \<not> double_is_nan x \<and> \<not> neg64 x)"

definition int_of_rat :: "rat \<Rightarrow> int option" where
  "int_of_rat v =
     (let i = (if v < 0 then - \<lfloor>- v\<rfloor> else \<lfloor>v\<rfloor>) in if - (2 ^ 31) \<le> i \<and> i < 2 ^ 31 then Some i else None)"

text \<open>The macro \<open>roundval\<close> of binn.c; its sums and differences are rounded to \<open>double\<close>.\<close>

definition roundval :: "u64 \<Rightarrow> int option" where
  "roundval x =
     (case double_val x of None \<Rightarrow> None
      | Some v \<Rightarrow>
          if 0 \<le> v then Option.bind (double_val (double_of_rat False (v + 1 / 2))) int_of_rat
          else case int_of_rat v of None \<Rightarrow> None
          | Some i \<Rightarrow>
              (case double_val (double_of_rat False (v - of_int i)) of None \<Rightarrow> None
               | Some d \<Rightarrow>
                   if d \<le> - 1 / 2 then Some i
                   else Option.bind (double_val (double_of_rat False (v - 1 / 2))) int_of_rat))"

section \<open>Exact conversions\<close>

lemma ilog2_unique: "2 ^ k \<le> n \<Longrightarrow> n < 2 ^ Suc k \<Longrightarrow> ilog2 n = k"
proof (induction k arbitrary: n)
  case 0
  then show ?case by (simp add: ilog2.simps [of n])
next
  case (Suc k)
  then have "ilog2 (n div 2) = k" by (intro Suc.IH) auto
  moreover have "\<not> n \<le> 1"
  proof -
    have "(1::nat) < 2 ^ Suc k" by (rule one_less_power) simp_all
    with Suc.prems show ?thesis by linarith
  qed
  ultimately show ?case by (simp add: ilog2.simps [of n])
qed

lemma ilog2_bounds: "0 < n \<Longrightarrow> 2 ^ ilog2 n \<le> n \<and> n < 2 ^ Suc (ilog2 n)"
proof (induction n rule: ilog2.induct)
  case (1 n)
  then show ?case by (auto simp: ilog2.simps [of n])
qed

lemma ilog2_shift: "0 < m \<Longrightarrow> ilog2 (m * 2 ^ a) = ilog2 m + a"
  using ilog2_bounds [of m] by (intro ilog2_unique) (auto simp: power_add ac_simps)

lemma round_half_even_exact: "0 < d \<Longrightarrow> round_half_even (r * d) d = r"
  by (simp add: round_half_even_def)

lemma frac_log2_scaled:
  assumes "0 < m"
  shows "frac_log2 (m * 2 ^ nat q) (2 ^ nat (- q)) = int (ilog2 m) + q"
proof -
  let ?k = "ilog2 m"
  have l: "int (ilog2 (m * 2 ^ nat q)) - int (ilog2 (2 ^ nat (- q))) = int ?k + q"
    using assms ilog2_shift [of 1 "nat (- q)"] by (simp add: ilog2_shift ilog2.simps [of "Suc 0"])
  have exps: "?k + nat q + nat (- (int ?k + q)) = nat (- q) + nat (int ?k + q)" by arith
  have "2 ^ (nat (- q) + nat (int ?k + q)) \<le> m * 2 ^ (nat q + nat (- (int ?k + q)))"
    using ilog2_bounds [of m] assms by (simp add: exps [symmetric] power_add add.assoc)
  then show ?thesis
    by (simp add: frac_log2_def l Let_def power_add mult.assoc not_less [symmetric])
qed

lemma fp_round_exact:
  assumes "0 < m" "t = max emin (int (ilog2 m) + q - (int p - 1))" "m * 2 ^ nat (q - t) = r * 2 ^ nat (t - q)"
  shows "fp_round p emin tp (m * 2 ^ nat q) (2 ^ nat (- q)) = min tp (nat (t - emin) * 2 ^ (p - 1) + r)"
proof -
  obtain c where c: "nat q + nat (- t) = nat (q - t) + c" "nat (- q) + nat t = nat (t - q) + c"
    by (rule that [of "nat q + nat (- t) - nat (q - t)"]) arith+
  have "m * 2 ^ nat q * 2 ^ nat (- t) = m * 2 ^ nat (q - t) * 2 ^ c"
    by (simp add: mult.assoc power_add [symmetric] c(1))
  also have "\<dots> = r * (2 ^ nat (- q) * 2 ^ nat t)"
    by (simp add: assms(3) mult.assoc power_add [symmetric] c(2))
  finally show ?thesis
    using assms(1) by (simp add: fp_round_def frac_log2_scaled assms(2) [symmetric] Let_def round_half_even_exact)
qed

lemma unat_double_bits:
  assumes "m < 2 ^ 63"
  shows "unat (double_bits neg m) = (if neg then 2 ^ 63 else 0) + m"
proof -
  have "(if neg then 2 ^ 63 else 0) + m < 2 ^ LENGTH(64)" using assms by simp
  then show ?thesis by (simp only: double_bits_def unsigned_of_nat take_bit_nat_eq_self of_nat_id)
qed

lemma mag64_double_bits: "m < 2 ^ 63 \<Longrightarrow> mag64 (double_bits neg m) = m"
  by (simp add: mag64_def unat_double_bits)

lemma neg64_double_bits: "m < 2 ^ 63 \<Longrightarrow> neg64 (double_bits neg m) = neg"
  by (simp add: neg64_def unat_double_bits)

lemma float_bits_parts: "float_bits (neg32 x) (mag32 x) = x"
proof -
  have "unat x < 2 ^ 32" using unsigned_less [of x] by simp
  then have "(if neg32 x then 2 ^ 31 else 0) + mag32 x = unat x"
    by (auto simp: neg32_def mag32_def not_le le_mod_geq)
  then show ?thesis by (simp add: float_bits_def)
qed

lemma fp_frac_normal:
  assumes "0 < e" "m < 2 ^ (p - 1)" "q = emin + int e - 1"
  shows "fp_frac p emin (e * 2 ^ (p - 1) + m) = ((m + 2 ^ (p - 1)) * 2 ^ nat q, 2 ^ nat (- q))"
proof -
  have "nat q = nat (emin + int (e - 1))" "nat (- q) = nat (- (emin + int (e - 1)))" using assms by auto
  then show ?thesis using assms(1,2) by (simp add: fp_frac_def Let_def)
qed

text \<open>The magnitude of the \<open>double\<close> for a finite \<open>float\<close>, and its way back.\<close>

lemma magnitude_normal:
  assumes "0 < e" "e < 255" "m < 2 ^ 23"
  shows "(case fp_frac 24 (-149) (e * 2 ^ 23 + m) of (num, den) \<Rightarrow> fp_round 53 (-1074) inf64 num den)
           = (e + 896) * 2 ^ 52 + m * 2 ^ 29"
    and "(case fp_frac 53 (-1074) ((e + 896) * 2 ^ 52 + m * 2 ^ 29) of (num, den) \<Rightarrow> fp_round 24 (-149) inf32 num den)
           = e * 2 ^ 23 + m"
proof -
  have k: "ilog2 (m + 2 ^ 23) = 23" "ilog2 (m * 2 ^ 29 + 2 ^ 52) = 52"
    using assms by (auto intro!: ilog2_unique)
  have "fp_round 53 (-1074) inf64 ((m + 2 ^ 23) * 2 ^ nat (int e - 150)) (2 ^ nat (- (int e - 150)))
      = min inf64 (nat (int e - 179 - (-1074)) * 2 ^ (53 - 1) + (m + 2 ^ 23) * 2 ^ 29)"
    using assms k by (intro fp_round_exact) auto
  moreover have "fp_frac 24 (-149) (e * 2 ^ (24 - 1) + m)
      = ((m + 2 ^ (24 - 1)) * 2 ^ nat (int e - 150), 2 ^ nat (- (int e - 150)))"
    using assms by (intro fp_frac_normal) auto
  ultimately show "(case fp_frac 24 (-149) (e * 2 ^ 23 + m) of (num, den) \<Rightarrow> fp_round 53 (-1074) inf64 num den)
      = (e + 896) * 2 ^ 52 + m * 2 ^ 29"
    using assms by (simp add: nat_add_distrib algebra_simps min_def)
  have "fp_round 24 (-149) inf32 ((m * 2 ^ 29 + 2 ^ 52) * 2 ^ nat (int e - 179)) (2 ^ nat (- (int e - 179)))
      = min inf32 (nat (int e - 150 - (-149)) * 2 ^ (24 - 1) + (m + 2 ^ 23))"
    using assms k by (intro fp_round_exact) auto
  moreover have "fp_frac 53 (-1074) ((e + 896) * 2 ^ (53 - 1) + m * 2 ^ 29)
      = ((m * 2 ^ 29 + 2 ^ (53 - 1)) * 2 ^ nat (int e - 179), 2 ^ nat (- (int e - 179)))"
    using assms by (intro fp_frac_normal) auto
  ultimately show "(case fp_frac 53 (-1074) ((e + 896) * 2 ^ 52 + m * 2 ^ 29) of (num, den) \<Rightarrow> fp_round 24 (-149) inf32 num den)
      = e * 2 ^ 23 + m"
    using assms by (simp add: nat_diff_distrib algebra_simps min_def)
qed

lemma magnitude_subnormal:
  assumes "0 < m" "m < 2 ^ 23"
  defines "d \<equiv> (ilog2 m + 873) * 2 ^ 52 + m * 2 ^ (52 - ilog2 m)"
  shows "(case fp_frac 24 (-149) m of (num, den) \<Rightarrow> fp_round 53 (-1074) inf64 num den) = d"
    and "(case fp_frac 53 (-1074) d of (num, den) \<Rightarrow> fp_round 24 (-149) inf32 num den) = m"
    and "d < inf64"
proof -
  define k where "k = ilog2 m"
  have m: "2 ^ k \<le> m" "m < 2 ^ Suc k" using ilog2_bounds [OF assms(1)] by (simp_all add: k_def)
  have k: "k < 23"
  proof (rule ccontr)
    assume "\<not> k < 23"
    then have "(2::nat) ^ 23 \<le> 2 ^ k" by (intro power_increasing) auto
    with m assms(2) show False by linarith
  qed
  define M where "M = m * 2 ^ (52 - k)"
  have "2 ^ k * 2 ^ (52 - k) \<le> M" "M < 2 ^ Suc k * 2 ^ (52 - k)" using m by (auto simp: M_def)
  moreover have "(2::nat) ^ k * 2 ^ (52 - k) = 2 ^ 52" "(2::nat) ^ Suc k * 2 ^ (52 - k) = 2 ^ 53"
    using k by (simp_all only: power_add [symmetric]) auto
  ultimately have M: "2 ^ 52 \<le> M" "M < 2 ^ 53" by simp_all
  have logM: "ilog2 M = 52" using M by (intro ilog2_unique) auto
  have d: "d = (k + 873) * 2 ^ 52 + M" by (simp add: d_def k_def M_def)
  show "d < inf64" using M k by (simp add: d)
  have "fp_round 53 (-1074) inf64 (m * 2 ^ nat (-149)) (2 ^ nat (- (-149)))
      = min inf64 (nat (int k - 201 - (-1074)) * 2 ^ (53 - 1) + M)"
    using assms(1) k by (intro fp_round_exact) (auto simp: k_def [symmetric] M_def nat_diff_distrib)
  moreover have "fp_frac 24 (-149) m = (m * 2 ^ nat (-149), 2 ^ nat (- (-149)))"
    using assms by (simp add: fp_frac_def)
  ultimately show "(case fp_frac 24 (-149) m of (num, den) \<Rightarrow> fp_round 53 (-1074) inf64 num den) = d"
    using M k by (simp add: d nat_add_distrib min_def)
  have "fp_round 24 (-149) inf32 (M * 2 ^ nat (int k - 201)) (2 ^ nat (- (int k - 201)))
      = min inf32 (nat (-149 - (-149)) * 2 ^ (24 - 1) + m)"
  proof (rule fp_round_exact)
    show "0 < M" using M by simp
    show "-149 = max (-149) (int (ilog2 M) + (int k - 201) - (int 24 - 1))" using k by (simp add: logM)
    show "M * 2 ^ nat (int k - 201 - -149) = m * 2 ^ nat (-149 - (int k - 201))"
      using k by (simp add: M_def nat_diff_distrib)
  qed
  moreover have "fp_frac 53 (-1074) ((k + 874) * 2 ^ (53 - 1) + (M - 2 ^ 52))
      = ((M - 2 ^ 52 + 2 ^ (53 - 1)) * 2 ^ nat (int k - 201), 2 ^ nat (- (int k - 201)))"
    using M k by (intro fp_frac_normal) auto
  moreover have "d = (k + 874) * 2 ^ (53 - 1) + (M - 2 ^ 52)" using M by (simp add: d)
  ultimately show "(case fp_frac 53 (-1074) d of (num, den) \<Rightarrow> fp_round 24 (-149) inf32 num den) = m"
    using M assms(2) by simp
qed

lemma finite_magnitude:
  assumes "mag < inf32"
  obtains d where "(case fp_frac 24 (-149) mag of (num, den) \<Rightarrow> fp_round 53 (-1074) inf64 num den) = d"
    "(case fp_frac 53 (-1074) d of (num, den) \<Rightarrow> fp_round 24 (-149) inf32 num den) = mag" "d < inf64"
proof -
  let ?e = "mag div 2 ^ 23" and ?m = "mag mod 2 ^ 23"
  consider "0 < ?e" | "mag < 2 ^ 23" "0 < mag" | "mag = 0" by fastforce
  then show ?thesis
  proof cases
    case 1
    then show ?thesis using assms magnitude_normal [of ?e ?m] by (intro that [of "(?e + 896) * 2 ^ 52 + ?m * 2 ^ 29"]) auto
  next
    case 2
    then show ?thesis using magnitude_subnormal [of mag] by (intro that) auto
  next
    case 3
    then show ?thesis by (intro that [of 0]) (simp_all add: fp_frac_def fp_round_def)
  qed
qed

text \<open>Every \<open>float\<close> that is not a NaN survives the conversion to \<open>double\<close> and back.\<close>

theorem float_double_float:
  assumes "mag32 x \<le> inf32"
  shows "float_of_double (double_of_float x) = x"
proof (cases "mag32 x = inf32")
  case True
  then show ?thesis
    using float_bits_parts [of x] by (simp add: double_of_float_def float_of_double_def mag64_double_bits neg64_double_bits)
next
  case False
  with assms have "mag32 x < inf32" by simp
  then obtain d where "(case fp_frac 24 (-149) (mag32 x) of (num, den) \<Rightarrow> fp_round 53 (-1074) inf64 num den) = d"
    "(case fp_frac 53 (-1074) d of (num, den) \<Rightarrow> fp_round 24 (-149) inf32 num den) = mag32 x" "d < inf64"
    by (rule finite_magnitude)
  with False assms show ?thesis
    using float_bits_parts [of x]
    by (simp add: double_of_float_def float_of_double_def mag64_double_bits neg64_double_bits Let_def)
qed

end
