(* ===== verification/Mdv_Binn.thy ===== *)
theory Mdv_Binn
  imports Mdv_Float
begin

text \<open>
  The binary container format of src/mdv_thirdparty/binn/binn.c, on a little-endian machine.

  A pointer into memory is the list of the bytes from the pointer to the end of the allocation, positions in it are
  natural numbers; reading outside is \<open>UB\<close>. \<open>Fail\<close> is the result \<open>FALSE\<close> or a null pointer. A container that is
  being written carries the outcomes of its own allocations. C strings in memory end with a zero byte.
\<close>

unbundle bit_operations_syntax

section \<open>Results\<close>

datatype 'a outcome = UB | Fail | Ret 'a

fun obind :: "'a outcome \<Rightarrow> ('a \<Rightarrow> 'b outcome) \<Rightarrow> 'b outcome" where
  "obind UB f = UB"
| "obind Fail f = Fail"
| "obind (Ret x) f = f x"

lemma obind_cong [fundef_cong]: "m = m' \<Longrightarrow> (\<And>x. m' = Ret x \<Longrightarrow> f x = f' x) \<Longrightarrow> obind m f = obind m' f'"
  by (cases m') auto

lemma obind_eq_Ret: "obind m f = Ret y \<longleftrightarrow> (\<exists>x. m = Ret x \<and> f x = Ret y)"
  by (cases m) auto

fun is_Ret :: "'a outcome \<Rightarrow> bool" where
  "is_Ret (Ret x) = True"
| "is_Ret _ = False"

lemma is_Ret_iff: "is_Ret m \<longleftrightarrow> (\<exists>x. m = Ret x)"
  by (cases m) auto

section \<open>Types\<close>

abbreviation (input) "BINN_STORAGE_NOBYTES \<equiv> 0 :: nat"
abbreviation (input) "BINN_STORAGE_BYTE \<equiv> 0x20 :: nat"
abbreviation (input) "BINN_STORAGE_WORD \<equiv> 0x40 :: nat"
abbreviation (input) "BINN_STORAGE_DWORD \<equiv> 0x60 :: nat"
abbreviation (input) "BINN_STORAGE_QWORD \<equiv> 0x80 :: nat"
abbreviation (input) "BINN_STORAGE_STRING \<equiv> 0xA0 :: nat"
abbreviation (input) "BINN_STORAGE_BLOB \<equiv> 0xC0 :: nat"
abbreviation (input) "BINN_STORAGE_CONTAINER \<equiv> 0xE0 :: nat"

abbreviation (input) "BINN_LIST \<equiv> 0xE0 :: nat"
abbreviation (input) "BINN_MAP \<equiv> 0xE1 :: nat"
abbreviation (input) "BINN_OBJECT \<equiv> 0xE2 :: nat"
abbreviation (input) "BINN_NULL \<equiv> 0x00 :: nat"
abbreviation (input) "BINN_TRUE \<equiv> 0x01 :: nat"
abbreviation (input) "BINN_FALSE \<equiv> 0x02 :: nat"
abbreviation (input) "BINN_UINT8 \<equiv> 0x20 :: nat"
abbreviation (input) "BINN_INT8 \<equiv> 0x21 :: nat"
abbreviation (input) "BINN_UINT16 \<equiv> 0x40 :: nat"
abbreviation (input) "BINN_INT16 \<equiv> 0x41 :: nat"
abbreviation (input) "BINN_UINT32 \<equiv> 0x60 :: nat"
abbreviation (input) "BINN_INT32 \<equiv> 0x61 :: nat"
abbreviation (input) "BINN_FLOAT32 \<equiv> 0x62 :: nat"
abbreviation (input) "BINN_UINT64 \<equiv> 0x80 :: nat"
abbreviation (input) "BINN_INT64 \<equiv> 0x81 :: nat"
abbreviation (input) "BINN_FLOAT64 \<equiv> 0x82 :: nat"
abbreviation (input) "BINN_CURRENCY \<equiv> 0x83 :: nat"
abbreviation (input) "BINN_STRING \<equiv> 0xA0 :: nat"
abbreviation (input) "BINN_BLOB \<equiv> 0xC0 :: nat"
abbreviation (input) "BINN_BOOL \<equiv> 0x80061 :: nat"

abbreviation (input) "MAX_BINN_HEADER \<equiv> 9 :: nat"
abbreviation (input) "MIN_BINN_SIZE \<equiv> 3 :: nat"
abbreviation (input) "CHUNK_SIZE \<equiv> 256 :: nat"
abbreviation (input) "BINN_MAGIC \<equiv> 0x1F22B11F :: nat"

text \<open>The storage class of a type; \<open>None\<close> is the result for an invalid one. Virtual types keep their low half.\<close>

definition short_type_storage :: "nat \<Rightarrow> nat" where
  "short_type_storage t = (if t \<le> 0xff then t AND 0xE0 else drop_bit 8 (t AND 0xE000))"

definition binn_get_type_info :: "nat \<Rightarrow> nat option" where
  "binn_get_type_info long_type =
     (if long_type \<le> 0xffff then Some (short_type_storage long_type)
      else if long_type AND 0x80000 \<noteq> 0 then Some (short_type_storage (long_type AND 0xffff))
      else None)"

definition binn_get_write_storage :: "nat \<Rightarrow> nat option" where
  "binn_get_write_storage type =
     (if type = 0xA6 \<or> type = 0xA7 then Some BINN_STORAGE_STRING
      else if type = BINN_BOOL then Some BINN_STORAGE_NOBYTES
      else binn_get_type_info type)"

definition binn_get_read_storage :: "nat \<Rightarrow> nat option" where
  "binn_get_read_storage type =
     (if type = BINN_BOOL \<or> type = BINN_TRUE \<or> type = BINN_FALSE then Some BINN_STORAGE_DWORD
      else binn_get_type_info type)"

datatype family = FAMILY_NONE | FAMILY_NULL | FAMILY_INT | FAMILY_FLOAT | FAMILY_STRING | FAMILY_BLOB | FAMILY_BOOL | FAMILY_BINN

definition type_family :: "nat \<Rightarrow> family" where
  "type_family type =
     (if type \<in> {BINN_LIST, BINN_MAP, BINN_OBJECT} then FAMILY_BINN
      else if type \<in> {BINN_INT8, BINN_INT16, BINN_INT32, BINN_INT64, BINN_UINT8, BINN_UINT16, BINN_UINT32, BINN_UINT64}
        then FAMILY_INT
      else if type \<in> {BINN_FLOAT32, BINN_FLOAT64, 0xA6, 0xA7} then FAMILY_FLOAT
      else if type \<in> {BINN_STRING, 0xB001, 0xB005, 0xB002, 0xB003, 0xB004} then FAMILY_STRING
      else if type \<in> {BINN_BLOB, 0xD001, 0xD002, 0xD003, 0xD004} then FAMILY_BLOB
      else if type \<in> {0xA4, BINN_CURRENCY, 0xA2, 0xA3, 0xA1} then FAMILY_STRING
      else if type = BINN_BOOL then FAMILY_BOOL
      else if type = BINN_NULL then FAMILY_NULL
      else FAMILY_NONE)"

definition int_signed :: "nat \<Rightarrow> bool" where
  "int_signed type \<longleftrightarrow> type \<in> {BINN_INT8, BINN_INT16, BINN_INT32, BINN_INT64}"

definition int_unsigned :: "nat \<Rightarrow> bool" where
  "int_unsigned type \<longleftrightarrow> type \<in> {BINN_UINT8, BINN_UINT16, BINN_UINT32, BINN_UINT64}"

section \<open>Memory\<close>

definition rd :: "bytes \<Rightarrow> nat \<Rightarrow> u8 outcome" where
  "rd buf p = (if p < length buf then Ret (buf ! p) else UB)"

definition rdn :: "nat \<Rightarrow> bytes \<Rightarrow> nat \<Rightarrow> bytes outcome" where
  "rdn n buf p = (if p + n \<le> length buf then Ret (slice p n buf) else UB)"

text \<open>\<open>strlen\<close> and the C string at a pointer.\<close>

definition cstr :: "bytes \<Rightarrow> bytes outcome" where
  "cstr buf = (if 0 \<in> set buf then Ret (takeWhile (\<lambda>b. b \<noteq> 0) buf) else UB)"

text \<open>Integers of a given width behind a pointer.\<close>

definition rd_uint :: "nat \<Rightarrow> bytes \<Rightarrow> nat outcome" where
  "rd_uint n buf = obind (rdn n buf 0) (\<lambda>bs. Ret (le_val bs))"

definition sint_of :: "nat \<Rightarrow> nat \<Rightarrow> int" where
  "sint_of n v = (if 2 * v < 256 ^ n then int v else int v - 256 ^ n)"

definition rd_sint :: "nat \<Rightarrow> bytes \<Rightarrow> int outcome" where
  "rd_sint n buf = obind (rd_uint n buf) (\<lambda>v. Ret (sint_of n v))"

text \<open>The two's complement bytes of an integer.\<close>

definition int_bytes :: "nat \<Rightarrow> int \<Rightarrow> bytes" where
  "int_bytes n v = le_bytes n (nat (v mod 256 ^ n))"

text \<open>\<open>strncasecmp (a, b, n) == 0\<close> in the C locale.\<close>

definition tolower8 :: "u8 \<Rightarrow> u8" where
  "tolower8 c = (if 0x41 \<le> c \<and> c \<le> 0x5A then c + 0x20 else c)"

fun strnicmp0 :: "nat \<Rightarrow> bytes \<Rightarrow> bytes \<Rightarrow> bool outcome" where
  "strnicmp0 0 a b = Ret True"
| "strnicmp0 (Suc n) (x # a) (y # b) =
     (if tolower8 x \<noteq> tolower8 y then Ret False else if x = 0 then Ret True else strnicmp0 n a b)"
| "strnicmp0 (Suc n) a b = UB"

section \<open>Walking over a buffer\<close>

text \<open>A size or a count: one byte below 128, or four bytes whose highest bit is set. The result is the number and its width.\<close>

definition limited_size :: "nat option \<Rightarrow> bytes \<Rightarrow> nat \<Rightarrow> (nat \<times> nat) outcome" where
  "limited_size plimit buf p =
     (if (case plimit of Some l \<Rightarrow> l < p | None \<Rightarrow> False) then Fail
      else obind (rd buf p) (\<lambda>b.
        if unat b AND 0x80 \<noteq> 0 then
          if (case plimit of Some l \<Rightarrow> l < p + 3 | None \<Rightarrow> False) then Fail
          else obind (rdn 4 buf p) (\<lambda>bs. Ret (be_val bs mod 2 ^ 31, 4))
        else Ret (unat b, 1)))"

definition AdvanceDataPos :: "bytes \<Rightarrow> nat \<Rightarrow> nat \<Rightarrow> nat outcome" where
  "AdvanceDataPos buf plimit p =
     (if plimit < p then Fail
      else obind (rd buf p) (\<lambda>byte.
        let storage_type = unat byte AND 0xE0;
            p = p + 1 + (if unat byte AND 0x10 \<noteq> 0 then 1 else 0)
        in obind
          (if storage_type = BINN_STORAGE_NOBYTES then Ret p
           else if storage_type = BINN_STORAGE_BYTE then Ret (p + 1)
           else if storage_type = BINN_STORAGE_WORD then Ret (p + 2)
           else if storage_type = BINN_STORAGE_DWORD then Ret (p + 4)
           else if storage_type = BINN_STORAGE_QWORD then Ret (p + 8)
           else if storage_type = BINN_STORAGE_BLOB \<or> storage_type = BINN_STORAGE_STRING then
             obind (limited_size (Some plimit) buf p) (\<lambda>(DataSize, n).
               Ret (p + n + DataSize + (if storage_type = BINN_STORAGE_STRING then 1 else 0)))
           else obind (limited_size (Some plimit) buf p) (\<lambda>(DataSize, n). Ret (p + DataSize - 1)))
          (\<lambda>p. if plimit < p then Fail else Ret p)))"

text \<open>The identifier of an element of a map and the position behind it.\<close>

definition read_map_id :: "bytes \<Rightarrow> nat \<Rightarrow> nat \<Rightarrow> (int \<times> nat) outcome" where
  "read_map_id buf plimit p =
     obind (rd buf p) (\<lambda>c.
       let c = unat c; p = p + 1; extra_bytes = drop_bit 5 (c AND 0x60) + 1; type = c AND 0xE0;
           signed = (\<lambda>neg v. if neg then - int v else int v)
       in if c AND 0x80 = 0 then Ret (signed (c AND 0x40 \<noteq> 0) (c AND 0x3F), p)
          else if plimit < p + extra_bytes then Ret (0, p + extra_bytes)
          else if type = 0xE0 then
            obind (rdn 4 buf p) (\<lambda>bs. Ret (let v = sint_of 4 (be_val bs) in if c AND 0x10 \<noteq> 0 then - v else v, p + 4))
          else obind (rdn extra_bytes buf p) (\<lambda>bs.
            Ret (signed (c AND 0x10 \<noteq> 0) ((c AND 0x0F) * 256 ^ extra_bytes + be_val bs), p + extra_bytes)))"

text \<open>The position of the value under a key. Keys are compared without regard to case.\<close>

fun search_key :: "bytes \<Rightarrow> nat \<Rightarrow> bytes \<Rightarrow> nat \<Rightarrow> nat \<Rightarrow> nat outcome" where
  "search_key buf plimit key 0 p = Fail"
| "search_key buf plimit key (Suc n) p =
     obind (rd buf p) (\<lambda>b.
       let len = unat b; p = p + 1 in
       if plimit < p then Fail
       else if len > 0 then
         obind (strnicmp0 len (drop p buf) (key @ [0])) (\<lambda>equal.
           if equal \<and> length key = len then Ret (p + len)
           else if plimit < p + len then Fail
           else obind (AdvanceDataPos buf plimit (p + len)) (search_key buf plimit key n))
       else if len = length key then Ret p
       else obind (AdvanceDataPos buf plimit p) (search_key buf plimit key n))"

definition SearchForKey :: "bytes \<Rightarrow> nat \<Rightarrow> nat \<Rightarrow> nat \<Rightarrow> bytes \<Rightarrow> nat outcome" where
  "SearchForKey buf header_size sz numitems key = search_key buf (sz - 1) key numitems header_size"

text \<open>
  The header of a container: type, number of elements, size and width of the header. \<open>psize\<close> is the size the caller
  already knows, zero when it knows none.
\<close>

definition IsValidBinnHeader :: "bytes \<Rightarrow> nat \<Rightarrow> (nat \<times> nat \<times> nat \<times> nat) outcome" where
  "IsValidBinnHeader pbuf psize =
     (let plimit = (if 0 < psize then Some (psize - 1) else None) in
      obind (rd pbuf 0) (\<lambda>byte.
        if unat byte AND 0xE0 \<noteq> BINN_STORAGE_CONTAINER then Fail
        else if unat byte AND 0x10 \<noteq> 0 then Fail
        else if unat byte \<notin> {BINN_LIST, BINN_MAP, BINN_OBJECT} then Fail
        else obind (limited_size plimit pbuf 1) (\<lambda>(size, n).
          obind (limited_size plimit pbuf (1 + n)) (\<lambda>(count, k).
            if size < MIN_BINN_SIZE then Fail
            else Ret (unat byte, count, if psize = 0 then size else psize, 1 + n + k)))))"

section \<open>Values read from a buffer\<close>

text \<open>
  The structure \<open>binn\<close> as a value: what \<open>ptr\<close> refers to (null is \<open>None\<close>), the size of a string, blob or container,
  the number of elements, and the bytes of the union.
\<close>

record binn_value =
  bv_type :: nat
  bv_ptr :: "bytes option"
  bv_size :: nat
  bv_count :: nat
  bv_union :: bytes

definition zero_binn_value :: binn_value where
  "zero_binn_value = \<lparr>bv_type = 0, bv_ptr = None, bv_size = 0, bv_count = 0, bv_union = replicate 8 0\<rparr>"

text \<open>An integer of \<open>n\<close> bytes in the union and \<open>ptr\<close> to it.\<close>

definition union_value :: "nat \<Rightarrow> nat \<Rightarrow> nat \<Rightarrow> binn_value" where
  "union_value type n v =
     (let u = le_bytes n v @ replicate (8 - n) 0 in zero_binn_value\<lparr>bv_type := type, bv_ptr := Some u, bv_union := u\<rparr>)"

definition GetValue :: "bytes \<Rightarrow> nat \<Rightarrow> binn_value outcome" where
  "GetValue buf p =
     obind (rd buf p) (\<lambda>byte.
       obind (if unat byte AND 0x10 \<noteq> 0 then obind (rd buf (p + 1)) (\<lambda>b. Ret (push_bit 8 (unat byte) OR unat b, p + 2))
              else Ret (unat byte, p + 1))
         (\<lambda>(data_type, q).
           let storage_type = unat byte AND 0xE0;
               be = (\<lambda>n. obind (rdn n buf q) (\<lambda>bs. Ret (union_value data_type n (be_val bs))))
           in if storage_type = BINN_STORAGE_NOBYTES then
                Ret (if data_type = BINN_TRUE then union_value BINN_BOOL 4 1
                     else if data_type = BINN_FALSE then union_value BINN_BOOL 4 0
                     else zero_binn_value\<lparr>bv_type := data_type\<rparr>)
              else if storage_type = BINN_STORAGE_BYTE then
                obind (rd buf q) (\<lambda>b. Ret ((union_value data_type 1 (unat b))\<lparr>bv_ptr := Some (drop q buf)\<rparr>))
              else if storage_type = BINN_STORAGE_WORD then be 2
              else if storage_type = BINN_STORAGE_DWORD then be 4
              else if storage_type = BINN_STORAGE_QWORD then be 8
              else if storage_type = BINN_STORAGE_BLOB \<or> storage_type = BINN_STORAGE_STRING then
                obind (limited_size None buf q) (\<lambda>(DataSize, n).
                  Ret (zero_binn_value\<lparr>bv_type := data_type, bv_ptr := Some (drop (q + n) buf), bv_size := DataSize\<rparr>))
              else obind (IsValidBinnHeader (drop p buf) 0) (\<lambda>(_, count, size, _).
                Ret (zero_binn_value\<lparr>bv_type := data_type, bv_ptr := Some (drop p buf), bv_size := size, bv_count := count\<rparr>))))"

text \<open>
  The argument of the reading functions is a structure or a serialized buffer; they are told apart by the four bytes at
  the pointer.
\<close>

datatype binn_arg = Struct binn_value | Buffer bytes

definition binn_ptr :: "binn_arg \<Rightarrow> bytes outcome" where
  "binn_ptr a =
     (case a of
        Struct v \<Rightarrow> (case bv_ptr v of None \<Rightarrow> Fail | Some bs \<Rightarrow> Ret bs)
      | Buffer bs \<Rightarrow> obind (rdn 4 bs 0) (\<lambda>m. if le_val m = BINN_MAGIC then UB else Ret bs))"

definition binn_object_get_value :: "binn_arg \<Rightarrow> bytes \<Rightarrow> binn_value outcome" where
  "binn_object_get_value a key =
     obind (binn_ptr a) (\<lambda>buf.
       obind (IsValidBinnHeader buf 0) (\<lambda>(type, count, size, header_size).
         if type \<noteq> BINN_OBJECT then Fail
         else if count = 0 then Fail
         else obind (SearchForKey buf header_size size count key) (GetValue buf)))"

section \<open>Conversions of values\<close>

definition int_width :: "nat \<Rightarrow> nat" where
  "int_width type =
     (if type \<in> {BINN_INT8, BINN_UINT8} then 1 else if type \<in> {BINN_INT16, BINN_UINT16} then 2
      else if type \<in> {BINN_INT32, BINN_UINT32} then 4 else 8)"

text \<open>The bytes that are stored through \<open>pdest\<close>.\<close>

definition copy_int_value :: "bytes \<Rightarrow> nat \<Rightarrow> nat \<Rightarrow> bytes outcome" where
  "copy_int_value psource source_type dest_type =
     (if \<not> int_signed source_type \<and> \<not> int_unsigned source_type then Fail
      else obind (if int_signed source_type then rd_sint (int_width source_type) psource
                  else obind (rd_uint (int_width source_type) psource) (\<lambda>v. Ret (int v))) (\<lambda>v.
        let w = int_width dest_type in
        if int_unsigned source_type \<and> int_signed dest_type \<and> 2 ^ 63 - 1 < v then Fail
        else if int_signed source_type \<and> int_unsigned dest_type \<and> v < 0 then Fail
        else if int_signed dest_type then
          if w < 8 \<and> (v < - (256 ^ w div 2) \<or> 256 ^ w div 2 - 1 < v) then Fail else Ret (int_bytes w v)
        else if int_unsigned dest_type then
          if w < 8 \<and> 256 ^ w - 1 < v then Fail else Ret (int_bytes w v)
        else Fail))"

datatype got = Scalar bytes | Pointer bytes

definition copy_float_value :: "bytes \<Rightarrow> nat \<Rightarrow> bytes outcome" where
  "copy_float_value psource source_type =
     (if source_type = BINN_FLOAT32 then
        obind (rd_uint 4 psource) (\<lambda>v. Ret (le_bytes 8 (unat (double_of_float (word_of_nat v)))))
      else if source_type = BINN_FLOAT64 then
        obind (rd_uint 8 psource) (\<lambda>v. Ret (le_bytes 4 (unat (float_of_double (word_of_nat v)))))
      else Fail)"

definition copy_raw_value :: "bytes option \<Rightarrow> nat option \<Rightarrow> got outcome" where
  "copy_raw_value psource data_store =
     (let scalar = (\<lambda>n. case psource of None \<Rightarrow> UB | Some bs \<Rightarrow> obind (rdn n bs 0) (\<lambda>bs. Ret (Scalar bs))) in
      if data_store = Some BINN_STORAGE_NOBYTES then Ret (Scalar [])
      else if data_store = Some BINN_STORAGE_BYTE then scalar 1
      else if data_store = Some BINN_STORAGE_WORD then scalar 2
      else if data_store = Some BINN_STORAGE_DWORD then scalar 4
      else if data_store = Some BINN_STORAGE_QWORD then scalar 8
      else if data_store = None then Fail
      else (case psource of None \<Rightarrow> UB | Some bs \<Rightarrow> Ret (Pointer bs)))"

definition copy_value :: "bytes option \<Rightarrow> nat \<Rightarrow> nat \<Rightarrow> nat option \<Rightarrow> got outcome" where
  "copy_value psource source_type dest_type data_store =
     (if type_family source_type \<noteq> type_family dest_type then Fail
      else if type_family source_type = FAMILY_INT \<and> source_type \<noteq> dest_type then
        (case psource of None \<Rightarrow> UB
         | Some bs \<Rightarrow> obind (copy_int_value bs source_type dest_type) (\<lambda>bs. Ret (Scalar bs)))
      else if type_family source_type = FAMILY_FLOAT \<and> source_type \<noteq> dest_type then
        (case psource of None \<Rightarrow> UB | Some bs \<Rightarrow> obind (copy_float_value bs source_type) (\<lambda>bs. Ret (Scalar bs)))
      else copy_raw_value psource data_store)"

text \<open>
  The value under a key, converted to a type, and the size of a blob. A value of type \<open>BINN_CURRENCY\<close> counts as a string
  and lives in the local structure, so that the pointer to it dangles.
\<close>

definition binn_object_get :: "binn_arg \<Rightarrow> bytes \<Rightarrow> nat \<Rightarrow> (got \<times> nat) outcome" where
  "binn_object_get a key type =
     obind (binn_object_get_value a key) (\<lambda>value.
       obind (copy_value (bv_ptr value) (bv_type value) type (binn_get_read_storage type)) (\<lambda>r.
         case r of
           Pointer _ \<Rightarrow> if bv_type value = BINN_CURRENCY then UB else Ret (r, bv_size value)
         | Scalar _ \<Rightarrow> Ret (r, bv_size value)))"

text \<open>Numbers in strings.\<close>

definition is_digit :: "u8 \<Rightarrow> bool" where
  "is_digit c \<longleftrightarrow> 0x30 \<le> c \<and> c \<le> 0x39"

definition strip_minus :: "bytes \<Rightarrow> bool \<times> bytes" where
  "strip_minus s = (case s of [] \<Rightarrow> (False, []) | c # cs \<Rightarrow> if c = 0x2D then (True, cs) else (False, s))"

definition is_integer :: "bytes \<Rightarrow> bool" where
  "is_integer s = (let p = snd (strip_minus s) in p \<noteq> [] \<and> list_all is_digit p)"

fun float_chars :: "bool \<Rightarrow> bool \<Rightarrow> bytes \<Rightarrow> bool" where
  "float_chars number_found retval [] = retval"
| "float_chars number_found retval (c # cs) =
     (if c = 0x2E \<or> c = 0x2C then float_chars number_found (if number_found then retval else False) cs
      else if is_digit c then float_chars True retval cs
      else False)"

definition is_float :: "bytes \<Rightarrow> bool" where
  "is_float s = (let p = snd (strip_minus s) in p \<noteq> [] \<and> float_chars False True p)"

definition decimal :: "bytes \<Rightarrow> nat" where
  "decimal = foldl (\<lambda>v c. 10 * v + (unat c - 0x30)) 0"

definition signed_decimal :: "bytes \<Rightarrow> int" where
  "signed_decimal s = (case strip_minus s of (neg, p) \<Rightarrow> if neg then - int (decimal p) else int (decimal p))"

text \<open>\<open>atoi64\<close> adds up the absolute value in an \<open>int64\<close>; \<open>atoi\<close> and \<open>atof\<close> are those of the C library.\<close>

definition atoi64 :: "bytes \<Rightarrow> int outcome" where
  "atoi64 s = (if \<bar>signed_decimal s\<bar> < 2 ^ 63 then Ret (signed_decimal s) else UB)"

definition atoi :: "bytes \<Rightarrow> int outcome" where
  "atoi s = (let v = signed_decimal s in if - (2 ^ 31) \<le> v \<and> v < 2 ^ 31 then Ret v else UB)"

definition atof :: "bytes \<Rightarrow> u64" where
  "atof s =
     (case strip_minus s of (neg, p) \<Rightarrow>
        let whole = takeWhile is_digit p; rest = drop (length whole) p;
            frac = (case rest of [] \<Rightarrow> [] | c # cs \<Rightarrow> if c = 0x2E then takeWhile is_digit cs else []);
            v = of_nat (decimal (whole @ frac)) / 10 ^ length frac
        in double_of_rat neg (if neg then - v else v))"

definition to_outcome :: "'a option \<Rightarrow> 'a outcome" where
  "to_outcome m = (case m of None \<Rightarrow> UB | Some x \<Rightarrow> Ret x)"

definition vfloat :: "binn_value \<Rightarrow> u64" where
  "vfloat value = double_of_float (word_of_nat (le_val (take 4 (bv_union value))))"

definition vdouble :: "binn_value \<Rightarrow> u64" where
  "vdouble value = word_of_nat (le_val (bv_union value))"

definition vbool :: "binn_value \<Rightarrow> int" where
  "vbool value = sint_of 4 (le_val (take 4 (bv_union value)))"

text \<open>The limits of a range test are converted to the floating type first, which rounds the upper one.\<close>

definition round_within :: "int \<Rightarrow> int \<Rightarrow> u64 \<Rightarrow> int outcome" where
  "round_within lo hi x = (if double_less_int x lo \<or> double_greater_int x hi then Fail else to_outcome (roundval x))"

definition value_ptr :: "binn_value \<Rightarrow> bytes outcome" where
  "value_ptr value = (case bv_ptr value of None \<Rightarrow> UB | Some bs \<Rightarrow> Ret bs)"

definition int_of_bytes :: "bytes \<Rightarrow> int" where
  "int_of_bytes bs = sint_of (length bs) (le_val bs)"

definition binn_get_int32 :: "binn_value \<Rightarrow> int outcome" where
  "binn_get_int32 value =
     (if type_family (bv_type value) = FAMILY_INT then
        obind (value_ptr value) (\<lambda>p. obind (copy_int_value p (bv_type value) BINN_INT32) (\<lambda>bs. Ret (int_of_bytes bs)))
      else if bv_type value = BINN_FLOAT32 then round_within (- (2 ^ 31)) (2 ^ 31) (vfloat value)
      else if bv_type value = BINN_FLOAT64 then round_within (- (2 ^ 31)) (2 ^ 31 - 1) (vdouble value)
      else if bv_type value = BINN_STRING then
        obind (value_ptr value) (\<lambda>p. obind (cstr p) (\<lambda>s.
          if is_integer s then atoi s else if is_float s then to_outcome (roundval (atof s)) else Fail))
      else if bv_type value = BINN_BOOL then Ret (vbool value)
      else Fail)"

definition binn_get_int64 :: "binn_value \<Rightarrow> int outcome" where
  "binn_get_int64 value =
     (if type_family (bv_type value) = FAMILY_INT then
        obind (value_ptr value) (\<lambda>p. obind (copy_int_value p (bv_type value) BINN_INT64) (\<lambda>bs. Ret (int_of_bytes bs)))
      else if bv_type value = BINN_FLOAT32 then round_within (- (2 ^ 63)) (2 ^ 63) (vfloat value)
      else if bv_type value = BINN_FLOAT64 then round_within (- (2 ^ 63)) (2 ^ 63) (vdouble value)
      else if bv_type value = BINN_STRING then
        obind (value_ptr value) (\<lambda>p. obind (cstr p) (\<lambda>s.
          if is_integer s then atoi64 s else if is_float s then to_outcome (roundval (atof s)) else Fail))
      else if bv_type value = BINN_BOOL then Ret (vbool value)
      else Fail)"

definition binn_get_double :: "binn_value \<Rightarrow> u64 outcome" where
  "binn_get_double value =
     (if type_family (bv_type value) = FAMILY_INT then
        obind (value_ptr value) (\<lambda>p. obind (copy_int_value p (bv_type value) BINN_INT64) (\<lambda>bs.
          Ret (double_of_int (int_of_bytes bs))))
      else if bv_type value = BINN_FLOAT32 then Ret (vfloat value)
      else if bv_type value = BINN_FLOAT64 then Ret (vdouble value)
      else if bv_type value = BINN_STRING then
        obind (value_ptr value) (\<lambda>p. obind (cstr p) (\<lambda>s.
          if is_integer s then obind (atoi64 s) (\<lambda>v. Ret (double_of_int v)) else if is_float s then Ret (atof s) else Fail))
      else if bv_type value = BINN_BOOL then Ret (double_of_int (vbool value))
      else Fail)"

definition stricmp0 :: "bytes \<Rightarrow> string \<Rightarrow> bool" where
  "stricmp0 s t = (map tolower8 s = map of_char t)"

definition is_bool_str :: "bytes \<Rightarrow> bool outcome" where
  "is_bool_str s =
     (if stricmp0 s ''true'' \<or> stricmp0 s ''yes'' \<or> stricmp0 s ''on'' then Ret True
      else if stricmp0 s ''false'' \<or> stricmp0 s ''no'' \<or> stricmp0 s ''off'' then Ret False
      else if is_integer s then obind (atoi64 s) (\<lambda>v. Ret (v \<noteq> 0))
      else if is_float s then Ret (mag64 (atof s) \<noteq> 0)
      else Fail)"

definition binn_get_bool :: "binn_value \<Rightarrow> bool outcome" where
  "binn_get_bool value =
     (if type_family (bv_type value) = FAMILY_INT then
        obind (value_ptr value) (\<lambda>p. obind (copy_int_value p (bv_type value) BINN_INT64) (\<lambda>bs. Ret (int_of_bytes bs \<noteq> 0)))
      else if bv_type value = BINN_BOOL then Ret (vbool value \<noteq> 0)
      else if bv_type value = BINN_FLOAT32 then Ret (mag64 (vfloat value) \<noteq> 0)
      else if bv_type value = BINN_FLOAT64 then Ret (mag64 (vdouble value) \<noteq> 0)
      else if bv_type value = BINN_STRING then obind (value_ptr value) (\<lambda>p. obind (cstr p) is_bool_str)
      else Fail)"

section \<open>Loading and iterating\<close>

fun valid_items :: "bytes \<Rightarrow> nat \<Rightarrow> nat \<Rightarrow> nat \<Rightarrow> nat \<Rightarrow> unit outcome" where
  "valid_items buf plimit type 0 p = Ret ()"
| "valid_items buf plimit type (Suc n) p =
     obind (if type = BINN_OBJECT then obind (rd buf p) (\<lambda>len. Ret (p + 1 + unat len))
            else if type = BINN_MAP then obind (read_map_id buf plimit p) (\<lambda>(_, p). Ret p)
            else Ret p)
       (\<lambda>p. obind (AdvanceDataPos buf plimit p) (valid_items buf plimit type n))"

text \<open>\<open>binn_is_valid\<close>, which knows nothing of the container beforehand: type, number of elements and size.\<close>

definition binn_is_valid :: "binn_arg \<Rightarrow> (nat \<times> nat \<times> nat) outcome" where
  "binn_is_valid a =
     obind (binn_ptr a) (\<lambda>buf.
       obind (IsValidBinnHeader buf 0) (\<lambda>(type, count, sz, header_size).
         obind (valid_items buf sz type count header_size) (\<lambda>_. Ret (type, count, sz))))"

definition binn_load :: "bytes \<Rightarrow> binn_value outcome" where
  "binn_load data =
     obind (binn_is_valid (Buffer data)) (\<lambda>(type, count, sz).
       Ret (zero_binn_value\<lparr>bv_type := type, bv_ptr := Some data, bv_size := sz, bv_count := count\<rparr>))"

record binn_iter =
  bi_buf :: bytes
  bi_pnext :: "nat option"
  bi_plimit :: nat
  bi_type :: nat
  bi_count :: nat
  bi_current :: nat

definition zero_binn_iter :: binn_iter where
  "zero_binn_iter = \<lparr>bi_buf = [], bi_pnext = None, bi_plimit = 0, bi_type = 0, bi_count = 0, bi_current = 0\<rparr>"

text \<open>
  The iterator after the call, whatever the call returns: all zero when the buffer is not a container of the type, and what
  it was before (\<open>UB\<close> for an uninitialised variable) when the pointer is null.
\<close>

definition binn_iter_init :: "binn_iter outcome \<Rightarrow> binn_arg \<Rightarrow> nat \<Rightarrow> binn_iter outcome" where
  "binn_iter_init before a expected_type =
     (case binn_ptr a of UB \<Rightarrow> UB | Fail \<Rightarrow> before
      | Ret buf \<Rightarrow>
          (case IsValidBinnHeader buf 0 of UB \<Rightarrow> UB | Fail \<Rightarrow> Ret zero_binn_iter
           | Ret (type, count, sz, header_size) \<Rightarrow>
               if type \<noteq> expected_type then Ret zero_binn_iter
               else Ret \<lparr>bi_buf = buf, bi_pnext = Some header_size, bi_plimit = sz - 1, bi_type = type,
                         bi_count = count, bi_current = 0\<rparr>))"

definition binn_list_next :: "binn_iter \<Rightarrow> (binn_value \<times> binn_iter) outcome" where
  "binn_list_next iter =
     (case bi_pnext iter of None \<Rightarrow> Fail
      | Some pnow \<Rightarrow>
          if bi_plimit iter < pnow \<or> bi_count iter < bi_current iter \<or> bi_type iter \<noteq> BINN_LIST then Fail
          else if bi_count iter < bi_current iter + 1 then Fail
          else case AdvanceDataPos (bi_buf iter) (bi_plimit iter) pnow of
              UB \<Rightarrow> UB
            | r \<Rightarrow> obind (GetValue (bi_buf iter) pnow) (\<lambda>value.
                Ret (value, iter\<lparr>bi_current := bi_current iter + 1,
                                 bi_pnext := (case r of Ret q \<Rightarrow> Some q | _ \<Rightarrow> None)\<rparr>)))"

lemma binn_list_next_current:
  "binn_list_next iter = Ret (value, iter') \<Longrightarrow>
     bi_current iter' = bi_current iter + 1 \<and> bi_count iter' = bi_count iter \<and> bi_current iter' \<le> bi_count iter"
  by (auto simp: binn_list_next_def obind_eq_Ret split: option.splits if_splits outcome.splits)

text \<open>The macro \<open>binn_list_foreach\<close>: \<open>body\<close> runs on every element until it leaves the loop with \<open>Fail\<close>.\<close>

function list_loop :: "(binn_value \<Rightarrow> 's \<Rightarrow> 's outcome) \<Rightarrow> binn_iter \<Rightarrow> 's \<Rightarrow> 's outcome" where
  "list_loop body iter s =
     (case binn_list_next iter of UB \<Rightarrow> UB | Fail \<Rightarrow> Ret s
      | Ret (value, iter) \<Rightarrow> (case body value s of UB \<Rightarrow> UB | Fail \<Rightarrow> Fail | Ret s \<Rightarrow> list_loop body iter s))"
  by pat_completeness auto

termination
  by (relation "measure (\<lambda>(_, iter, _). Suc (bi_count iter) - bi_current iter)")
    (auto dest!: binn_list_next_current)

definition binn_list_foreach ::
  "binn_iter outcome \<Rightarrow> (binn_value \<Rightarrow> 's \<Rightarrow> 's outcome) \<Rightarrow> binn_arg \<Rightarrow> 's \<Rightarrow> 's outcome" where
  "binn_list_foreach before body a s = obind (binn_iter_init before a BINN_LIST) (\<lambda>iter. list_loop body iter s)"

text \<open>\<open>mdv_binn_list_length\<close> of src/mdv_platform/mdv_binn.c; its iterator is not initialised.\<close>

definition mdv_binn_list_length :: "binn_arg \<Rightarrow> nat outcome" where
  "mdv_binn_list_length a = binn_list_foreach UB (\<lambda>_ n. Ret (n + 1)) a 0"

section \<open>Writing\<close>

text \<open>
  A container that is being written: the bytes of \<open>pbuf\<close> up to \<open>used_size\<close>, with room for the header in front.
  \<open>bn_mem n\<close> is the outcome of its allocation number \<open>n\<close>, \<open>bn_grown\<close> the number of the last one. \<open>bn_ptr\<close> and
  \<open>bn_size\<close> are set when the header is saved. A container that failed to grow is released by every caller, so that
  \<open>Fail\<close> carries no container.
\<close>

record binn =
  bn_type :: nat
  bn_pbuf :: bytes
  bn_pre_allocated :: bool
  bn_alloc_size :: nat
  bn_ptr :: nat
  bn_size :: nat
  bn_count :: nat
  bn_dirty :: bool
  bn_mem :: "nat \<Rightarrow> bool"
  bn_grown :: nat

abbreviation bn_used_size :: "binn \<Rightarrow> nat" where
  "bn_used_size item \<equiv> length (bn_pbuf item)"

definition binn_create :: "(nat \<Rightarrow> bool) \<Rightarrow> nat \<Rightarrow> nat \<Rightarrow> bool \<Rightarrow> binn outcome" where
  "binn_create mem type sz pointer =
     (if type \<notin> {BINN_LIST, BINN_MAP, BINN_OBJECT} then Fail
      else if sz < MIN_BINN_SIZE \<and> pointer then Fail
      else
        let sz = (if sz < MIN_BINN_SIZE then CHUNK_SIZE else sz) in
        if \<not> pointer \<and> \<not> mem 0 then Fail
        else Ret \<lparr>bn_type = type, bn_pbuf = replicate MAX_BINN_HEADER 0, bn_pre_allocated = pointer, bn_alloc_size = sz,
                  bn_ptr = 0, bn_size = 0, bn_count = 0, bn_dirty = True, bn_mem = mem, bn_grown = 0\<rparr>)"

definition binn_create_list :: "(nat \<Rightarrow> bool) \<Rightarrow> binn outcome" where
  "binn_create_list mem = binn_create mem BINN_LIST 0 False"

definition binn_create_object :: "(nat \<Rightarrow> bool) \<Rightarrow> binn outcome" where
  "binn_create_object mem = binn_create mem BINN_OBJECT 0 False"

text \<open>Doubling; \<open>None\<close> is an overflow of \<open>int\<close>, or a loop that does not end because the size is zero.\<close>

partial_function (option) CalcAllocation :: "nat \<Rightarrow> nat \<Rightarrow> nat option" where
  "CalcAllocation needed_size calc_size =
     (if needed_size \<le> calc_size then Some calc_size
      else if 2 ^ 31 \<le> calc_size * 2 then None
      else CalcAllocation needed_size (calc_size * 2))"

definition CheckAllocation :: "binn \<Rightarrow> nat \<Rightarrow> binn outcome" where
  "CheckAllocation item add_size =
     (if 2 ^ 31 \<le> bn_used_size item + add_size then UB
      else if bn_used_size item + add_size > bn_alloc_size item then
        if bn_pre_allocated item then Fail
        else case CalcAllocation (bn_used_size item + add_size) (bn_alloc_size item) of None \<Rightarrow> UB
        | Some alloc_size \<Rightarrow>
            if bn_mem item (bn_grown item + 1)
            then Ret (item\<lparr>bn_alloc_size := alloc_size, bn_grown := bn_grown item + 1\<rparr>) else Fail
      else Ret item)"

text \<open>The narrowest type for an integer; on a little-endian machine the pointer to it stays.\<close>

definition compress_int :: "nat \<Rightarrow> nat \<Rightarrow> bytes \<Rightarrow> (nat \<times> nat) outcome" where
  "compress_int storage_type type psource =
     (if storage_type = BINN_STORAGE_BYTE then Ret (storage_type, type)
      else obind (if int_signed type then rd_sint (int_width type) psource
                  else obind (rd_uint (int_width type) psource) (\<lambda>v. Ret (int v))) (\<lambda>v.
        let type2 =
              (if v < 0 then if - (2 ^ 7) \<le> v then BINN_INT8 else if - (2 ^ 15) \<le> v then BINN_INT16
                             else if - (2 ^ 31) \<le> v then BINN_INT32 else 0
               else if v < 2 ^ 8 then BINN_UINT8 else if v < 2 ^ 16 then BINN_UINT16 else if v < 2 ^ 32 then BINN_UINT32
               else 0)
        in if type2 \<noteq> 0 \<and> type2 \<noteq> type then
             (case binn_get_write_storage type2 of Some st \<Rightarrow> Ret (st, type2) | None \<Rightarrow> UB)
           else Ret (storage_type, type)))"

definition strlen2 :: "bytes option \<Rightarrow> nat outcome" where
  "strlen2 str = (case str of None \<Rightarrow> Ret 0 | Some p \<Rightarrow> obind (cstr p) (\<lambda>s. Ret (length s)))"

text \<open>The bytes of a value behind its type byte, without the size in front of a string or blob.\<close>

definition source_bytes :: "bytes option \<Rightarrow> nat \<Rightarrow> bytes outcome" where
  "source_bytes pvalue n = (if n = 0 then Ret [] else case pvalue of None \<Rightarrow> UB | Some p \<Rightarrow> rdn n p 0)"

definition size_field :: "nat \<Rightarrow> bytes" where
  "size_field n = (if n > 127 then be_bytes 4 (n OR 0x80000000) else [word_of_nat n])"

definition AddValue :: "binn \<Rightarrow> nat \<Rightarrow> bytes option \<Rightarrow> nat \<Rightarrow> binn outcome" where
  "AddValue item type pvalue sz =
     (case binn_get_type_info type of None \<Rightarrow> Fail
      | Some storage_type \<Rightarrow>
          if pvalue = None \<and> storage_type \<noteq> BINN_STORAGE_NOBYTES \<and>
             \<not> ((storage_type = BINN_STORAGE_BLOB \<or> storage_type = BINN_STORAGE_STRING) \<and> sz = 0) then Fail
          else obind (if type_family type = FAMILY_INT then compress_int storage_type type (the pvalue)
                      else Ret (storage_type, type)) (\<lambda>(storage_type, type).
            obind (if storage_type = BINN_STORAGE_NOBYTES then Ret (0, 0)
                   else if storage_type = BINN_STORAGE_BYTE then Ret (1, 1)
                   else if storage_type = BINN_STORAGE_WORD then Ret (2, 2)
                   else if storage_type = BINN_STORAGE_DWORD then Ret (4, 4)
                   else if storage_type = BINN_STORAGE_QWORD then Ret (8, 8)
                   else if storage_type = BINN_STORAGE_BLOB then Ret (sz, sz + 4)
                   else if storage_type = BINN_STORAGE_STRING then
                     obind (if sz = 0 then strlen2 pvalue else Ret sz) (\<lambda>sz. Ret (sz, sz + 5))
                   else if sz = 0 then Fail else Ret (sz, sz)) (\<lambda>(sz, ArgSize).
              obind (CheckAllocation item (ArgSize + 2)) (\<lambda>item.
                obind (source_bytes pvalue sz) (\<lambda>data.
                  let type_bytes = (if storage_type = BINN_STORAGE_CONTAINER then []
                                    else if type > 255 then be_bytes 2 type else [word_of_nat type]);
                      value_bytes =
                        (if storage_type = BINN_STORAGE_BLOB then size_field sz @ data
                         else if storage_type = BINN_STORAGE_STRING then size_field sz @ data @ [0]
                         else if storage_type = BINN_STORAGE_CONTAINER then data
                         else rev data)
                  in Ret (item\<lparr>bn_pbuf := bn_pbuf item @ type_bytes @ value_bytes, bn_dirty := True\<rparr>))))))"

definition binn_list_add_raw :: "binn \<Rightarrow> nat \<Rightarrow> bytes option \<Rightarrow> nat \<Rightarrow> binn outcome" where
  "binn_list_add_raw item type pvalue sz =
     (if bn_type item \<noteq> BINN_LIST then Fail
      else obind (AddValue item type pvalue sz) (\<lambda>item. Ret (item\<lparr>bn_count := bn_count item + 1\<rparr>)))"

definition binn_object_set_raw :: "binn \<Rightarrow> bytes \<Rightarrow> nat \<Rightarrow> bytes option \<Rightarrow> nat \<Rightarrow> binn outcome" where
  "binn_object_set_raw item key type pvalue sz =
     (if bn_type item \<noteq> BINN_OBJECT then Fail
      else if length key > 255 then Fail
      else case SearchForKey (bn_pbuf item) MAX_BINN_HEADER (bn_used_size item) (bn_count item) key of
          UB \<Rightarrow> UB
        | Ret _ \<Rightarrow> Fail
        | Fail \<Rightarrow> obind (CheckAllocation item (1 + length key)) (\<lambda>item.
            obind (AddValue (item\<lparr>bn_pbuf := bn_pbuf item @ word_of_nat (length key) # key\<rparr>) type pvalue sz) (\<lambda>item.
              Ret (item\<lparr>bn_count := bn_count item + 1\<rparr>))))"

text \<open>A boolean is written as one of two types without data.\<close>

definition GetWriteConvertedData :: "nat \<Rightarrow> bytes option \<Rightarrow> nat \<Rightarrow> nat outcome" where
  "GetWriteConvertedData type pvalue sz =
     (if pvalue = None \<and> type \<notin> {BINN_NULL, BINN_TRUE, BINN_FALSE} \<and> \<not> (type \<in> {BINN_STRING, BINN_BLOB} \<and> sz = 0) then Fail
      else if type = BINN_BOOL then
        obind (rd_uint 4 (the pvalue)) (\<lambda>v. Ret (if v = 0 then BINN_FALSE else BINN_TRUE))
      else Ret type)"

definition binn_list_add :: "binn \<Rightarrow> nat \<Rightarrow> bytes option \<Rightarrow> nat \<Rightarrow> binn outcome" where
  "binn_list_add item type pvalue sz =
     obind (GetWriteConvertedData type pvalue sz) (\<lambda>type. binn_list_add_raw item type pvalue sz)"

definition binn_object_set :: "binn \<Rightarrow> bytes \<Rightarrow> nat \<Rightarrow> bytes option \<Rightarrow> nat \<Rightarrow> binn outcome" where
  "binn_object_set item key type pvalue sz =
     obind (GetWriteConvertedData type pvalue sz) (\<lambda>type. binn_object_set_raw item key type pvalue sz)"

text \<open>The header is written backwards from the first element.\<close>

definition binn_save_header :: "binn \<Rightarrow> binn" where
  "binn_save_header item =
     (let count_bytes = size_field (bn_count item);
          sz = bn_used_size item - MAX_BINN_HEADER + 3 + (if bn_count item > 127 then 3 else 0);
          size_bytes = (if sz > 127 then be_bytes 4 ((sz + 3) OR 0x80000000) else [word_of_nat sz]);
          header = word_of_nat (bn_type item) # size_bytes @ count_bytes;
          p = MAX_BINN_HEADER - length header
      in item\<lparr>bn_pbuf := blit p header (bn_pbuf item), bn_ptr := p, bn_size := (if sz > 127 then sz + 3 else sz), bn_dirty := False\<rparr>)"

text \<open>\<open>binn_ptr\<close> and \<open>binn_size\<close> of a container that is being written: the serialized bytes and their number.\<close>

definition binn_serialized :: "binn \<Rightarrow> bytes \<times> nat" where
  "binn_serialized item =
     (let item = (if bn_dirty item then binn_save_header item else item) in (drop (bn_ptr item) (bn_pbuf item), bn_size item))"

section \<open>Typed access\<close>

text \<open>The inline functions of binn.h that the program uses. Keys are string constants.\<close>

definition key_bytes :: "string \<Rightarrow> bytes" where
  "key_bytes = map of_char"

definition binn_object_set_bool :: "binn \<Rightarrow> string \<Rightarrow> bool \<Rightarrow> binn outcome" where
  "binn_object_set_bool obj key v = binn_object_set obj (key_bytes key) BINN_BOOL (Some (le_bytes 4 (of_bool v))) 0"

definition binn_object_set_uint16 :: "binn \<Rightarrow> string \<Rightarrow> u16 \<Rightarrow> binn outcome" where
  "binn_object_set_uint16 obj key v = binn_object_set obj (key_bytes key) BINN_UINT16 (Some (le_bytes 2 (unat v))) 0"

definition binn_object_set_int32 :: "binn \<Rightarrow> string \<Rightarrow> u32 \<Rightarrow> binn outcome" where
  "binn_object_set_int32 obj key v = binn_object_set obj (key_bytes key) BINN_INT32 (Some (le_bytes 4 (unat v))) 0"

definition binn_object_set_uint32 :: "binn \<Rightarrow> string \<Rightarrow> u32 \<Rightarrow> binn outcome" where
  "binn_object_set_uint32 obj key v = binn_object_set obj (key_bytes key) BINN_UINT32 (Some (le_bytes 4 (unat v))) 0"

definition binn_object_set_uint64 :: "binn \<Rightarrow> string \<Rightarrow> u64 \<Rightarrow> binn outcome" where
  "binn_object_set_uint64 obj key v = binn_object_set obj (key_bytes key) BINN_UINT64 (Some (le_bytes 8 (unat v))) 0"

text \<open>A string is the bytes in front of its zero.\<close>

definition binn_object_set_str :: "binn \<Rightarrow> string \<Rightarrow> bytes \<Rightarrow> binn outcome" where
  "binn_object_set_str obj key str = binn_object_set obj (key_bytes key) BINN_STRING (Some (str @ [0])) 0"

text \<open>The size of a blob is an \<open>int\<close>; a negative one is refused.\<close>

definition binn_object_set_blob :: "binn \<Rightarrow> string \<Rightarrow> bytes \<Rightarrow> nat \<Rightarrow> binn outcome" where
  "binn_object_set_blob obj key p sz =
     (if 2 ^ 31 \<le> sz then Fail else binn_object_set obj (key_bytes key) BINN_BLOB (Some p) sz)"

definition binn_object_set_list :: "binn \<Rightarrow> string \<Rightarrow> binn \<Rightarrow> binn outcome" where
  "binn_object_set_list obj key list =
     (case binn_serialized list of (p, sz) \<Rightarrow> binn_object_set obj (key_bytes key) BINN_LIST (Some p) sz)"

definition binn_object_set_object :: "binn \<Rightarrow> string \<Rightarrow> binn \<Rightarrow> binn outcome" where
  "binn_object_set_object obj key obj2 =
     (case binn_serialized obj2 of (p, sz) \<Rightarrow> binn_object_set obj (key_bytes key) BINN_OBJECT (Some p) sz)"

definition binn_list_add_list :: "binn \<Rightarrow> binn \<Rightarrow> binn outcome" where
  "binn_list_add_list list list2 = (case binn_serialized list2 of (p, sz) \<Rightarrow> binn_list_add list BINN_LIST (Some p) sz)"

definition binn_list_add_object :: "binn \<Rightarrow> binn \<Rightarrow> binn outcome" where
  "binn_list_add_object list obj = (case binn_serialized obj of (p, sz) \<Rightarrow> binn_list_add list BINN_OBJECT (Some p) sz)"

definition got_word :: "got \<times> nat \<Rightarrow> ('a :: len) word outcome" where
  "got_word r = (case fst r of Scalar bs \<Rightarrow> Ret (word_of_nat (le_val bs)) | Pointer _ \<Rightarrow> UB)"

definition got_pointer :: "got \<times> nat \<Rightarrow> bytes outcome" where
  "got_pointer r = (case fst r of Scalar _ \<Rightarrow> UB | Pointer p \<Rightarrow> Ret p)"

definition binn_object_get_bool :: "binn_arg \<Rightarrow> string \<Rightarrow> bool outcome" where
  "binn_object_get_bool obj key =
     obind (obind (binn_object_get obj (key_bytes key) BINN_BOOL) got_word) (\<lambda>v :: u32. Ret (v \<noteq> 0))"

definition binn_object_get_uint16 :: "binn_arg \<Rightarrow> string \<Rightarrow> u16 outcome" where
  "binn_object_get_uint16 obj key = obind (binn_object_get obj (key_bytes key) BINN_UINT16) got_word"

definition binn_object_get_int32 :: "binn_arg \<Rightarrow> string \<Rightarrow> u32 outcome" where
  "binn_object_get_int32 obj key = obind (binn_object_get obj (key_bytes key) BINN_INT32) got_word"

definition binn_object_get_uint32 :: "binn_arg \<Rightarrow> string \<Rightarrow> u32 outcome" where
  "binn_object_get_uint32 obj key = obind (binn_object_get obj (key_bytes key) BINN_UINT32) got_word"

definition binn_object_get_uint64 :: "binn_arg \<Rightarrow> string \<Rightarrow> u64 outcome" where
  "binn_object_get_uint64 obj key = obind (binn_object_get obj (key_bytes key) BINN_UINT64) got_word"

text \<open>The pointers: to the characters of a string, to a serialized container, and to a blob with its size.\<close>

definition binn_object_get_str :: "binn_arg \<Rightarrow> string \<Rightarrow> bytes outcome" where
  "binn_object_get_str obj key = obind (binn_object_get obj (key_bytes key) BINN_STRING) got_pointer"

definition binn_object_get_list :: "binn_arg \<Rightarrow> string \<Rightarrow> binn_arg outcome" where
  "binn_object_get_list obj key =
     obind (obind (binn_object_get obj (key_bytes key) BINN_LIST) got_pointer) (\<lambda>p. Ret (Buffer p))"

definition binn_object_get_object :: "binn_arg \<Rightarrow> string \<Rightarrow> binn_arg outcome" where
  "binn_object_get_object obj key =
     obind (obind (binn_object_get obj (key_bytes key) BINN_OBJECT) got_pointer) (\<lambda>p. Ret (Buffer p))"

definition binn_object_get_blob :: "binn_arg \<Rightarrow> string \<Rightarrow> (bytes \<times> nat) outcome" where
  "binn_object_get_blob obj key =
     obind (binn_object_get obj (key_bytes key) BINN_BLOB) (\<lambda>r. obind (got_pointer r) (\<lambda>p. Ret (p, snd r)))"

end
