(* ===== verification/Mdv_Types.thy ===== *)
theory Mdv_Types
  imports Mdv_Uuid Mdv_Bitset Mdv_Binn
begin

text \<open>
  The data types of src/mdv_types: fields, table descriptions, tables, rows, row sets with their enumerator, and single
  data. A string is its bytes without the terminating zero, a datum of a row the bytes it refers to. The outcome of an
  allocation is a boolean argument, or a schedule of them where a function allocates more than once.
\<close>

section \<open>Fields\<close>

abbreviation (input) "MDV_FLD_TYPE_BOOL \<equiv> 1 :: u32"
abbreviation (input) "MDV_FLD_TYPE_CHAR \<equiv> 2 :: u32"
abbreviation (input) "MDV_FLD_TYPE_BYTE \<equiv> 3 :: u32"
abbreviation (input) "MDV_FLD_TYPE_INT8 \<equiv> 4 :: u32"
abbreviation (input) "MDV_FLD_TYPE_UINT8 \<equiv> 5 :: u32"
abbreviation (input) "MDV_FLD_TYPE_INT16 \<equiv> 6 :: u32"
abbreviation (input) "MDV_FLD_TYPE_UINT16 \<equiv> 7 :: u32"
abbreviation (input) "MDV_FLD_TYPE_INT32 \<equiv> 8 :: u32"
abbreviation (input) "MDV_FLD_TYPE_UINT32 \<equiv> 9 :: u32"
abbreviation (input) "MDV_FLD_TYPE_INT64 \<equiv> 10 :: u32"
abbreviation (input) "MDV_FLD_TYPE_UINT64 \<equiv> 11 :: u32"
abbreviation (input) "MDV_FLD_TYPE_FLOAT \<equiv> 12 :: u32"
abbreviation (input) "MDV_FLD_TYPE_DOUBLE \<equiv> 13 :: u32"

record mdv_field =
  fd_type :: u32
  fd_limit :: u32
  fd_name :: bytes

definition mdv_field_type_size :: "u32 \<Rightarrow> nat" where
  "mdv_field_type_size t =
     (if t \<in> {MDV_FLD_TYPE_BOOL, MDV_FLD_TYPE_CHAR, MDV_FLD_TYPE_BYTE, MDV_FLD_TYPE_INT8, MDV_FLD_TYPE_UINT8} then 1
      else if t \<in> {MDV_FLD_TYPE_INT16, MDV_FLD_TYPE_UINT16} then 2
      else if t \<in> {MDV_FLD_TYPE_INT32, MDV_FLD_TYPE_UINT32, MDV_FLD_TYPE_FLOAT} then 4
      else if t \<in> {MDV_FLD_TYPE_INT64, MDV_FLD_TYPE_UINT64, MDV_FLD_TYPE_DOUBLE} then 8
      else 0)"

section \<open>Table descriptions\<close>

text \<open>
  The number of fields is the length of the list. \<open>td_dynamic_alloc\<close> marks a description that can grow; it then owns a
  vector of fields. \<open>None\<close> is a flag that nobody has set. \<open>td_capacity\<close> is the capacity of that vector, and \<open>td_stale\<close> says that the vector has moved and the
  pointer \<open>fields\<close> still refers to its former place.
\<close>

record mdv_table_desc =
  td_name :: bytes
  td_fields :: "mdv_field list"
  td_dynamic_alloc :: "bool option"
  td_capacity :: nat
  td_stale :: bool

definition mdv_table_desc_create :: "(nat \<Rightarrow> bool) \<Rightarrow> bytes \<Rightarrow> mdv_table_desc outcome" where
  "mdv_table_desc_create mem name =
     (if \<not> mem 0 then Fail
      else if \<not> mem 1 then Fail
      else if \<not> mem 2 then Fail
      else Ret \<lparr>td_name = name, td_fields = [], td_dynamic_alloc = Some True, td_capacity = 2, td_stale = False\<rparr>)"

text \<open>
  The description afterwards and the result. A full vector is moved to a place of twice the size; the name of the field
  is copied next. When that copy fails the field is taken back, and the pointer to the fields is not renewed.
\<close>

definition mdv_table_desc_append :: "(nat \<Rightarrow> bool) \<Rightarrow> mdv_table_desc \<Rightarrow> mdv_field \<Rightarrow> (mdv_table_desc \<times> bool) outcome" where
  "mdv_table_desc_append mem desc field =
     (case td_dynamic_alloc desc of None \<Rightarrow> UB
      | Some False \<Rightarrow> Ret (desc, False)
      | Some True \<Rightarrow>
        let full = (td_capacity desc \<le> length (td_fields desc)) in
        if full \<and> \<not> mem 0 then Ret (desc, False)
        else
          let desc = (if full then desc\<lparr>td_capacity := 2 * td_capacity desc, td_stale := True\<rparr> else desc) in
          if \<not> mem 1 then Ret (desc, False)
          else Ret (desc\<lparr>td_fields := td_fields desc @ [field], td_stale := False\<rparr>, True))"

section \<open>Tables\<close>

record mdv_table =
  tb_rc :: u32
  tb_id :: mdv_uuid
  tb_desc :: mdv_table_desc

text \<open>\<open>mask && !mdv_bitset_test (mask, n)\<close>, the test that skips a field.\<close>

definition masked :: "mdv_bitset option \<Rightarrow> nat \<Rightarrow> bool outcome" where
  "masked fmask n =
     (case fmask of None \<Rightarrow> Ret False
      | Some bits \<Rightarrow> (case mdv_bitset_test bits n of None \<Rightarrow> UB | Some b \<Rightarrow> Ret (\<not> b)))"

fun select_fields :: "mdv_bitset option \<Rightarrow> nat \<Rightarrow> mdv_field list \<Rightarrow> mdv_field list outcome" where
  "select_fields fmask i [] = Ret []"
| "select_fields fmask i (field # fds) =
     obind (masked fmask i) (\<lambda>skip. obind (select_fields fmask (i + 1) fds) (\<lambda>rest.
       Ret (if skip then rest else field # rest)))"

definition mdv_table_create_impl :: "bool \<Rightarrow> mdv_uuid \<Rightarrow> mdv_table_desc \<Rightarrow> mdv_bitset option \<Rightarrow> mdv_table outcome" where
  "mdv_table_create_impl mem uuid desc fmask =
     (if td_stale desc then UB
      else obind (select_fields fmask 0 (td_fields desc)) (\<lambda>fields.
        if \<not> mem then Fail
        else Ret \<lparr>tb_rc = 1, tb_id = uuid,
                  tb_desc = \<lparr>td_name = td_name desc, td_fields = fields, td_dynamic_alloc = None, td_capacity = 0,
                             td_stale = False\<rparr>\<rparr>))"

definition mdv_table_create :: "bool \<Rightarrow> mdv_uuid \<Rightarrow> mdv_table_desc \<Rightarrow> mdv_table outcome" where
  "mdv_table_create mem uuid desc = mdv_table_create_impl mem uuid desc None"

definition mdv_table_slice :: "bool \<Rightarrow> mdv_table \<Rightarrow> mdv_bitset \<Rightarrow> mdv_table outcome" where
  "mdv_table_slice mem table fmask = mdv_table_create_impl mem (tb_id table) (tb_desc table) (Some fmask)"

definition mdv_table_retain :: "mdv_table \<Rightarrow> mdv_table" where
  "mdv_table_retain table = table\<lparr>tb_rc := tb_rc table + 1\<rparr>"

text \<open>The table afterwards (none when it is freed) and the count that is left.\<close>

definition mdv_table_release :: "mdv_table option \<Rightarrow> mdv_table option \<times> u32" where
  "mdv_table_release table =
     (case table of None \<Rightarrow> (None, 0)
      | Some t \<Rightarrow> let rc = tb_rc t - 1 in (if rc = 0 then None else Some (t\<lparr>tb_rc := rc\<rparr>), rc))"

section \<open>Row sets\<close>

type_synonym mdv_row = "bytes list"

record mdv_rowset =
  rs_rc :: u32
  rs_table :: mdv_table
  rs_rows :: "mdv_row list"

definition mdv_rowset_create :: "bool \<Rightarrow> mdv_table \<Rightarrow> mdv_rowset outcome" where
  "mdv_rowset_create mem table =
     (if \<not> mem then Fail else Ret \<lparr>rs_rc = 1, rs_table = mdv_table_retain table, rs_rows = []\<rparr>)"

definition mdv_rowset_impl_emplace :: "mdv_rowset \<Rightarrow> mdv_row \<Rightarrow> mdv_rowset" where
  "mdv_rowset_impl_emplace rowset entry = rowset\<lparr>rs_rows := rs_rows rowset @ [entry]\<rparr>"

text \<open>Each row is copied, as many fields as the table has columns; \<open>mem i\<close> is the allocation for row \<open>i\<close>.\<close>

fun append_rows :: "(nat \<Rightarrow> bool) \<Rightarrow> nat \<Rightarrow> mdv_row list \<Rightarrow> mdv_rowset \<Rightarrow> (mdv_rowset \<times> nat) outcome" where
  "append_rows mem appended [] rowset = Ret (rowset, appended)"
| "append_rows mem appended (row # rows) rowset =
     (let cols = length (td_fields (tb_desc (rs_table rowset))) in
      if length row < cols then UB
      else if \<not> mem appended then Ret (rowset, appended)
      else append_rows mem (appended + 1) rows (mdv_rowset_impl_emplace rowset (take cols row)))"

definition mdv_rowset_impl_append :: "(nat \<Rightarrow> bool) \<Rightarrow> mdv_rowset \<Rightarrow> mdv_row list \<Rightarrow> (mdv_rowset \<times> nat) outcome" where
  "mdv_rowset_impl_append mem rowset rows = append_rows mem 0 rows rowset"

text \<open>The enumerator refers to an entry of the list, by its index; it starts in front of the first one.\<close>

record mdv_rowset_enumerator =
  re_rowset :: mdv_rowset
  re_current :: "nat option"

definition mdv_rowset_enumerator_impl_create :: "bool \<Rightarrow> mdv_rowset \<Rightarrow> mdv_rowset_enumerator outcome" where
  "mdv_rowset_enumerator_impl_create mem rowset =
     (if \<not> mem then Fail else Ret \<lparr>re_rowset = rowset\<lparr>rs_rc := rs_rc rowset + 1\<rparr>, re_current = None\<rparr>)"

definition mdv_rowset_enumerator_impl_reset :: "mdv_rowset_enumerator \<Rightarrow> mdv_rowset_enumerator \<times> mdv_errno" where
  "mdv_rowset_enumerator_impl_reset e = (e\<lparr>re_current := None\<rparr>, MDV_OK)"

definition mdv_rowset_enumerator_impl_next :: "mdv_rowset_enumerator \<Rightarrow> mdv_rowset_enumerator \<times> mdv_errno" where
  "mdv_rowset_enumerator_impl_next e =
     (let i = (case re_current e of None \<Rightarrow> 0 | Some i \<Rightarrow> i + 1);
          current = (if i < length (rs_rows (re_rowset e)) then Some i else None)
      in (e\<lparr>re_current := current\<rparr>, if current = None then MDV_FAILED else MDV_OK))"

definition mdv_rowset_enumerator_impl_current :: "mdv_rowset_enumerator \<Rightarrow> mdv_row option" where
  "mdv_rowset_enumerator_impl_current e =
     (case re_current e of None \<Rightarrow> None | Some i \<Rightarrow> Some (rs_rows (re_rowset e) ! i))"

section \<open>Single data\<close>

record mdv_datum =
  dt_type :: u32
  dt_data :: bytes

text \<open>
  \<open>mdv_datum_create\<close>: the copy of the items at \<open>v\<close>. For characters the code stores a zero behind the items, outside the
  memory it has allocated.
\<close>

definition mdv_datum_create :: "bool \<Rightarrow> u32 \<Rightarrow> bytes \<Rightarrow> nat \<Rightarrow> mdv_datum outcome" where
  "mdv_datum_create mem type v sz =
     (let n = mdv_field_type_size type in
      if n = 0 then Fail
      else if \<not> mem then Fail
      else if length v < sz div n * n then UB
      else if type = MDV_FLD_TYPE_CHAR then UB
      else Ret \<lparr>dt_type = type, dt_data = take (sz div n * n) v\<rparr>)"

definition mdv_datum_size :: "mdv_datum \<Rightarrow> nat" where
  "mdv_datum_size datum = length (dt_data datum)"

definition mdv_datum_count :: "mdv_datum \<Rightarrow> nat" where
  "mdv_datum_count datum = length (dt_data datum) div mdv_field_type_size (dt_type datum)"

text \<open>The accessors \<open>mdv_datum_as_bool\<close> and so on, one per type.\<close>

definition mdv_datum_as :: "u32 \<Rightarrow> mdv_datum \<Rightarrow> bytes outcome" where
  "mdv_datum_as type datum = (if dt_type datum \<noteq> type then Fail else Ret (dt_data datum))"

end
