(* ===== verification/Mdv_Binn_Format.thy ===== *)
theory Mdv_Binn_Format
  imports Mdv_Binn
begin

text \<open>
  The format that the functions of Mdv_Binn read and write. An element is an atom of fixed width, a string, a blob or a
  container with its number of elements and its body; \<open>enc\<close> is its serialization. The lemmas say that walking over a
  buffer steps from element to element (\<open>advance_elem\<close>), that reading an element gives its value (\<open>get_value_elem\<close>), that
  a key finds the value stored under it (\<open>object_get_value\<close>), that a loop over a list visits its elements in order
  (\<open>list_foreach\<close>), and that the writing functions append the serialization of what they are given.
\<close>

section \<open>Elements\<close>

datatype elem = Atom nat bytes | Str bytes | Blob bytes | Cont nat nat bytes

definition storage_width :: "nat \<Rightarrow> nat option" where
  "storage_width st =
     (if st = BINN_STORAGE_NOBYTES then Some 0 else if st = BINN_STORAGE_BYTE then Some 1
      else if st = BINN_STORAGE_WORD then Some 2 else if st = BINN_STORAGE_DWORD then Some 4
      else if st = BINN_STORAGE_QWORD then Some 8 else None)"

definition cont_size :: "nat \<Rightarrow> nat \<Rightarrow> nat" where
  "cont_size n body = (let sz = body + 3 + (if n > 127 then 3 else 0) in if sz > 127 then sz + 3 else sz)"

definition cont_header :: "nat \<Rightarrow> nat \<Rightarrow> nat \<Rightarrow> bytes" where
  "cont_header t n body = word_of_nat t # size_field (cont_size n body) @ size_field n"

fun enc :: "elem \<Rightarrow> bytes" where
  "enc (Atom t ds) = word_of_nat t # ds"
| "enc (Str s) = 0xA0 # size_field (length s) @ s @ [0]"
| "enc (Blob b) = 0xC0 # size_field (length b) @ b"
| "enc (Cont t n body) = cont_header t n (length body) @ body"

fun wf_elem :: "elem \<Rightarrow> bool" where
  "wf_elem (Atom t ds) \<longleftrightarrow> t < 256 \<and> t AND 0x10 = 0 \<and> storage_width (t AND 0xE0) = Some (length ds)"
| "wf_elem (Str s) \<longleftrightarrow> length s < 2 ^ 31"
| "wf_elem (Blob b) \<longleftrightarrow> length b < 2 ^ 31"
| "wf_elem (Cont t n body) \<longleftrightarrow> t \<in> {BINN_LIST, BINN_MAP, BINN_OBJECT} \<and> n < 2 ^ 31 \<and> cont_size n (length body) < 2 ^ 31"

text \<open>What \<open>GetValue\<close> makes of an element that is followed by \<open>post\<close>.\<close>

fun elem_value :: "bytes \<Rightarrow> elem \<Rightarrow> binn_value" where
  "elem_value post (Atom t ds) =
     (if t = BINN_TRUE then union_value BINN_BOOL 4 1
      else if t = BINN_FALSE then union_value BINN_BOOL 4 0
      else if ds = [] then zero_binn_value\<lparr>bv_type := t\<rparr>
      else if length ds = 1 then (union_value t 1 (unat (hd ds)))\<lparr>bv_ptr := Some (ds @ post)\<rparr>
      else union_value t (length ds) (be_val ds))"
| "elem_value post (Str s) = zero_binn_value\<lparr>bv_type := BINN_STRING, bv_ptr := Some (s @ 0 # post), bv_size := length s\<rparr>"
| "elem_value post (Blob b) = zero_binn_value\<lparr>bv_type := BINN_BLOB, bv_ptr := Some (b @ post), bv_size := length b\<rparr>"
| "elem_value post (Cont t n body) =
     zero_binn_value\<lparr>bv_type := t, bv_ptr := Some (enc (Cont t n body) @ post), bv_size := cont_size n (length body), bv_count := n\<rparr>"

section \<open>Reading memory\<close>

lemma rd_at [simp]: "rd (pre @ xs) (length pre) = rd xs 0"
  by (cases xs) (auto simp: rd_def nth_append)

lemma rd_shift [simp]: "rd (pre @ xs) (length pre + k) = rd xs k"
  by (auto simp: rd_def nth_append)

lemma rd_Cons [simp]: "rd (x # xs) 0 = Ret x" "rd (x # xs) (Suc k) = rd xs k"
  by (auto simp: rd_def)

lemma rdn_shift: "rdn n (pre @ xs) (length pre + k) = rdn n xs k"
  by (auto simp: rdn_def slice_def)

lemma rdn_at: "n \<le> length xs \<Longrightarrow> rdn n (pre @ xs) (length pre) = Ret (take n xs)"
  using rdn_shift [of n pre xs 0] by (simp add: rdn_def slice_def)

lemma rdn_0: "n \<le> length xs \<Longrightarrow> rdn n xs 0 = Ret (take n xs)"
  by (simp add: rdn_def slice_def)

lemma and_exp_nat: "(n :: nat) AND 2 ^ k \<noteq> 0 \<longleftrightarrow> odd (n div 2 ^ k)"
  by (simp add: and_exp_eq_0_iff_not_bit bit_iff_odd)

lemma and_128: "n < 256 \<Longrightarrow> (n :: nat) AND 0x80 = 0 \<longleftrightarrow> n < 128"
proof -
  assume n: "n < 256"
  have "n div 128 = 0 \<or> n div 128 = 1" using n by linarith
  then have "odd (n div 128) \<longleftrightarrow> 128 \<le> n" using n by auto
  then show ?thesis using and_exp_nat [of n 7] by auto
qed

lemma or_high: "n < 2 ^ 31 \<Longrightarrow> (n :: nat) OR 0x80000000 = n + 0x80000000"
proof -
  assume n: "n < 2 ^ 31"
  have "n = take_bit 31 n" using n by (simp add: take_bit_nat_eq_self)
  then have "n AND 2 ^ 31 = 0"
    by (metis and_exp_eq_0_iff_not_bit bit_take_bit_iff less_irrefl)
  then show ?thesis using disjunctive_add_eq_or [of n "2 ^ 31"] by simp
qed

lemma be_bytes_4: "be_bytes 4 v = [word_of_nat (v div 256 div 256 div 256 mod 256), word_of_nat (v div 256 div 256 mod 256),
    word_of_nat (v div 256 mod 256), word_of_nat (v mod 256)]"
proof -
  have "le_bytes (Suc (Suc (Suc (Suc 0)))) v = [word_of_nat (v mod 256), word_of_nat (v div 256 mod 256),
      word_of_nat (v div 256 div 256 mod 256), word_of_nat (v div 256 div 256 div 256 mod 256)]"
    by simp
  moreover have "4 = Suc (Suc (Suc (Suc 0)))" by simp
  ultimately show ?thesis by (simp only: be_bytes_def) simp
qed

lemma length_size_field: "length (size_field n) = (if n > 127 then 4 else 1)"
  by (simp add: size_field_def)

lemma size_field_long:
  assumes "127 < n" "n < 2 ^ 31"
  obtains b bs where "size_field n = b # bs" "length bs = 3" "\<not> unat b < 128" "be_val (b # bs) mod 2 ^ 31 = n"
proof -
  let ?v = "n + 0x80000000"
  have sf: "size_field n = be_bytes 4 ?v" using assms by (simp add: size_field_def or_high)
  have v: "?v < 256 ^ 4" using assms by simp
  have "be_val (size_field n) = ?v" unfolding sf be_val_be_bytes by (rule mod_less [OF v])
  then have val: "be_val (size_field n) mod 2 ^ 31 = n" using assms by simp
  obtain q where q: "q = ?v div 256 div 256 div 256" by simp
  have "128 \<le> q" "q < 256" using assms by (simp_all add: q div_mult2_eq [symmetric] less_eq_div_iff_mult_less_eq div_less_iff_less_mult)
  then have "\<not> unat (word_of_nat (q mod 256) :: u8) < 128"
    by (simp add: unsigned_of_nat take_bit_nat_eq_self)
  then show ?thesis using that val unfolding sf be_bytes_4 q [symmetric] by simp
qed

lemma limited_size_field:
  assumes "n < 2 ^ 31" "\<And>l. plimit = Some l \<Longrightarrow> length pre + length (size_field n) \<le> l + 1"
  shows "limited_size plimit (pre @ size_field n @ post) (length pre) = Ret (n, length (size_field n))"
proof (cases "n > 127")
  case True
  then obtain b bs where b: "size_field n = b # bs" "length bs = 3" "\<not> unat b < 128" "be_val (b # bs) mod 2 ^ 31 = n"
    using assms(1) by (rule size_field_long)
  have "rdn 4 (pre @ (b # bs) @ post) (length pre) = Ret (b # bs)"
    using b by (subst rdn_at) auto
  moreover have "\<not> (case plimit of None \<Rightarrow> False | Some l \<Rightarrow> l < length pre + 3)"
    "\<not> (case plimit of None \<Rightarrow> False | Some l \<Rightarrow> l < length pre)"
    using assms(2) b by (auto split: option.splits)
  ultimately show ?thesis
    using b by (simp add: limited_size_def and_128)
next
  case False
  then have "size_field n = [word_of_nat n]" "unat (word_of_nat n :: u8) = n"
    by (simp_all add: size_field_def unsigned_of_nat take_bit_nat_eq_self)
  moreover from this have "\<not> (case plimit of None \<Rightarrow> False | Some l \<Rightarrow> l < length pre)"
    using assms(2) by (auto split: option.splits)
  ultimately show ?thesis
    using False by (simp add: limited_size_def and_128)
qed

section \<open>Walking over elements\<close>

lemma container_type:
  assumes "t \<in> {BINN_LIST, BINN_MAP, BINN_OBJECT}"
  shows "unat (word_of_nat t :: u8) = t" "t AND 0xE0 = 0xE0" "t AND 0x10 = 0"
  using assms by auto

lemma header_elem:
  assumes "wf_elem (Cont t n body)"
  shows "IsValidBinnHeader (enc (Cont t n body) @ post) 0
           = Ret (t, n, cont_size n (length body), length (cont_header t n (length body)))"
proof -
  let ?sz = "cont_size n (length body)"
  have t: "t \<in> {BINN_LIST, BINN_MAP, BINN_OBJECT}" and n: "n < 2 ^ 31" and sz: "?sz < 2 ^ 31" using assms by auto
  have "3 \<le> ?sz" by (simp add: cont_size_def Let_def)
  moreover have "limited_size None (word_of_nat t # size_field ?sz @ size_field n @ body @ post) 1 = Ret (?sz, length (size_field ?sz))"
    using limited_size_field [OF sz, of None "[word_of_nat t]"] by simp
  moreover have "limited_size None (word_of_nat t # size_field ?sz @ size_field n @ body @ post) (Suc (length (size_field ?sz)))
      = Ret (n, length (size_field n))"
    using limited_size_field [OF n, of None "word_of_nat t # size_field ?sz"] by simp
  ultimately show ?thesis
    using t container_type [OF t] by (simp add: IsValidBinnHeader_def cont_header_def)
qed

lemma length_enc_cont: "length (enc (Cont t n body)) = cont_size n (length body)"
  by (auto simp: cont_header_def length_size_field cont_size_def Let_def)


lemma advance_elem:
  assumes "wf_elem e" "length pre + length (enc e) \<le> plimit + 1"
  shows "AdvanceDataPos (pre @ enc e @ post) plimit (length pre)
           = (if length pre + length (enc e) \<le> plimit then Ret (length pre + length (enc e)) else Fail)"
proof (cases e)
  case (Atom t ds)
  then have "unat (word_of_nat t :: u8) = t" using assms(1) by (simp add: unsigned_of_nat take_bit_nat_eq_self)
  then show ?thesis
    using assms Atom by (auto simp: AdvanceDataPos_def storage_width_def Let_def split: if_splits)
next
  case (Str s)
  have "limited_size (Some plimit) ((pre @ [0xA0]) @ size_field (length s) @ s @ 0 # post) (length (pre @ [0xA0]))
      = Ret (length s, length (size_field (length s)))"
    using assms Str by (intro limited_size_field) auto
  then show ?thesis using assms Str by (simp add: AdvanceDataPos_def)
next
  case (Blob b)
  have "limited_size (Some plimit) ((pre @ [0xC0]) @ size_field (length b) @ b @ post) (length (pre @ [0xC0]))
      = Ret (length b, length (size_field (length b)))"
    using assms Blob by (intro limited_size_field) auto
  then show ?thesis using assms Blob by (simp add: AdvanceDataPos_def)
next
  case (Cont t n body)
  let ?sz = "cont_size n (length body)"
  have t: "t \<in> {BINN_LIST, BINN_MAP, BINN_OBJECT}" and sz: "?sz < 2 ^ 31" using assms Cont by auto
  have len: "length (enc e) = ?sz" "0 < ?sz" unfolding Cont length_enc_cont by (simp_all add: cont_size_def Let_def)
  have "limited_size (Some plimit) ((pre @ [word_of_nat t]) @ size_field ?sz @ size_field n @ body @ post)
      (length (pre @ [word_of_nat t])) = Ret (?sz, length (size_field ?sz))"
    using assms Cont by (intro limited_size_field [OF sz]) (auto simp: cont_header_def)
  then show ?thesis
    using len container_type [OF t] assms(2) unfolding Cont by (simp add: AdvanceDataPos_def cont_header_def)
qed

lemma get_value_elem:
  assumes "wf_elem e"
  shows "GetValue (pre @ enc e @ post) (length pre) = Ret (elem_value post e)"
proof (cases e)
  case (Atom t ds)
  have t: "unat (word_of_nat t :: u8) = t" using assms Atom by (simp add: unsigned_of_nat take_bit_nat_eq_self)
  have rdn: "rdn w (pre @ word_of_nat t # ds @ post) (Suc (length pre)) = Ret ds" if "length ds = w" for w
    using rdn_at [of w "ds @ post" "pre @ [word_of_nat t]"] that by simp
  have rd: "rd (pre @ word_of_nat t # ds @ post) (Suc (length pre)) = Ret (hd ds)" if "ds \<noteq> []"
    using rd_shift [of "pre @ [word_of_nat t]" "ds @ post" 0] that by (cases ds) auto
  have "storage_width (t AND 0xE0) = Some (length ds)" "t AND 0x10 = 0" using assms Atom by auto
  then consider "t AND 0xE0 = 0" "ds = []" | "t AND 0xE0 = 0x20" "length ds = 1" | "t AND 0xE0 = 0x40" "length ds = 2"
    | "t AND 0xE0 = 0x60" "length ds = 4" | "t AND 0xE0 = 0x80" "length ds = 8"
    by (auto simp: storage_width_def split: if_splits)
  then show ?thesis
  proof cases
    case 2
    moreover have "t \<noteq> 1" "t \<noteq> 2" "ds \<noteq> []" using 2 by auto
    ultimately show ?thesis using \<open>t AND 0x10 = 0\<close> Atom t rd by (simp add: GetValue_def)
  next
    case 3
    moreover have "t \<noteq> 1" "t \<noteq> 2" "ds \<noteq> []" using 3 by auto
    ultimately show ?thesis using \<open>t AND 0x10 = 0\<close> Atom t rdn by (simp add: GetValue_def)
  next
    case 4
    moreover have "t \<noteq> 1" "t \<noteq> 2" "ds \<noteq> []" using 4 by auto
    ultimately show ?thesis using \<open>t AND 0x10 = 0\<close> Atom t rdn by (simp add: GetValue_def)
  next
    case 5
    moreover have "t \<noteq> 1" "t \<noteq> 2" "ds \<noteq> []" using 5 by auto
    ultimately show ?thesis using \<open>t AND 0x10 = 0\<close> Atom t rdn by (simp add: GetValue_def)
  qed (use \<open>t AND 0x10 = 0\<close> Atom t in \<open>simp add: GetValue_def\<close>)
next
  case (Str s)
  have "limited_size None ((pre @ [0xA0]) @ size_field (length s) @ s @ 0 # post) (length (pre @ [0xA0]))
      = Ret (length s, length (size_field (length s)))"
    using assms Str by (intro limited_size_field) auto
  then show ?thesis using Str by (simp add: GetValue_def)
next
  case (Blob b)
  have "limited_size None ((pre @ [0xC0]) @ size_field (length b) @ b @ post) (length (pre @ [0xC0]))
      = Ret (length b, length (size_field (length b)))"
    using assms Blob by (intro limited_size_field) auto
  then show ?thesis using Blob by (simp add: GetValue_def)
next
  case (Cont t n body)
  then have t: "t \<in> {BINN_LIST, BINN_MAP, BINN_OBJECT}" using assms by auto
  have "rd (enc e @ post) 0 = Ret (word_of_nat t)" by (simp add: Cont cont_header_def)
  moreover have "IsValidBinnHeader (enc e @ post) 0 = Ret (t, n, cont_size n (length body), length (cont_header t n (length body)))"
    using header_elem assms unfolding Cont by blast
  moreover have "elem_value post e = zero_binn_value\<lparr>bv_type := t, bv_ptr := Some (enc e @ post),
      bv_size := cont_size n (length body), bv_count := n\<rparr>"
    by (simp add: Cont)
  ultimately show ?thesis using container_type [OF t] by (simp add: GetValue_def)
qed

section \<open>Objects\<close>

definition pair_bytes :: "bytes \<times> elem \<Rightarrow> bytes" where
  "pair_bytes p = word_of_nat (length (fst p)) # fst p @ enc (snd p)"

definition object_body :: "(bytes \<times> elem) list \<Rightarrow> bytes" where
  "object_body kvs = concat (map pair_bytes kvs)"

definition fold_key :: "bytes \<Rightarrow> bytes" where
  "fold_key = map tolower8"

definition wf_key :: "bytes \<Rightarrow> bool" where
  "wf_key k \<longleftrightarrow> length k \<le> 255 \<and> 0 \<notin> set k"

definition wf_pair :: "bytes \<times> elem \<Rightarrow> bool" where
  "wf_pair p \<longleftrightarrow> wf_key (fst p) \<and> wf_elem (snd p)"

lemma object_body_simps [simp]:
  "object_body [] = []" "object_body (p # kvs) = pair_bytes p @ object_body kvs"
  "object_body (xs @ ys) = object_body xs @ object_body ys"
  by (simp_all add: object_body_def)

lemma enc_nonempty [simp]: "enc e \<noteq> []"
  by (cases e) (simp_all add: cont_header_def)

lemma enc_pos: "0 < length (enc e)"
  by simp

lemma pair_pos: "0 < length (pair_bytes p)"
  by (simp add: pair_bytes_def)

lemma tolower8_0: "tolower8 c = 0 \<longleftrightarrow> c = 0"
proof -
  have False if "c \<le> 0x5A" "c + 0x20 = 0"
  proof -
    have "unat c \<le> 0x5A" using that(1) by (simp add: word_le_nat_alt)
    then have "unat (c + 0x20) = unat c + 0x20" by (simp add: unat_word_ariths)
    with that(2) show False by simp
  qed
  then show ?thesis by (auto simp: tolower8_def)
qed

lemma tolower8_zero [simp]: "tolower8 0 = 0"
  by (simp add: tolower8_0)

lemma strnicmp_same_length:
  "length k = length key \<Longrightarrow> 0 \<notin> set k \<Longrightarrow>
     strnicmp0 (length k) (k @ rest) (key @ [0]) = Ret (fold_key k = fold_key key)"
  by (induction k key rule: list_induct2) (auto simp: fold_key_def)

lemma strnicmp_defined: "0 \<notin> set k \<Longrightarrow> 0 \<notin> set key \<Longrightarrow> \<exists>r. strnicmp0 (length k) (k @ rest) (key @ [0]) = Ret r"
proof (induction k arbitrary: key)
  case (Cons x k)
  then show ?case by (cases key) (auto simp: tolower8_0)
qed auto

lemma strnicmp_key:
  assumes "wf_key k" "wf_key key"
  obtains r where "strnicmp0 (length k) (k @ rest) (key @ [0]) = Ret r"
    "r \<and> length key = length k \<longleftrightarrow> fold_key k = fold_key key"
proof (cases "length key = length k")
  case True
  then show ?thesis using assms strnicmp_same_length [of k key rest] that by (auto simp: wf_key_def)
next
  case False
  moreover from this have "fold_key k \<noteq> fold_key key" by (metis fold_key_def length_map)
  moreover obtain r where "strnicmp0 (length k) (k @ rest) (key @ [0]) = Ret r"
    using strnicmp_defined [of k key rest] assms by (auto simp: wf_key_def)
  ultimately show ?thesis using that [of r] by simp
qed

text \<open>One step of the search at a pair: the value is found, or the search goes on behind it.\<close>

lemma search_key_step:
  assumes "wf_pair (k, e)" "wf_key key" "length pre + length (pair_bytes (k, e)) \<le> plimit + 1"
  shows "search_key (pre @ pair_bytes (k, e) @ post) plimit key (Suc n) (length pre) =
    (if fold_key k = fold_key key then Ret (length (pre @ word_of_nat (length k) # k))
     else if length pre + length (pair_bytes (k, e)) \<le> plimit
     then search_key (pre @ pair_bytes (k, e) @ post) plimit key n (length (pre @ pair_bytes (k, e))) else Fail)"
proof -
  let ?buf = "pre @ pair_bytes (k, e) @ post" and ?kpre = "pre @ word_of_nat (length k) # k"
  have k: "wf_key k" "wf_elem e" using assms by (auto simp: wf_pair_def)
  have len: "unat (word_of_nat (length k) :: u8) = length k"
    using k by (simp add: wf_key_def unsigned_of_nat take_bit_nat_eq_self)
  have buf: "?buf = ?kpre @ enc e @ post" by (simp add: pair_bytes_def)
  have adv: "AdvanceDataPos ?buf plimit (length ?kpre) = (if length pre + length (pair_bytes (k, e)) \<le> plimit
      then Ret (length (pre @ pair_bytes (k, e))) else Fail)"
    unfolding buf using advance_elem [OF k(2), of ?kpre plimit post] assms(3) by (simp add: pair_bytes_def add.assoc)
  obtain r where r: "strnicmp0 (length k) (k @ enc e @ post) (key @ [0]) = Ret r"
    "r \<and> length key = length k \<longleftrightarrow> fold_key k = fold_key key"
    using strnicmp_key [OF k(1) assms(2)] by blast
  have le: "\<not> plimit < Suc (length pre)" "\<not> plimit < Suc (length pre + length k)"
    using assms(3) enc_pos [of e] by (simp_all add: pair_bytes_def del: length_greater_0_conv)
  have rd: "rd ?buf (length pre) = Ret (word_of_nat (length k))" by (simp add: pair_bytes_def)
  have dr: "drop (Suc (length pre)) ?buf = k @ enc e @ post" by (simp add: pair_bytes_def)
  show ?thesis
  proof (cases "k = []")
    case True
    then show ?thesis using rd le adv by (auto simp: fold_key_def)
  next
    case False
    then show ?thesis using rd le adv len r dr by auto
  qed
qed

declare search_key.simps(2) [simp del]

lemma search_key_found:
  assumes "list_all wf_pair (xs @ (k, e) # ys)" "wf_key key" "\<forall>p \<in> set xs. fold_key (fst p) \<noteq> fold_key key"
    "fold_key k = fold_key key" "length pre + length (object_body (xs @ (k, e) # ys)) \<le> plimit + 1" "length xs < n"
  shows "search_key (pre @ object_body (xs @ (k, e) # ys) @ post) plimit key n (length pre)
           = Ret (length (pre @ object_body xs @ word_of_nat (length k) # k))"
  using assms
proof (induction xs arbitrary: pre n)
  case Nil
  then show ?case
    using search_key_step [of k e key pre plimit "object_body ys @ post" "n - 1"] by (cases n) auto
next
  case (Cons p xs)
  obtain k' e' where p: "p = (k', e')" by (cases p)
  from Cons.prems obtain m where n: "n = Suc m" by (cases n) auto
  have "search_key ((pre @ pair_bytes p) @ object_body (xs @ (k, e) # ys) @ post) plimit key m (length (pre @ pair_bytes p))
      = Ret (length ((pre @ pair_bytes p) @ object_body xs @ word_of_nat (length k) # k))"
    using Cons.prems n by (intro Cons.IH) auto
  moreover have "length pre + length (pair_bytes p) \<le> plimit"
    using Cons.prems(5) pair_pos [of "(k, e)"] by (simp del: length_greater_0_conv)
  ultimately show ?case
    using Cons.prems search_key_step [of k' e' key pre plimit "object_body (xs @ (k, e) # ys) @ post" m] by (simp add: p n)
qed

lemma search_key_missing:
  assumes "list_all wf_pair kvs" "wf_key key" "\<forall>p \<in> set kvs. fold_key (fst p) \<noteq> fold_key key"
    "length pre + length (object_body kvs) = plimit + 1" "n = length kvs"
  shows "search_key (pre @ object_body kvs @ post) plimit key n (length pre) = Fail"
  using assms
proof (induction kvs arbitrary: pre n)
  case (Cons p kvs)
  obtain k' e' where p: "p = (k', e')" by (cases p)
  have "search_key ((pre @ pair_bytes p) @ object_body kvs @ post) plimit key (length kvs) (length (pre @ pair_bytes p)) = Fail"
    using Cons.prems by (intro Cons.IH) auto
  then show ?case
    using Cons.prems search_key_step [of k' e' key pre plimit "object_body kvs @ post" "length kvs"] by (auto simp: p)
qed simp

text \<open>The value under a key of a serialized object.\<close>

definition object_elem :: "(bytes \<times> elem) list \<Rightarrow> elem" where
  "object_elem kvs = Cont BINN_OBJECT (length kvs) (object_body kvs)"

lemma object_get_value:
  assumes "binn_ptr a = Ret (enc (object_elem (xs @ (k, e) # ys)) @ post)" "wf_elem (object_elem (xs @ (k, e) # ys))"
    "list_all wf_pair (xs @ (k, e) # ys)" "wf_key key" "\<forall>p \<in> set xs. fold_key (fst p) \<noteq> fold_key key" "fold_key k = fold_key key"
  shows "binn_object_get_value a key = Ret (elem_value (object_body ys @ post) e)"
proof -
  let ?kvs = "xs @ (k, e) # ys"
  let ?body = "object_body ?kvs"
  let ?n = "length ?kvs"
  let ?h = "cont_header BINN_OBJECT ?n (length ?body)"
  have enc: "enc (object_elem ?kvs) = ?h @ ?body" by (simp add: object_elem_def)
  have size: "length (?h @ ?body) = cont_size ?n (length ?body)"
    using length_enc_cont [of BINN_OBJECT ?n ?body] by simp
  have "IsValidBinnHeader (enc (object_elem ?kvs) @ post) 0 = Ret (BINN_OBJECT, ?n, cont_size ?n (length ?body), length ?h)"
    using header_elem assms(2) unfolding object_elem_def by blast
  moreover have "search_key (?h @ ?body @ post) (cont_size ?n (length ?body) - 1) key ?n (length ?h)
      = Ret (length (?h @ object_body xs @ word_of_nat (length k) # k))"
    using assms size by (intro search_key_found) auto
  moreover have "GetValue ((?h @ object_body xs @ word_of_nat (length k) # k) @ enc e @ object_body ys @ post)
      (length (?h @ object_body xs @ word_of_nat (length k) # k)) = Ret (elem_value (object_body ys @ post) e)"
    using assms(3) by (intro get_value_elem) (simp add: wf_pair_def)
  ultimately show ?thesis
    using assms(1) by (simp add: binn_object_get_value_def SearchForKey_def enc pair_bytes_def)
qed

section \<open>Lists\<close>

definition list_body :: "elem list \<Rightarrow> bytes" where
  "list_body es = concat (map enc es)"

definition list_elem :: "elem list \<Rightarrow> elem" where
  "list_elem es = Cont BINN_LIST (length es) (list_body es)"

lemma list_body_simps [simp]:
  "list_body [] = []" "list_body (e # es) = enc e @ list_body es" "list_body (xs @ ys) = list_body xs @ list_body ys"
  by (simp_all add: list_body_def)

text \<open>The effect of a loop whose body is run on the values of the elements.\<close>

fun fold_elems :: "(binn_value \<Rightarrow> 's \<Rightarrow> 's outcome) \<Rightarrow> bytes \<Rightarrow> elem list \<Rightarrow> 's \<Rightarrow> 's outcome" where
  "fold_elems body post [] s = Ret s"
| "fold_elems body post (e # es) s = obind (body (elem_value (list_body es @ post) e) s) (fold_elems body post es)"

declare list_loop.simps [simp del]

lemma list_loop_end: "bi_pnext iter = None \<Longrightarrow> list_loop body iter s = Ret s"
  by (simp add: list_loop.simps binn_list_next_def)

lemma list_loop_step:
  "binn_list_next iter = Ret (v, iter') \<Longrightarrow> list_loop body iter s = obind (body v s) (list_loop body iter')"
  by (simp add: list_loop.simps [of body iter] split: outcome.split)

lemma list_loop_elems:
  assumes "list_all wf_elem es" "bi_buf iter = pre @ list_body es @ post" "bi_pnext iter = Some (length pre)"
    "bi_plimit iter + 1 = length pre + length (list_body es)" "bi_type iter = BINN_LIST"
    "bi_count iter = bi_current iter + length es"
  shows "list_loop body iter s = fold_elems body post es s"
  using assms
proof (induction es arbitrary: pre iter s)
  case Nil
  then show ?case by (simp add: list_loop.simps binn_list_next_def)
next
  case (Cons e es)
  let ?v = "elem_value (list_body es @ post) e" and ?pre = "pre @ enc e"
  let ?more = "length ?pre \<le> bi_plimit iter"
  let ?iter = "iter\<lparr>bi_current := bi_current iter + 1, bi_pnext := (if ?more then Some (length ?pre) else None)\<rparr>"
  have "AdvanceDataPos (bi_buf iter) (bi_plimit iter) (length pre) = (if ?more then Ret (length ?pre) else Fail)"
    using Cons.prems advance_elem [of e pre "bi_plimit iter" "list_body es @ post"] by simp
  moreover have "GetValue (bi_buf iter) (length pre) = Ret ?v"
    using Cons.prems get_value_elem [of e pre "list_body es @ post"] by simp
  moreover have "\<not> bi_plimit iter < length pre" using Cons.prems(4) enc_pos [of e] by (simp del: length_greater_0_conv)
  ultimately have step: "binn_list_next iter = Ret (?v, ?iter)"
    using Cons.prems by (simp add: binn_list_next_def)
  have "list_loop body ?iter t = fold_elems body post es t" for t
  proof (cases "es = []")
    case True
    then have "\<not> ?more" using Cons.prems(4) by simp
    then show ?thesis using True by (simp add: list_loop_end)
  next
    case False
    then have "0 < length (list_body es)" using enc_pos by (cases es) auto
    then have ?more using Cons.prems(4) by (simp del: length_greater_0_conv)
    then show ?thesis using Cons.prems by (intro Cons.IH [of _ ?pre]) auto
  qed
  then have "list_loop body ?iter = fold_elems body post es" by (rule ext)
  then show ?case by (simp only: list_loop_step [OF step] fold_elems.simps)
qed

lemma list_foreach:
  assumes "binn_ptr a = Ret (enc (list_elem es) @ post)" "wf_elem (list_elem es)" "list_all wf_elem es"
  shows "binn_list_foreach before body a s = fold_elems body post es s"
proof -
  let ?n = "length es" and ?body = "list_body es"
  let ?h = "cont_header BINN_LIST ?n (length ?body)"
  have enc: "enc (list_elem es) = ?h @ ?body" by (simp add: list_elem_def)
  have size: "length (?h @ ?body) = cont_size ?n (length ?body)"
    using length_enc_cont [of BINN_LIST ?n ?body] by simp
  have "IsValidBinnHeader (enc (list_elem es) @ post) 0 = Ret (BINN_LIST, ?n, cont_size ?n (length ?body), length ?h)"
    using header_elem assms(2) unfolding list_elem_def by blast
  moreover have "0 < cont_size ?n (length ?body)" by (simp add: cont_size_def Let_def)
  ultimately show ?thesis
    using assms size
    by (simp add: binn_list_foreach_def binn_iter_init_def enc, intro list_loop_elems [of _ _ ?h]) auto
qed

text \<open>A pointer to a serialized container, inside a larger buffer or alone.\<close>

lemma binn_ptr_buffer:
  assumes "wf_elem (Cont t n body)" "4 \<le> length (enc (Cont t n body) @ post)"
  shows "binn_ptr (Buffer (enc (Cont t n body) @ post)) = Ret (enc (Cont t n body) @ post)"
proof -
  let ?bs = "enc (Cont t n body) @ post"
  obtain bs where bs: "?bs = word_of_nat t # bs" by (simp add: cont_header_def)
  have "le_val (take 4 ?bs) mod 256 = unat (word_of_nat t :: u8)"
    unfolding bs by simp
  moreover have "unat (word_of_nat t :: u8) = t" "t \<noteq> BINN_MAGIC mod 256" using assms(1) by auto
  ultimately have "le_val (take 4 ?bs) \<noteq> BINN_MAGIC" by auto
  moreover have "rdn 4 ?bs 0 = Ret (take 4 ?bs)" using assms(2) by (rule rdn_0)
  ultimately show ?thesis by (simp only: binn_ptr_def binn_arg.case obind.simps if_False)
qed

section \<open>Integers\<close>

definition int_type :: "nat \<Rightarrow> bool" where
  "int_type t \<longleftrightarrow> int_signed t \<or> int_unsigned t"

definition int_range :: "nat \<Rightarrow> int \<Rightarrow> bool" where
  "int_range t v \<longleftrightarrow>
     (if int_signed t then - (256 ^ int_width t div 2) \<le> v \<and> v < 256 ^ int_width t div 2
      else 0 \<le> v \<and> v < 256 ^ int_width t)"

definition compressed_type :: "nat \<Rightarrow> int \<Rightarrow> nat" where
  "compressed_type t v =
     (if int_width t = 1 then t
      else if v < 0 then if - (2 ^ 7) \<le> v then BINN_INT8 else if - (2 ^ 15) \<le> v then BINN_INT16
                         else if - (2 ^ 31) \<le> v then BINN_INT32 else t
      else if v < 2 ^ 8 then BINN_UINT8 else if v < 2 ^ 16 then BINN_UINT16 else if v < 2 ^ 32 then BINN_UINT32 else t)"

text \<open>The element that an integer of a type is stored as: the narrowest type that holds it, highest byte first.\<close>

definition int_elem :: "nat \<Rightarrow> int \<Rightarrow> elem" where
  "int_elem t v = (let t' = compressed_type t v in Atom t' (rev (int_bytes (int_width t') v)))"

lemma int_type_cases:
  assumes "int_type t"
  obtains "t = BINN_INT8" | "t = BINN_INT16" | "t = BINN_INT32" | "t = BINN_INT64"
    | "t = BINN_UINT8" | "t = BINN_UINT16" | "t = BINN_UINT32" | "t = BINN_UINT64"
  using assms by (auto simp: int_type_def int_signed_def int_unsigned_def)

lemma int_signed_simps [simp]:
  "int_signed BINN_INT8" "int_signed BINN_INT16" "int_signed BINN_INT32" "int_signed BINN_INT64"
  "\<not> int_signed BINN_UINT8" "\<not> int_signed BINN_UINT16" "\<not> int_signed BINN_UINT32" "\<not> int_signed BINN_UINT64"
  "int_unsigned BINN_UINT8" "int_unsigned BINN_UINT16" "int_unsigned BINN_UINT32" "int_unsigned BINN_UINT64"
  "\<not> int_unsigned BINN_INT8" "\<not> int_unsigned BINN_INT16" "\<not> int_unsigned BINN_INT32" "\<not> int_unsigned BINN_INT64"
  by (simp_all add: int_signed_def int_unsigned_def)

lemma int_width_simps [simp]:
  "int_width BINN_INT8 = 1" "int_width BINN_INT16 = 2" "int_width BINN_INT32 = 4" "int_width BINN_INT64 = 8"
  "int_width BINN_UINT8 = 1" "int_width BINN_UINT16 = 2" "int_width BINN_UINT32 = 4" "int_width BINN_UINT64 = 8"
  by (simp_all add: int_width_def)

lemma length_int_bytes [simp]: "length (int_bytes n v) = n"
  by (simp add: int_bytes_def)

lemma int_bytes_Nil [simp]: "int_bytes n v = [] \<longleftrightarrow> n = 0"
  using length_int_bytes [of n v] by (metis length_0_conv)

lemma le_val_int_bytes: "le_val (int_bytes n v) = nat (v mod 256 ^ n)"
proof -
  have "nat (v mod 256 ^ n) < 256 ^ n"
    by (metis nat_less_iff of_nat_numeral of_nat_power pos_mod_bound pos_mod_sign zero_less_numeral zero_less_power)
  then show ?thesis by (simp add: int_bytes_def le_val_le_bytes)
qed

lemma sint_of_int_bytes:
  assumes "- (256 ^ n div 2) \<le> v" "v < 256 ^ n div 2" "0 < n"
  shows "sint_of n (le_val (int_bytes n v)) = v"
proof -
  obtain j where j: "n = Suc j" using assms(3) by (cases n) auto
  obtain m :: int where m: "256 ^ n = 2 * m" by (rule that [of "128 * 256 ^ j"]) (simp add: j)
  have range: "- m \<le> v" "v < m" using assms by (simp_all add: m)
  have mod: "v mod (2 * m) = (if v < 0 then v + 2 * m else v)"
  proof (cases "v < 0")
    case True
    then have "v mod (2 * m) = (v + 2 * m) mod (2 * m)" by simp
    also have "\<dots> = v + 2 * m" using True range by (intro mod_pos_pos_trivial) auto
    finally show ?thesis using True m by simp
  next
    case False
    then show ?thesis using range m by (simp add: mod_pos_pos_trivial)
  qed
  have "2 * nat x < 256 ^ n \<longleftrightarrow> x < m" if "0 \<le> x" for x
  proof -
    have "2 * nat x < 256 ^ n \<longleftrightarrow> int (2 * nat x) < int (256 ^ n)" by (simp only: of_nat_less_iff)
    also have "\<dots> \<longleftrightarrow> 2 * x < 2 * m" using that m by simp
    finally show ?thesis by simp
  qed
  then show ?thesis using range m by (auto simp: sint_of_def le_val_int_bytes mod)
qed

lemma uint_of_int_bytes: "0 \<le> v \<Longrightarrow> v < 256 ^ n \<Longrightarrow> int (le_val (int_bytes n v)) = v"
  by (simp add: le_val_int_bytes mod_pos_pos_trivial)

lemma int_of_bytes_int_bytes:
  "- (256 ^ n div 2) \<le> v \<Longrightarrow> v < 256 ^ n div 2 \<Longrightarrow> 0 < n \<Longrightarrow> int_of_bytes (int_bytes n v) = v"
  by (simp add: int_of_bytes_def sint_of_int_bytes)

lemma compressed_range:
  assumes "int_type t" "int_range t v"
  shows "int_type (compressed_type t v)" "int_range (compressed_type t v) v"
proof -
  show "int_type (compressed_type t v)"
    by (rule int_type_cases [OF assms(1)]) (use assms(2) in \<open>simp_all add: compressed_type_def int_range_def int_type_def\<close>)
  show "int_range (compressed_type t v) v"
    by (rule int_type_cases [OF assms(1)]) (use assms(2) in \<open>simp_all add: compressed_type_def int_range_def\<close>)
qed

lemma wf_int_elem:
  assumes "int_type t" "int_range t v"
  shows "wf_elem (int_elem t v)"
proof -
  have "int_type (compressed_type t v)" using assms by (rule compressed_range)
  then show ?thesis by (rule int_type_cases) (simp_all add: int_elem_def storage_width_def)
qed

text \<open>A narrower prefix of the little-endian bytes is the narrower integer.\<close>

lemma take_le_bytes: "k \<le> n \<Longrightarrow> take k (le_bytes n v) = le_bytes k v"
  by (induction n arbitrary: k v) (auto simp: take_Cons split: nat.splits)

lemma le_bytes_mod: "n \<le> k \<Longrightarrow> le_bytes n (v mod 256 ^ k) = le_bytes n v"
proof (induction n arbitrary: k v)
  case (Suc n)
  then obtain j where k: "k = Suc j" by (cases k) auto
  have "v mod 256 ^ k div 256 = v div 256 mod 256 ^ j" by (simp add: k mod_mult2_eq)
  moreover have "v mod 256 ^ k mod 256 = v mod 256" by (simp add: k mod_mult2_eq)
  ultimately show ?case using Suc k by (simp del: power_Suc)
qed simp

lemma take_int_bytes: "k \<le> n \<Longrightarrow> take k (int_bytes n v) = int_bytes k v"
proof -
  assume k: "k \<le> n"
  have dvd: "(256::int) ^ k dvd 256 ^ n" using k by (rule le_imp_power_dvd)
  have "nat (v mod 256 ^ k) = nat (v mod 256 ^ n mod 256 ^ k)" by (simp add: mod_mod_cancel [OF dvd])
  also have "\<dots> = nat (v mod 256 ^ n) mod 256 ^ k" by (simp add: nat_mod_distrib nat_power_eq)
  finally show ?thesis using k le_bytes_mod [of k k "nat (v mod 256 ^ n)"] by (simp add: int_bytes_def take_le_bytes)
qed

lemma be_val_rev: "be_val (rev bs) = le_val bs"
  by (simp add: be_val_def)

lemma int_elem_value:
  assumes "int_type t" "int_range t v"
  obtains tail where "bv_type (elem_value post (int_elem t v)) = compressed_type t v"
    "bv_ptr (elem_value post (int_elem t v)) = Some (int_bytes (int_width (compressed_type t v)) v @ tail)"
proof -
  let ?t = "compressed_type t v"
  let ?w = "int_width ?t"
  have t: "int_type ?t" using assms by (rule compressed_range)
  have w: "?w = 1 \<or> 1 < ?w" "?t \<noteq> 1" "?t \<noteq> 2" by (rule int_type_cases [OF t]; simp)+
  have one: "rev (int_bytes 1 v) = int_bytes 1 v" by (simp add: int_bytes_def)
  have le: "le_bytes ?w (le_val (int_bytes ?w v)) = int_bytes ?w v" by (simp add: le_bytes_le_val)
  show ?thesis
  proof (cases "?w = 1")
    case True
    then have "int_elem t v = Atom ?t (int_bytes 1 v)" "int_bytes 1 v \<noteq> []"
      by (simp_all add: int_elem_def Let_def one [simplified])
    then show ?thesis using that [of post] w True by (simp add: union_value_def Let_def)
  next
    case False
    then have "int_bytes ?w v \<noteq> []" "length (int_bytes ?w v) \<noteq> 1" using w by auto
    then show ?thesis
      using that [of "replicate (8 - ?w) 0"] w le False
      by (simp add: int_elem_def Let_def union_value_def be_val_rev zero_binn_value_def)
  qed
qed

lemma rd_int:
  assumes "int_type t" "int_range t v"
  shows "(if int_signed t then rd_sint (int_width t) (int_bytes (int_width t) v @ tail)
          else obind (rd_uint (int_width t) (int_bytes (int_width t) v @ tail)) (\<lambda>v. Ret (int v))) = Ret v"
proof -
  have "0 < int_width t" by (rule int_type_cases [OF assms(1)]) simp_all
  moreover have "rd_uint (int_width t) (int_bytes (int_width t) v @ tail) = Ret (le_val (int_bytes (int_width t) v))"
    by (simp add: rd_uint_def rdn_0)
  ultimately show ?thesis
    using assms(2) by (auto simp: int_range_def rd_sint_def sint_of_int_bytes uint_of_int_bytes)
qed

lemma copy_int_value_read:
  assumes "int_type s" "int_range s v"
  shows "copy_int_value (int_bytes (int_width s) v @ tail) s d =
    (let w = int_width d in
     if int_unsigned s \<and> int_signed d \<and> 2 ^ 63 - 1 < v then Fail
     else if int_signed s \<and> int_unsigned d \<and> v < 0 then Fail
     else if int_signed d then
       if w < 8 \<and> (v < - (256 ^ w div 2) \<or> 256 ^ w div 2 - 1 < v) then Fail else Ret (int_bytes w v)
     else if int_unsigned d then
       if w < 8 \<and> 256 ^ w - 1 < v then Fail else Ret (int_bytes w v)
     else Fail)"
proof -
  have "\<not> (\<not> int_signed s \<and> \<not> int_unsigned s)" using assms(1) by (simp add: int_type_def)
  then show ?thesis using rd_int [OF assms, of tail] by (simp only: copy_int_value_def if_False obind.simps)
qed

lemma copy_int_value_ok:
  assumes "int_type s" "int_range s v" "int_type d" "int_range d v"
  shows "copy_int_value (int_bytes (int_width s) v @ tail) s d = Ret (int_bytes (int_width d) v)"
  unfolding copy_int_value_read [OF assms(1,2)]
  by (rule int_type_cases [OF assms(3)]; insert assms(4); simp add: int_range_def)

lemma copy_int_value_range:
  assumes "int_type s" "int_range s v" "int_type d" "\<not> int_range d v"
  shows "copy_int_value (int_bytes (int_width s) v @ tail) s d = Fail"
  unfolding copy_int_value_read [OF assms(1,2)]
  by (rule int_type_cases [OF assms(3)]; rule int_type_cases [OF assms(1)]; insert assms(2,4);
      auto simp: int_range_def)

lemma family_int [simp]: "int_type t \<Longrightarrow> type_family t = FAMILY_INT"
  by (erule int_type_cases) (simp_all add: type_family_def)

text \<open>A stored integer is read back as any type that holds it, and refused for a type that does not.\<close>

lemma copy_value_int:
  assumes "int_type s" "int_range s v" "int_type d" "int_range d v"
  shows "copy_value (Some (int_bytes (int_width s) v @ tail)) s d (binn_get_read_storage d) = Ret (Scalar (int_bytes (int_width d) v))"
proof (cases "s = d")
  case True
  moreover have "copy_raw_value (Some (int_bytes (int_width d) v @ tail)) (binn_get_read_storage d)
      = Ret (Scalar (int_bytes (int_width d) v))"
    by (rule int_type_cases [OF assms(3)]) (simp_all add: copy_raw_value_def rdn_0 binn_get_read_storage_def
        binn_get_type_info_def short_type_storage_def)
  ultimately show ?thesis by (simp add: copy_value_def assms(3))
next
  case False
  then show ?thesis using assms copy_int_value_ok [OF assms] by (simp add: copy_value_def)
qed

end
