(* ===== verification/Mdv_Binn_Write.thy ===== *)
theory Mdv_Binn_Write
  imports Mdv_Binn_Format
begin

text \<open>
  What the writing functions of Mdv_Binn leave in a container. \<open>list_item es item\<close> and \<open>object_item kvs item\<close> say that
  the container under construction holds these elements or pairs; creating, adding and setting keep the property
  (\<open>list_add\<close>, \<open>object_set\<close>), whatever the allocator does, and the serialized bytes are the encoding of a well-formed
  container (\<open>serialized_list\<close>, \<open>serialized_object\<close>). The last section reads typed values back.
\<close>

section \<open>Appending a value\<close>

definition appends :: "binn \<Rightarrow> bytes \<Rightarrow> binn \<Rightarrow> bool" where
  "appends item bs item' \<longleftrightarrow>
     bn_pbuf item' = bn_pbuf item @ bs \<and> bn_type item' = bn_type item \<and> bn_count item' = bn_count item \<and> bn_dirty item'
     \<and> bn_used_size item' < 2 ^ 31"

lemma check_allocation:
  "CheckAllocation item k = Ret item' \<Longrightarrow>
     bn_pbuf item' = bn_pbuf item \<and> bn_type item' = bn_type item \<and> bn_count item' = bn_count item
     \<and> bn_dirty item' = bn_dirty item \<and> bn_used_size item + k < 2 ^ 31"
  by (auto simp: CheckAllocation_def split: if_splits option.splits)

lemma type_info_short: "t \<le> 0xff \<Longrightarrow> binn_get_type_info t = Some (t AND 0xE0)"
  by (simp add: binn_get_type_info_def short_type_storage_def)

lemma storage_width_cases:
  assumes "storage_width st = Some w"
  obtains "st = 0" "w = 0" | "st = 0x20" "w = 1" | "st = 0x40" "w = 2" | "st = 0x60" "w = 4" | "st = 0x80" "w = 8"
  using assms by (auto simp: storage_width_def split: if_splits)

text \<open>Values of fixed width, once the storage class and the type are known.\<close>

lemma add_value_atom:
  assumes "AddValue item type (Some p) sz = Ret item'" "type \<le> 0xff"
    "(if type_family type = FAMILY_INT then compress_int (type AND 0xE0) type p else Ret (type AND 0xE0, type)) = Ret (st, t)"
    "storage_width st = Some w" "t < 256" "w \<le> length p"
  shows "appends item (enc (Atom t (rev (take w p)))) item'"
  using assms(4)
proof (rule storage_width_cases)
qed (use assms in \<open>auto simp: AddValue_def type_info_short appends_def source_bytes_def rdn_0 obind_eq_Ret Let_def
      dest!: check_allocation split: if_splits\<close>)

lemma compress_int_elem:
  assumes "int_type t" "int_range t v"
  shows "compress_int (t AND 0xE0) t (int_bytes (int_width t) v) = Ret (compressed_type t v AND 0xE0, compressed_type t v)"
proof (cases "int_width t = 1")
  case True
  have "t AND 0xE0 = 0x20" by (rule int_type_cases [OF assms(1)]; insert True; simp)
  then show ?thesis using True by (simp add: compress_int_def compressed_type_def)
next
  case False
  have "t AND 0xE0 \<noteq> 0x20" by (rule int_type_cases [OF assms(1)]; insert False; simp)
  then have "compress_int (t AND 0xE0) t (int_bytes (int_width t) v) =
      (let type2 =
            (if v < 0 then if - (2 ^ 7) \<le> v then 0x21 else if - (2 ^ 15) \<le> v then 0x41
                           else if - (2 ^ 31) \<le> v then 0x61 else 0
             else if v < 2 ^ 8 then 0x20 else if v < 2 ^ 16 then 0x40 else if v < 2 ^ 32 then 0x60 else 0)
       in if type2 \<noteq> 0 \<and> type2 \<noteq> t then
            (case binn_get_write_storage type2 of Some st \<Rightarrow> Ret (st, type2) | None \<Rightarrow> UB)
          else Ret (t AND 0xE0, t))"
    using rd_int [OF assms, of "[]"] by (simp only: compress_int_def if_False obind.simps append_Nil2)
  then show ?thesis
    using False by (simp add: compressed_type_def Let_def binn_get_write_storage_def type_info_short)
qed

lemma add_value_int:
  assumes "AddValue item t (Some (int_bytes (int_width t) v)) sz = Ret item'" "int_type t" "int_range t v"
  shows "appends item (enc (int_elem t v)) item'"
proof -
  let ?t = "compressed_type t v"
  have t: "int_type ?t" using assms by (intro compressed_range)
  have "t \<le> 0xff" by (rule int_type_cases [OF assms(2)]) simp_all
  moreover have "storage_width (?t AND 0xE0) = Some (int_width ?t)" "?t < 256"
    by (rule int_type_cases [OF t]; simp add: storage_width_def)+
  moreover have "int_width ?t \<le> int_width t"
    by (rule int_type_cases [OF assms(2)]; insert assms(3); simp add: int_range_def compressed_type_def)
  ultimately have "appends item (enc (Atom ?t (rev (take (int_width ?t) (int_bytes (int_width t) v))))) item'"
    using assms(1,2) compress_int_elem [OF assms(2,3)] by (intro add_value_atom [OF assms(1)]) auto
  then show ?thesis using \<open>int_width ?t \<le> int_width t\<close> by (simp add: int_elem_def Let_def take_int_bytes)
qed

lemma add_value_str:
  assumes "AddValue item BINN_STRING (Some (s @ 0 # rest)) 0 = Ret item'" "0 \<notin> set s"
  shows "appends item (enc (Str s)) item' \<and> wf_elem (Str s)"
proof -
  have "takeWhile (\<lambda>b. b \<noteq> 0) (s @ 0 # rest) = s"
    using assms(2) by (subst takeWhile_append2) (auto simp: takeWhile_eq_Nil_iff)
  then have "cstr (s @ 0 # rest) = Ret s" by (simp add: cstr_def)
  then show ?thesis
    using assms by (auto simp: AddValue_def type_info_short type_family_def appends_def source_bytes_def rdn_0 strlen2_def
        obind_eq_Ret length_size_field dest!: check_allocation split: if_splits)
qed

lemma add_value_blob:
  assumes "AddValue item BINN_BLOB (Some p) sz = Ret item'" "sz \<le> length p"
  shows "appends item (enc (Blob (take sz p))) item' \<and> wf_elem (Blob (take sz p))"
  using assms by (auto simp: AddValue_def type_info_short type_family_def appends_def source_bytes_def rdn_0
      obind_eq_Ret length_size_field dest!: check_allocation split: if_splits)

lemma add_value_container:
  assumes "AddValue item t (Some p) (length p) = Ret item'" "t \<in> {BINN_LIST, BINN_MAP, BINN_OBJECT}"
  shows "appends item p item'"
  using assms by (auto simp: AddValue_def type_info_short type_family_def appends_def source_bytes_def rdn_0
      obind_eq_Ret dest!: check_allocation split: if_splits)

section \<open>Containers under construction\<close>

definition holds_body :: "nat \<Rightarrow> nat \<Rightarrow> bytes \<Rightarrow> binn \<Rightarrow> bool" where
  "holds_body t n body item \<longleftrightarrow>
     bn_type item = t \<and> bn_count item = n \<and> drop MAX_BINN_HEADER (bn_pbuf item) = body \<and> MAX_BINN_HEADER \<le> bn_used_size item
     \<and> bn_dirty item \<and> bn_used_size item < 2 ^ 31"

definition list_item :: "elem list \<Rightarrow> binn \<Rightarrow> bool" where
  "list_item es item \<longleftrightarrow> holds_body BINN_LIST (length es) (list_body es) item \<and> list_all wf_elem es"

definition wf_object :: "(bytes \<times> elem) list \<Rightarrow> bool" where
  "wf_object kvs \<longleftrightarrow> list_all wf_pair kvs \<and> distinct (map (fold_key \<circ> fst) kvs)"

definition object_item :: "(bytes \<times> elem) list \<Rightarrow> binn \<Rightarrow> bool" where
  "object_item kvs item \<longleftrightarrow> holds_body BINN_OBJECT (length kvs) (object_body kvs) item \<and> wf_object kvs"

lemma create_list: "binn_create_list mem = Ret item \<Longrightarrow> list_item [] item"
  by (auto simp: binn_create_list_def binn_create_def list_item_def holds_body_def Let_def split: if_splits)

lemma create_object: "binn_create mem BINN_OBJECT sz pointer = Ret item \<Longrightarrow> object_item [] item"
  by (auto simp: binn_create_def object_item_def holds_body_def wf_object_def Let_def split: if_splits)

lemma save_header:
  assumes "holds_body t n body item" "n < 2 ^ 31"
  shows "binn_serialized item = (enc (Cont t n body), length (enc (Cont t n body)))" "cont_size n (length body) < 2 ^ 31"
proof -
  let ?sz = "length body + 3 + (if n > 127 then 3 else 0)"
  have used: "bn_used_size item = length body + 9" using assms(1) by (auto simp: holds_body_def)
  have size: "cont_size n (length body) = (if ?sz > 127 then ?sz + 3 else ?sz)" by (simp add: cont_size_def Let_def)
  have "bn_used_size item < 2 ^ 31" using assms(1) by (simp add: holds_body_def)
  then show "cont_size n (length body) < 2 ^ 31" using used by (auto simp: size)
  have sf: "size_field (cont_size n (length body)) = (if ?sz > 127 then be_bytes 4 ((?sz + 3) OR 0x80000000) else [word_of_nat ?sz])"
    by (simp add: size size_field_def)
  have hl: "length (cont_header t n (length body)) \<le> 9" by (simp add: cont_header_def length_size_field)
  have hdr: "cont_header t n (length body) = word_of_nat t # (if ?sz > 127 then be_bytes 4 ((?sz + 3) OR 0x80000000) else [word_of_nat ?sz]) @ size_field n"
    by (simp add: cont_header_def sf)
  have "binn_save_header item = item\<lparr>bn_pbuf := blit (9 - length (cont_header t n (length body))) (cont_header t n (length body)) (bn_pbuf item),
      bn_ptr := 9 - length (cont_header t n (length body)), bn_size := cont_size n (length body), bn_dirty := False\<rparr>"
    unfolding binn_save_header_def Let_def hdr size using assms(1) used by (simp add: holds_body_def)
  moreover have "drop (9 - length h) (blit (9 - length h) h (bn_pbuf item)) = h @ body" if "length h \<le> 9" for h
    using assms(1) that by (auto simp: holds_body_def blit_def min_def)
  moreover have "bn_dirty item" using assms(1) by (simp add: holds_body_def)
  ultimately show "binn_serialized item = (enc (Cont t n body), length (enc (Cont t n body)))"
    using hl length_enc_cont [of t n body] by (simp add: binn_serialized_def)
qed

lemma holds_body_length: "holds_body t n body item \<Longrightarrow> length body < 2 ^ 31"
  by (auto simp: holds_body_def)

lemma length_list_body: "length es \<le> length (list_body es)"
proof (induction es)
  case (Cons e es)
  then show ?case using enc_pos [of e] by (simp del: length_greater_0_conv)
qed simp

lemma length_object_body: "length kvs \<le> length (object_body kvs)"
  by (induction kvs) (simp_all add: pair_bytes_def)

lemma serialized_list:
  assumes "list_item es item"
  shows "binn_serialized item = (enc (list_elem es), length (enc (list_elem es)))" "wf_elem (list_elem es)"
proof -
  have h: "holds_body BINN_LIST (length es) (list_body es) item" using assms by (simp add: list_item_def)
  have "length es < 2 ^ 31" using holds_body_length [OF h] length_list_body [of es] by simp
  from save_header [OF h this] this show "binn_serialized item = (enc (list_elem es), length (enc (list_elem es)))"
    "wf_elem (list_elem es)"
    by (simp_all add: list_elem_def)
qed

lemma serialized_object:
  assumes "object_item kvs item"
  shows "binn_serialized item = (enc (object_elem kvs), length (enc (object_elem kvs)))" "wf_elem (object_elem kvs)"
proof -
  have h: "holds_body BINN_OBJECT (length kvs) (object_body kvs) item" using assms by (simp add: object_item_def)
  have "length kvs < 2 ^ 31" using holds_body_length [OF h] length_object_body [of kvs] by simp
  from save_header [OF h this] this show "binn_serialized item = (enc (object_elem kvs), length (enc (object_elem kvs)))"
    "wf_elem (object_elem kvs)"
    by (simp_all add: object_elem_def)
qed

lemma list_add:
  assumes "binn_list_add_raw item type p sz = Ret item'" "list_item es item"
    "\<And>item'. AddValue item type p sz = Ret item' \<Longrightarrow> appends item (enc e) item' \<and> wf_elem e"
  shows "list_item (es @ [e]) item'"
proof -
  obtain i where i: "AddValue item type p sz = Ret i" "item' = i\<lparr>bn_count := bn_count i + 1\<rparr>"
    using assms(1) by (auto simp: binn_list_add_raw_def obind_eq_Ret split: if_splits)
  with assms(2,3) show ?thesis
    by (auto simp: list_item_def holds_body_def appends_def)
qed

lemma search_absent:
  assumes "object_item kvs item" "wf_key key"
    "SearchForKey (bn_pbuf item) MAX_BINN_HEADER (bn_used_size item) (bn_count item) key = Fail"
  shows "fold_key key \<notin> set (map (fold_key \<circ> fst) kvs)"
proof
  assume "fold_key key \<in> set (map (fold_key \<circ> fst) kvs)"
  then have "\<exists>p \<in> set kvs. fold_key (fst p) = fold_key key" by (metis comp_apply imageE image_set)
  from split_list_first_prop [OF this] obtain xs p ys where split: "kvs = xs @ p # ys" "fold_key (fst p) = fold_key key"
    "\<forall>q \<in> set xs. fold_key (fst q) \<noteq> fold_key key"
    by blast
  obtain k e where p: "p = (k, e)" by (cases p)
  have "drop 9 (bn_pbuf item) = object_body kvs" "9 \<le> bn_used_size item"
    using assms(1) by (simp_all add: object_item_def holds_body_def)
  then obtain junk where junk: "bn_pbuf item = junk @ object_body kvs" "length junk = 9"
    using append_take_drop_id [of 9 "bn_pbuf item"] by (intro that [of "take 9 (bn_pbuf item)"]) simp_all
  have "search_key (junk @ object_body (xs @ (k, e) # ys) @ []) (bn_used_size item - 1) key (length kvs) (length junk)
      = Ret (length (junk @ object_body xs @ word_of_nat (length k) # k))"
    using assms(1,2) split p junk by (intro search_key_found) (auto simp: object_item_def wf_object_def)
  then show False
    using assms(1,3) split p junk by (simp add: SearchForKey_def object_item_def holds_body_def)
qed

lemma object_set:
  assumes "binn_object_set_raw item key type p sz = Ret item'" "object_item kvs item" "wf_key key"
    "\<And>item item'. AddValue item type p sz = Ret item' \<Longrightarrow> appends item (enc e) item' \<and> wf_elem e"
  shows "object_item (kvs @ [(key, e)]) item'"
proof -
  obtain i j where i: "CheckAllocation item (1 + length key) = Ret i"
      "AddValue (i\<lparr>bn_pbuf := bn_pbuf i @ word_of_nat (length key) # key\<rparr>) type p sz = Ret j"
      "item' = j\<lparr>bn_count := bn_count j + 1\<rparr>"
    and absent: "SearchForKey (bn_pbuf item) MAX_BINN_HEADER (bn_used_size item) (bn_count item) key = Fail"
    using assms(1) by (auto simp: binn_object_set_raw_def obind_eq_Ret split: if_splits outcome.splits)
  have "fold_key key \<notin> set (map (fold_key \<circ> fst) kvs)" using assms(2,3) absent by (rule search_absent)
  then show ?thesis
    using assms(2,3) i(3) check_allocation [OF i(1)] assms(4) [OF i(2)]
    by (auto simp: object_item_def wf_object_def wf_pair_def holds_body_def appends_def pair_bytes_def)
qed

section \<open>Typed access\<close>

lemma int_bytes_word: "uint x < 256 ^ n \<Longrightarrow> le_bytes n (unat x) = int_bytes n (uint x)"
  by (simp add: int_bytes_def)

lemma uint_int_bytes:
  "le_bytes 2 (unat (a :: u16)) = int_bytes 2 (uint a)" "le_bytes 4 (unat (b :: u32)) = int_bytes 4 (uint b)"
  "le_bytes 8 (unat (c :: u64)) = int_bytes 8 (uint c)"
  using uint_lt2p [of a] uint_lt2p [of b] uint_lt2p [of c] by (simp_all add: int_bytes_word)

lemma int_type_simps [simp]:
  "int_type BINN_INT8" "int_type BINN_INT16" "int_type BINN_INT32" "int_type BINN_INT64"
  "int_type BINN_UINT8" "int_type BINN_UINT16" "int_type BINN_UINT32" "int_type BINN_UINT64"
  by (simp_all add: int_type_def)

lemma uint_ranges [simp]:
  "int_range BINN_UINT16 (uint (a :: u16))" "int_range BINN_UINT32 (uint (b :: u32))" "int_range BINN_UINT64 (uint (c :: u64))"
  using uint_lt2p [of a] uint_lt2p [of b] uint_lt2p [of c] by (simp_all add: int_range_def)

lemma object_set_int:
  assumes "binn_object_set obj key t (Some (int_bytes (int_width t) v)) 0 = Ret obj'" "object_item kvs obj" "wf_key key"
    "int_type t" "int_range t v"
  shows "object_item (kvs @ [(key, int_elem t v)]) obj'"
proof -
  have "t \<noteq> BINN_BOOL" by (rule int_type_cases [OF assms(4)]) simp_all
  then have "binn_object_set_raw obj key t (Some (int_bytes (int_width t) v)) 0 = Ret obj'"
    using assms(1) by (simp add: binn_object_set_def GetWriteConvertedData_def)
  then show ?thesis
    using assms(2,3) by (rule object_set) (use assms(4,5) in \<open>auto intro: add_value_int wf_int_elem\<close>)
qed

lemma set_uint16:
  "binn_object_set_uint16 obj key v = Ret obj' \<Longrightarrow> object_item kvs obj \<Longrightarrow> wf_key (key_bytes key) \<Longrightarrow>
     object_item (kvs @ [(key_bytes key, int_elem BINN_UINT16 (uint v))]) obj'"
  by (rule object_set_int) (simp_all add: binn_object_set_uint16_def uint_int_bytes)

lemma set_uint32:
  "binn_object_set_uint32 obj key v = Ret obj' \<Longrightarrow> object_item kvs obj \<Longrightarrow> wf_key (key_bytes key) \<Longrightarrow>
     object_item (kvs @ [(key_bytes key, int_elem BINN_UINT32 (uint v))]) obj'"
  by (rule object_set_int) (simp_all add: binn_object_set_uint32_def uint_int_bytes)

lemma set_uint64:
  "binn_object_set_uint64 obj key v = Ret obj' \<Longrightarrow> object_item kvs obj \<Longrightarrow> wf_key (key_bytes key) \<Longrightarrow>
     object_item (kvs @ [(key_bytes key, int_elem BINN_UINT64 (uint v))]) obj'"
  by (rule object_set_int) (simp_all add: binn_object_set_uint64_def uint_int_bytes)

lemma set_str:
  assumes "binn_object_set_str obj key s = Ret obj'" "object_item kvs obj" "wf_key (key_bytes key)" "0 \<notin> set s"
  shows "object_item (kvs @ [(key_bytes key, Str s)]) obj'"
proof -
  have "binn_object_set_raw obj (key_bytes key) BINN_STRING (Some (s @ [0])) 0 = Ret obj'"
    using assms(1) by (simp add: binn_object_set_str_def binn_object_set_def GetWriteConvertedData_def)
  then show ?thesis
    using assms(2,3) by (rule object_set) (use add_value_str [where rest = "[]"] assms(4) in blast)
qed

lemma set_container:
  assumes "binn_object_set obj key t (Some (enc (Cont t n body))) (length (enc (Cont t n body))) = Ret obj'"
    "object_item kvs obj" "wf_key key" "wf_elem (Cont t n body)"
  shows "object_item (kvs @ [(key, Cont t n body)]) obj'"
proof -
  have t: "t \<in> {BINN_LIST, BINN_MAP, BINN_OBJECT}" using assms(4) by simp
  then have "binn_object_set_raw obj key t (Some (enc (Cont t n body))) (length (enc (Cont t n body))) = Ret obj'"
    using assms(1) by (auto simp: binn_object_set_def GetWriteConvertedData_def)
  then show ?thesis
    using assms(2,3) by (rule object_set) (use add_value_container [OF _ t] assms(4) in blast)
qed

lemma set_list:
  "binn_object_set_list obj key l = Ret obj' \<Longrightarrow> object_item kvs obj \<Longrightarrow> wf_key (key_bytes key) \<Longrightarrow> list_item es l \<Longrightarrow>
     object_item (kvs @ [(key_bytes key, list_elem es)]) obj'"
  using serialized_list [of es l] unfolding list_elem_def
  by (intro set_container) (simp_all add: binn_object_set_list_def)

lemma set_object:
  "binn_object_set_object obj key o2 = Ret obj' \<Longrightarrow> object_item kvs obj \<Longrightarrow> wf_key (key_bytes key) \<Longrightarrow> object_item kvs2 o2 \<Longrightarrow>
     object_item (kvs @ [(key_bytes key, object_elem kvs2)]) obj'"
  using serialized_object [of kvs2 o2] unfolding object_elem_def
  by (intro set_container) (simp_all add: binn_object_set_object_def)

lemma list_add_container:
  assumes "binn_list_add l t (Some (enc (Cont t n body))) (length (enc (Cont t n body))) = Ret l'"
    "list_item es l" "wf_elem (Cont t n body)"
  shows "list_item (es @ [Cont t n body]) l'"
proof -
  have t: "t \<in> {BINN_LIST, BINN_MAP, BINN_OBJECT}" using assms(3) by simp
  then have "binn_list_add_raw l t (Some (enc (Cont t n body))) (length (enc (Cont t n body))) = Ret l'"
    using assms(1) by (auto simp: binn_list_add_def GetWriteConvertedData_def)
  then show ?thesis
    using assms(2) by (rule list_add) (use add_value_container [OF _ t] assms(3) in blast)
qed

lemma list_add_object:
  "binn_list_add_object l obj = Ret l' \<Longrightarrow> list_item es l \<Longrightarrow> object_item kvs obj \<Longrightarrow> list_item (es @ [object_elem kvs]) l'"
  using serialized_object [of kvs obj] unfolding object_elem_def
  by (intro list_add_container) (simp_all add: binn_list_add_object_def)

lemma list_add_list:
  "binn_list_add_list l l2 = Ret l' \<Longrightarrow> list_item es l \<Longrightarrow> list_item es2 l2 \<Longrightarrow> list_item (es @ [list_elem es2]) l'"
  using serialized_list [of es2 l2] unfolding list_elem_def
  by (intro list_add_container) (simp_all add: binn_list_add_list_def)

section \<open>Reading typed values\<close>

definition object_at :: "binn_arg \<Rightarrow> (bytes \<times> elem) list \<Rightarrow> bool" where
  "object_at a kvs \<longleftrightarrow> (\<exists>post. binn_ptr a = Ret (enc (object_elem kvs) @ post)) \<and> wf_elem (object_elem kvs) \<and> wf_object kvs"

definition list_at :: "binn_arg \<Rightarrow> elem list \<Rightarrow> bool" where
  "list_at a es \<longleftrightarrow> (\<exists>post. binn_ptr a = Ret (enc (list_elem es) @ post)) \<and> wf_elem (list_elem es) \<and> list_all wf_elem es"

lemma object_at_value:
  assumes "object_at a kvs" "map_of kvs key = Some e"
  obtains q where "binn_object_get_value a key = Ret (elem_value q e)" "wf_elem e"
proof -
  obtain post where post: "binn_ptr a = Ret (enc (object_elem kvs) @ post)" and wf: "wf_elem (object_elem kvs)" "wf_object kvs"
    using assms(1) by (auto simp: object_at_def)
  obtain xs ys where kvs: "kvs = xs @ (key, e) # ys" using assms(2) by (meson map_of_SomeD split_list)
  have "distinct (map (fold_key \<circ> fst) (xs @ (key, e) # ys))" "list_all wf_pair (xs @ (key, e) # ys)"
    using wf(2) unfolding kvs wf_object_def by auto
  moreover from this have "\<forall>p \<in> set xs. fold_key (fst p) \<noteq> fold_key key" by force
  ultimately have "binn_object_get_value a key = Ret (elem_value (object_body ys @ post) e)"
    using post wf(1) unfolding kvs by (intro object_get_value) (auto simp: wf_pair_def)
  then show ?thesis using that \<open>list_all wf_pair (xs @ (key, e) # ys)\<close> by (simp add: wf_pair_def)
qed

lemma object_get_int:
  assumes "object_at a kvs" "map_of kvs key = Some (int_elem s v)" "int_type s" "int_range s v" "int_type d" "int_range d v"
  shows "\<exists>n. binn_object_get a key d = Ret (Scalar (int_bytes (int_width d) v), n)"
proof -
  obtain q where q: "binn_object_get_value a key = Ret (elem_value q (int_elem s v))"
    using object_at_value [OF assms(1,2)] by blast
  obtain tail where "bv_type (elem_value q (int_elem s v)) = compressed_type s v"
    "bv_ptr (elem_value q (int_elem s v)) = Some (int_bytes (int_width (compressed_type s v)) v @ tail)"
    using int_elem_value [OF assms(3,4)] by blast
  with q show ?thesis
    using copy_value_int [OF compressed_range [OF assms(3,4)] assms(5,6)] by (simp add: binn_object_get_def)
qed

lemma word_of_le_bytes: "unat (x :: ('a :: len) word) < 256 ^ n \<Longrightarrow> word_of_nat (le_val (le_bytes n (unat x))) = x"
  by (simp add: le_val_le_bytes)

lemma word_of_int_bytes:
  "word_of_nat (le_val (int_bytes 2 (uint a))) = (a :: u16)" "word_of_nat (le_val (int_bytes 4 (uint b))) = (b :: u32)"
  "word_of_nat (le_val (int_bytes 8 (uint c))) = (c :: u64)"
  unfolding uint_int_bytes [symmetric]
  by (rule word_of_le_bytes, use unsigned_less [of a] unsigned_less [of b] unsigned_less [of c] in simp)+

lemma get_uint16:
  assumes "object_at a kvs" "map_of kvs (key_bytes key) = Some (int_elem BINN_UINT16 (uint v))"
  shows "binn_object_get_uint16 a key = Ret v"
proof -
  obtain n where "binn_object_get a (key_bytes key) BINN_UINT16 = Ret (Scalar (int_bytes 2 (uint v)), n)"
    using object_get_int [OF assms, of BINN_UINT16] by auto
  then show ?thesis by (simp add: binn_object_get_uint16_def got_word_def word_of_int_bytes)
qed

lemma get_uint32:
  assumes "object_at a kvs" "map_of kvs (key_bytes key) = Some (int_elem BINN_UINT32 (uint v))"
  shows "binn_object_get_uint32 a key = Ret v"
proof -
  obtain n where "binn_object_get a (key_bytes key) BINN_UINT32 = Ret (Scalar (int_bytes 4 (uint v)), n)"
    using object_get_int [OF assms, of BINN_UINT32] by auto
  then show ?thesis by (simp add: binn_object_get_uint32_def got_word_def word_of_int_bytes)
qed

lemma get_uint64:
  assumes "object_at a kvs" "map_of kvs (key_bytes key) = Some (int_elem BINN_UINT64 (uint v))"
  shows "binn_object_get_uint64 a key = Ret v"
proof -
  obtain n where "binn_object_get a (key_bytes key) BINN_UINT64 = Ret (Scalar (int_bytes 8 (uint v)), n)"
    using object_get_int [OF assms, of BINN_UINT64] by auto
  then show ?thesis by (simp add: binn_object_get_uint64_def got_word_def word_of_int_bytes)
qed

lemma cstr_terminated: "0 \<notin> set s \<Longrightarrow> cstr (s @ 0 # q) = Ret s"
proof -
  assume "0 \<notin> set s"
  then have "takeWhile (\<lambda>b. b \<noteq> 0) (s @ 0 # q) = s" by (subst takeWhile_append2) auto
  then show ?thesis by (simp add: cstr_def)
qed

lemma get_str:
  assumes "object_at a kvs" "map_of kvs (key_bytes key) = Some (Str s)"
  obtains q where "binn_object_get_str a key = Ret (s @ 0 # q)"
proof -
  obtain q where "binn_object_get_value a (key_bytes key) = Ret (elem_value q (Str s))"
    using object_at_value [OF assms] by blast
  then show ?thesis
    using that [of q] by (simp add: binn_object_get_str_def binn_object_get_def copy_value_def copy_raw_value_def type_family_def
        binn_get_read_storage_def type_info_short got_pointer_def zero_binn_value_def)
qed

lemma get_container:
  assumes "object_at a kvs" "map_of kvs key = Some (Cont t n body)" "t = BINN_LIST \<or> t = BINN_OBJECT" "d = BINN_LIST \<or> d = BINN_OBJECT"
  obtains q where "obind (binn_object_get a key d) got_pointer = Ret (enc (Cont t n body) @ q)" "wf_elem (Cont t n body)"
proof -
  obtain q where "binn_object_get_value a key = Ret (elem_value q (Cont t n body))" "wf_elem (Cont t n body)"
    using object_at_value [OF assms(1,2)] by blast
  then show ?thesis
    using that [of q] assms(3,4) by (auto simp: binn_object_get_def copy_value_def copy_raw_value_def type_family_def
        binn_get_read_storage_def type_info_short got_pointer_def zero_binn_value_def)
qed

lemma get_object:
  assumes "object_at a kvs" "map_of kvs (key_bytes key) = Some (object_elem kvs2)" "wf_object kvs2" "kvs2 \<noteq> []"
  obtains a2 where "binn_object_get_object a key = Ret a2" "object_at a2 kvs2"
proof -
  obtain q where q: "obind (binn_object_get a (key_bytes key) BINN_OBJECT) got_pointer = Ret (enc (object_elem kvs2) @ q)"
      "wf_elem (object_elem kvs2)"
    using get_container [OF assms(1) assms(2) [unfolded object_elem_def], of BINN_OBJECT] unfolding object_elem_def by blast
  have "0 < length (object_body kvs2)" using assms(4) pair_pos by (cases kvs2) auto
  then have "4 \<le> length (enc (object_elem kvs2) @ q)"
    by (simp add: object_elem_def cont_header_def length_size_field del: length_greater_0_conv)
  then have "binn_ptr (Buffer (enc (object_elem kvs2) @ q)) = Ret (enc (object_elem kvs2) @ q)"
    using q(2) unfolding object_elem_def by (intro binn_ptr_buffer)
  then show ?thesis
    using that [of "Buffer (enc (object_elem kvs2) @ q)"] q assms(3) by (auto simp: binn_object_get_object_def object_at_def)
qed

lemma get_list:
  assumes "object_at a kvs" "map_of kvs (key_bytes key) = Some (list_elem es)" "list_all wf_elem es" "es \<noteq> []"
  obtains a2 where "binn_object_get_list a key = Ret a2" "list_at a2 es"
proof -
  obtain q where q: "obind (binn_object_get a (key_bytes key) BINN_LIST) got_pointer = Ret (enc (list_elem es) @ q)"
      "wf_elem (list_elem es)"
    using get_container [OF assms(1) assms(2) [unfolded list_elem_def], of BINN_LIST] unfolding list_elem_def by blast
  have "0 < length (list_body es)" using assms(4) enc_pos by (cases es) auto
  then have "4 \<le> length (enc (list_elem es) @ q)"
    by (simp add: list_elem_def cont_header_def length_size_field del: length_greater_0_conv)
  then have "binn_ptr (Buffer (enc (list_elem es) @ q)) = Ret (enc (list_elem es) @ q)"
    using q(2) unfolding list_elem_def by (intro binn_ptr_buffer)
  then show ?thesis
    using that [of "Buffer (enc (list_elem es) @ q)"] q assms(3) by (auto simp: binn_object_get_list_def list_at_def)
qed

text \<open>A structure that refers to an element of a list, as the loops hand it to their bodies.\<close>

lemma object_at_value_struct: "wf_elem (object_elem kvs) \<Longrightarrow> wf_object kvs \<Longrightarrow> object_at (Struct (elem_value q (object_elem kvs))) kvs"
  by (auto simp: object_at_def binn_ptr_def object_elem_def zero_binn_value_def)

lemma list_at_value_struct: "wf_elem (list_elem es) \<Longrightarrow> list_all wf_elem es \<Longrightarrow> list_at (Struct (elem_value q (list_elem es))) es"
  by (auto simp: list_at_def binn_ptr_def list_elem_def zero_binn_value_def)

lemma list_at_foreach:
  assumes "list_at a es"
  obtains post where "binn_list_foreach before body a s = fold_elems body post es s"
proof -
  obtain post where "binn_ptr a = Ret (enc (list_elem es) @ post)" "wf_elem (list_elem es)" "list_all wf_elem es"
    using assms by (auto simp: list_at_def)
  from that [OF list_foreach [OF this]] show ?thesis .
qed

text \<open>Serialized bytes that are loaded again, as a message or a stored value.\<close>

lemma object_item_loaded:
  assumes "object_item kvs item" "kvs \<noteq> []"
  shows "object_at (Buffer (fst (binn_serialized item))) kvs"
proof -
  have s: "fst (binn_serialized item) = enc (object_elem kvs)" and wf: "wf_elem (object_elem kvs)"
    using serialized_object [OF assms(1)] by simp_all
  have "0 < length (object_body kvs)" using assms(2) pair_pos by (cases kvs) auto
  then have "4 \<le> length (enc (object_elem kvs) @ [])"
    by (simp add: object_elem_def cont_header_def length_size_field del: length_greater_0_conv)
  then have "binn_ptr (Buffer (enc (object_elem kvs) @ [])) = Ret (enc (object_elem kvs) @ [])"
    using wf unfolding object_elem_def by (intro binn_ptr_buffer)
  then show ?thesis using wf assms(1) by (auto simp: object_at_def object_item_def s)
qed

end
