(* ===== verification/Mdv_Serialization.thy ===== *)
theory Mdv_Serialization
  imports Mdv_Types Mdv_Binn_Write Mdv_Topology Mdv_Vector
begin

text \<open>
  The serialization of src/mdv_types/mdv_serialization.c over the containers of Mdv_Binn: table descriptions, tables,
  rows, row sets, topologies, identifiers and bit sets. \<open>mem c n\<close> is the outcome of allocation \<open>n\<close> for the container
  number \<open>c\<close> of a function, in the order of their creation.
\<close>

section \<open>Values of fields\<close>

definition binn_list_add_blob :: "binn \<Rightarrow> bytes \<Rightarrow> nat \<Rightarrow> binn outcome" where
  "binn_list_add_blob list p sz = (if 2 ^ 31 \<le> sz then Fail else binn_list_add list BINN_BLOB (Some p) sz)"

definition binn_field :: "(nat \<Rightarrow> bool) \<Rightarrow> mdv_field \<Rightarrow> binn outcome" where
  "binn_field mem field =
     obind (binn_create_object mem) (\<lambda>obj.
     obind (binn_object_set_uint32 obj ''T'' (fd_type field)) (\<lambda>obj.
     obind (binn_object_set_uint32 obj ''L'' (fd_limit field)) (\<lambda>obj.
       binn_object_set_str obj ''N'' (fd_name field))))"

definition binn_add_to_list :: "binn \<Rightarrow> u32 \<Rightarrow> bytes \<Rightarrow> binn outcome" where
  "binn_add_to_list list type data =
     (let add = (\<lambda>t n. obind (rdn n data 0) (\<lambda>bs. binn_list_add list t (Some bs) 0)) in
      if type = MDV_FLD_TYPE_BOOL then
        obind (rd data 0) (\<lambda>b. binn_list_add list BINN_BOOL (Some (le_bytes 4 (of_bool (b \<noteq> 0)))) 0)
      else if type = MDV_FLD_TYPE_CHAR then add BINN_INT8 1
      else if type = MDV_FLD_TYPE_BYTE then add BINN_INT8 1
      else if type = MDV_FLD_TYPE_INT8 then add BINN_INT8 1
      else if type = MDV_FLD_TYPE_UINT8 then add BINN_UINT8 1
      else if type = MDV_FLD_TYPE_INT16 then add BINN_INT16 2
      else if type = MDV_FLD_TYPE_UINT16 then add BINN_UINT16 2
      else if type = MDV_FLD_TYPE_INT32 then add BINN_INT32 4
      else if type = MDV_FLD_TYPE_UINT32 then add BINN_UINT32 4
      else if type = MDV_FLD_TYPE_INT64 then add BINN_INT64 8
      else if type = MDV_FLD_TYPE_UINT64 then add BINN_UINT64 8
      else if type = MDV_FLD_TYPE_FLOAT then add BINN_FLOAT32 4
      else if type = MDV_FLD_TYPE_DOUBLE then add BINN_FLOAT64 8
      else Fail)"

text \<open>The bytes that are stored through \<open>data\<close>.\<close>

definition binn_get :: "binn_value \<Rightarrow> u32 \<Rightarrow> bytes outcome" where
  "binn_get val type =
     (if type = MDV_FLD_TYPE_BOOL then obind (binn_get_bool val) (\<lambda>b. Ret [of_bool b])
      else if type \<in> {MDV_FLD_TYPE_CHAR, MDV_FLD_TYPE_BYTE, MDV_FLD_TYPE_INT8, MDV_FLD_TYPE_UINT8} then
        obind (binn_get_int32 val) (\<lambda>v. Ret (int_bytes 1 v))
      else if type \<in> {MDV_FLD_TYPE_INT16, MDV_FLD_TYPE_UINT16} then obind (binn_get_int32 val) (\<lambda>v. Ret (int_bytes 2 v))
      else if type = MDV_FLD_TYPE_INT32 then obind (binn_get_int32 val) (\<lambda>v. Ret (int_bytes 4 v))
      else if type = MDV_FLD_TYPE_UINT32 then obind (binn_get_int64 val) (\<lambda>v. Ret (int_bytes 4 v))
      else if type \<in> {MDV_FLD_TYPE_INT64, MDV_FLD_TYPE_UINT64} then obind (binn_get_int64 val) (\<lambda>v. Ret (int_bytes 8 v))
      else if type = MDV_FLD_TYPE_FLOAT then
        obind (binn_get_double val) (\<lambda>d. Ret (le_bytes 4 (unat (float_of_double d))))
      else if type = MDV_FLD_TYPE_DOUBLE then obind (binn_get_double val) (\<lambda>d. Ret (le_bytes 8 (unat d)))
      else Fail)"

section \<open>Table descriptions\<close>

fun add_fields :: "(nat \<Rightarrow> nat \<Rightarrow> bool) \<Rightarrow> nat \<Rightarrow> mdv_field list \<Rightarrow> binn \<Rightarrow> binn outcome" where
  "add_fields mem i [] list = Ret list"
| "add_fields mem i (field # fds) list =
     obind (binn_field (mem i) field) (\<lambda>obj. obind (binn_list_add_object list obj) (add_fields mem (i + 1) fds))"

definition mdv_binn_table_desc :: "(nat \<Rightarrow> nat \<Rightarrow> bool) \<Rightarrow> mdv_table_desc \<Rightarrow> binn outcome" where
  "mdv_binn_table_desc mem table =
     (if td_stale table then UB
      else
        obind (binn_create_object (mem 0)) (\<lambda>obj.
        obind (binn_object_set_str obj ''N'' (td_name table)) (\<lambda>obj.
        obind (binn_object_set_uint32 obj ''S'' (word_of_nat (length (td_fields table)))) (\<lambda>obj.
        obind (binn_create_list (mem 1)) (\<lambda>list.
        obind (add_fields mem 2 (td_fields table) list) (\<lambda>list.
          binn_object_set_list obj ''F'' list))))))"

text \<open>
  The description is built in one block: the structure of 24 bytes, an array of \<open>S\<close> fields of 16 bytes, then the strings.
  The first loop adds up the size (in 32 bits), the second one fills the fields and copies the strings to the position
  \<open>buff\<close>. A field behind the array, a string behind the block, and a field of the array that is never filled are \<open>UB\<close>.
\<close>

definition desc_name_size :: "binn_value \<Rightarrow> nat \<Rightarrow> nat outcome" where
  "desc_name_size val sz =
     obind (binn_object_get_str (Struct val) ''N'') (\<lambda>p. obind (cstr p) (\<lambda>s. Ret ((sz + length s + 1) mod 2 ^ 32)))"

definition desc_field :: "nat \<Rightarrow> nat \<Rightarrow> binn_value \<Rightarrow> nat \<times> mdv_field list \<Rightarrow> (nat \<times> mdv_field list) outcome" where
  "desc_field count sz val st =
     (case st of (buff, fds) \<Rightarrow>
        if length fds > count then Fail
        else if length fds = count then UB
        else
          obind (binn_object_get_uint32 (Struct val) ''T'') (\<lambda>type.
          obind (binn_object_get_uint32 (Struct val) ''L'') (\<lambda>limit.
          obind (binn_object_get_str (Struct val) ''N'') (\<lambda>p.
          obind (cstr p) (\<lambda>name.
            if buff + length name + 1 > sz then UB
            else Ret (buff + length name + 1, fds @ [\<lparr>fd_type = type, fd_limit = limit, fd_name = name\<rparr>]))))))"

definition mdv_unbinn_table_desc :: "bool \<Rightarrow> binn_arg \<Rightarrow> mdv_table_desc outcome" where
  "mdv_unbinn_table_desc mem obj =
     obind (binn_object_get_str obj ''N'') (\<lambda>p.
     obind (binn_object_get_uint32 obj ''S'') (\<lambda>fields_count.
     obind (binn_object_get_list obj ''F'') (\<lambda>binn_fields.
     obind (cstr p) (\<lambda>name.
       let n = unat fields_count; strings = 24 + n * 16 + length name + 1 in
       obind (binn_list_foreach (Ret zero_binn_iter) desc_name_size binn_fields (strings mod 2 ^ 32)) (\<lambda>sz.
         if \<not> mem then Fail
         else if sz < strings then UB
         else
           obind (binn_list_foreach (Ret zero_binn_iter) (desc_field n sz) binn_fields (strings, [])) (\<lambda>(buff, fds).
             if length fds < n then UB
             else Ret \<lparr>td_name = name, td_fields = fds, td_dynamic_alloc = None, td_capacity = 0, td_stale = False\<rparr>))))))"

section \<open>Identifiers and tables\<close>

definition mdv_binn_table_uuid :: "mdv_uuid \<Rightarrow> binn \<Rightarrow> binn outcome" where
  "mdv_binn_table_uuid uuid obj =
     obind (binn_object_set_uint64 obj ''U0'' (uuid_lo uuid)) (\<lambda>obj. binn_object_set_uint64 obj ''U1'' (uuid_hi uuid))"

definition mdv_unbinn_table_uuid :: "binn_arg \<Rightarrow> mdv_uuid outcome" where
  "mdv_unbinn_table_uuid obj =
     obind (binn_object_get_uint64 obj ''U0'') (\<lambda>lo. obind (binn_object_get_uint64 obj ''U1'') (\<lambda>hi. Ret (Uuid lo hi)))"

definition mdv_binn_uuid :: "(nat \<Rightarrow> bool) \<Rightarrow> mdv_uuid \<Rightarrow> binn outcome" where
  "mdv_binn_uuid mem uuid =
     obind (binn_create_object mem) (\<lambda>obj.
     obind (binn_object_set_uint64 obj ''U1'' (uuid_lo uuid)) (\<lambda>obj. binn_object_set_uint64 obj ''U2'' (uuid_hi uuid)))"

definition mdv_unbinn_uuid :: "binn_arg \<Rightarrow> mdv_uuid outcome" where
  "mdv_unbinn_uuid obj =
     obind (binn_object_get_uint64 obj ''U1'') (\<lambda>lo. obind (binn_object_get_uint64 obj ''U2'') (\<lambda>hi. Ret (Uuid lo hi)))"

definition mdv_binn_table :: "(nat \<Rightarrow> nat \<Rightarrow> bool) \<Rightarrow> mdv_table \<Rightarrow> binn outcome" where
  "mdv_binn_table mem table =
     obind (binn_create_object (mem 0)) (\<lambda>obj.
     obind (mdv_binn_table_desc (\<lambda>c. mem (c + 1)) (tb_desc table)) (\<lambda>desc.
     obind (mdv_binn_table_uuid (tb_id table) obj) (\<lambda>obj.
       binn_object_set_object obj ''D'' desc)))"

definition mdv_unbinn_table :: "(nat \<Rightarrow> bool) \<Rightarrow> binn_arg \<Rightarrow> mdv_table outcome" where
  "mdv_unbinn_table mem obj =
     obind (mdv_unbinn_table_uuid obj) (\<lambda>uuid.
     obind (binn_object_get_object obj ''D'') (\<lambda>desc_obj.
     obind (mdv_unbinn_table_desc (mem 0) desc_obj) (\<lambda>desc.
       mdv_table_create (mem 1) uuid desc)))"

text \<open>
  The identifier and the name of a table as a row. The space is computed for the columns of the mask, but both columns are
  written: without the first column the name ends behind the block, without the second one the descriptor of the second
  column (a size of zero and the address \<open>addr\<close> of the end of the block) is stored over the identifier.
\<close>

definition mdv_unbinn_table_as_row_slice :: "bool \<Rightarrow> nat \<Rightarrow> binn_arg \<Rightarrow> mdv_bitset option \<Rightarrow> mdv_row outcome" where
  "mdv_unbinn_table_as_row_slice mem addr obj fmask =
     obind (masked fmask 0) (\<lambda>skip0.
     obind (if skip0 then Ret (Uuid 0 0) else mdv_unbinn_table_uuid obj) (\<lambda>uuid.
     obind (masked fmask 1) (\<lambda>skip1.
     obind (if skip1 then Ret []
            else obind (binn_object_get_object obj ''D'') (\<lambda>d. obind (binn_object_get_str d ''N'') cstr)) (\<lambda>name.
       if skip0 \<and> skip1 then Fail
       else if \<not> mem then Fail
       else if skip0 then UB
       else if skip1 then Ret [le_bytes 8 0 @ le_bytes 8 addr]
       else Ret [uuid_u8 uuid, name @ [0]]))))"

section \<open>Rows\<close>

fun add_items :: "binn \<Rightarrow> u32 \<Rightarrow> nat \<Rightarrow> nat \<Rightarrow> bytes \<Rightarrow> binn outcome" where
  "add_items items type n 0 data = Ret items"
| "add_items items type n (Suc k) data =
     obind (binn_add_to_list items type data) (\<lambda>items. add_items items type n k (drop n data))"

definition binn_row_field :: "(nat \<Rightarrow> bool) \<Rightarrow> mdv_field \<Rightarrow> bytes \<Rightarrow> binn \<Rightarrow> binn outcome" where
  "binn_row_field mem field data list =
     (let field_type_size = mdv_field_type_size (fd_type field) in
      if field_type_size = 0 then Fail
      else if length data mod field_type_size \<noteq> 0 then Fail
      else
        let arr_size = length data div field_type_size mod 2 ^ 32 in
        if fd_limit field \<noteq> 0 \<and> unat (fd_limit field) < arr_size then Fail
        else if fd_limit field = 1 then binn_add_to_list list (fd_type field) data
        else if field_type_size = 1 then binn_list_add_blob list data arr_size
        else
          obind (binn_create_list mem) (\<lambda>items.
          obind (add_items items (fd_type field) field_type_size arr_size data) (\<lambda>items.
            binn_list_add_list list items)))"

fun binn_row_fields :: "(nat \<Rightarrow> nat \<Rightarrow> bool) \<Rightarrow> nat \<Rightarrow> mdv_field list \<Rightarrow> mdv_row \<Rightarrow> binn \<Rightarrow> binn outcome" where
  "binn_row_fields mem i [] row list = Ret list"
| "binn_row_fields mem i (field # fds) [] list = UB"
| "binn_row_fields mem i (field # fds) (data # row) list =
     obind (binn_row_field (mem i) field data list) (binn_row_fields mem (i + 1) fds row)"

definition mdv_binn_row :: "(nat \<Rightarrow> nat \<Rightarrow> bool) \<Rightarrow> mdv_row \<Rightarrow> mdv_table_desc \<Rightarrow> binn outcome" where
  "mdv_binn_row mem row table_desc =
     obind (binn_create_list (mem 0)) (binn_row_fields mem 1 (td_fields table_desc) row)"

text \<open>The space for the data of a row; the state is the column, the number of fields and the size.\<close>

definition row_field_size :: "mdv_field list \<Rightarrow> mdv_bitset option \<Rightarrow> binn_value \<Rightarrow> nat \<times> nat \<times> nat \<Rightarrow> (nat \<times> nat \<times> nat) outcome" where
  "row_field_size fds fmask val st =
     (case st of (n, count, row_size) \<Rightarrow>
        obind (masked fmask n) (\<lambda>skip.
          if skip then Ret (n + 1, count, row_size)
          else if length fds \<le> n then UB
          else
            let field = fds ! n; field_type_size = mdv_field_type_size (fd_type field) in
            obind (if fd_limit field = 1 then Ret field_type_size
                   else if field_type_size = 1 then Ret (bv_size val)
                   else obind (mdv_binn_list_length (Struct val)) (\<lambda>len. Ret (field_type_size * len))) (\<lambda>sz.
              Ret (n + 1, count + 1, row_size + sz))))"

text \<open>The list entry takes 16 bytes in front of the row and every field a descriptor of 16 bytes.\<close>

definition mdv_calc_row_size :: "binn_arg \<Rightarrow> mdv_table_desc \<Rightarrow> mdv_bitset option \<Rightarrow> (nat \<times> nat) outcome" where
  "mdv_calc_row_size list table_desc fmask =
     obind (binn_list_foreach (Ret zero_binn_iter) (row_field_size (td_fields table_desc) fmask) list (0, 0, 0)) (\<lambda>(n, count, row_size).
       if count > length (td_fields table_desc) then Fail else Ret (count, row_size + 16 + 16 * count))"

text \<open>One field of a row. An item of an array that cannot be converted frees a pointer into the middle of the block.\<close>

definition unbinn_item :: "u32 \<Rightarrow> binn_value \<Rightarrow> bytes \<Rightarrow> bytes outcome" where
  "unbinn_item type val data = (case binn_get val type of UB \<Rightarrow> UB | Fail \<Rightarrow> UB | Ret bs \<Rightarrow> Ret (data @ bs))"

definition unbinn_field :: "mdv_field \<Rightarrow> binn_value \<Rightarrow> bytes outcome" where
  "unbinn_field field val =
     (let field_type_size = mdv_field_type_size (fd_type field) in
      if fd_limit field = 1 then binn_get val (fd_type field)
      else if field_type_size = 1 then source_bytes (bv_ptr val) (bv_size val)
      else binn_list_foreach (Ret zero_binn_iter) (unbinn_item (fd_type field)) (Struct val) [])"

text \<open>The second loop; the state is the column, the fields read so far and the space left for their data.\<close>

definition unbinn_row_step ::
  "mdv_field list \<Rightarrow> mdv_bitset option \<Rightarrow> binn_value \<Rightarrow> nat \<times> mdv_row \<times> nat \<Rightarrow> (nat \<times> mdv_row \<times> nat) outcome" where
  "unbinn_row_step fds fmask val st =
     (case st of (n, row, space) \<Rightarrow>
        obind (masked fmask n) (\<lambda>skip.
          if skip then Ret (n + 1, row, space)
          else if length fds \<le> n then UB
          else obind (unbinn_field (fds ! n) val) (\<lambda>data.
            if space < length data then UB else Ret (n + 1, row @ [data], space - length data))))"

definition mdv_unbinn_row_slice :: "bool \<Rightarrow> binn_arg \<Rightarrow> mdv_table_desc \<Rightarrow> mdv_bitset option \<Rightarrow> mdv_row outcome" where
  "mdv_unbinn_row_slice mem list table_desc fmask =
     obind (mdv_calc_row_size list table_desc fmask) (\<lambda>(fields_count, row_size).
       if \<not> mem then Fail
       else
         obind (binn_list_foreach (Ret zero_binn_iter) (unbinn_row_step (td_fields table_desc) fmask) list
                  (0, [], row_size - 16 - 16 * fields_count)) (\<lambda>(n, row, space). Ret row))"

definition mdv_unbinn_row :: "bool \<Rightarrow> binn_arg \<Rightarrow> mdv_table_desc \<Rightarrow> mdv_row outcome" where
  "mdv_unbinn_row mem list table_desc = mdv_unbinn_row_slice mem list table_desc None"

section \<open>Row sets\<close>

fun add_rows :: "(nat \<Rightarrow> nat \<Rightarrow> nat \<Rightarrow> bool) \<Rightarrow> nat \<Rightarrow> mdv_table_desc \<Rightarrow> mdv_row list \<Rightarrow> binn \<Rightarrow> binn outcome" where
  "add_rows mem i desc [] list = Ret list"
| "add_rows mem i desc (row # rows) list =
     obind (mdv_binn_row (mem i) row desc) (\<lambda>fields. obind (binn_list_add_list list fields) (add_rows mem (i + 1) desc rows))"

text \<open>\<open>mem 0 0\<close> serves the list, \<open>mem 0 1 0\<close> the enumerator and \<open>mem (i + 1)\<close> the containers of row \<open>i\<close>.\<close>

definition mdv_binn_rowset :: "(nat \<Rightarrow> nat \<Rightarrow> nat \<Rightarrow> bool) \<Rightarrow> mdv_rowset \<Rightarrow> binn outcome" where
  "mdv_binn_rowset mem rowset =
     obind (binn_create_list (mem 0 0)) (\<lambda>list.
       if \<not> mem 0 1 0 then Fail
       else add_rows mem 1 (tb_desc (rs_table rowset)) (rs_rows rowset) list)"

definition unbinn_rowset_step :: "(nat \<Rightarrow> bool) \<Rightarrow> mdv_table_desc \<Rightarrow> binn_value \<Rightarrow> mdv_rowset \<Rightarrow> mdv_rowset outcome" where
  "unbinn_rowset_step mem desc val rowset =
     obind (mdv_unbinn_row (mem (Suc (length (rs_rows rowset)))) (Struct val) desc) (\<lambda>entry.
       Ret (mdv_rowset_impl_emplace rowset entry))"

definition mdv_unbinn_rowset :: "(nat \<Rightarrow> bool) \<Rightarrow> binn_arg \<Rightarrow> mdv_table \<Rightarrow> mdv_rowset outcome" where
  "mdv_unbinn_rowset mem list table =
     obind (mdv_rowset_create (mem 0) table) (\<lambda>rowset.
       binn_list_foreach (Ret zero_binn_iter) (unbinn_rowset_step mem (tb_desc table)) list rowset)"

section \<open>Bit sets\<close>

fun add_words :: "u32 list \<Rightarrow> binn \<Rightarrow> binn outcome" where
  "add_words [] list = Ret list"
| "add_words (w # ws) list = obind (binn_list_add list BINN_INT32 (Some (le_bytes 4 (unat w))) 0) (add_words ws)"

definition mdv_binn_bitset :: "(nat \<Rightarrow> bool) \<Rightarrow> mdv_bitset \<Rightarrow> binn outcome" where
  "mdv_binn_bitset mem bitset =
     obind (binn_create_list mem) (\<lambda>obj.
       if length (bs_bits bitset) < mdv_bitset_capacity bitset div 32 then UB
       else add_words (take (mdv_bitset_capacity bitset div 32) (bs_bits bitset)) obj)"

definition unbinn_word :: "binn_value \<Rightarrow> nat \<times> u32 list \<Rightarrow> (nat \<times> u32 list) outcome" where
  "unbinn_word val st =
     (case st of (n, ws) \<Rightarrow>
        obind (binn_get_int32 val) (\<lambda>v. if length ws \<le> n then UB else Ret (n + 1, ws[n := word_of_int v])))"

definition mdv_unbinn_bitset :: "bool \<Rightarrow> binn_arg \<Rightarrow> mdv_bitset outcome" where
  "mdv_unbinn_bitset mem obj =
     obind (mdv_binn_list_length obj) (\<lambda>list_len.
       case mdv_bitset_create mem (list_len * 4 * 8) of None \<Rightarrow> Fail
       | Some bitset \<Rightarrow>
           obind (binn_list_foreach UB unbinn_word obj (0, bs_bits bitset)) (\<lambda>(n, ws). Ret (bitset\<lparr>bs_bits := ws\<rparr>)))"

section \<open>Topologies\<close>

definition binn_toponode :: "(nat \<Rightarrow> bool) \<Rightarrow> mdv_toponode \<Rightarrow> binn outcome" where
  "binn_toponode mem node =
     obind (binn_create_object mem) (\<lambda>obj.
     obind (binn_object_set_uint32 obj ''ID'' (word_of_nat (tn_id node))) (\<lambda>obj.
     obind (binn_object_set_uint64 obj ''U1'' (uuid_lo (tn_uuid node))) (\<lambda>obj.
     obind (binn_object_set_uint64 obj ''U2'' (uuid_hi (tn_uuid node))) (\<lambda>obj.
       binn_object_set_str obj ''A'' (key_bytes (tn_addr node))))))"

text \<open>A link is written to a buffer of 64 bytes on the stack.\<close>

definition binn_topolink :: "mdv_topolink \<Rightarrow> binn outcome" where
  "binn_topolink link =
     obind (binn_create (\<lambda>_. False) BINN_OBJECT 64 True) (\<lambda>obj.
     obind (binn_object_set_uint32 obj ''U1'' (word_of_nat (tl_node0 link))) (\<lambda>obj.
     obind (binn_object_set_uint32 obj ''U2'' (word_of_nat (tl_node1 link))) (\<lambda>obj.
       binn_object_set_uint32 obj ''W'' (tl_weight link))))"

fun add_toponodes :: "(nat \<Rightarrow> nat \<Rightarrow> bool) \<Rightarrow> nat \<Rightarrow> mdv_toponode list \<Rightarrow> binn \<Rightarrow> binn outcome" where
  "add_toponodes mem i [] list = Ret list"
| "add_toponodes mem i (node # nodes) list =
     obind (binn_toponode (mem i) node) (\<lambda>obj. obind (binn_list_add_object list obj) (add_toponodes mem (i + 1) nodes))"

fun add_topolinks :: "mdv_topolink list \<Rightarrow> binn \<Rightarrow> binn outcome" where
  "add_topolinks [] list = Ret list"
| "add_topolinks (link # links) list =
     obind (binn_topolink link) (\<lambda>obj. obind (binn_list_add_object list obj) (add_topolinks links))"

definition mdv_topology_serialize :: "(nat \<Rightarrow> nat \<Rightarrow> bool) \<Rightarrow> mdv_topology \<Rightarrow> binn outcome" where
  "mdv_topology_serialize mem topology =
     obind (binn_create_object (mem 0)) (\<lambda>obj.
     obind (binn_create_list (mem 1)) (\<lambda>nodes.
     obind (binn_create_list (mem 2)) (\<lambda>links.
     obind (add_toponodes mem 3 (tp_nodes topology) nodes) (\<lambda>nodes.
     obind (add_topolinks (tp_links topology) links) (\<lambda>links.
     obind (binn_object_set_uint64 obj ''NC'' (word_of_nat (length (tp_nodes topology)))) (\<lambda>obj.
     obind (binn_object_set_uint64 obj ''LC'' (word_of_nat (length (tp_links topology)))) (\<lambda>obj.
     obind (binn_object_set_uint64 obj ''ES'' (word_of_nat (length (tp_extradata topology)))) (\<lambda>obj.
     obind (if tp_nodes topology = [] then Ret obj else binn_object_set_list obj ''N'' nodes) (\<lambda>obj.
       if tp_links topology = [] then Ret obj else binn_object_set_list obj ''L'' links)))))))))"

text \<open>
  The addresses of the nodes go to one vector of the announced size. When it grows, it moves and the addresses of the nodes
  read before dangle. The vector of nodes has the announced capacity, too; the loop accepts one node more, for which
  that vector has to grow (\<open>mem 3\<close>).
\<close>

record topo_nodes =
  tx_nodes :: "mdv_toponode list"
  tx_addrs :: string
  tx_capacity :: nat
  tx_index :: nat

definition bytes_string :: "bytes \<Rightarrow> string" where
  "bytes_string = map (\<lambda>b. char_of (unat b))"

definition append_addr :: "bool \<Rightarrow> string \<Rightarrow> topo_nodes \<Rightarrow> topo_nodes outcome" where
  "append_addr mem addr st =
     (let needed = length (tx_addrs st) + length addr + 1 in
      case grow_capacity needed (tx_capacity st) of None \<Rightarrow> UB
      | Some cap \<Rightarrow>
          if cap > tx_capacity st \<and> (\<not> mem \<or> tx_nodes st \<noteq> []) then UB
          else Ret (st\<lparr>tx_addrs := tx_addrs st @ addr @ [CHR 0x00], tx_capacity := cap\<rparr>))"

definition unbinn_toponode :: "(nat \<Rightarrow> bool) \<Rightarrow> nat \<Rightarrow> binn_value \<Rightarrow> topo_nodes \<Rightarrow> topo_nodes outcome" where
  "unbinn_toponode mem nodes_count val st =
     (if tx_index st > nodes_count then Fail
      else
        obind (binn_object_get_uint32 (Struct val) ''ID'') (\<lambda>node_id.
        obind (binn_object_get_uint64 (Struct val) ''U1'') (\<lambda>lo.
        obind (binn_object_get_uint64 (Struct val) ''U2'') (\<lambda>hi.
        obind (binn_object_get_str (Struct val) ''A'') (\<lambda>p.
        obind (cstr p) (\<lambda>addr.
        obind (append_addr (mem 4) (bytes_string addr) st) (\<lambda>st.
          let node = \<lparr>tn_uuid = Uuid lo hi, tn_id = unat node_id, tn_addr = bytes_string addr\<rparr> in
          Ret (st\<lparr>tx_index := tx_index st + 1,
                  tx_nodes := (if tx_index st < nodes_count \<or> mem 3 then tx_nodes st @ [node] else tx_nodes st)\<rparr>))))))))"

definition unbinn_topolink :: "(nat \<Rightarrow> bool) \<Rightarrow> nat \<Rightarrow> nat \<Rightarrow> binn_value \<Rightarrow> nat \<times> mdv_topolink list \<Rightarrow> (nat \<times> mdv_topolink list) outcome" where
  "unbinn_topolink mem nodes_count links_count val st =
     (case st of (i, links) \<Rightarrow>
        if i > links_count then Fail
        else
          obind (binn_object_get_uint32 (Struct val) ''U1'') (\<lambda>node0.
          obind (binn_object_get_uint32 (Struct val) ''U2'') (\<lambda>node1.
          obind (binn_object_get_uint32 (Struct val) ''W'') (\<lambda>weight.
            if unat node0 \<ge> nodes_count \<or> unat node1 \<ge> nodes_count then Fail
            else
              let link = \<lparr>tl_node0 = unat node0, tl_node1 = unat node1, tl_weight = weight\<rparr> in
              Ret (i + 1, if i < links_count \<or> mem 5 then links @ [link] else links)))))"

text \<open>\<open>mem 0\<close>, \<open>mem 1\<close> and \<open>mem 2\<close> serve the three vectors, \<open>mem (n + 6)\<close> the building of the topology.\<close>

definition mdv_topology_deserialize :: "(nat \<Rightarrow> bool) \<Rightarrow> binn_arg \<Rightarrow> topology_ptr outcome" where
  "mdv_topology_deserialize mem obj =
     obind (binn_object_get_uint64 obj ''NC'') (\<lambda>nc.
     obind (binn_object_get_uint64 obj ''LC'') (\<lambda>lc.
     obind (binn_object_get_uint64 obj ''ES'') (\<lambda>es.
     obind (if nc \<noteq> 0 then obind (binn_object_get_list obj ''N'') (\<lambda>a. Ret (Some a)) else Ret None) (\<lambda>nodes.
     obind (if lc \<noteq> 0 then obind (binn_object_get_list obj ''L'') (\<lambda>a. Ret (Some a)) else Ret None) (\<lambda>links.
       if \<not> mem 0 \<or> \<not> mem 1 \<or> \<not> mem 2 then Fail
       else
         let st = \<lparr>tx_nodes = [], tx_addrs = [], tx_capacity = unat es, tx_index = 0\<rparr> in
         obind (case nodes of None \<Rightarrow> Ret st
                | Some a \<Rightarrow> binn_list_foreach (Ret zero_binn_iter) (unbinn_toponode mem (unat nc)) a st) (\<lambda>st.
         obind (case links of None \<Rightarrow> Ret (0, [])
                | Some a \<Rightarrow> binn_list_foreach (Ret zero_binn_iter) (unbinn_topolink mem (unat nc) (unat lc)) a (0, [])) (\<lambda>(_, links).
           case mdv_topology_create (\<lambda>n. mem (n + 6)) (tx_nodes st) links (tx_addrs st) of
             None \<Rightarrow> UB
           | Some Null_topology \<Rightarrow> Fail
           | Some t \<Rightarrow> Ret t)))))))"

end
