(* ===== verification/Mdv_Table_Codec.thy ===== *)
theory Mdv_Table_Codec
  imports Mdv_Serialization "HOL-Library.Code_Target_Nat"
begin

text \<open>
  Round trips of the serialization of table descriptions, tables and identifiers: what \<open>mdv_binn_table\<close> writes,
  \<open>mdv_unbinn_table\<close> reads back, for every behaviour of the allocator under which the writing succeeds.
\<close>

lemma strnicmp0_code [code]:
  "strnicmp0 n a b = (if n = 0 then Ret True else case (a, b) of
     (x # a, y # b) \<Rightarrow> if tolower8 x \<noteq> tolower8 y then Ret False else if x = 0 then Ret True else strnicmp0 (n - 1) a b
   | _ \<Rightarrow> UB)"
  by (cases n; cases a; cases b) simp_all

section \<open>Keys\<close>

lemma wf_keys [simp]:
  "wf_key (key_bytes ''T'')" "wf_key (key_bytes ''L'')" "wf_key (key_bytes ''N'')" "wf_key (key_bytes ''S'')"
  "wf_key (key_bytes ''F'')" "wf_key (key_bytes ''D'')" "wf_key (key_bytes ''A'')" "wf_key (key_bytes ''W'')"
  "wf_key (key_bytes ''U0'')" "wf_key (key_bytes ''U1'')" "wf_key (key_bytes ''U2'')" "wf_key (key_bytes ''ID'')"
  "wf_key (key_bytes ''NC'')" "wf_key (key_bytes ''LC'')" "wf_key (key_bytes ''ES'')"
  by (simp_all add: wf_key_def key_bytes_def)

section \<open>Fields\<close>

definition field_kvs :: "mdv_field \<Rightarrow> (bytes \<times> elem) list" where
  "field_kvs f =
     [(key_bytes ''T'', int_elem BINN_UINT32 (uint (fd_type f))), (key_bytes ''L'', int_elem BINN_UINT32 (uint (fd_limit f))),
      (key_bytes ''N'', Str (fd_name f))]"

definition field_elem :: "mdv_field \<Rightarrow> elem" where
  "field_elem f = object_elem (field_kvs f)"

text \<open>The serialization of a field is well-formed; this follows when it has been written.\<close>

definition field_encodable :: "mdv_field \<Rightarrow> bool" where
  "field_encodable f \<longleftrightarrow> wf_object (field_kvs f) \<and> wf_elem (field_elem f)"

definition wf_field :: "mdv_field \<Rightarrow> bool" where
  "wf_field f \<longleftrightarrow> 0 \<notin> set (fd_name f)"

lemma field_lookup [simp]:
  "map_of (field_kvs f) (key_bytes ''T'') = Some (int_elem BINN_UINT32 (uint (fd_type f)))"
  "map_of (field_kvs f) (key_bytes ''L'') = Some (int_elem BINN_UINT32 (uint (fd_limit f)))"
  "map_of (field_kvs f) (key_bytes ''N'') = Some (Str (fd_name f))"
  by (simp_all add: field_kvs_def key_bytes_def)

lemma binn_field_item:
  assumes "binn_field mem f = Ret obj" "wf_field f"
  shows "object_item (field_kvs f) obj"
proof -
  obtain o0 o1 o2 where o: "binn_create_object mem = Ret o0" "binn_object_set_uint32 o0 ''T'' (fd_type f) = Ret o1"
      "binn_object_set_uint32 o1 ''L'' (fd_limit f) = Ret o2" "binn_object_set_str o2 ''N'' (fd_name f) = Ret obj"
    using assms(1) by (auto simp: binn_field_def obind_eq_Ret)
  have "object_item [] o0" using o(1) by (simp add: binn_create_object_def create_object)
  note set_uint32 [OF o(2) this wf_keys(1)]
  note set_uint32 [OF o(3) this wf_keys(2)]
  note set_str [OF o(4) this wf_keys(3)]
  then show ?thesis using assms(2) by (simp add: field_kvs_def wf_field_def)
qed

lemma add_fields_items:
  assumes "add_fields mem i fds l = Ret l'" "list_item es l" "list_all wf_field fds"
  shows "list_item (es @ map field_elem fds) l' \<and> list_all field_encodable fds"
  using assms
proof (induction fds arbitrary: i l es)
  case (Cons f fds)
  then obtain obj l1 where 1: "binn_field (mem i) f = Ret obj" "binn_list_add_object l obj = Ret l1"
      "add_fields mem (i + 1) fds l1 = Ret l'"
    by (auto simp: obind_eq_Ret)
  have f: "object_item (field_kvs f) obj" using 1(1) Cons.prems(3) by (intro binn_field_item) auto
  have "list_item (es @ [field_elem f]) l1"
    unfolding field_elem_def using 1(2) Cons.prems(2) f by (rule list_add_object)
  moreover have "field_encodable f"
    using f serialized_object(2) [OF f] by (simp add: field_encodable_def field_elem_def object_item_def)
  ultimately show ?case using Cons.IH [OF 1(3), of "es @ [field_elem f]"] Cons.prems(3) by auto
qed simp

section \<open>Table descriptions\<close>

definition desc_kvs :: "mdv_table_desc \<Rightarrow> (bytes \<times> elem) list" where
  "desc_kvs d =
     [(key_bytes ''N'', Str (td_name d)), (key_bytes ''S'', int_elem BINN_UINT32 (uint (word_of_nat (length (td_fields d)) :: u32))),
      (key_bytes ''F'', list_elem (map field_elem (td_fields d)))]"

definition desc_size :: "mdv_table_desc \<Rightarrow> nat" where
  "desc_size d = 24 + length (td_fields d) * 16 + length (td_name d) + 1 + (\<Sum>f \<leftarrow> td_fields d. length (fd_name f) + 1)"

text \<open>A description that the format can carry: it has a field, no name contains a zero, and its block is smaller than 4 GiB.\<close>

definition wf_desc :: "mdv_table_desc \<Rightarrow> bool" where
  "wf_desc d \<longleftrightarrow> td_fields d \<noteq> [] \<and> list_all wf_field (td_fields d) \<and> 0 \<notin> set (td_name d) \<and> desc_size d < 2 ^ 32"

lemma desc_lookup [simp]:
  "map_of (desc_kvs d) (key_bytes ''N'') = Some (Str (td_name d))"
  "map_of (desc_kvs d) (key_bytes ''S'') = Some (int_elem BINN_UINT32 (uint (word_of_nat (length (td_fields d)) :: u32)))"
  "map_of (desc_kvs d) (key_bytes ''F'') = Some (list_elem (map field_elem (td_fields d)))"
  by (simp_all add: desc_kvs_def key_bytes_def)

text \<open>The fields of a description are well-formed objects and their list is a well-formed container.\<close>

definition desc_encodable :: "mdv_table_desc \<Rightarrow> bool" where
  "desc_encodable d \<longleftrightarrow> list_all field_encodable (td_fields d)"

lemma binn_table_desc_item:
  assumes "mdv_binn_table_desc mem d = Ret obj" "wf_desc d"
  shows "object_item (desc_kvs d) obj" "desc_encodable d"
proof -
  obtain o0 o1 o2 l l' where o: "binn_create_object (mem 0) = Ret o0" "binn_object_set_str o0 ''N'' (td_name d) = Ret o1"
      "binn_object_set_uint32 o1 ''S'' (word_of_nat (length (td_fields d))) = Ret o2" "binn_create_list (mem 1) = Ret l"
      "add_fields mem 2 (td_fields d) l = Ret l'" "binn_object_set_list o2 ''F'' l' = Ret obj"
    using assms(1) by (auto simp: mdv_binn_table_desc_def obind_eq_Ret split: if_splits)
  have i: "object_item [] o0" using o(1) by (simp add: binn_create_object_def create_object)
  have l': "list_item (map field_elem (td_fields d)) l' \<and> list_all field_encodable (td_fields d)"
    using add_fields_items [OF o(5) create_list [OF o(4)]] assms(2) by (simp add: wf_desc_def)
  have "0 \<notin> set (td_name d)" using assms(2) by (simp add: wf_desc_def)
  note set_str [OF o(2) i wf_keys(3) this]
  note set_uint32 [OF o(3) this wf_keys(4)]
  note set_list [OF o(6) this wf_keys(5) conjunct1 [OF l']]
  then show "object_item (desc_kvs d) obj" by (simp add: desc_kvs_def)
  show "desc_encodable d" using l' by (simp add: desc_encodable_def)
qed

lemma name_size_loop:
  assumes "list_all wf_field fds" "list_all field_encodable fds"
    "sz + (\<Sum>f \<leftarrow> fds. length (fd_name f) + 1) < 2 ^ 32"
  shows "fold_elems desc_name_size post (map field_elem fds) sz = Ret (sz + (\<Sum>f \<leftarrow> fds. length (fd_name f) + 1))"
  using assms
proof (induction fds arbitrary: sz)
  case (Cons f fds)
  let ?rest = "list_body (map field_elem fds) @ post"
  have "object_at (Struct (elem_value ?rest (field_elem f))) (field_kvs f)"
    using Cons.prems unfolding field_elem_def by (intro object_at_value_struct) (auto simp: field_encodable_def field_elem_def)
  from get_str [OF this field_lookup(3)]
  obtain q where "binn_object_get_str (Struct (elem_value ?rest (field_elem f))) ''N'' = Ret (fd_name f @ 0 # q)" .
  moreover have "cstr (fd_name f @ 0 # q) = Ret (fd_name f)" using Cons.prems(1) by (intro cstr_terminated) (simp add: wf_field_def)
  ultimately have "desc_name_size (elem_value ?rest (field_elem f)) sz = Ret (sz + length (fd_name f) + 1)"
    using Cons.prems(3) by (simp add: desc_name_size_def)
  then show ?case using Cons.IH [of "sz + length (fd_name f) + 1"] Cons.prems by (simp add: algebra_simps)
qed simp

lemma field_loop:
  assumes "list_all wf_field fds" "list_all field_encodable fds"
    "length done + length fds \<le> count" "buff + (\<Sum>f \<leftarrow> fds. length (fd_name f) + 1) \<le> sz"
  shows "fold_elems (desc_field count sz) post (map field_elem fds) (buff, done)
           = Ret (buff + (\<Sum>f \<leftarrow> fds. length (fd_name f) + 1), done @ fds)"
  using assms
proof (induction fds arbitrary: buff "done")
  case (Cons f fds)
  let ?v = "elem_value (list_body (map field_elem fds) @ post) (field_elem f)"
  have at: "object_at (Struct ?v) (field_kvs f)"
    using Cons.prems unfolding field_elem_def by (intro object_at_value_struct) (auto simp: field_encodable_def field_elem_def)
  from get_str [OF at field_lookup(3)] obtain q where q: "binn_object_get_str (Struct ?v) ''N'' = Ret (fd_name f @ 0 # q)" .
  have "cstr (fd_name f @ 0 # q) = Ret (fd_name f)" using Cons.prems(1) by (intro cstr_terminated) (simp add: wf_field_def)
  with q have "desc_field count sz ?v (buff, done) = Ret (buff + length (fd_name f) + 1, done @ [f])"
    using get_uint32 [OF at field_lookup(1)] get_uint32 [OF at field_lookup(2)] Cons.prems(3,4) by (simp add: desc_field_def)
  then show ?case using Cons.IH [of "done @ [f]" "buff + length (fd_name f) + 1"] Cons.prems by (simp add: algebra_simps)
qed simp

lemma unbinn_table_desc_at:
  assumes "object_at a (desc_kvs d)" "wf_desc d" "desc_encodable d"
  shows "mdv_unbinn_table_desc True a
           = Ret \<lparr>td_name = td_name d, td_fields = td_fields d, td_dynamic_alloc = None, td_capacity = 0, td_stale = False\<rparr>"
proof -
  let ?fds = "td_fields d" and ?name = "td_name d"
  let ?es = "map field_elem ?fds"
  let ?names = "\<Sum>f \<leftarrow> ?fds. length (fd_name f) + 1"
  let ?strings = "24 + length ?fds * 16 + length ?name + 1"
  have size: "?strings + ?names < 2 ^ 32" using assms(2) by (simp add: wf_desc_def desc_size_def)
  have len: "unat (word_of_nat (length ?fds) :: u32) = length ?fds"
    using size by (simp add: unsigned_of_nat take_bit_nat_eq_self)
  have enc: "list_all field_encodable ?fds" "list_all wf_elem ?es"
    using assms(3) by (auto simp: desc_encodable_def field_encodable_def list_all_iff)
  have wf: "list_all wf_field ?fds" "?es \<noteq> []" "0 \<notin> set ?name" using assms(2) by (auto simp: wf_desc_def)
  from get_str [OF assms(1) desc_lookup(1)] obtain q where q: "binn_object_get_str a ''N'' = Ret (?name @ 0 # q)" .
  from get_list [OF assms(1) desc_lookup(3) enc(2) wf(2)]
  obtain l where l: "binn_object_get_list a ''F'' = Ret l" "list_at l ?es" .
  have mod: "?strings mod 2 ^ 32 = ?strings" using size by (intro mod_less) linarith
  obtain p1 where "binn_list_foreach (Ret zero_binn_iter) desc_name_size l ?strings = fold_elems desc_name_size p1 ?es ?strings"
    using list_at_foreach [OF l(2)] .
  then have loop1: "binn_list_foreach (Ret zero_binn_iter) desc_name_size l ?strings = Ret (?strings + ?names)"
    using name_size_loop [OF wf(1) enc(1) size, of p1] by (simp only:)
  obtain p2 where "binn_list_foreach (Ret zero_binn_iter) (desc_field (length ?fds) (?strings + ?names)) l (?strings, [])
      = fold_elems (desc_field (length ?fds) (?strings + ?names)) p2 ?es (?strings, [])"
    using list_at_foreach [OF l(2)] .
  then have loop2: "binn_list_foreach (Ret zero_binn_iter) (desc_field (length ?fds) (?strings + ?names)) l (?strings, [])
      = Ret (?strings + ?names, ?fds)"
    using field_loop [OF wf(1) enc(1), of "[]" "length ?fds" ?strings "?strings + ?names" p2] by simp
  have "\<not> ?strings + ?names < ?strings" by simp
  with loop1 loop2 show ?thesis
    using q l(1) get_uint32 [OF assms(1) desc_lookup(2)] cstr_terminated [OF wf(3), of q]
    by (simp only: mdv_unbinn_table_desc_def Let_def obind.simps len mod if_False not_True_eq_False prod.case less_irrefl)
qed

section \<open>Tables and identifiers\<close>

definition table_kvs :: "mdv_table \<Rightarrow> (bytes \<times> elem) list" where
  "table_kvs t =
     [(key_bytes ''U0'', int_elem BINN_UINT64 (uint (uuid_lo (tb_id t)))), (key_bytes ''U1'', int_elem BINN_UINT64 (uint (uuid_hi (tb_id t)))),
      (key_bytes ''D'', object_elem (desc_kvs (tb_desc t)))]"

lemma table_lookup [simp]:
  "map_of (table_kvs t) (key_bytes ''U0'') = Some (int_elem BINN_UINT64 (uint (uuid_lo (tb_id t))))"
  "map_of (table_kvs t) (key_bytes ''U1'') = Some (int_elem BINN_UINT64 (uint (uuid_hi (tb_id t))))"
  "map_of (table_kvs t) (key_bytes ''D'') = Some (object_elem (desc_kvs (tb_desc t)))"
  by (simp_all add: table_kvs_def key_bytes_def)

lemma binn_table_item:
  assumes "mdv_binn_table mem t = Ret obj" "wf_desc (tb_desc t)"
  shows "object_item (table_kvs t) obj" "desc_encodable (tb_desc t)" "wf_object (desc_kvs (tb_desc t))"
proof -
  obtain o0 d o1 o2 where o: "binn_create_object (mem 0) = Ret o0" "mdv_binn_table_desc (\<lambda>c. mem (c + 1)) (tb_desc t) = Ret d"
      "binn_object_set_uint64 o0 ''U0'' (uuid_lo (tb_id t)) = Ret o1" "binn_object_set_uint64 o1 ''U1'' (uuid_hi (tb_id t)) = Ret o2"
      "binn_object_set_object o2 ''D'' d = Ret obj"
    using assms(1) by (auto simp: mdv_binn_table_def mdv_binn_table_uuid_def obind_eq_Ret)
  note d = binn_table_desc_item [OF o(2) assms(2)]
  have "object_item [] o0" using o(1) by (simp add: binn_create_object_def create_object)
  note set_uint64 [OF o(3) this wf_keys(9)]
  note set_uint64 [OF o(4) this wf_keys(10)]
  note set_object [OF o(5) this wf_keys(6) d(1)]
  then show "object_item (table_kvs t) obj" by (simp add: table_kvs_def)
  show "desc_encodable (tb_desc t)" "wf_object (desc_kvs (tb_desc t))" using d by (simp_all add: object_item_def)
qed

lemma unbinn_table_at:
  assumes "object_at a (table_kvs t)" "wf_desc (tb_desc t)" "desc_encodable (tb_desc t)" "wf_object (desc_kvs (tb_desc t))"
  shows "mdv_unbinn_table (\<lambda>_. True) a = Ret \<lparr>tb_rc = 1, tb_id = tb_id t, tb_desc = \<lparr>td_name = td_name (tb_desc t),
           td_fields = td_fields (tb_desc t), td_dynamic_alloc = None, td_capacity = 0, td_stale = False\<rparr>\<rparr>"
proof -
  have "desc_kvs (tb_desc t) \<noteq> []" by (simp add: desc_kvs_def)
  from get_object [OF assms(1) table_lookup(3) assms(4) this] obtain a2 where
    a2: "binn_object_get_object a ''D'' = Ret a2" "object_at a2 (desc_kvs (tb_desc t))" by blast
  have all: "select_fields None i fds = Ret fds" for i fds by (induction fds arbitrary: i) (simp_all add: masked_def)
  show ?thesis
    using get_uint64 [OF assms(1) table_lookup(1)] get_uint64 [OF assms(1) table_lookup(2)] a2(1)
      unbinn_table_desc_at [OF a2(2) assms(2,3)] all
    by (simp add: mdv_unbinn_table_def mdv_unbinn_table_uuid_def mdv_table_create_def mdv_table_create_impl_def)
qed

text \<open>
  C16. A table that has been serialized is read back with the same identifier, name and fields.
\<close>

theorem table_roundtrip:
  assumes "mdv_binn_table mem table = Ret obj" "wf_desc (tb_desc table)"
  shows "\<exists>t. mdv_unbinn_table (\<lambda>_. True) (Buffer (fst (binn_serialized obj))) = Ret t \<and> tb_rc t = 1 \<and> tb_id t = tb_id table \<and>
           td_name (tb_desc t) = td_name (tb_desc table) \<and> td_fields (tb_desc t) = td_fields (tb_desc table)"
proof -
  note i = binn_table_item [OF assms]
  have "object_at (Buffer (fst (binn_serialized obj))) (table_kvs table)"
    using i(1) by (rule object_item_loaded) (simp add: table_kvs_def)
  from unbinn_table_at [OF this assms(2) i(2,3)] show ?thesis by simp
qed

definition sample_table :: mdv_table where
  "sample_table = \<lparr>tb_rc = 1, tb_id = Uuid 0x1122334455667788 7,
     tb_desc = \<lparr>td_name = [0x74, 0x31],
       td_fields = [\<lparr>fd_type = MDV_FLD_TYPE_INT32, fd_limit = 1, fd_name = [0x69, 0x64]\<rparr>,
                    \<lparr>fd_type = MDV_FLD_TYPE_CHAR, fd_limit = 0, fd_name = [0x6E]\<rparr>],
       td_dynamic_alloc = None, td_capacity = 0, td_stale = False\<rparr>\<rparr>"

theorem table_roundtrip_witness:
  "\<exists>obj. mdv_binn_table (\<lambda>_ _. True) sample_table = Ret obj \<and> wf_desc (tb_desc sample_table) \<and>
     (\<exists>t. mdv_unbinn_table (\<lambda>_. True) (Buffer (fst (binn_serialized obj))) = Ret t \<and> tb_rc t = 1 \<and>
        tb_id t = tb_id sample_table \<and> td_name (tb_desc t) = td_name (tb_desc sample_table) \<and>
        td_fields (tb_desc t) = td_fields (tb_desc sample_table))"
proof -
  have "is_Ret (mdv_binn_table (\<lambda>_ _. True) sample_table)" by code_simp
  then obtain obj where 1: "mdv_binn_table (\<lambda>_ _. True) sample_table = Ret obj" by (auto simp: is_Ret_iff)
  have 2: "wf_desc (tb_desc sample_table)" by code_simp
  show ?thesis using 1 2 table_roundtrip [OF 1 2] by blast
qed

end
