(* ===== verification/Mdv_Row_Codec.thy ===== *)
theory Mdv_Row_Codec
  imports Mdv_Table_Codec
begin

text \<open>
  Properties of the serialization of rows. Whatever bytes are read, a row that \<open>mdv_unbinn_row_slice\<close> returns is well typed
  for the columns of the mask; a row that respects the limits of its fields is read back as it was written.
\<close>

section \<open>Types of rows\<close>

text \<open>A field holds one item when its limit is one, and otherwise a whole number of items.\<close>

definition field_typed :: "mdv_field \<Rightarrow> bytes \<Rightarrow> bool" where
  "field_typed field data \<longleftrightarrow>
     (if fd_limit field = 1 then length data = mdv_field_type_size (fd_type field) \<and> data \<noteq> []
      else mdv_field_type_size (fd_type field) dvd length data)"

text \<open>The data of the first columns; the columns behind them have no data.\<close>

definition row_typed :: "mdv_field list \<Rightarrow> mdv_row \<Rightarrow> bool" where
  "row_typed fds row \<longleftrightarrow> length row \<le> length fds \<and> list_all2 field_typed (take (length row) fds) row"

lemma list_loop_invariant:
  assumes "list_loop body iter s = Ret s'" "P s" "\<And>val s s'. P s \<Longrightarrow> body val s = Ret s' \<Longrightarrow> P s'"
  shows "P s'"
  using assms
proof (induction body iter s rule: list_loop.induct)
  case (1 body iter s)
  from "1.prems"(1) consider "s' = s"
    | v iter1 s1 where "binn_list_next iter = Ret (v, iter1)" "body v s = Ret s1" "list_loop body iter1 s1 = Ret s'"
    by (subst (asm) list_loop.simps) (auto simp del: list_loop.simps split: outcome.splits prod.splits)
  then show ?case
  proof cases
    case (2 v iter1 s1)
    then show ?thesis using "1.IH" [OF 2(1) refl 2(2)] "1.prems"(2,3) by blast
  qed (use "1.prems" in simp_all)
qed

lemma foreach_invariant:
  assumes "binn_list_foreach before body a s = Ret s'" "P s" "\<And>val s s'. P s \<Longrightarrow> body val s = Ret s' \<Longrightarrow> P s'"
  shows "P s'"
proof -
  obtain iter where "list_loop body iter s = Ret s'" using assms(1) by (auto simp: binn_list_foreach_def obind_eq_Ret)
  then show ?thesis using assms(2,3) by (rule list_loop_invariant)
qed

lemma le_bytes_Nil: "le_bytes n v = [] \<longleftrightarrow> n = 0"
  by (metis length_0_conv length_le_bytes)

lemma binn_get_length: "binn_get val type = Ret bs \<Longrightarrow> length bs = mdv_field_type_size type \<and> bs \<noteq> []"
  by (auto simp: binn_get_def mdv_field_type_size_def obind_eq_Ret le_bytes_Nil split: if_splits)

lemma unbinn_field_typed:
  assumes "unbinn_field field val = Ret data"
  shows "field_typed field data"
proof (cases "fd_limit field = 1")
  case True
  then show ?thesis using assms by (simp add: unbinn_field_def field_typed_def binn_get_length)
next
  case False
  let ?n = "mdv_field_type_size (fd_type field)"
  show ?thesis
  proof (cases "?n = 1")
    case False
    with \<open>fd_limit field \<noteq> 1\<close> assms
    have "binn_list_foreach (Ret zero_binn_iter) (unbinn_item (fd_type field)) (Struct val) [] = Ret data"
      by (simp add: unbinn_field_def)
    then have "?n dvd length data"
      by (rule foreach_invariant [where P = "\<lambda>s. ?n dvd length s"])
        (auto simp: unbinn_item_def dest: binn_get_length split: outcome.splits)
    then show ?thesis using \<open>fd_limit field \<noteq> 1\<close> by (simp add: field_typed_def)
  qed (simp add: field_typed_def False)
qed

lemma select_fields_snoc:
  "select_fields fmask i xs = Ret cols \<Longrightarrow> masked fmask (i + length xs) = Ret skip \<Longrightarrow>
     select_fields fmask i (xs @ [f]) = Ret (if skip then cols else cols @ [f])"
  by (induction xs arbitrary: i cols) (auto simp: obind_eq_Ret)

lemma select_fields_append:
  "select_fields fmask i (xs @ ys) = Ret cols \<Longrightarrow> \<exists>c1 c2. select_fields fmask i xs = Ret c1 \<and> cols = c1 @ c2"
proof (induction xs arbitrary: i cols)
  case (Cons f xs)
  then obtain skip rest where "masked fmask i = Ret skip" "select_fields fmask (i + 1) (xs @ ys) = Ret rest"
      "cols = (if skip then rest else f # rest)"
    by (auto simp: obind_eq_Ret)
  with Cons.IH [of "i + 1" rest] show ?case by fastforce
qed simp

definition row_state_typed :: "mdv_field list \<Rightarrow> mdv_bitset option \<Rightarrow> nat \<times> mdv_row \<times> nat \<Rightarrow> bool" where
  "row_state_typed fds fmask st \<longleftrightarrow>
     (\<exists>cols. select_fields fmask 0 (take (fst st) fds) = Ret cols \<and> list_all2 field_typed cols (fst (snd st)))"

lemma row_step_typed:
  assumes "row_state_typed fds fmask st" "unbinn_row_step fds fmask val st = Ret st'"
  shows "row_state_typed fds fmask st'"
proof -
  obtain n row space where st: "st = (n, row, space)" by (cases st)
  obtain cols where cols: "select_fields fmask 0 (take n fds) = Ret cols" "list_all2 field_typed cols row"
    using assms(1) by (auto simp: row_state_typed_def st)
  obtain skip where skip: "masked fmask n = Ret skip"
    using assms(2) by (auto simp: unbinn_row_step_def st obind_eq_Ret)
  have next_cols: "select_fields fmask 0 (take (n + 1) fds) = Ret (if skip then cols else cols @ [fds ! n])" if "n < length fds"
    using select_fields_snoc [OF cols(1), of skip "fds ! n"] skip that by (simp add: take_Suc_conv_app_nth)
  show ?thesis
  proof (cases skip)
    case True
    then have "st' = (n + 1, row, space)" using assms(2) skip by (simp add: unbinn_row_step_def st)
    moreover have "select_fields fmask 0 (take (n + 1) fds) = Ret cols"
      using next_cols cols(1) True by (cases "n < length fds") simp_all
    ultimately show ?thesis using cols(2) by (simp add: row_state_typed_def)
  next
    case False
    then obtain data where data: "n < length fds" "unbinn_field (fds ! n) val = Ret data" "fst st' = n + 1" "fst (snd st') = row @ [data]"
      using assms(2) skip by (auto simp: unbinn_row_step_def st obind_eq_Ret split: if_splits)
    then show ?thesis
      using next_cols cols(2) False unbinn_field_typed [OF data(2)]
      by (auto simp: row_state_typed_def intro!: list_all2_appendI)
  qed
qed

lemma row_slice_state:
  assumes "mdv_unbinn_row_slice mem list desc fmask = Ret row"
  obtains n cols where "select_fields fmask 0 (take n (td_fields desc)) = Ret cols" "list_all2 field_typed cols row"
proof -
  obtain space0 st where "binn_list_foreach (Ret zero_binn_iter) (unbinn_row_step (td_fields desc) fmask) list (0, [], space0) = Ret st"
      "fst (snd st) = row"
    using assms by (auto simp: mdv_unbinn_row_slice_def obind_eq_Ret split: if_splits prod.splits)
  moreover from this(1) have "row_state_typed (td_fields desc) fmask st"
    by (rule foreach_invariant) (auto simp: row_state_typed_def [of _ _ "(0, _)"] intro: row_step_typed)
  ultimately show ?thesis using that by (auto simp: row_state_typed_def)
qed

text \<open>
  C14. Every row that is read for a mask of columns, from whatever bytes, is well typed for the table with these columns:
  it has at most as many fields as the table has columns, a field with limit one holds exactly one item of its type, and every
  other field holds a whole number of items.
\<close>

theorem row_slice_typed:
  assumes "mdv_unbinn_row_slice mem list desc fmask = Ret row" "mdv_table_create_impl mem' uuid desc fmask = Ret table"
  shows "row_typed (td_fields (tb_desc table)) row"
proof -
  obtain n cols where cols: "select_fields fmask 0 (take n (td_fields desc)) = Ret cols" "list_all2 field_typed cols row"
    using row_slice_state [OF assms(1)] .
  have "select_fields fmask 0 (take n (td_fields desc) @ drop n (td_fields desc)) = Ret (td_fields (tb_desc table))"
    using assms(2) by (auto simp: mdv_table_create_impl_def obind_eq_Ret split: if_splits)
  from select_fields_append [OF this] cols(1) obtain c2 where "td_fields (tb_desc table) = cols @ c2" by auto
  moreover have "length cols = length row" using cols(2) by (rule list_all2_lengthD)
  ultimately show ?thesis using cols(2) by (simp add: row_typed_def)
qed

definition second_column :: mdv_bitset where
  "second_column = \<lparr>bs_rc = 1, bs_size = 2, bs_bits = [2]\<rparr>"

theorem row_slice_typed_witness:
  "\<exists>table. mdv_unbinn_row_slice True (Buffer [0xE0, 9, 2, 0x20, 5, 0xC0, 2, 0x61, 0x62]) (tb_desc sample_table) (Some second_column)
       = Ret [[0x61, 0x62]] \<and>
     mdv_table_create_impl True (Uuid 0 0) (tb_desc sample_table) (Some second_column) = Ret table \<and>
     row_typed (td_fields (tb_desc table)) [[0x61, 0x62]]"
proof -
  have 1: "mdv_unbinn_row_slice True (Buffer [0xE0, 9, 2, 0x20, 5, 0xC0, 2, 0x61, 0x62]) (tb_desc sample_table) (Some second_column)
       = Ret [[0x61, 0x62]]"
    by code_simp
  have "is_Ret (mdv_table_create_impl True (Uuid 0 0) (tb_desc sample_table) (Some second_column))" by code_simp
  then obtain table where 2: "mdv_table_create_impl True (Uuid 0 0) (tb_desc sample_table) (Some second_column) = Ret table"
    by (auto simp: is_Ret_iff)
  show ?thesis using 1 2 row_slice_typed [OF 1 2] by blast
qed

section \<open>Items\<close>

text \<open>The integer type that an item of a field is written with.\<close>

definition item_type :: "u32 \<Rightarrow> nat" where
  "item_type t =
     (if t \<in> {MDV_FLD_TYPE_CHAR, MDV_FLD_TYPE_BYTE, MDV_FLD_TYPE_INT8} then BINN_INT8
      else if t = MDV_FLD_TYPE_UINT8 then BINN_UINT8
      else if t = MDV_FLD_TYPE_INT16 then BINN_INT16 else if t = MDV_FLD_TYPE_UINT16 then BINN_UINT16
      else if t = MDV_FLD_TYPE_INT32 then BINN_INT32 else if t = MDV_FLD_TYPE_UINT32 then BINN_UINT32
      else if t = MDV_FLD_TYPE_INT64 then BINN_INT64 else BINN_UINT64)"

definition item_value :: "u32 \<Rightarrow> bytes \<Rightarrow> int" where
  "item_value t bs = (if int_signed (item_type t) then int_of_bytes bs else int (le_val bs))"

definition item_elem :: "u32 \<Rightarrow> bytes \<Rightarrow> elem" where
  "item_elem t bs =
     (if t = MDV_FLD_TYPE_BOOL then Atom (if hd bs = 0 then BINN_FALSE else BINN_TRUE) []
      else if t = MDV_FLD_TYPE_FLOAT then Atom BINN_FLOAT32 (rev bs)
      else if t = MDV_FLD_TYPE_DOUBLE then Atom BINN_FLOAT64 (rev bs)
      else int_elem (item_type t) (item_value t bs))"

text \<open>
  The items that can be read back: a boolean is zero or one, a float is not a NaN, and a \<open>uint64\<close> is below 2 to the 63, because
  it is read with \<open>binn_get_int64\<close>.
\<close>

definition item_ok :: "u32 \<Rightarrow> bytes \<Rightarrow> bool" where
  "item_ok t bs \<longleftrightarrow>
     length bs = mdv_field_type_size t \<and>
     (if t = MDV_FLD_TYPE_BOOL then bs = [0] \<or> bs = [1]
      else if t = MDV_FLD_TYPE_UINT64 then le_val bs < 2 ^ 63
      else if t = MDV_FLD_TYPE_FLOAT then mag32 (word_of_nat (le_val bs)) \<le> inf32
      else mdv_field_type_size t \<noteq> 0)"

lemma int_field_type:
  assumes "mdv_field_type_size t \<noteq> 0" "t \<noteq> MDV_FLD_TYPE_BOOL" "t \<noteq> MDV_FLD_TYPE_FLOAT" "t \<noteq> MDV_FLD_TYPE_DOUBLE"
  obtains "t = MDV_FLD_TYPE_CHAR" | "t = MDV_FLD_TYPE_BYTE" | "t = MDV_FLD_TYPE_INT8" | "t = MDV_FLD_TYPE_UINT8"
    | "t = MDV_FLD_TYPE_INT16" | "t = MDV_FLD_TYPE_UINT16" | "t = MDV_FLD_TYPE_INT32" | "t = MDV_FLD_TYPE_UINT32"
    | "t = MDV_FLD_TYPE_INT64" | "t = MDV_FLD_TYPE_UINT64"
  using assms by (auto simp: mdv_field_type_size_def split: if_splits)

lemma int_item_type:
  assumes "mdv_field_type_size t \<noteq> 0" "t \<noteq> MDV_FLD_TYPE_BOOL" "t \<noteq> MDV_FLD_TYPE_FLOAT" "t \<noteq> MDV_FLD_TYPE_DOUBLE"
  shows "int_type (item_type t) \<and> int_width (item_type t) = mdv_field_type_size t"
  by (rule int_field_type [OF assms]) (simp_all add: item_type_def mdv_field_type_size_def)

lemma int_le_val_bound: "int (le_val bs) < 256 ^ length bs"
proof -
  have "int (le_val bs) < int (256 ^ length bs)" using le_val_bound [of bs] by (simp only: of_nat_less_iff)
  then show ?thesis by simp
qed

lemma int_of_bytes_range:
  assumes "0 < length bs"
  shows "- (256 ^ length bs div 2) \<le> int_of_bytes bs \<and> int_of_bytes bs < 256 ^ length bs div 2"
proof -
  obtain j where j: "length bs = Suc j" using assms by (cases "length bs") auto
  obtain m :: int where m: "256 ^ length bs = 2 * m" by (rule that [of "128 * 256 ^ j"]) (simp add: j)
  have "2 * le_val bs < 256 ^ length bs \<longleftrightarrow> int (2 * le_val bs) < int (256 ^ length bs)" by (simp only: of_nat_less_iff)
  also have "\<dots> \<longleftrightarrow> int (le_val bs) < m" by (simp add: m)
  finally have "int_of_bytes bs = (if int (le_val bs) < m then int (le_val bs) else int (le_val bs) - 2 * m)"
    by (simp add: int_of_bytes_def sint_of_def m)
  moreover have "int (le_val bs) < 2 * m" using int_le_val_bound [of bs] by (simp only: m)
  ultimately show ?thesis by (simp add: m)
qed

lemma int_bytes_int_of_bytes: "int_bytes (length bs) (int_of_bytes bs) = bs"
proof -
  have "int_of_bytes bs mod 256 ^ length bs = int (le_val bs) mod 256 ^ length bs"
    by (simp add: int_of_bytes_def sint_of_def)
  also have "\<dots> = int (le_val bs)"
    by (intro mod_pos_pos_trivial int_le_val_bound) simp
  finally show ?thesis by (simp add: int_bytes_def le_bytes_le_val)
qed

lemma int_bytes_le_val: "int_bytes (length bs) (int (le_val bs)) = bs"
proof -
  have "int (le_val bs) mod 256 ^ length bs = int (le_val bs)"
    by (intro mod_pos_pos_trivial int_le_val_bound) simp
  then show ?thesis by (simp add: int_bytes_def le_bytes_le_val)
qed

lemma int_item_value:
  assumes "int_type (item_type t)" "length bs = int_width (item_type t)"
  shows "int_bytes (length bs) (item_value t bs) = bs \<and> int_range (item_type t) (item_value t bs)"
proof -
  have "0 < length bs" unfolding assms(2) by (rule int_type_cases [OF assms(1)]) simp_all
  from int_of_bytes_range [OF this] have "int_signed (item_type t) \<Longrightarrow> int_range (item_type t) (int_of_bytes bs)"
    by (simp add: int_range_def assms(2))
  moreover have "int (le_val bs) < 256 ^ length bs" by (rule int_le_val_bound)
  ultimately show ?thesis
    using int_bytes_int_of_bytes [of bs] int_bytes_le_val [of bs] by (simp add: item_value_def int_range_def assms(2))
qed

lemma list_add_int:
  assumes "binn_list_add l t (Some (int_bytes (int_width t) v)) 0 = Ret l'" "list_item es l" "int_type t" "int_range t v"
  shows "list_item (es @ [int_elem t v]) l'"
proof -
  have "t \<noteq> BINN_BOOL" by (rule int_type_cases [OF assms(3)]) simp_all
  then have "binn_list_add_raw l t (Some (int_bytes (int_width t) v)) 0 = Ret l'"
    using assms(1) by (simp add: binn_list_add_def GetWriteConvertedData_def)
  then show ?thesis
    using assms(2) by (rule list_add) (use assms(3,4) in \<open>auto intro: add_value_int wf_int_elem\<close>)
qed

lemma list_add_atom:
  assumes "binn_list_add_raw l t (Some p) 0 = Ret l'" "list_item es l" "t \<le> 0xff" "type_family t \<noteq> FAMILY_INT" "t AND 0x10 = 0"
    "storage_width (t AND 0xE0) = Some w" "w \<le> length p"
  shows "list_item (es @ [Atom t (rev (take w p))]) l'"
  using assms(1,2)
proof (rule list_add)
  fix item'
  assume "AddValue l t (Some p) 0 = Ret item'"
  then have "appends l (enc (Atom t (rev (take w p)))) item'"
    by (rule add_value_atom [where st = "t AND 0xE0"]) (use assms(3-7) in auto)
  then show "appends l (enc (Atom t (rev (take w p)))) item' \<and> wf_elem (Atom t (rev (take w p)))"
    using assms(3-7) by simp
qed

lemma add_int_item:
  assumes "binn_add_to_list l t data = Ret l'" "list_item es l" "mdv_field_type_size t = n" "n \<le> length data"
    "n \<noteq> 0" "t \<noteq> MDV_FLD_TYPE_BOOL" "t \<noteq> MDV_FLD_TYPE_FLOAT" "t \<noteq> MDV_FLD_TYPE_DOUBLE"
  shows "list_item (es @ [item_elem t (take n data)]) l'"
proof -
  have t: "int_type (item_type t)" "int_width (item_type t) = n" using int_item_type [of t] assms by auto
  have v: "int_bytes n (item_value t (take n data)) = take n data" "int_range (item_type t) (item_value t (take n data))"
    using int_item_value [OF t(1), of "take n data"] t(2) assms(4) by (auto simp: min_absorb2)
  have "binn_add_to_list l t data = obind (rdn n data 0) (\<lambda>bs. binn_list_add l (item_type t) (Some bs) 0)"
    by (rule int_field_type [of t]; insert assms(3,5-8); simp add: binn_add_to_list_def item_type_def mdv_field_type_size_def)
  then have "binn_list_add l (item_type t) (Some (int_bytes (int_width (item_type t)) (item_value t (take n data)))) 0 = Ret l'"
    using assms(1,4) by (simp add: rdn_0 v t)
  from list_add_int [OF this assms(2) t(1) v(2)] show ?thesis
    using assms(6-8) by (simp add: item_elem_def)
qed

lemma add_item:
  assumes "binn_add_to_list l t data = Ret l'" "list_item es l" "mdv_field_type_size t \<le> length data" "mdv_field_type_size t \<noteq> 0"
  shows "list_item (es @ [item_elem t (take (mdv_field_type_size t) data)]) l'"
proof -
  consider "t = MDV_FLD_TYPE_BOOL" | "t = MDV_FLD_TYPE_FLOAT" | "t = MDV_FLD_TYPE_DOUBLE"
    | "t \<noteq> MDV_FLD_TYPE_BOOL" "t \<noteq> MDV_FLD_TYPE_FLOAT" "t \<noteq> MDV_FLD_TYPE_DOUBLE" by blast
  then show ?thesis
  proof cases
    case 1
    then obtain b rest where data: "data = b # rest" using assms(3) by (cases data) (auto simp: mdv_field_type_size_def)
    let ?t = "if b = 0 then BINN_FALSE else BINN_TRUE" and ?p = "le_bytes 4 (of_bool (b \<noteq> 0))"
    have "rd_uint 4 ?p = Ret (of_bool (b \<noteq> 0))" by (simp add: rd_uint_def rdn_0 le_val_le_bytes)
    then have "binn_list_add_raw l ?t (Some ?p) 0 = Ret l'"
      using assms(1) 1 data by (auto simp: binn_add_to_list_def binn_list_add_def GetWriteConvertedData_def split: if_splits)
    from list_add_atom [OF this assms(2), of 0] show ?thesis
      using 1 data by (simp add: item_elem_def mdv_field_type_size_def type_family_def storage_width_def)
  next
    case 2
    then have n: "mdv_field_type_size t = 4" by (simp add: mdv_field_type_size_def)
    then have "binn_list_add_raw l BINN_FLOAT32 (Some (take 4 data)) 0 = Ret l'"
      using assms(1,3) 2 by (simp add: binn_add_to_list_def binn_list_add_def GetWriteConvertedData_def rdn_0)
    from list_add_atom [OF this assms(2), of 4] show ?thesis
      using 2 n assms(3) by (simp add: item_elem_def type_family_def storage_width_def)
  next
    case 3
    then have n: "mdv_field_type_size t = 8" by (simp add: mdv_field_type_size_def)
    then have "binn_list_add_raw l BINN_FLOAT64 (Some (take 8 data)) 0 = Ret l'"
      using assms(1,3) 3 by (simp add: binn_add_to_list_def binn_list_add_def GetWriteConvertedData_def rdn_0)
    from list_add_atom [OF this assms(2), of 8] show ?thesis
      using 3 n assms(3) by (simp add: item_elem_def type_family_def storage_width_def)
  next
    case 4
    then show ?thesis using add_int_item [OF assms(1,2) refl assms(3,4)] by blast
  qed
qed

text \<open>Reading an item.\<close>

lemma read_int_item:
  assumes "int_type s" "int_range s v" "- (2 ^ 63) \<le> v" "v < 2 ^ 63"
  shows "binn_get_int64 (elem_value q (int_elem s v)) = Ret v"
    "- (2 ^ 31) \<le> v \<Longrightarrow> v < 2 ^ 31 \<Longrightarrow> binn_get_int32 (elem_value q (int_elem s v)) = Ret v"
proof -
  note c = compressed_range [OF assms(1,2)]
  obtain tail where e: "bv_type (elem_value q (int_elem s v)) = compressed_type s v"
    "bv_ptr (elem_value q (int_elem s v)) = Some (int_bytes (int_width (compressed_type s v)) v @ tail)"
    using int_elem_value [OF assms(1,2)] by blast
  have "int_range BINN_INT64 v" using assms(3,4) by (simp add: int_range_def)
  from copy_int_value_ok [OF c int_type_simps(4) this, of tail]
  show "binn_get_int64 (elem_value q (int_elem s v)) = Ret v"
    using assms(3,4) c(1) by (simp add: binn_get_int64_def e value_ptr_def int_of_bytes_int_bytes)
  assume r: "- (2 ^ 31) \<le> v" "v < 2 ^ 31"
  then have "int_range BINN_INT32 v" by (simp add: int_range_def)
  from copy_int_value_ok [OF c int_type_simps(3) this, of tail]
  show "binn_get_int32 (elem_value q (int_elem s v)) = Ret v"
    using r c(1) by (simp add: binn_get_int32_def e value_ptr_def int_of_bytes_int_bytes)
qed

lemma get_int_item:
  assumes "item_ok t bs" "t \<noteq> MDV_FLD_TYPE_BOOL" "t \<noteq> MDV_FLD_TYPE_FLOAT" "t \<noteq> MDV_FLD_TYPE_DOUBLE"
  shows "binn_get (elem_value q (int_elem (item_type t) (item_value t bs))) t = Ret bs"
proof -
  let ?v = "item_value t bs" and ?n = "mdv_field_type_size t"
  have n: "length bs = ?n" "?n \<noteq> 0" using assms by (auto simp: item_ok_def mdv_field_type_size_def split: if_splits)
  have ty: "int_type (item_type t)" "int_width (item_type t) = ?n" using int_item_type [of t] assms n by auto
  have v: "int_bytes ?n ?v = bs" "int_range (item_type t) ?v" using int_item_value [OF ty(1), of bs] n ty(2) by auto
  have u64: "t = MDV_FLD_TYPE_UINT64 \<Longrightarrow> ?v < 2 ^ 63"
    using assms(1) by (simp add: item_ok_def item_value_def item_type_def)
  have r64: "- (2 ^ 63) \<le> ?v" "?v < 2 ^ 63"
    by (rule int_field_type [OF n(2) assms(2-4)]; insert v(2) u64; simp add: item_type_def int_range_def)+
  have r32: "- (2 ^ 31) \<le> ?v \<and> ?v < 2 ^ 31" if "t \<notin> {MDV_FLD_TYPE_UINT32, MDV_FLD_TYPE_INT64, MDV_FLD_TYPE_UINT64}"
    by (rule int_field_type [OF n(2) assms(2-4)]; insert v(2) that; simp add: item_type_def int_range_def)
  note get = read_int_item [OF ty(1) v(2) r64]
  show ?thesis
    by (rule int_field_type [OF n(2) assms(2-4)]; insert get v(1) r32; simp add: binn_get_def mdv_field_type_size_def)
qed

lemma bool_value: "v < 2 \<Longrightarrow> bv_type (union_value BINN_BOOL 4 v) = BINN_BOOL \<and> vbool (union_value BINN_BOOL 4 v) = int v"
  by (simp add: vbool_def union_value_def Let_def zero_binn_value_def le_val_le_bytes sint_of_def)

lemma bool_family: "type_family BINN_BOOL \<noteq> FAMILY_INT"
  by (simp add: type_family_def)

lemma float_family: "type_family BINN_FLOAT32 \<noteq> FAMILY_INT" "type_family BINN_FLOAT64 \<noteq> FAMILY_INT"
  by (simp_all add: type_family_def)

lemma atom_value:
  "t \<noteq> BINN_TRUE \<Longrightarrow> t \<noteq> BINN_FALSE \<Longrightarrow> 1 < length bs \<Longrightarrow> elem_value q (Atom t (rev bs)) = union_value t (length bs) (le_val bs)"
  by (auto simp: be_val_rev)

lemma union_value_bytes:
  "length bs = n \<Longrightarrow> bv_type (union_value t n (le_val bs)) = t \<and> bv_union (union_value t n (le_val bs)) = bs @ replicate (8 - n) 0"
  by (simp add: union_value_def Let_def le_bytes_le_val)

lemma get_item:
  assumes "item_ok t bs"
  shows "binn_get (elem_value q (item_elem t bs)) t = Ret bs"
proof -
  consider "t = MDV_FLD_TYPE_BOOL" | "t = MDV_FLD_TYPE_FLOAT" | "t = MDV_FLD_TYPE_DOUBLE"
    | "t \<noteq> MDV_FLD_TYPE_BOOL" "t \<noteq> MDV_FLD_TYPE_FLOAT" "t \<noteq> MDV_FLD_TYPE_DOUBLE" by blast
  then show ?thesis
  proof cases
    case 1
    then have "bs = [0] \<or> bs = [1]" using assms by (simp add: item_ok_def)
    then show ?thesis
      using 1 bool_value [of 0] bool_value [of 1] bool_family by (elim disjE) (simp_all add: item_elem_def binn_get_def binn_get_bool_def)
  next
    case 2
    then have n: "length bs = 4" "mag32 (word_of_nat (le_val bs)) \<le> inf32" using assms by (simp_all add: item_ok_def mdv_field_type_size_def)
    have "vfloat (elem_value q (Atom BINN_FLOAT32 (rev bs))) = double_of_float (word_of_nat (le_val bs))"
      using union_value_bytes [of bs 4 BINN_FLOAT32] n(1) by (simp add: atom_value vfloat_def del: elem_value.simps)
    then have "binn_get_double (elem_value q (Atom BINN_FLOAT32 (rev bs))) = Ret (double_of_float (word_of_nat (le_val bs)))"
      using union_value_bytes [of bs 4 BINN_FLOAT32] n(1) by (simp add: atom_value binn_get_double_def float_family del: elem_value.simps)
    moreover have "le_bytes 4 (unat (word_of_nat (le_val bs) :: u32)) = bs"
      using le_val_bound [of bs] n(1) by (simp add: unsigned_of_nat take_bit_nat_eq_self le_bytes_le_val)
    ultimately show ?thesis using 2 n(2) by (simp add: item_elem_def binn_get_def float_double_float del: elem_value.simps)
  next
    case 3
    then have n: "length bs = 8" using assms by (simp add: item_ok_def mdv_field_type_size_def)
    have "vdouble (elem_value q (Atom BINN_FLOAT64 (rev bs))) = word_of_nat (le_val bs)"
      using union_value_bytes [of bs 8 BINN_FLOAT64] n by (simp add: atom_value vdouble_def del: elem_value.simps)
    then have "binn_get_double (elem_value q (Atom BINN_FLOAT64 (rev bs))) = Ret (word_of_nat (le_val bs))"
      using union_value_bytes [of bs 8 BINN_FLOAT64] n by (simp add: atom_value binn_get_double_def float_family del: elem_value.simps)
    moreover have "le_bytes 8 (unat (word_of_nat (le_val bs) :: u64)) = bs"
      using le_val_bound [of bs] n by (simp add: unsigned_of_nat take_bit_nat_eq_self le_bytes_le_val)
    ultimately show ?thesis using 3 by (simp add: item_elem_def binn_get_def del: elem_value.simps)
  next
    case 4
    then show ?thesis using get_int_item [OF assms] by (simp add: item_elem_def)
  qed
qed

section \<open>Fields of a row\<close>

fun items_of :: "nat \<Rightarrow> nat \<Rightarrow> bytes \<Rightarrow> bytes list" where
  "items_of n 0 data = []"
| "items_of n (Suc k) data = take n data # items_of n k (drop n data)"

definition cell_items :: "mdv_field \<Rightarrow> bytes \<Rightarrow> bytes list" where
  "cell_items f data = (let n = mdv_field_type_size (fd_type f) in items_of n (length data div n) data)"

definition cell_elem :: "mdv_field \<Rightarrow> bytes \<Rightarrow> elem" where
  "cell_elem f data =
     (if fd_limit f = 1 then item_elem (fd_type f) data
      else if mdv_field_type_size (fd_type f) = 1 then Blob data
      else list_elem (map (item_elem (fd_type f)) (cell_items f data)))"

text \<open>The data of a field that can be read back.\<close>

definition cell_ok :: "mdv_field \<Rightarrow> bytes \<Rightarrow> bool" where
  "cell_ok f data \<longleftrightarrow>
     mdv_field_type_size (fd_type f) \<noteq> 0 \<and> mdv_field_type_size (fd_type f) dvd length data \<and> length data < 2 ^ 32 \<and>
     (if fd_limit f = 1 then item_ok (fd_type f) data
      else mdv_field_type_size (fd_type f) = 1 \<or> list_all (item_ok (fd_type f)) (cell_items f data))"

text \<open>The items of an array are well-formed elements; this follows when they have been written.\<close>

definition cell_encodable :: "mdv_field \<Rightarrow> bytes \<Rightarrow> bool" where
  "cell_encodable f data \<longleftrightarrow> wf_elem (cell_elem f data) \<and>
     (fd_limit f \<noteq> 1 \<and> mdv_field_type_size (fd_type f) \<noteq> 1 \<longrightarrow> list_all wf_elem (map (item_elem (fd_type f)) (cell_items f data)))"

lemma length_items_of [simp]: "length (items_of n k data) = k"
  by (induction k arbitrary: data) simp_all

lemma concat_items_of: "concat (items_of n k data) = take (k * n) data"
proof (induction k arbitrary: data)
  case (Suc k)
  then show ?case by (simp add: take_add)
qed simp

lemma concat_cell_items: "mdv_field_type_size (fd_type f) dvd length data \<Longrightarrow> concat (cell_items f data) = data"
  by (simp add: cell_items_def Let_def concat_items_of)

lemma add_items_item:
  assumes "add_items items t n k data = Ret items'" "list_item es items" "n = mdv_field_type_size t" "n \<noteq> 0" "k * n \<le> length data"
  shows "list_item (es @ map (item_elem t) (items_of n k data)) items'"
  using assms
proof (induction k arbitrary: items es data)
  case (Suc k)
  then obtain i1 where 1: "binn_add_to_list items t data = Ret i1" "add_items i1 t n k (drop n data) = Ret items'"
    by (auto simp: obind_eq_Ret)
  have "list_item (es @ [item_elem t (take n data)]) i1"
    using add_item [OF 1(1) Suc.prems(2)] Suc.prems(3-5) by simp
  from Suc.IH [OF 1(2) this] show ?case using Suc.prems(3-5) by simp
qed simp

lemma list_item_last: "list_item (es @ [e]) l \<Longrightarrow> wf_elem e"
  by (simp add: list_item_def)

lemma row_field_item:
  assumes "binn_row_field mem f data l = Ret l'" "list_item es l" "cell_ok f data"
  shows "list_item (es @ [cell_elem f data]) l' \<and> cell_encodable f data"
proof -
  let ?n = "mdv_field_type_size (fd_type f)"
  have n: "?n \<noteq> 0" "?n dvd length data" "length data < 2 ^ 32" using assms(3) by (simp_all add: cell_ok_def)
  let ?k = "length data div ?n"
  have k: "?k mod 2 ^ 32 = ?k" using n(3) by (intro mod_less) (meson div_le_dividend le_less_trans)
  consider "fd_limit f = 1" "binn_add_to_list l (fd_type f) data = Ret l'"
    | "fd_limit f \<noteq> 1" "?n = 1" "binn_list_add_blob l data (length data) = Ret l'"
    | items items' where "fd_limit f \<noteq> 1" "?n \<noteq> 1" "binn_create_list mem = Ret items"
        "add_items items (fd_type f) ?n ?k data = Ret items'" "binn_list_add_list l items' = Ret l'"
    using assms(1) n(1,2) k by (auto simp: binn_row_field_def Let_def obind_eq_Ret split: if_splits)
  then show ?thesis
  proof cases
    case 1
    then have "length data = ?n" using assms(3) by (simp add: cell_ok_def item_ok_def)
    then have "list_item (es @ [cell_elem f data]) l'"
      using add_item [OF 1(2) assms(2)] n(1) 1(1) by (simp add: cell_elem_def)
    then show ?thesis using 1(1) by (simp add: cell_encodable_def list_item_last)
  next
    case 2
    then have "binn_list_add_raw l BINN_BLOB (Some data) (length data) = Ret l'"
      by (simp add: binn_list_add_blob_def binn_list_add_def GetWriteConvertedData_def split: if_splits)
    then have "list_item (es @ [Blob data]) l'"
      using assms(2) by (rule list_add) (use add_value_blob [of l data "length data"] in auto)
    moreover from this have "wf_elem (Blob data)" by (rule list_item_last)
    ultimately show ?thesis using 2 by (simp add: cell_encodable_def cell_elem_def)
  next
    case 3
    have "list_item (map (item_elem (fd_type f)) (cell_items f data)) items'"
      using add_items_item [OF 3(4) create_list [OF 3(3)]] n by (simp add: cell_items_def Let_def)
    moreover from list_add_list [OF 3(5) assms(2) this] have "list_item (es @ [cell_elem f data]) l'"
      using 3(1,2) by (simp add: cell_elem_def)
    moreover from this have "wf_elem (cell_elem f data)" by (rule list_item_last)
    ultimately show ?thesis using 3(1,2) by (simp add: cell_encodable_def list_item_def)
  qed
qed

lemma fold_elems_count: "fold_elems (\<lambda>_ n. Ret (n + 1)) post es n = Ret (n + length es)"
  by (induction es arbitrary: n) simp_all

lemma list_length_at: "list_at a es \<Longrightarrow> mdv_binn_list_length a = Ret (length es)"
proof -
  assume "list_at a es"
  from list_at_foreach [OF this] obtain post where
    "binn_list_foreach UB (\<lambda>_ n. Ret (n + 1)) a 0 = fold_elems (\<lambda>_ n. Ret (n + 1)) post es (0 :: nat)" .
  then show ?thesis by (simp only: mdv_binn_list_length_def fold_elems_count add_0)
qed

lemma cell_size:
  assumes "cell_ok f data" "cell_encodable f data" "n < length fds" "fds ! n = f"
  shows "row_field_size fds None (elem_value q (cell_elem f data)) (n, c, sz) = Ret (n + 1, c + 1, sz + length data)"
proof -
  let ?n = "mdv_field_type_size (fd_type f)" and ?v = "elem_value q (cell_elem f data)"
  have n: "?n \<noteq> 0" "?n dvd length data" using assms(1) by (simp_all add: cell_ok_def)
  have "(if fd_limit f = 1 then Ret ?n else if ?n = 1 then Ret (bv_size ?v)
         else obind (mdv_binn_list_length (Struct ?v)) (\<lambda>len. Ret (?n * len))) = Ret (length data)"
  proof (cases "fd_limit f = 1")
    case True
    then show ?thesis using assms(1) by (simp add: cell_ok_def item_ok_def)
  next
    case limit: False
    show ?thesis
    proof (cases "?n = 1")
      case True
      then show ?thesis using limit by (simp add: cell_elem_def)
    next
      case False
      let ?es = "map (item_elem (fd_type f)) (cell_items f data)"
      have c: "cell_elem f data = list_elem ?es" using False limit by (simp add: cell_elem_def)
      have "list_at (Struct ?v) ?es"
        using assms(2) False limit unfolding c cell_encodable_def by (intro list_at_value_struct) auto
      from list_length_at [OF this] show ?thesis
        using False limit n by (simp add: cell_items_def Let_def)
    qed
  qed
  then show ?thesis using assms(3,4) by (simp add: row_field_size_def masked_def Let_def)
qed

lemma fold_items:
  "list_all (item_ok t) xs \<Longrightarrow> fold_elems (unbinn_item t) post (map (item_elem t) xs) data = Ret (data @ concat xs)"
  by (induction xs arbitrary: data) (simp_all add: unbinn_item_def get_item del: elem_value.simps)

lemma cell_data:
  assumes "cell_ok f data" "cell_encodable f data"
  shows "unbinn_field f (elem_value q (cell_elem f data)) = Ret data"
proof (cases "fd_limit f = 1")
  case True
  then show ?thesis using assms(1) by (simp add: unbinn_field_def cell_elem_def cell_ok_def get_item del: elem_value.simps)
next
  case limit: False
  let ?n = "mdv_field_type_size (fd_type f)"
  show ?thesis
  proof (cases "?n = 1")
    case True
    then show ?thesis using limit by (simp add: unbinn_field_def cell_elem_def source_bytes_def rdn_0)
  next
    case False
    let ?es = "map (item_elem (fd_type f)) (cell_items f data)"
    have c: "cell_elem f data = list_elem ?es" using False limit by (simp add: cell_elem_def)
    have "list_at (Struct (elem_value q (cell_elem f data))) ?es"
      using assms(2) False limit unfolding c cell_encodable_def by (intro list_at_value_struct) auto
    from list_at_foreach [OF this] obtain post where
      "binn_list_foreach (Ret zero_binn_iter) (unbinn_item (fd_type f)) (Struct (elem_value q (cell_elem f data))) []
         = fold_elems (unbinn_item (fd_type f)) post ?es []" .
    then show ?thesis
      using False limit assms(1) by (simp add: unbinn_field_def cell_ok_def fold_items concat_cell_items del: elem_value.simps)
  qed
qed

section \<open>Rows and row sets\<close>

definition row_elems :: "mdv_field list \<Rightarrow> mdv_row \<Rightarrow> elem list" where
  "row_elems fds row = map2 cell_elem fds row"

definition row_ok :: "mdv_field list \<Rightarrow> mdv_row \<Rightarrow> bool" where
  "row_ok fds row \<longleftrightarrow> list_all2 cell_ok fds row"

definition row_encodable :: "mdv_field list \<Rightarrow> mdv_row \<Rightarrow> bool" where
  "row_encodable fds row \<longleftrightarrow> list_all2 cell_encodable fds row"

lemma row_simps [simp]:
  "row_elems [] [] = []" "row_elems (f # fds) (d # row) = cell_elem f d # row_elems fds row"
  "row_ok [] row \<longleftrightarrow> row = []" "row_ok (f # fds) (d # row) \<longleftrightarrow> cell_ok f d \<and> row_ok fds row"
  "row_encodable [] row \<longleftrightarrow> row = []" "row_encodable (f # fds) (d # row) \<longleftrightarrow> cell_encodable f d \<and> row_encodable fds row"
  by (simp_all add: row_elems_def row_ok_def row_encodable_def)

lemma row_ok_Cons: "row_ok (f # fds) row \<longleftrightarrow> (\<exists>d row'. row = d # row' \<and> cell_ok f d \<and> row_ok fds row')"
  by (simp add: row_ok_def list_all2_Cons1)

lemma row_fields_items:
  assumes "binn_row_fields mem i fds row l = Ret l'" "list_item es l" "row_ok fds row"
  shows "list_item (es @ row_elems fds row) l' \<and> row_encodable fds row"
  using assms
proof (induction fds arbitrary: i row l es)
  case (Cons f fds)
  then obtain d row' where row: "row = d # row'" "cell_ok f d" "row_ok fds row'" by (auto simp: row_ok_Cons)
  with Cons.prems(1) obtain l1 where 1: "binn_row_field (mem i) f d l = Ret l1" "binn_row_fields mem (i + 1) fds row' l1 = Ret l'"
    by (auto simp: obind_eq_Ret)
  have f: "list_item (es @ [cell_elem f d]) l1" "cell_encodable f d"
    using row_field_item [OF 1(1) Cons.prems(2) row(2)] by simp_all
  from Cons.IH [OF 1(2) f(1) row(3)] show ?case using f(2) row(1) by simp
qed simp

lemma row_size_loop:
  assumes "row_ok fs row" "row_encodable fs row" "fds = done @ fs"
  shows "fold_elems (row_field_size fds None) post (row_elems fs row) (length done, length done, sz)
           = Ret (length fds, length fds, sz + (\<Sum>d \<leftarrow> row. length d))"
  using assms
proof (induction fs arbitrary: row "done" sz)
  case (Cons f fs)
  then obtain d row' where row: "row = d # row'" "cell_ok f d" "row_ok fs row'" by (auto simp: row_ok_Cons)
  moreover have "row_field_size fds None (elem_value q (cell_elem f d)) (length done, length done, sz)
      = Ret (length done + 1, length done + 1, sz + length d)" for q
    using Cons.prems row by (intro cell_size) simp_all
  ultimately show ?case
    using Cons.IH [of row' "done @ [f]" "sz + length d"] Cons.prems by (simp add: add.assoc)
qed simp

lemma row_data_loop:
  assumes "row_ok fs row" "row_encodable fs row" "fds = done @ fs" "(\<Sum>d \<leftarrow> row. length d) \<le> space"
  shows "fold_elems (unbinn_row_step fds None) post (row_elems fs row) (length done, r, space)
           = Ret (length fds, r @ row, space - (\<Sum>d \<leftarrow> row. length d))"
  using assms
proof (induction fs arbitrary: row "done" r space)
  case (Cons f fs)
  then obtain d row' where row: "row = d # row'" "cell_ok f d" "row_ok fs row'" by (auto simp: row_ok_Cons)
  moreover have "unbinn_row_step fds None (elem_value q (cell_elem f d)) (length done, r, space)
      = Ret (length done + 1, r @ [d], space - length d)" for q
    using Cons.prems row cell_data [of f d q] by (simp add: unbinn_row_step_def masked_def)
  ultimately show ?case
    using Cons.IH [of row' "done @ [f]" "space - length d" "r @ [d]"] Cons.prems by simp
qed simp

lemma unbinn_row_at:
  assumes "list_at a (row_elems (td_fields desc) row)" "row_ok (td_fields desc) row" "row_encodable (td_fields desc) row"
  shows "mdv_unbinn_row True a desc = Ret row"
proof -
  let ?fds = "td_fields desc" and ?size = "\<Sum>d \<leftarrow> row. length d"
  obtain p1 where "binn_list_foreach (Ret zero_binn_iter) (row_field_size ?fds None) a (0, 0, 0)
      = fold_elems (row_field_size ?fds None) p1 (row_elems ?fds row) (0, 0, 0)"
    using list_at_foreach [OF assms(1)] .
  then have "mdv_calc_row_size a desc None = Ret (length ?fds, ?size + 16 + 16 * length ?fds)"
    using row_size_loop [OF assms(2,3), of ?fds "[]" p1 0] by (simp add: mdv_calc_row_size_def)
  moreover obtain p2 where "binn_list_foreach (Ret zero_binn_iter) (unbinn_row_step ?fds None) a (0, [], ?size)
      = fold_elems (unbinn_row_step ?fds None) p2 (row_elems ?fds row) (0, [], ?size)"
    using list_at_foreach [OF assms(1)] .
  then have "binn_list_foreach (Ret zero_binn_iter) (unbinn_row_step ?fds None) a (0, [], ?size) = Ret (length ?fds, row, 0)"
    using row_data_loop [OF assms(2,3), of ?fds "[]" ?size p2 "[]"] by simp
  ultimately show ?thesis by (simp add: mdv_unbinn_row_def mdv_unbinn_row_slice_def)
qed

lemma binn_row_item:
  assumes "mdv_binn_row mem row desc = Ret l" "row_ok (td_fields desc) row"
  shows "list_item (row_elems (td_fields desc) row) l \<and> row_encodable (td_fields desc) row"
proof -
  obtain l0 where "binn_create_list (mem 0) = Ret l0" "binn_row_fields mem 1 (td_fields desc) row l0 = Ret l"
    using assms(1) by (auto simp: mdv_binn_row_def obind_eq_Ret)
  from row_fields_items [OF this(2) create_list [OF this(1)] assms(2)] show ?thesis by simp
qed

lemma list_item_loaded:
  assumes "list_item es item" "4 \<le> length (fst (binn_serialized item) @ post)"
  shows "list_at (Buffer (fst (binn_serialized item) @ post)) es"
proof -
  have s: "fst (binn_serialized item) = enc (list_elem es)" and wf: "wf_elem (list_elem es)"
    using serialized_list [OF assms(1)] by simp_all
  have "binn_ptr (Buffer (enc (list_elem es) @ post)) = Ret (enc (list_elem es) @ post)"
    using wf assms(2) unfolding s list_elem_def by (intro binn_ptr_buffer)
  then show ?thesis using wf assms(1) by (auto simp: list_at_def list_item_def s)
qed

abbreviation row_elem :: "mdv_field list \<Rightarrow> mdv_row \<Rightarrow> elem" where
  "row_elem fds row \<equiv> list_elem (row_elems fds row)"

definition row_written :: "mdv_field list \<Rightarrow> mdv_row \<Rightarrow> bool" where
  "row_written fds row \<longleftrightarrow> row_encodable fds row \<and> list_all wf_elem (row_elems fds row) \<and> wf_elem (row_elem fds row)"

lemma add_rows_items:
  assumes "add_rows mem i desc rows l = Ret l'" "list_item es l" "list_all (row_ok (td_fields desc)) rows"
  shows "list_item (es @ map (row_elem (td_fields desc)) rows) l' \<and> list_all (row_written (td_fields desc)) rows"
  using assms
proof (induction rows arbitrary: i l es)
  case (Cons row rows)
  then obtain rl l1 where 1: "mdv_binn_row (mem i) row desc = Ret rl" "binn_list_add_list l rl = Ret l1"
      "add_rows mem (i + 1) desc rows l1 = Ret l'"
    by (auto simp: obind_eq_Ret)
  have r: "list_item (row_elems (td_fields desc) row) rl" "row_encodable (td_fields desc) row"
    using binn_row_item [OF 1(1)] Cons.prems(3) by simp_all
  have l1: "list_item (es @ [row_elem (td_fields desc) row]) l1" using 1(2) Cons.prems(2) r(1) by (rule list_add_list)
  have "row_written (td_fields desc) row"
    using r list_item_last [OF l1] by (simp add: row_written_def list_item_def)
  with Cons.IH [OF 1(3) l1] Cons.prems(3) show ?case by simp
qed simp

lemma rowset_loop:
  assumes "list_all (row_ok (td_fields desc)) rows" "list_all (row_written (td_fields desc)) rows"
  shows "fold_elems (unbinn_rowset_step (\<lambda>_. True) desc) post (map (row_elem (td_fields desc)) rows) rs
           = Ret (rs\<lparr>rs_rows := rs_rows rs @ rows\<rparr>)"
  using assms
proof (induction rows arbitrary: rs)
  case (Cons row rows)
  let ?q = "list_body (map (row_elem (td_fields desc)) rows) @ post"
  have "list_at (Struct (elem_value ?q (row_elem (td_fields desc) row))) (row_elems (td_fields desc) row)"
    using Cons.prems by (intro list_at_value_struct) (simp_all add: row_written_def)
  then have "mdv_unbinn_row True (Struct (elem_value ?q (row_elem (td_fields desc) row))) desc = Ret row"
    using Cons.prems by (intro unbinn_row_at) (simp_all add: row_written_def)
  then show ?case
    using Cons.IH [of "mdv_rowset_impl_emplace rs row"] Cons.prems by (simp add: unbinn_rowset_step_def mdv_rowset_impl_emplace_def)
qed simp

lemma binn_rowset_item:
  assumes "mdv_binn_rowset mem rowset = Ret obj" "td_fields (tb_desc (rs_table rowset)) = fds" "list_all (row_ok fds) (rs_rows rowset)"
  shows "list_item (map (row_elem fds) (rs_rows rowset)) obj \<and> list_all (row_written fds) (rs_rows rowset)"
proof -
  obtain l where "binn_create_list (mem 0 0) = Ret l" "add_rows mem 1 (tb_desc (rs_table rowset)) (rs_rows rowset) l = Ret obj"
    using assms(1) by (auto simp: mdv_binn_rowset_def obind_eq_Ret split: if_splits)
  from add_rows_items [OF this(2) create_list [OF this(1)]] show ?thesis using assms(2,3) by simp
qed

lemma unbinn_rowset_at:
  assumes "list_at a (map (row_elem (td_fields (tb_desc table))) rows)"
    "list_all (row_ok (td_fields (tb_desc table))) rows" "list_all (row_written (td_fields (tb_desc table))) rows"
  shows "mdv_unbinn_rowset (\<lambda>_. True) a table = Ret \<lparr>rs_rc = 1, rs_table = mdv_table_retain table, rs_rows = rows\<rparr>"
proof -
  let ?empty = "\<lparr>rs_rc = 1, rs_table = mdv_table_retain table, rs_rows = []\<rparr>"
  from list_at_foreach [OF assms(1)] obtain p where
    "binn_list_foreach (Ret zero_binn_iter) (unbinn_rowset_step (\<lambda>_. True) (tb_desc table)) a ?empty
      = fold_elems (unbinn_rowset_step (\<lambda>_. True) (tb_desc table)) p (map (row_elem (td_fields (tb_desc table))) rows) ?empty" .
  then show ?thesis
    using rowset_loop [OF assms(2,3), of p] by (simp add: mdv_unbinn_rowset_def mdv_rowset_create_def)
qed

text \<open>
  C12. A row set that has been serialized is read back with the same rows, for a table with the same columns, when every field
  respects its type: one item under limit one, whole items otherwise, booleans zero or one, no NaN in a float field, and
  no \<open>uint64\<close> of 2 to the 63 or more. \<open>post\<close> is what follows in the message; the reading functions look at four bytes.
\<close>

theorem rowset_roundtrip:
  assumes "mdv_binn_rowset mem rowset = Ret obj" "4 \<le> length (fst (binn_serialized obj) @ post)"
    "td_fields (tb_desc (rs_table rowset)) = td_fields (tb_desc table)"
    "list_all (row_ok (td_fields (tb_desc table))) (rs_rows rowset)"
  shows "mdv_unbinn_rowset (\<lambda>_. True) (Buffer (fst (binn_serialized obj) @ post)) table
           = Ret \<lparr>rs_rc = 1, rs_table = mdv_table_retain table, rs_rows = rs_rows rowset\<rparr>"
proof -
  have "list_item (map (row_elem (td_fields (tb_desc table))) (rs_rows rowset)) obj"
    "list_all (row_written (td_fields (tb_desc table))) (rs_rows rowset)"
    using binn_rowset_item [OF assms(1,3,4)] by simp_all
  from unbinn_rowset_at [OF list_item_loaded [OF this(1) assms(2)] assms(4) this(2)] show ?thesis .
qed

definition sample_rowset :: mdv_rowset where
  "sample_rowset = \<lparr>rs_rc = 1, rs_table = sample_table, rs_rows = [[[0xFE, 0xFF, 0xFF, 0xFF], [0x61, 0x62]], [[1, 2, 0, 0], []]]\<rparr>"

theorem rowset_roundtrip_witness:
  "\<exists>obj. mdv_binn_rowset (\<lambda>_ _ _. True) sample_rowset = Ret obj \<and>
     mdv_unbinn_rowset (\<lambda>_. True) (Buffer (fst (binn_serialized obj) @ [0])) sample_table
       = Ret \<lparr>rs_rc = 1, rs_table = mdv_table_retain sample_table, rs_rows = rs_rows sample_rowset\<rparr>"
proof -
  have "case mdv_binn_rowset (\<lambda>_ _ _. True) sample_rowset of Ret obj \<Rightarrow> 4 \<le> length (fst (binn_serialized obj) @ [0]) | _ \<Rightarrow> False"
    by code_simp
  then obtain obj where 1: "mdv_binn_rowset (\<lambda>_ _ _. True) sample_rowset = Ret obj" "4 \<le> length (fst (binn_serialized obj) @ [0])"
    by (auto split: outcome.splits)
  have 2: "td_fields (tb_desc (rs_table sample_rowset)) = td_fields (tb_desc sample_table)" by (simp add: sample_rowset_def)
  have 3: "list_all (row_ok (td_fields (tb_desc sample_table))) (rs_rows sample_rowset)"
    by code_simp
  show ?thesis using 1(1) rowset_roundtrip [OF 1 2 3] by blast
qed

section \<open>Large unsigned integers\<close>

lemma read_large_item:
  assumes "2 ^ 63 \<le> v" "v < 2 ^ 64"
  shows "binn_get_int64 (elem_value q (int_elem BINN_UINT64 v)) = Fail"
proof -
  have r: "int_range BINN_UINT64 v" using assms by (simp add: int_range_def)
  note c = compressed_range [OF int_type_simps(8) r]
  obtain tail where e: "bv_type (elem_value q (int_elem BINN_UINT64 v)) = compressed_type BINN_UINT64 v"
    "bv_ptr (elem_value q (int_elem BINN_UINT64 v)) = Some (int_bytes (int_width (compressed_type BINN_UINT64 v)) v @ tail)"
    using int_elem_value [OF int_type_simps(8) r] by blast
  have "\<not> int_range BINN_INT64 v" using assms by (simp add: int_range_def)
  from copy_int_value_range [OF c int_type_simps(4) this, of tail] show ?thesis
    using c(1) by (simp add: binn_get_int64_def e value_ptr_def)
qed

text \<open>
  C34. A \<open>uint64\<close> of 2 to the 63 or more is accepted by \<open>mdv_binn_row\<close>, but \<open>mdv_unbinn_row\<close> refuses the serialized row.
\<close>

theorem large_uint64_unreadable:
  assumes "mdv_binn_row mem [le_bytes 8 (unat (v :: u64))] desc = Ret list" "2 ^ 63 \<le> v"
    "td_fields desc = [field]" "fd_type field = MDV_FLD_TYPE_UINT64" "fd_limit field = 1"
  shows "mdv_unbinn_row mem' (Buffer (fst (binn_serialized list))) desc = Fail"
proof -
  let ?bs = "le_bytes 8 (unat v)" and ?f = field
  have n: "mdv_field_type_size (fd_type ?f) = 8" using assms(4) by (simp add: mdv_field_type_size_def)
  obtain l0 where l0: "binn_create_list (mem 0) = Ret l0" "binn_add_to_list l0 (fd_type ?f) ?bs = Ret list"
    using assms(1,3,5) n by (auto simp: mdv_binn_row_def binn_row_field_def obind_eq_Ret Let_def split: if_splits)
  have "unat v < 2 ^ 64" using unsigned_less [of v] by simp
  then have val: "item_value (fd_type ?f) ?bs = uint v" "item_type (fd_type ?f) = BINN_UINT64"
    using assms(4) by (simp_all add: item_value_def item_type_def le_val_le_bytes)
  have i: "list_item [int_elem BINN_UINT64 (uint v)] list"
    using add_item [OF l0(2) create_list [OF l0(1)]] n val assms(4) by (simp add: item_elem_def)
  have big: "2 ^ 63 \<le> uint v" "uint v < 2 ^ 64" using assms(2) uint_lt2p [of v] by (simp_all add: word_le_def)
  have "4 \<le> length (fst (binn_serialized list) @ [])"
    using serialized_list [OF i] enc_pos [of "int_elem BINN_UINT64 (uint v)"]
    by (simp add: list_elem_def cont_header_def length_size_field del: length_greater_0_conv)
  from list_item_loaded [OF i this] have at: "list_at (Buffer (fst (binn_serialized list))) [int_elem BINN_UINT64 (uint v)]" by simp
  obtain p1 where "binn_list_foreach (Ret zero_binn_iter) (row_field_size [?f] None) (Buffer (fst (binn_serialized list))) (0, 0, 0)
      = fold_elems (row_field_size [?f] None) p1 [int_elem BINN_UINT64 (uint v)] (0, 0, 0)"
    using list_at_foreach [OF at] .
  then have "mdv_calc_row_size (Buffer (fst (binn_serialized list))) desc None = Ret (1, 40)"
    using assms(3,5) n by (simp add: mdv_calc_row_size_def row_field_size_def masked_def)
  moreover obtain p2 where "binn_list_foreach (Ret zero_binn_iter) (unbinn_row_step [?f] None) (Buffer (fst (binn_serialized list))) (0, [], 8)
      = fold_elems (unbinn_row_step [?f] None) p2 [int_elem BINN_UINT64 (uint v)] (0, [], 8)"
    using list_at_foreach [OF at] .
  then have "binn_list_foreach (Ret zero_binn_iter) (unbinn_row_step [?f] None) (Buffer (fst (binn_serialized list))) (0, [], 8) = Fail"
    using assms(4,5) read_large_item [OF big, of p2] by (simp add: unbinn_row_step_def masked_def unbinn_field_def binn_get_def)
  ultimately show ?thesis using assms(3) by (simp add: mdv_unbinn_row_def mdv_unbinn_row_slice_def)
qed

definition counter_desc :: mdv_table_desc where
  "counter_desc = \<lparr>td_name = [0x63], td_fields = [\<lparr>fd_type = MDV_FLD_TYPE_UINT64, fd_limit = 1, fd_name = [0x6E]\<rparr>],
     td_dynamic_alloc = None, td_capacity = 0, td_stale = False\<rparr>"

theorem large_uint64_unreadable_witness:
  "\<exists>list. mdv_binn_row (\<lambda>_ _. True) [le_bytes 8 (unat (2 ^ 63 :: u64))] counter_desc = Ret list \<and>
     mdv_unbinn_row True (Buffer (fst (binn_serialized list))) counter_desc = Fail"
proof -
  have "is_Ret (mdv_binn_row (\<lambda>_ _. True) [le_bytes 8 (unat (2 ^ 63 :: u64))] counter_desc)" by code_simp
  then obtain l where 1: "mdv_binn_row (\<lambda>_ _. True) [le_bytes 8 (unat (2 ^ 63 :: u64))] counter_desc = Ret l"
    by (auto simp: is_Ret_iff)
  have "mdv_unbinn_row True (Buffer (fst (binn_serialized l))) counter_desc = Fail"
    by (rule large_uint64_unreadable [OF 1, of "hd (td_fields counter_desc)"]) (simp_all add: counter_desc_def)
  with 1 show ?thesis by blast
qed

section \<open>Tables as rows\<close>



end
