(* ===== verification/Mdv_Topology_Codec.thy ===== *)
theory Mdv_Topology_Codec
  imports Mdv_Row_Codec
begin

text \<open>
  Round trips of topologies, identifiers and bit sets. A topology is written with the indices of its nodes and rebuilt by
  \<open>mdv_topology_create\<close>, so that its network is kept.
\<close>

section \<open>Nodes and links\<close>

definition toponode_kvs :: "mdv_toponode \<Rightarrow> (bytes \<times> elem) list" where
  "toponode_kvs node =
     [(key_bytes ''ID'', int_elem BINN_UINT32 (uint (word_of_nat (tn_id node) :: u32))),
      (key_bytes ''U1'', int_elem BINN_UINT64 (uint (uuid_lo (tn_uuid node)))),
      (key_bytes ''U2'', int_elem BINN_UINT64 (uint (uuid_hi (tn_uuid node)))),
      (key_bytes ''A'', Str (key_bytes (tn_addr node)))]"

definition topolink_kvs :: "mdv_topolink \<Rightarrow> (bytes \<times> elem) list" where
  "topolink_kvs link =
     [(key_bytes ''U1'', int_elem BINN_UINT32 (uint (word_of_nat (tl_node0 link) :: u32))),
      (key_bytes ''U2'', int_elem BINN_UINT32 (uint (word_of_nat (tl_node1 link) :: u32))),
      (key_bytes ''W'', int_elem BINN_UINT32 (uint (tl_weight link)))]"

text \<open>A node that the format can carry: its identifier has 32 bits and its address contains no zero.\<close>

definition wf_toponode :: "mdv_toponode \<Rightarrow> bool" where
  "wf_toponode node \<longleftrightarrow> tn_id node < 2 ^ 32 \<and> CHR 0x00 \<notin> set (tn_addr node)"

lemma toponode_lookup [simp]:
  "map_of (toponode_kvs n) (key_bytes ''ID'') = Some (int_elem BINN_UINT32 (uint (word_of_nat (tn_id n) :: u32)))"
  "map_of (toponode_kvs n) (key_bytes ''U1'') = Some (int_elem BINN_UINT64 (uint (uuid_lo (tn_uuid n))))"
  "map_of (toponode_kvs n) (key_bytes ''U2'') = Some (int_elem BINN_UINT64 (uint (uuid_hi (tn_uuid n))))"
  "map_of (toponode_kvs n) (key_bytes ''A'') = Some (Str (key_bytes (tn_addr n)))"
  by (simp_all add: toponode_kvs_def key_bytes_def)

lemma topolink_lookup [simp]:
  "map_of (topolink_kvs l) (key_bytes ''U1'') = Some (int_elem BINN_UINT32 (uint (word_of_nat (tl_node0 l) :: u32)))"
  "map_of (topolink_kvs l) (key_bytes ''U2'') = Some (int_elem BINN_UINT32 (uint (word_of_nat (tl_node1 l) :: u32)))"
  "map_of (topolink_kvs l) (key_bytes ''W'') = Some (int_elem BINN_UINT32 (uint (tl_weight l)))"
  by (simp_all add: topolink_kvs_def key_bytes_def)

lemma unat_of_char: "unat (of_char c :: u8) = of_char c"
proof -
  have "(of_char c :: u8) = word_of_nat (of_char c)" by (rule of_nat_of_char [symmetric])
  moreover have "(of_char c :: nat) < 256" by (rule nat_of_char_less_256)
  ultimately show ?thesis by (simp add: unsigned_of_nat take_bit_nat_eq_self)
qed

lemma bytes_string_key: "bytes_string (key_bytes s) = s"
  by (simp add: bytes_string_def key_bytes_def unat_of_char comp_def char_of_char)

lemma key_bytes_zero: "CHR 0x00 \<notin> set s \<Longrightarrow> 0 \<notin> set (key_bytes s)"
proof
  assume s: "CHR 0x00 \<notin> set s" "0 \<in> set (key_bytes s)"
  then obtain c where c: "c \<in> set s" "(of_char c :: u8) = 0" by (auto simp: key_bytes_def)
  then have "(of_char c :: nat) = 0" using unat_of_char [of c] by simp
  then have "c = char_of (0 :: nat)" by (metis char_of_char)
  then show False using c s by (simp add: char_of_def)
qed

lemma toponode_item:
  assumes "binn_toponode mem node = Ret obj" "wf_toponode node"
  shows "object_item (toponode_kvs node) obj"
proof -
  obtain o0 o1 o2 o3 where o: "binn_create_object mem = Ret o0" "binn_object_set_uint32 o0 ''ID'' (word_of_nat (tn_id node)) = Ret o1"
      "binn_object_set_uint64 o1 ''U1'' (uuid_lo (tn_uuid node)) = Ret o2" "binn_object_set_uint64 o2 ''U2'' (uuid_hi (tn_uuid node)) = Ret o3"
      "binn_object_set_str o3 ''A'' (key_bytes (tn_addr node)) = Ret obj"
    using assms(1) by (auto simp: binn_toponode_def obind_eq_Ret)
  have "object_item [] o0" using o(1) by (simp add: binn_create_object_def create_object)
  note set_uint32 [OF o(2) this wf_keys(12)]
  note set_uint64 [OF o(3) this wf_keys(10)]
  note set_uint64 [OF o(4) this wf_keys(11)]
  note set_str [OF o(5) this wf_keys(7)]
  then show ?thesis using assms(2) key_bytes_zero by (simp add: toponode_kvs_def wf_toponode_def)
qed

lemma topolink_item:
  assumes "binn_topolink link = Ret obj"
  shows "object_item (topolink_kvs link) obj"
proof -
  obtain o0 o1 o2 where o: "binn_create (\<lambda>_. False) BINN_OBJECT 64 True = Ret o0"
      "binn_object_set_uint32 o0 ''U1'' (word_of_nat (tl_node0 link)) = Ret o1"
      "binn_object_set_uint32 o1 ''U2'' (word_of_nat (tl_node1 link)) = Ret o2" "binn_object_set_uint32 o2 ''W'' (tl_weight link) = Ret obj"
    using assms by (auto simp: binn_topolink_def obind_eq_Ret)
  note set_uint32 [OF o(2) create_object [OF o(1)] wf_keys(10)]
  note set_uint32 [OF o(3) this wf_keys(11)]
  note set_uint32 [OF o(4) this wf_keys(8)]
  then show ?thesis by (simp add: topolink_kvs_def)
qed

abbreviation toponode_elem :: "mdv_toponode \<Rightarrow> elem" where
  "toponode_elem node \<equiv> object_elem (toponode_kvs node)"

abbreviation topolink_elem :: "mdv_topolink \<Rightarrow> elem" where
  "topolink_elem link \<equiv> object_elem (topolink_kvs link)"

text \<open>An object that has been written is well-formed and can be read as an element of a list.\<close>

definition readable :: "(bytes \<times> elem) list \<Rightarrow> bool" where
  "readable kvs \<longleftrightarrow> wf_object kvs \<and> wf_elem (object_elem kvs)"

lemma readable_item: "object_item kvs obj \<Longrightarrow> readable kvs"
  using serialized_object(2) by (auto simp: readable_def object_item_def)

lemma readable_at: "readable kvs \<Longrightarrow> object_at (Struct (elem_value q (object_elem kvs))) kvs"
  by (simp add: readable_def object_at_value_struct)

lemma add_toponodes_items:
  assumes "add_toponodes mem i ns l = Ret l'" "list_item es l" "list_all wf_toponode ns"
  shows "list_item (es @ map toponode_elem ns) l' \<and> list_all (readable \<circ> toponode_kvs) ns"
  using assms
proof (induction ns arbitrary: i l es)
  case (Cons n ns)
  then obtain obj l1 where 1: "binn_toponode (mem i) n = Ret obj" "binn_list_add_object l obj = Ret l1"
      "add_toponodes mem (i + 1) ns l1 = Ret l'"
    by (auto simp: obind_eq_Ret)
  have n: "object_item (toponode_kvs n) obj" using 1(1) Cons.prems(3) by (intro toponode_item) auto
  from Cons.IH [OF 1(3) list_add_object [OF 1(2) Cons.prems(2) n]] show ?case
    using readable_item [OF n] Cons.prems(3) by simp
qed simp

lemma add_topolinks_items:
  assumes "add_topolinks ls l = Ret l'" "list_item es l"
  shows "list_item (es @ map topolink_elem ls) l' \<and> list_all (readable \<circ> topolink_kvs) ls"
  using assms
proof (induction ls arbitrary: l es)
  case (Cons k ls)
  then obtain obj l1 where 1: "binn_topolink k = Ret obj" "binn_list_add_object l obj = Ret l1" "add_topolinks ls l1 = Ret l'"
    by (auto simp: obind_eq_Ret)
  have k: "object_item (topolink_kvs k) obj" using 1(1) by (rule topolink_item)
  from Cons.IH [OF 1(3) list_add_object [OF 1(2) Cons.prems(2) k]] show ?case
    using readable_item [OF k] by simp
qed simp

lemma toponode_read:
  assumes "object_at (Struct val) (toponode_kvs n)" "wf_toponode n" "tx_index st < count"
    "length (tx_addrs st) + length (tn_addr n) + 1 \<le> tx_capacity st"
  shows "unbinn_toponode (\<lambda>_. True) count val st
           = Ret (st\<lparr>tx_nodes := tx_nodes st @ [n], tx_addrs := tx_addrs st @ tn_addr n @ [CHR 0x00], tx_index := tx_index st + 1\<rparr>)"
proof -
  from get_str [OF assms(1) toponode_lookup(4)] obtain q where
    q: "binn_object_get_str (Struct val) ''A'' = Ret (key_bytes (tn_addr n) @ 0 # q)" .
  have "cstr (key_bytes (tn_addr n) @ 0 # q) = Ret (key_bytes (tn_addr n))"
    using assms(2) by (intro cstr_terminated key_bytes_zero) (simp add: wf_toponode_def)
  moreover have "unat (word_of_nat (tn_id n) :: u32) = tn_id n"
    using assms(2) by (simp add: wf_toponode_def unsigned_of_nat take_bit_nat_eq_self)
  moreover have "grow_capacity (length (tx_addrs st) + length (tn_addr n) + 1) (tx_capacity st) = Some (tx_capacity st)"
    using assms(4) by (subst grow_capacity.simps) simp
  ultimately show ?thesis
    using q get_uint32 [OF assms(1) toponode_lookup(1)] get_uint64 [OF assms(1) toponode_lookup(2)]
      get_uint64 [OF assms(1) toponode_lookup(3)] assms(3)
    by (simp add: unbinn_toponode_def append_addr_def bytes_string_key)
qed

definition addresses :: "mdv_toponode list \<Rightarrow> string" where
  "addresses ns = concat (map (\<lambda>n. tn_addr n @ [CHR 0x00]) ns)"

lemma toponodes_loop:
  assumes "list_all wf_toponode ns" "list_all (readable \<circ> toponode_kvs) ns" "tx_index st + length ns \<le> count"
    "length (tx_addrs st) + length (addresses ns) \<le> tx_capacity st"
  shows "fold_elems (unbinn_toponode (\<lambda>_. True) count) post (map toponode_elem ns) st
           = Ret (st\<lparr>tx_nodes := tx_nodes st @ ns, tx_addrs := tx_addrs st @ addresses ns, tx_index := tx_index st + length ns\<rparr>)"
  using assms
proof (induction ns arbitrary: st)
  case (Cons n ns)
  let ?st = "st\<lparr>tx_nodes := tx_nodes st @ [n], tx_addrs := tx_addrs st @ tn_addr n @ [CHR 0x00], tx_index := tx_index st + 1\<rparr>"
  have "unbinn_toponode (\<lambda>_. True) count (elem_value q (toponode_elem n)) st = Ret ?st" for q
    using Cons.prems by (intro toponode_read readable_at) (simp_all add: addresses_def)
  then show ?case using Cons.IH [of ?st] Cons.prems by (simp add: addresses_def)
qed (simp add: addresses_def)

lemma topolinks_loop:
  assumes "list_all (readable \<circ> topolink_kvs) ls" "list_all (\<lambda>l. tl_node0 l < count \<and> tl_node1 l < count) ls" "count \<le> 2 ^ 32"
    "i + length ls \<le> lcount"
  shows "fold_elems (unbinn_topolink (\<lambda>_. True) count lcount) post (map topolink_elem ls) (i, done) = Ret (i + length ls, done @ ls)"
  using assms
proof (induction ls arbitrary: i "done")
  case (Cons l ls)
  have at: "object_at (Struct (elem_value q (topolink_elem l))) (topolink_kvs l)" for q
    using Cons.prems(1) by (intro readable_at) simp
  have "unat (word_of_nat (tl_node0 l) :: u32) = tl_node0 l" "unat (word_of_nat (tl_node1 l) :: u32) = tl_node1 l"
    using Cons.prems(2,3) by (simp_all add: unsigned_of_nat take_bit_nat_eq_self)
  then have "unbinn_topolink (\<lambda>_. True) count lcount (elem_value q (topolink_elem l)) (i, done) = Ret (i + 1, done @ [l])" for q
    using get_uint32 [OF at topolink_lookup(1)] get_uint32 [OF at topolink_lookup(2)] get_uint32 [OF at topolink_lookup(3)] Cons.prems
    by (simp add: unbinn_topolink_def Let_def)
  then show ?case using Cons.IH [of "i + 1" "done @ [l]"] Cons.prems by simp
qed simp

section \<open>Topologies\<close>

text \<open>
  A topology that the format can carry: local identifiers are distinct, links refer to nodes, and the extra data hold at least
  the addresses of the nodes with their terminating zeros.
\<close>

definition wf_topology :: "mdv_topology \<Rightarrow> bool" where
  "wf_topology t \<longleftrightarrow>
     list_all wf_toponode (tp_nodes t) \<and> distinct (map tn_id (tp_nodes t)) \<and> list_all (link_ok (tp_nodes t)) (tp_links t) \<and>
     length (addresses (tp_nodes t)) \<le> length (tp_extradata t) \<and> length (tp_extradata t) < 2 ^ 64"

abbreviation size_elem :: "nat \<Rightarrow> elem" where
  "size_elem n \<equiv> int_elem BINN_UINT64 (uint (word_of_nat n :: u64))"

definition topology_kvs :: "mdv_topology \<Rightarrow> (bytes \<times> elem) list" where
  "topology_kvs t =
     [(key_bytes ''NC'', size_elem (length (tp_nodes t))), (key_bytes ''LC'', size_elem (length (tp_links t))),
      (key_bytes ''ES'', size_elem (length (tp_extradata t)))] @
     (if tp_nodes t = [] then [] else [(key_bytes ''N'', list_elem (map toponode_elem (tp_nodes t)))]) @
     (if tp_links t = [] then [] else [(key_bytes ''L'', list_elem (map topolink_elem (tp_links t)))])"

lemma topology_lookup [simp]:
  "map_of (topology_kvs t) (key_bytes ''NC'') = Some (size_elem (length (tp_nodes t)))"
  "map_of (topology_kvs t) (key_bytes ''LC'') = Some (size_elem (length (tp_links t)))"
  "map_of (topology_kvs t) (key_bytes ''ES'') = Some (size_elem (length (tp_extradata t)))"
  "tp_nodes t \<noteq> [] \<Longrightarrow> map_of (topology_kvs t) (key_bytes ''N'') = Some (list_elem (map toponode_elem (tp_nodes t)))"
  "tp_links t \<noteq> [] \<Longrightarrow> map_of (topology_kvs t) (key_bytes ''L'') = Some (list_elem (map topolink_elem (tp_links t)))"
  by (simp_all add: topology_kvs_def key_bytes_def)

definition topology_readable :: "mdv_topology \<Rightarrow> bool" where
  "topology_readable t \<longleftrightarrow>
     list_all (readable \<circ> toponode_kvs) (tp_nodes t) \<and> list_all (readable \<circ> topolink_kvs) (tp_links t) \<and>
     length (tp_nodes t) < 2 ^ 31 \<and> length (tp_links t) < 2 ^ 31"

lemma topology_item:
  assumes "mdv_topology_serialize mem t = Ret obj" "list_all wf_toponode (tp_nodes t)"
  shows "object_item (topology_kvs t) obj \<and> topology_readable t"
proof -
  obtain o0 n0 l0 n1 l1 o1 o2 o3 o4 where o: "binn_create_object (mem 0) = Ret o0" "binn_create_list (mem 1) = Ret n0"
      "binn_create_list (mem 2) = Ret l0" "add_toponodes mem 3 (tp_nodes t) n0 = Ret n1" "add_topolinks (tp_links t) l0 = Ret l1"
      "binn_object_set_uint64 o0 ''NC'' (word_of_nat (length (tp_nodes t))) = Ret o1"
      "binn_object_set_uint64 o1 ''LC'' (word_of_nat (length (tp_links t))) = Ret o2"
      "binn_object_set_uint64 o2 ''ES'' (word_of_nat (length (tp_extradata t))) = Ret o3"
      "(if tp_nodes t = [] then Ret o3 else binn_object_set_list o3 ''N'' n1) = Ret o4"
      "(if tp_links t = [] then Ret o4 else binn_object_set_list o4 ''L'' l1) = Ret obj"
    using assms(1) by (auto simp: mdv_topology_serialize_def obind_eq_Ret)
  have n1: "list_item (map toponode_elem (tp_nodes t)) n1" "list_all (readable \<circ> toponode_kvs) (tp_nodes t)"
    using add_toponodes_items [OF o(4) create_list [OF o(2)] assms(2)] by simp_all
  have l1: "list_item (map topolink_elem (tp_links t)) l1" "list_all (readable \<circ> topolink_kvs) (tp_links t)"
    using add_topolinks_items [OF o(5) create_list [OF o(3)]] by simp_all
  have "object_item [] o0" using o(1) by (simp add: binn_create_object_def create_object)
  note set_uint64 [OF o(6) this wf_keys(13)]
  note set_uint64 [OF o(7) this wf_keys(14)]
  note o3 = set_uint64 [OF o(8) this wf_keys(15)]
  have "object_item (topology_kvs t) obj"
  proof (cases "tp_nodes t = []"; cases "tp_links t = []")
    assume c: "tp_nodes t = []" "tp_links t = []"
    then show ?thesis using o(9,10) o3 by (simp add: topology_kvs_def)
  next
    assume c: "tp_nodes t = []" "tp_links t \<noteq> []"
    then have "binn_object_set_list o3 ''L'' l1 = Ret obj" using o(9,10) by simp
    from set_list [OF this o3 wf_keys(2) l1(1)] show ?thesis using c by (simp add: topology_kvs_def)
  next
    assume c: "tp_nodes t \<noteq> []" "tp_links t = []"
    then have "binn_object_set_list o3 ''N'' n1 = Ret obj" using o(9,10) by simp
    from set_list [OF this o3 wf_keys(3) n1(1)] show ?thesis using c by (simp add: topology_kvs_def)
  next
    assume c: "tp_nodes t \<noteq> []" "tp_links t \<noteq> []"
    then have s: "binn_object_set_list o3 ''N'' n1 = Ret o4" "binn_object_set_list o4 ''L'' l1 = Ret obj" using o(9,10) by simp_all
    from set_list [OF s(2) set_list [OF s(1) o3 wf_keys(3) n1(1)] wf_keys(2) l1(1)] show ?thesis
      using c by (simp add: topology_kvs_def)
  qed
  moreover have "length (tp_nodes t) < 2 ^ 31" "length (tp_links t) < 2 ^ 31"
    using serialized_list(2) [OF n1(1)] serialized_list(2) [OF l1(1)] by (simp_all add: list_elem_def)
  ultimately show ?thesis using n1(2) l1(2) by (simp add: topology_readable_def)
qed

lemma unat_size: "n < 2 ^ 64 \<Longrightarrow> unat (word_of_nat n :: u64) = n"
  by (simp add: unsigned_of_nat take_bit_nat_eq_self)

lemma topology_nodes_read:
  assumes "object_at a (topology_kvs t)" "wf_topology t" "topology_readable t" "tp_nodes t \<noteq> []"
  obtains l where "binn_object_get_list a ''N'' = Ret l"
    "binn_list_foreach (Ret zero_binn_iter) (unbinn_toponode (\<lambda>_. True) (length (tp_nodes t))) l
        \<lparr>tx_nodes = [], tx_addrs = [], tx_capacity = length (tp_extradata t), tx_index = 0\<rparr>
      = Ret \<lparr>tx_nodes = tp_nodes t, tx_addrs = addresses (tp_nodes t), tx_capacity = length (tp_extradata t),
             tx_index = length (tp_nodes t)\<rparr>"
proof -
  let ?st = "\<lparr>tx_nodes = [], tx_addrs = [], tx_capacity = length (tp_extradata t), tx_index = 0\<rparr>"
  have r: "list_all (readable \<circ> toponode_kvs) (tp_nodes t)" using assms(3) by (simp add: topology_readable_def)
  then have "list_all wf_elem (map toponode_elem (tp_nodes t))" by (auto simp: list_all_iff readable_def)
  from get_list [OF assms(1) topology_lookup(4) [OF assms(4)] this] assms(4)
  obtain l where l: "binn_object_get_list a ''N'' = Ret l" "list_at l (map toponode_elem (tp_nodes t))" by auto
  from list_at_foreach [OF l(2)] obtain p where
    "binn_list_foreach (Ret zero_binn_iter) (unbinn_toponode (\<lambda>_. True) (length (tp_nodes t))) l ?st
       = fold_elems (unbinn_toponode (\<lambda>_. True) (length (tp_nodes t))) p (map toponode_elem (tp_nodes t)) ?st" .
  then show ?thesis
    using that [OF l(1)] toponodes_loop [OF _ r, of ?st "length (tp_nodes t)" p] assms(2) by (simp add: wf_topology_def)
qed

lemma topology_links_read:
  assumes "object_at a (topology_kvs t)" "wf_topology t" "topology_readable t" "tp_links t \<noteq> []"
  obtains l where "binn_object_get_list a ''L'' = Ret l"
    "binn_list_foreach (Ret zero_binn_iter) (unbinn_topolink (\<lambda>_. True) (length (tp_nodes t)) (length (tp_links t))) l (0, [])
      = Ret (length (tp_links t), tp_links t)"
proof -
  have r: "list_all (readable \<circ> topolink_kvs) (tp_links t)" "length (tp_nodes t) \<le> 2 ^ 32"
    using assms(3) by (simp_all add: topology_readable_def)
  then have "list_all wf_elem (map topolink_elem (tp_links t))" by (auto simp: list_all_iff readable_def)
  from get_list [OF assms(1) topology_lookup(5) [OF assms(4)] this] assms(4)
  obtain l where l: "binn_object_get_list a ''L'' = Ret l" "list_at l (map topolink_elem (tp_links t))" by auto
  from list_at_foreach [OF l(2)] obtain p where
    "binn_list_foreach (Ret zero_binn_iter) (unbinn_topolink (\<lambda>_. True) (length (tp_nodes t)) (length (tp_links t))) l (0, [])
       = fold_elems (unbinn_topolink (\<lambda>_. True) (length (tp_nodes t)) (length (tp_links t))) p (map topolink_elem (tp_links t)) (0, [])" .
  moreover have "list_all (\<lambda>l. tl_node0 l < length (tp_nodes t) \<and> tl_node1 l < length (tp_nodes t)) (tp_links t)"
    using assms(2) by (simp add: wf_topology_def link_ok_def list_all_iff)
  ultimately show ?thesis
    using that [OF l(1)] topolinks_loop [OF r(1) _ r(2), of 0 "length (tp_links t)" p "[]"] by simp
qed

lemma topology_rebuilt:
  assumes "object_at a (topology_kvs t)" "wf_topology t" "topology_readable t"
  shows "mdv_topology_deserialize (\<lambda>_. True) a =
    (case mdv_topology_create (\<lambda>_. True) (tp_nodes t) (tp_links t) (addresses (tp_nodes t)) of
       None \<Rightarrow> UB | Some Null_topology \<Rightarrow> Fail | Some t \<Rightarrow> Ret t)"
proof -
  have sizes: "unat (word_of_nat (length (tp_nodes t)) :: u64) = length (tp_nodes t)"
    "unat (word_of_nat (length (tp_links t)) :: u64) = length (tp_links t)"
    "unat (word_of_nat (length (tp_extradata t)) :: u64) = length (tp_extradata t)"
    using assms(2,3) by (intro unat_size; simp add: wf_topology_def topology_readable_def)+
  then have zero: "(word_of_nat (length (tp_nodes t)) :: u64) = 0 \<longleftrightarrow> tp_nodes t = []"
    "(word_of_nat (length (tp_links t)) :: u64) = 0 \<longleftrightarrow> tp_links t = []"
    by (metis length_0_conv unat_eq_zero unsigned_0)+
  note get = get_uint64 [OF assms(1) topology_lookup(1)] get_uint64 [OF assms(1) topology_lookup(2)]
    get_uint64 [OF assms(1) topology_lookup(3)]
  obtain ns where ns: "tp_nodes t \<noteq> [] \<Longrightarrow> binn_object_get_list a ''N'' = Ret ns"
    "tp_nodes t \<noteq> [] \<Longrightarrow> binn_list_foreach (Ret zero_binn_iter) (unbinn_toponode (\<lambda>_. True) (length (tp_nodes t))) ns
        \<lparr>tx_nodes = [], tx_addrs = [], tx_capacity = length (tp_extradata t), tx_index = 0\<rparr>
      = Ret \<lparr>tx_nodes = tp_nodes t, tx_addrs = addresses (tp_nodes t), tx_capacity = length (tp_extradata t),
             tx_index = length (tp_nodes t)\<rparr>"
    using topology_nodes_read [OF assms] by blast
  obtain ls where ls: "tp_links t \<noteq> [] \<Longrightarrow> binn_object_get_list a ''L'' = Ret ls"
    "tp_links t \<noteq> [] \<Longrightarrow>
       binn_list_foreach (Ret zero_binn_iter) (unbinn_topolink (\<lambda>_. True) (length (tp_nodes t)) (length (tp_links t))) ls (0, [])
      = Ret (length (tp_links t), tp_links t)"
    using topology_links_read [OF assms] by blast
  show ?thesis
    using get ns ls by (cases "tp_nodes t = []"; cases "tp_links t = []")
      (simp_all add: mdv_topology_deserialize_def sizes zero addresses_def)
qed

lemma topology_at:
  assumes "object_at a (topology_kvs t)" "wf_topology t" "topology_readable t"
  obtains t' where "mdv_topology_deserialize (\<lambda>_. True) a = Ret (Topology t')" "tp_nodes t' = sort_key tn_uuid (tp_nodes t)"
    "ulinks t' = ulinks t" "list_all (link_ok (tp_nodes t')) (tp_links t')" "tp_extradata t' = addresses (tp_nodes t)"
proof -
  have "list_all (link_ok (tp_nodes t)) (tp_links t)" "distinct (map tn_id (tp_nodes t))"
    using assms(2) by (simp_all add: wf_topology_def)
  from create_ok [of "\<lambda>_. True", OF _ this, of "addresses (tp_nodes t)"] obtain t' where
    "mdv_topology_create (\<lambda>_. True) (tp_nodes t) (tp_links t) (addresses (tp_nodes t)) = Some (Topology t')"
    "tp_nodes t' = sort_key tn_uuid (tp_nodes t)" "ulinks t' = map (ulink (tp_nodes t)) (tp_links t)"
    "list_all (link_ok (tp_nodes t')) (tp_links t')" "tp_extradata t' = addresses (tp_nodes t)" by blast
  with topology_rebuilt [OF assms] show ?thesis by (intro that [of t']) (simp_all add: ulinks_def [of t])
qed

text \<open>
  C15. A topology that has been serialized is rebuilt with the same nodes, in the order of their identifiers, and with the
  same links between the same nodes.
\<close>

theorem topology_roundtrip:
  assumes "mdv_topology_serialize mem t = Ret obj" "wf_topology t"
  shows "\<exists>t'. mdv_topology_deserialize (\<lambda>_. True) (Buffer (fst (binn_serialized obj))) = Ret (Topology t') \<and>
           tp_nodes t' = sort_key tn_uuid (tp_nodes t) \<and> ulinks t' = ulinks t \<and>
           list_all (link_ok (tp_nodes t')) (tp_links t') \<and> tp_extradata t' = addresses (tp_nodes t)"
proof -
  have i: "object_item (topology_kvs t) obj" "topology_readable t"
    using topology_item [OF assms(1)] assms(2) by (simp_all add: wf_topology_def)
  have "object_at (Buffer (fst (binn_serialized obj))) (topology_kvs t)"
    using i(1) by (rule object_item_loaded) (simp add: topology_kvs_def)
  from topology_at [OF this assms(2) i(2)] show ?thesis by metis
qed

definition sample_topology :: mdv_topology where
  "sample_topology = \<lparr>tp_rc = 1,
     tp_nodes = [\<lparr>tn_uuid = Uuid 9 0, tn_id = 4, tn_addr = ''a''\<rparr>, \<lparr>tn_uuid = Uuid 2 0, tn_id = 7, tn_addr = ''b''\<rparr>],
     tp_links = [\<lparr>tl_node0 = 0, tl_node1 = 1, tl_weight = 3\<rparr>], tp_extradata = ''a'' @ [CHR 0x00] @ ''b'' @ [CHR 0x00]\<rparr>"

theorem topology_roundtrip_witness:
  "\<exists>obj t'. mdv_topology_serialize (\<lambda>_ _. True) sample_topology = Ret obj \<and> wf_topology sample_topology \<and>
     mdv_topology_deserialize (\<lambda>_. True) (Buffer (fst (binn_serialized obj))) = Ret (Topology t') \<and>
     ulinks t' = [((Uuid 9 0, Uuid 2 0), 3)]"
proof -
  have "is_Ret (mdv_topology_serialize (\<lambda>_ _. True) sample_topology)" by code_simp
  then obtain obj where 1: "mdv_topology_serialize (\<lambda>_ _. True) sample_topology = Ret obj" by (auto simp: is_Ret_iff)
  have 2: "wf_topology sample_topology" by code_simp
  have "ulinks sample_topology = [((Uuid 9 0, Uuid 2 0), 3)]" by (simp add: ulinks_def ulink_def sample_topology_def)
  with 1 2 topology_roundtrip [OF 1 2] show ?thesis by auto
qed

section \<open>Bit sets and identifiers\<close>

definition word_elem :: "u32 \<Rightarrow> elem" where
  "word_elem w = int_elem BINN_INT32 (int_of_bytes (le_bytes 4 (unat w)))"

lemma word_range:
  "- (2 ^ 31) \<le> int_of_bytes (le_bytes 4 (unat (w :: u32))) \<and> int_of_bytes (le_bytes 4 (unat w)) < 2 ^ 31"
  using int_of_bytes_range [of "le_bytes 4 (unat w)"] by simp

lemma word_of_int_of_bytes: "word_of_int (int_of_bytes (le_bytes 4 (unat w))) = (w :: u32)"
proof -
  have "unat w < 256 ^ 4" using unsigned_less [of w] by simp
  then have "le_val (le_bytes 4 (unat w)) = unat w" by (simp add: le_val_le_bytes)
  then have "int_of_bytes (le_bytes 4 (unat w)) = uint w \<or> int_of_bytes (le_bytes 4 (unat w)) = uint w - 2 ^ 32"
    by (simp add: int_of_bytes_def sint_of_def)
  moreover have "(word_of_int (uint w - 2 ^ 32) :: u32) = w" by simp
  ultimately show ?thesis by auto
qed

lemma add_words_items:
  assumes "add_words ws l = Ret l'" "list_item es l"
  shows "list_item (es @ map word_elem ws) l'"
  using assms
proof (induction ws arbitrary: l es)
  case (Cons w ws)
  then obtain l1 where 1: "binn_list_add l BINN_INT32 (Some (le_bytes 4 (unat w))) 0 = Ret l1" "add_words ws l1 = Ret l'"
    by (auto simp: obind_eq_Ret)
  have "le_bytes 4 (unat w) = int_bytes 4 (int_of_bytes (le_bytes 4 (unat w)))"
    using int_bytes_int_of_bytes [of "le_bytes 4 (unat w)"] by simp
  moreover have "int_range BINN_INT32 (int_of_bytes (le_bytes 4 (unat w)))" using word_range [of w] by (simp add: int_range_def)
  ultimately have "list_item (es @ [word_elem w]) l1"
    unfolding word_elem_def using 1(1) Cons.prems(2) by (intro list_add_int) simp_all
  from Cons.IH [OF 1(2) this] show ?case by simp
qed simp

lemma words_loop:
  assumes "length xs = n" "length ys = length ws"
  shows "fold_elems unbinn_word post (map word_elem ws) (n, xs @ ys) = Ret (n + length ws, xs @ ws)"
  using assms
proof (induction ws arbitrary: n xs ys)
  case (Cons w ws)
  obtain y ys' where ys: "ys = y # ys'" using Cons.prems by (cases ys) auto
  have "binn_get_int32 (elem_value q (word_elem w)) = Ret (int_of_bytes (le_bytes 4 (unat w)))" for q
    unfolding word_elem_def using word_range [of w] by (intro read_int_item) (simp_all add: int_range_def)
  then have "unbinn_word (elem_value q (word_elem w)) (n, xs @ ys) = Ret (n + 1, (xs @ [w]) @ ys')" for q
    using Cons.prems ys by (simp add: unbinn_word_def word_of_int_of_bytes list_update_append)
  then show ?case using Cons.IH [of "xs @ [w]" "n + 1" ys'] Cons.prems ys by simp
qed simp

lemma binn_bitset_item:
  assumes "mdv_binn_bitset mem bitset = Ret obj" "length (bs_bits bitset) = mdv_bitset_capacity bitset div 32"
  shows "list_item (map word_elem (bs_bits bitset)) obj"
proof -
  obtain l where l: "binn_create_list mem = Ret l" "add_words (bs_bits bitset) l = Ret obj"
    using assms by (auto simp: mdv_binn_bitset_def obind_eq_Ret)
  show ?thesis using add_words_items [OF l(2) create_list [OF l(1)]] by simp
qed

lemma unbinn_bitset_at:
  assumes "list_at a (map word_elem ws)"
  obtains b where "mdv_unbinn_bitset True a = Ret b" "bs_size b = 32 * length ws" "bs_bits b = ws"
proof -
  have cap: "mdv_bitset_capacity_calc (32 * n) div 32 = n" for n by (simp add: mdv_bitset_capacity_calc_def)
  obtain b where b: "mdv_bitset_create True (length ws * 4 * 8) = Some b" "bs_size b = 32 * length ws" "bs_bits b = replicate (length ws) 0"
    using cap [of "length ws"] by (simp add: mdv_bitset_create_def mdv_bitset_fill_def mdv_bitset_capacity_def mult.commute)
  from list_at_foreach [OF assms] obtain p where
    "binn_list_foreach UB unbinn_word a (0, bs_bits b) = fold_elems unbinn_word p (map word_elem ws) (0, bs_bits b)" .
  then have "binn_list_foreach UB unbinn_word a (0, bs_bits b) = Ret (length ws, ws)"
    using words_loop [of "[]" 0 "bs_bits b" ws p] b(3) by simp
  then have "mdv_unbinn_bitset True a = Ret (b\<lparr>bs_bits := ws\<rparr>)"
    using list_length_at [OF assms] b(1) by (simp add: mdv_unbinn_bitset_def)
  then show ?thesis using that b(2) by simp
qed

text \<open>
  A bit set that has been serialized is read back with the same bits at every position; its size is rounded up to whole words.
\<close>

theorem bitset_roundtrip:
  assumes "mdv_binn_bitset mem bitset = Ret obj" "length (bs_bits bitset) = mdv_bitset_capacity bitset div 32"
    "4 \<le> length (fst (binn_serialized obj) @ post)"
  shows "\<exists>b. mdv_unbinn_bitset True (Buffer (fst (binn_serialized obj) @ post)) = Ret b \<and>
           bs_size b = mdv_bitset_capacity bitset \<and> (\<forall>pos. mdv_bitset_test b pos = mdv_bitset_test bitset pos)"
proof -
  from list_item_loaded [OF binn_bitset_item [OF assms(1,2)] assms(3)]
  obtain b where "mdv_unbinn_bitset True (Buffer (fst (binn_serialized obj) @ post)) = Ret b"
      "bs_size b = 32 * length (bs_bits bitset)" "bs_bits b = bs_bits bitset"
    by (rule unbinn_bitset_at)
  moreover have "mdv_bitset_capacity bitset = 32 * length (bs_bits bitset)"
    unfolding assms(2) by (simp add: mdv_bitset_capacity_def mdv_bitset_capacity_calc_def)
  ultimately show ?thesis by (simp add: mdv_bitset_test_def Let_def)
qed

theorem bitset_roundtrip_witness:
  "\<exists>obj b. mdv_binn_bitset (\<lambda>_. True) second_column = Ret obj \<and>
     mdv_unbinn_bitset True (Buffer (fst (binn_serialized obj))) = Ret b \<and> bs_size b = 32 \<and> mdv_bitset_test b 1 = Some True"
proof -
  have "case mdv_binn_bitset (\<lambda>_. True) second_column of Ret obj \<Rightarrow> 4 \<le> length (fst (binn_serialized obj) @ []) | _ \<Rightarrow> False"
    by code_simp
  then obtain obj where 1: "mdv_binn_bitset (\<lambda>_. True) second_column = Ret obj" "4 \<le> length (fst (binn_serialized obj) @ [])"
    by (auto split: outcome.splits)
  have 2: "length (bs_bits second_column) = mdv_bitset_capacity second_column div 32" by code_simp
  have "mdv_bitset_capacity second_column = 32" "mdv_bitset_test second_column 1 = Some True" by code_simp+
  with 1(1) bitset_roundtrip [OF 1(1) 2 1(2)] show ?thesis by auto
qed

end
