(* ===== verification/Mdv_Messages.thy ===== *)
theory Mdv_Messages
  imports Mdv_Serialization
begin

text \<open>
  The messages of src/mdv_core/mdv_p2pmsg.c between nodes and of src/mdv_api/mdv_messages.c between a client and a node.
  A structure with one member is that member. The functions that write a message get the schedules of the allocations of
  their containers; those that read one get the outcomes of their own allocations.
\<close>

section \<open>Messages between nodes\<close>

type_synonym mdv_msg_p2p_hello = bytes

record mdv_msg_status =
  st_err :: u32
  st_message :: bytes

type_synonym mdv_msg_p2p_status = mdv_msg_status

record mdv_msg_p2p_linkstate =
  ls_src :: mdv_uuid
  ls_dst :: mdv_uuid
  ls_connected :: bool

record mdv_msg_p2p_trlog_state =
  lt_trlog :: mdv_uuid
  lt_top :: u64

text \<open>An operation of the log: identifier, size of the operation with its header of eight bytes, type and payload.\<close>

record mdv_trlog_data =
  lo_id :: u64
  lo_size :: u32
  lo_type :: u32
  lo_payload :: bytes

record mdv_msg_p2p_trlog_data =
  ld_trlog :: mdv_uuid
  ld_count :: u32
  ld_rows :: "mdv_trlog_data list"

text \<open>The hash set of the notified nodes is the list of its items in the order of the buckets.\<close>

record mdv_msg_p2p_broadcast =
  bc_msg_id :: u16
  bc_data :: bytes
  bc_notified :: "mdv_uuid list"

definition mdv_binn_p2p_hello :: "(nat \<Rightarrow> bool) \<Rightarrow> mdv_msg_p2p_hello \<Rightarrow> binn outcome" where
  "mdv_binn_p2p_hello mem listen = obind (binn_create_object mem) (\<lambda>obj. binn_object_set_str obj ''L'' listen)"

text \<open>The strings in messages that have been read stay in the received buffer.\<close>

definition mdv_unbinn_p2p_hello :: "binn_arg \<Rightarrow> mdv_msg_p2p_hello outcome" where
  "mdv_unbinn_p2p_hello obj = obind (binn_object_get_str obj ''L'') cstr"

definition mdv_binn_p2p_status :: "(nat \<Rightarrow> bool) \<Rightarrow> mdv_msg_p2p_status \<Rightarrow> binn outcome" where
  "mdv_binn_p2p_status mem msg =
     obind (binn_create_object mem) (\<lambda>obj.
     obind (binn_object_set_int32 obj ''E'' (st_err msg)) (\<lambda>obj. binn_object_set_str obj ''M'' (st_message msg)))"

definition mdv_unbinn_p2p_status :: "binn_arg \<Rightarrow> mdv_msg_p2p_status outcome" where
  "mdv_unbinn_p2p_status obj =
     obind (binn_object_get_int32 obj ''E'') (\<lambda>err.
     obind (obind (binn_object_get_str obj ''M'') cstr) (\<lambda>message. Ret \<lparr>st_err = err, st_message = message\<rparr>))"

definition mdv_binn_p2p_linkstate :: "(nat \<Rightarrow> bool) \<Rightarrow> mdv_msg_p2p_linkstate \<Rightarrow> binn outcome" where
  "mdv_binn_p2p_linkstate mem msg =
     obind (binn_create_object mem) (\<lambda>obj.
     obind (binn_object_set_uint64 obj ''U1'' (uuid_lo (ls_src msg))) (\<lambda>obj.
     obind (binn_object_set_uint64 obj ''U2'' (uuid_hi (ls_src msg))) (\<lambda>obj.
     obind (binn_object_set_uint64 obj ''U3'' (uuid_lo (ls_dst msg))) (\<lambda>obj.
     obind (binn_object_set_uint64 obj ''U4'' (uuid_hi (ls_dst msg))) (\<lambda>obj.
       binn_object_set_bool obj ''F'' (ls_connected msg))))))"

definition mdv_unbinn_p2p_linkstate :: "binn_arg \<Rightarrow> mdv_msg_p2p_linkstate outcome" where
  "mdv_unbinn_p2p_linkstate obj =
     obind (binn_object_get_uint64 obj ''U1'') (\<lambda>u1.
     obind (binn_object_get_uint64 obj ''U2'') (\<lambda>u2.
     obind (binn_object_get_uint64 obj ''U3'') (\<lambda>u3.
     obind (binn_object_get_uint64 obj ''U4'') (\<lambda>u4.
     obind (binn_object_get_bool obj ''F'') (\<lambda>connected.
       Ret \<lparr>ls_src = Uuid u1 u2, ls_dst = Uuid u3 u4, ls_connected = connected\<rparr>)))))"

definition mdv_binn_p2p_toposync :: "(nat \<Rightarrow> nat \<Rightarrow> bool) \<Rightarrow> mdv_topology \<Rightarrow> binn outcome" where
  "mdv_binn_p2p_toposync mem topology = mdv_topology_serialize mem topology"

definition mdv_unbinn_p2p_toposync :: "(nat \<Rightarrow> bool) \<Rightarrow> binn_arg \<Rightarrow> topology_ptr outcome" where
  "mdv_unbinn_p2p_toposync mem obj = mdv_topology_deserialize mem obj"

definition mdv_binn_p2p_topodiff :: "(nat \<Rightarrow> nat \<Rightarrow> bool) \<Rightarrow> mdv_topology \<Rightarrow> binn outcome" where
  "mdv_binn_p2p_topodiff mem topology = mdv_topology_serialize mem topology"

definition mdv_unbinn_p2p_topodiff :: "(nat \<Rightarrow> bool) \<Rightarrow> binn_arg \<Rightarrow> topology_ptr outcome" where
  "mdv_unbinn_p2p_topodiff mem obj = mdv_topology_deserialize mem obj"

definition mdv_binn_p2p_trlog_sync :: "(nat \<Rightarrow> bool) \<Rightarrow> mdv_uuid \<Rightarrow> binn outcome" where
  "mdv_binn_p2p_trlog_sync mem trlog =
     obind (binn_create_object mem) (\<lambda>obj.
     obind (binn_object_set_uint64 obj ''U0'' (uuid_lo trlog)) (\<lambda>obj. binn_object_set_uint64 obj ''U1'' (uuid_hi trlog)))"

definition mdv_unbinn_p2p_trlog_sync :: "binn_arg \<Rightarrow> mdv_uuid outcome" where
  "mdv_unbinn_p2p_trlog_sync obj =
     obind (binn_object_get_uint64 obj ''U0'') (\<lambda>lo. obind (binn_object_get_uint64 obj ''U1'') (\<lambda>hi. Ret (Uuid lo hi)))"

definition mdv_binn_p2p_trlog_state :: "(nat \<Rightarrow> bool) \<Rightarrow> mdv_msg_p2p_trlog_state \<Rightarrow> binn outcome" where
  "mdv_binn_p2p_trlog_state mem msg =
     obind (binn_create_object mem) (\<lambda>obj.
     obind (binn_object_set_uint64 obj ''U0'' (uuid_lo (lt_trlog msg))) (\<lambda>obj.
     obind (binn_object_set_uint64 obj ''U1'' (uuid_hi (lt_trlog msg))) (\<lambda>obj.
       binn_object_set_uint64 obj ''T'' (lt_top msg))))"

definition mdv_unbinn_p2p_trlog_state :: "binn_arg \<Rightarrow> mdv_msg_p2p_trlog_state outcome" where
  "mdv_unbinn_p2p_trlog_state obj =
     obind (binn_object_get_uint64 obj ''U0'') (\<lambda>lo.
     obind (binn_object_get_uint64 obj ''U1'') (\<lambda>hi.
     obind (binn_object_get_uint64 obj ''T'') (\<lambda>top. Ret \<lparr>lt_trlog = Uuid lo hi, lt_top = top\<rparr>)))"

text \<open>The payload has the size of the operation without its header, in 32 bits.\<close>

definition binn_trlog_row :: "(nat \<Rightarrow> bool) \<Rightarrow> mdv_trlog_data \<Rightarrow> binn outcome" where
  "binn_trlog_row mem entry =
     (let payload_size = unat (lo_size entry - 8) in
      obind (binn_create_object mem) (\<lambda>row.
      obind (binn_object_set_uint64 row ''I'' (lo_id entry)) (\<lambda>row.
      obind (binn_object_set_uint32 row ''S'' (lo_size entry)) (\<lambda>row.
      obind (binn_object_set_uint32 row ''T'' (lo_type entry)) (\<lambda>row.
        binn_object_set_blob row ''O'' (lo_payload entry) payload_size)))))"

fun add_trlog_rows :: "(nat \<Rightarrow> nat \<Rightarrow> bool) \<Rightarrow> nat \<Rightarrow> mdv_trlog_data list \<Rightarrow> binn \<Rightarrow> binn outcome" where
  "add_trlog_rows mem i [] rows = Ret rows"
| "add_trlog_rows mem i (entry # es) rows =
     obind (binn_trlog_row (mem i) entry) (\<lambda>row. obind (binn_list_add_object rows row) (add_trlog_rows mem (i + 1) es))"

definition mdv_binn_p2p_trlog_data :: "(nat \<Rightarrow> nat \<Rightarrow> bool) \<Rightarrow> mdv_msg_p2p_trlog_data \<Rightarrow> binn outcome" where
  "mdv_binn_p2p_trlog_data mem msg =
     obind (binn_create_list (mem 0)) (\<lambda>rows.
     obind (add_trlog_rows mem 2 (ld_rows msg) rows) (\<lambda>rows.
     obind (binn_create_object (mem 1)) (\<lambda>obj.
     obind (binn_object_set_uint64 obj ''U0'' (uuid_lo (ld_trlog msg))) (\<lambda>obj.
     obind (binn_object_set_uint64 obj ''U1'' (uuid_hi (ld_trlog msg))) (\<lambda>obj.
     obind (binn_object_set_uint32 obj ''C'' (ld_count msg)) (\<lambda>obj.
       binn_object_set_list obj ''R'' rows))))))"

definition unbinn_trlog_row :: "(nat \<Rightarrow> bool) \<Rightarrow> binn_value \<Rightarrow> mdv_trlog_data list \<Rightarrow> mdv_trlog_data list outcome" where
  "unbinn_trlog_row mem row rows =
     obind (binn_object_get_uint64 (Struct row) ''I'') (\<lambda>entry_id.
     obind (binn_object_get_uint32 (Struct row) ''S'') (\<lambda>sz.
     obind (binn_object_get_uint32 (Struct row) ''T'') (\<lambda>type.
     obind (binn_object_get_blob (Struct row) ''O'') (\<lambda>(payload, payload_size).
       if 8 + payload_size \<noteq> unat sz then Fail
       else if \<not> mem (length rows) then Fail
       else obind (source_bytes (Some payload) payload_size) (\<lambda>bs.
         Ret (rows @ [\<lparr>lo_id = entry_id, lo_size = sz, lo_type = type, lo_payload = bs\<rparr>]))))))"

definition mdv_unbinn_p2p_trlog_data :: "(nat \<Rightarrow> bool) \<Rightarrow> binn_arg \<Rightarrow> mdv_msg_p2p_trlog_data outcome" where
  "mdv_unbinn_p2p_trlog_data mem obj =
     obind (binn_object_get_uint64 obj ''U0'') (\<lambda>lo.
     obind (binn_object_get_uint64 obj ''U1'') (\<lambda>hi.
     obind (binn_object_get_uint32 obj ''C'') (\<lambda>count.
     obind (binn_object_get_list obj ''R'') (\<lambda>rows.
     obind (binn_list_foreach (Ret zero_binn_iter) (unbinn_trlog_row mem) rows []) (\<lambda>rows.
       Ret \<lparr>ld_trlog = Uuid lo hi, ld_count = count, ld_rows = rows\<rparr>)))))"

text \<open>The identifier of a notified node is written to a buffer of 64 bytes on the stack.\<close>

definition binn_notified :: "mdv_uuid \<Rightarrow> binn outcome" where
  "binn_notified entry =
     obind (binn_create (\<lambda>_. False) BINN_OBJECT 64 True) (\<lambda>uuid.
     obind (binn_object_set_uint64 uuid ''U1'' (uuid_lo entry)) (\<lambda>uuid. binn_object_set_uint64 uuid ''U2'' (uuid_hi entry)))"

fun add_notified :: "mdv_uuid list \<Rightarrow> binn \<Rightarrow> binn outcome" where
  "add_notified [] notified = Ret notified"
| "add_notified (entry # es) notified =
     obind (binn_notified entry) (\<lambda>uuid. obind (binn_list_add_object notified uuid) (add_notified es))"

definition mdv_binn_p2p_broadcast :: "(nat \<Rightarrow> nat \<Rightarrow> bool) \<Rightarrow> mdv_msg_p2p_broadcast \<Rightarrow> binn outcome" where
  "mdv_binn_p2p_broadcast mem msg =
     obind (binn_create_list (mem 0)) (\<lambda>notified.
     obind (add_notified (bc_notified msg) notified) (\<lambda>notified.
     obind (binn_create_object (mem 1)) (\<lambda>obj.
     obind (binn_object_set_uint16 obj ''M'' (bc_msg_id msg)) (\<lambda>obj.
     obind (binn_object_set_blob obj ''D'' (bc_data msg) (length (bc_data msg))) (\<lambda>obj.
       binn_object_set_list obj ''N'' notified)))))"

text \<open>\<open>mem 0\<close> serves the hash set, \<open>mem (i + 1)\<close> the insertion of item \<open>i\<close>; an identifier that is in the set is replaced.\<close>

definition unbinn_notified :: "(nat \<Rightarrow> bool) \<Rightarrow> binn_value \<Rightarrow> nat \<times> mdv_uuid list \<Rightarrow> (nat \<times> mdv_uuid list) outcome" where
  "unbinn_notified mem val st =
     (case st of (i, notified) \<Rightarrow>
        obind (binn_object_get_uint64 (Struct val) ''U1'') (\<lambda>lo.
        obind (binn_object_get_uint64 (Struct val) ''U2'') (\<lambda>hi.
          if \<not> mem (i + 1) then Fail else Ret (i + 1, List.insert (Uuid lo hi) notified))))"

definition mdv_unbinn_p2p_broadcast :: "(nat \<Rightarrow> bool) \<Rightarrow> binn_arg \<Rightarrow> mdv_msg_p2p_broadcast outcome" where
  "mdv_unbinn_p2p_broadcast mem obj =
     obind (binn_object_get_uint16 obj ''M'') (\<lambda>msg_id.
     obind (binn_object_get_blob obj ''D'') (\<lambda>(data, sz).
     obind (binn_object_get_list obj ''N'') (\<lambda>notified.
       if \<not> mem 0 then Fail
       else obind (binn_list_foreach (Ret zero_binn_iter) (unbinn_notified mem) notified (0, [])) (\<lambda>(_, notified).
         obind (source_bytes (Some data) sz) (\<lambda>data.
           Ret \<lparr>bc_msg_id = msg_id, bc_data = data, bc_notified = notified\<rparr>)))))"

section \<open>Messages between a client and a node\<close>

record mdv_msg_insert_into =
  ii_table :: mdv_uuid
  ii_rows :: binn_arg

record mdv_msg_select =
  sl_table :: mdv_uuid
  sl_fields :: mdv_bitset
  sl_filter :: bytes

record mdv_msg_delete_from =
  df_table :: mdv_uuid
  df_filter :: bytes

definition mdv_msg_status_binn :: "(nat \<Rightarrow> bool) \<Rightarrow> mdv_msg_status \<Rightarrow> binn outcome" where
  "mdv_msg_status_binn mem msg =
     obind (binn_create_object mem) (\<lambda>obj.
     obind (binn_object_set_int32 obj ''E'' (st_err msg)) (\<lambda>obj. binn_object_set_str obj ''M'' (st_message msg)))"

definition mdv_msg_status_unbinn :: "binn_arg \<Rightarrow> mdv_msg_status outcome" where
  "mdv_msg_status_unbinn obj =
     obind (binn_object_get_int32 obj ''E'') (\<lambda>err.
     obind (obind (binn_object_get_str obj ''M'') cstr) (\<lambda>message. Ret \<lparr>st_err = err, st_message = message\<rparr>))"

definition mdv_msg_create_table_binn :: "(nat \<Rightarrow> nat \<Rightarrow> bool) \<Rightarrow> mdv_table_desc \<Rightarrow> binn outcome" where
  "mdv_msg_create_table_binn mem desc = mdv_binn_table_desc mem desc"

text \<open>The code tests its argument instead of the description, so that it succeeds with a null description.\<close>

definition mdv_msg_create_table_unbinn :: "bool \<Rightarrow> binn_arg \<Rightarrow> mdv_table_desc option outcome" where
  "mdv_msg_create_table_unbinn mem obj =
     (case mdv_unbinn_table_desc mem obj of UB \<Rightarrow> UB | Fail \<Rightarrow> Ret None | Ret desc \<Rightarrow> Ret (Some desc))"

definition mdv_msg_get_table_binn :: "(nat \<Rightarrow> bool) \<Rightarrow> mdv_uuid \<Rightarrow> binn outcome" where
  "mdv_msg_get_table_binn mem uuid =
     obind (binn_create_object mem) (\<lambda>obj.
     obind (binn_object_set_uint64 obj ''0'' (uuid_lo uuid)) (\<lambda>obj. binn_object_set_uint64 obj ''1'' (uuid_hi uuid)))"

definition mdv_msg_get_table_unbinn :: "binn_arg \<Rightarrow> mdv_uuid outcome" where
  "mdv_msg_get_table_unbinn obj =
     obind (binn_object_get_uint64 obj ''0'') (\<lambda>lo. obind (binn_object_get_uint64 obj ''1'') (\<lambda>hi. Ret (Uuid lo hi)))"

definition mdv_msg_table_info_binn :: "(nat \<Rightarrow> bool) \<Rightarrow> mdv_uuid \<Rightarrow> binn outcome" where
  "mdv_msg_table_info_binn mem uuid =
     obind (binn_create_object mem) (\<lambda>obj.
     obind (binn_object_set_uint64 obj ''0'' (uuid_lo uuid)) (\<lambda>obj. binn_object_set_uint64 obj ''1'' (uuid_hi uuid)))"

definition mdv_msg_table_info_unbinn :: "binn_arg \<Rightarrow> mdv_uuid outcome" where
  "mdv_msg_table_info_unbinn obj =
     obind (binn_object_get_uint64 obj ''0'') (\<lambda>lo. obind (binn_object_get_uint64 obj ''1'') (\<lambda>hi. Ret (Uuid lo hi)))"

definition mdv_msg_get_topology_binn :: "(nat \<Rightarrow> bool) \<Rightarrow> binn outcome" where
  "mdv_msg_get_topology_binn mem = binn_create_object mem"

definition mdv_msg_topology_binn :: "(nat \<Rightarrow> nat \<Rightarrow> bool) \<Rightarrow> mdv_topology \<Rightarrow> binn outcome" where
  "mdv_msg_topology_binn mem topology = mdv_topology_serialize mem topology"

definition mdv_msg_topology_unbinn :: "(nat \<Rightarrow> bool) \<Rightarrow> binn_arg \<Rightarrow> topology_ptr outcome" where
  "mdv_msg_topology_unbinn mem obj = mdv_topology_deserialize mem obj"

text \<open>The rows of a message are a list that is being written when it is sent, and a pointer into the buffer when it is received.\<close>

definition mdv_msg_insert_into_binn :: "(nat \<Rightarrow> bool) \<Rightarrow> mdv_uuid \<Rightarrow> binn \<Rightarrow> binn outcome" where
  "mdv_msg_insert_into_binn mem table rows =
     obind (binn_create_object mem) (\<lambda>obj.
     obind (binn_object_set_uint64 obj ''U0'' (uuid_lo table)) (\<lambda>obj.
     obind (binn_object_set_uint64 obj ''U1'' (uuid_hi table)) (\<lambda>obj. binn_object_set_list obj ''R'' rows)))"

definition mdv_msg_insert_into_unbinn :: "binn_arg \<Rightarrow> mdv_msg_insert_into outcome" where
  "mdv_msg_insert_into_unbinn obj =
     obind (binn_object_get_uint64 obj ''U0'') (\<lambda>lo.
     obind (binn_object_get_uint64 obj ''U1'') (\<lambda>hi.
     obind (binn_object_get_list obj ''R'') (\<lambda>rows. Ret \<lparr>ii_table = Uuid lo hi, ii_rows = rows\<rparr>)))"

definition mdv_msg_select_binn :: "(nat \<Rightarrow> nat \<Rightarrow> bool) \<Rightarrow> mdv_msg_select \<Rightarrow> binn outcome" where
  "mdv_msg_select_binn mem msg =
     obind (mdv_binn_bitset (mem 0) (sl_fields msg)) (\<lambda>fields.
     obind (binn_create_object (mem 1)) (\<lambda>obj.
     obind (binn_object_set_uint64 obj ''T0'' (uuid_lo (sl_table msg))) (\<lambda>obj.
     obind (binn_object_set_uint64 obj ''T1'' (uuid_hi (sl_table msg))) (\<lambda>obj.
     obind (binn_object_set_list obj ''F'' fields) (\<lambda>obj.
       binn_object_set_str obj ''S'' (sl_filter msg))))))"

definition mdv_msg_select_unbinn :: "bool \<Rightarrow> binn_arg \<Rightarrow> mdv_msg_select outcome" where
  "mdv_msg_select_unbinn mem obj =
     obind (binn_object_get_uint64 obj ''T0'') (\<lambda>lo.
     obind (binn_object_get_uint64 obj ''T1'') (\<lambda>hi.
     obind (binn_object_get_list obj ''F'') (\<lambda>fields.
     obind (obind (binn_object_get_str obj ''S'') cstr) (\<lambda>filter.
     obind (mdv_unbinn_bitset mem fields) (\<lambda>fields.
       Ret \<lparr>sl_table = Uuid lo hi, sl_fields = fields, sl_filter = filter\<rparr>)))))"

definition mdv_msg_view_binn :: "(nat \<Rightarrow> bool) \<Rightarrow> u32 \<Rightarrow> binn outcome" where
  "mdv_msg_view_binn mem view = obind (binn_create_object mem) (\<lambda>obj. binn_object_set_uint32 obj ''V'' view)"

definition mdv_msg_view_unbinn :: "binn_arg \<Rightarrow> u32 outcome" where
  "mdv_msg_view_unbinn obj = binn_object_get_uint32 obj ''V''"

definition mdv_msg_fetch_binn :: "(nat \<Rightarrow> bool) \<Rightarrow> u32 \<Rightarrow> binn outcome" where
  "mdv_msg_fetch_binn mem view = obind (binn_create_object mem) (\<lambda>obj. binn_object_set_uint32 obj ''V'' view)"

definition mdv_msg_fetch_unbinn :: "binn_arg \<Rightarrow> u32 outcome" where
  "mdv_msg_fetch_unbinn obj = binn_object_get_uint32 obj ''V''"

definition mdv_msg_rowset_binn :: "(nat \<Rightarrow> bool) \<Rightarrow> binn \<Rightarrow> binn outcome" where
  "mdv_msg_rowset_binn mem rows = obind (binn_create_object mem) (\<lambda>obj. binn_object_set_list obj ''R'' rows)"

definition mdv_msg_rowset_unbinn :: "binn_arg \<Rightarrow> binn_arg outcome" where
  "mdv_msg_rowset_unbinn obj = binn_object_get_list obj ''R''"

definition mdv_msg_delete_from_binn :: "(nat \<Rightarrow> bool) \<Rightarrow> mdv_msg_delete_from \<Rightarrow> binn outcome" where
  "mdv_msg_delete_from_binn mem msg =
     obind (binn_create_object mem) (\<lambda>obj.
     obind (binn_object_set_uint64 obj ''T0'' (uuid_lo (df_table msg))) (\<lambda>obj.
     obind (binn_object_set_uint64 obj ''T1'' (uuid_hi (df_table msg))) (\<lambda>obj.
       binn_object_set_str obj ''F'' (df_filter msg))))"

definition mdv_msg_delete_from_unbinn :: "binn_arg \<Rightarrow> mdv_msg_delete_from outcome" where
  "mdv_msg_delete_from_unbinn obj =
     obind (binn_object_get_uint64 obj ''T0'') (\<lambda>lo.
     obind (binn_object_get_uint64 obj ''T1'') (\<lambda>hi.
     obind (obind (binn_object_get_str obj ''F'') cstr) (\<lambda>filter.
       Ret \<lparr>df_table = Uuid lo hi, df_filter = filter\<rparr>)))"

end
