(* ===== verification/Mdv_Message_Codec.thy ===== *)
theory Mdv_Message_Codec
  imports Mdv_Topology_Codec Mdv_Messages
begin

text \<open>
  Round trips of the messages. The receiver loads the bytes of a message with \<open>binn_load\<close>, which walks over all elements
  (\<open>load_object\<close>), and reads its members from the loaded structure.
\<close>

section \<open>Loading\<close>

lemma valid_items_object:
  assumes "list_all wf_pair kvs" "length pre + length (object_body kvs) \<le> plimit"
  shows "valid_items (pre @ object_body kvs @ post) plimit BINN_OBJECT (length kvs) (length pre) = Ret ()"
  using assms
proof (induction kvs arbitrary: pre)
  case (Cons p kvs)
  obtain key e where p: "p = (key, e)" by (cases p)
  let ?buf = "pre @ object_body (p # kvs) @ post" and ?pre = "pre @ word_of_nat (length key) # key"
  have k: "wf_key key" "wf_elem e" using Cons.prems(1) by (simp_all add: p wf_pair_def)
  have buf: "?buf = ?pre @ enc e @ object_body kvs @ post" by (simp add: p pair_bytes_def)
  have "length key < 256" using k(1) by (simp add: wf_key_def)
  then have "rd ?buf (length pre) = Ret (word_of_nat (length key))" "unat (word_of_nat (length key) :: u8) = length key"
    by (simp_all add: p pair_bytes_def unsigned_of_nat take_bit_nat_eq_self)
  moreover have "AdvanceDataPos ?buf plimit (length ?pre) = Ret (length (?pre @ enc e))"
    unfolding buf using Cons.prems(2) k(2) by (subst advance_elem) (auto simp: p pair_bytes_def)
  moreover have "valid_items ?buf plimit BINN_OBJECT (length kvs) (length (?pre @ enc e)) = Ret ()"
    using Cons.IH [of "?pre @ enc e"] Cons.prems by (simp add: buf p pair_bytes_def)
  ultimately show ?case by simp
qed simp

lemma load_object:
  assumes "object_item kvs obj" "kvs \<noteq> []"
  obtains v where "binn_load (fst (binn_serialized obj)) = Ret v" "object_at (Struct v) kvs"
proof -
  let ?n = "length kvs" and ?body = "object_body kvs"
  let ?h = "cont_header BINN_OBJECT ?n (length ?body)"
  have s: "fst (binn_serialized obj) = enc (object_elem kvs)" and wf: "wf_elem (object_elem kvs)"
    using serialized_object [OF assms(1)] by simp_all
  have at: "binn_ptr (Buffer (enc (object_elem kvs))) = Ret (enc (object_elem kvs) @ [])"
    using object_item_loaded [OF assms] unfolding s object_at_def by (auto simp: binn_ptr_def obind_eq_Ret split: if_splits)
  have enc: "enc (object_elem kvs) = ?h @ ?body" by (simp add: object_elem_def)
  have size: "length (?h @ ?body) = cont_size ?n (length ?body)"
    using length_enc_cont [of BINN_OBJECT ?n ?body] by simp
  have "IsValidBinnHeader (enc (object_elem kvs) @ []) 0 = Ret (BINN_OBJECT, ?n, cont_size ?n (length ?body), length ?h)"
    using header_elem wf unfolding object_elem_def by blast
  moreover have "valid_items (?h @ ?body @ []) (cont_size ?n (length ?body)) BINN_OBJECT ?n (length ?h) = Ret ()"
    using assms(1) size by (intro valid_items_object) (simp_all add: object_item_def wf_object_def)
  ultimately have "binn_load (enc (object_elem kvs)) = Ret (zero_binn_value\<lparr>bv_type := BINN_OBJECT,
      bv_ptr := Some (enc (object_elem kvs)), bv_size := cont_size ?n (length ?body), bv_count := ?n\<rparr>)"
    using at by (simp add: binn_load_def binn_is_valid_def enc)
  then show ?thesis
    using that wf assms(1) by (auto simp: s object_at_def binn_ptr_def object_item_def intro!: exI [of _ "[]"])
qed

section \<open>Members\<close>

lemma message_keys [simp]:
  "wf_key (key_bytes ''E'')" "wf_key (key_bytes ''M'')" "wf_key (key_bytes ''U3'')" "wf_key (key_bytes ''U4'')"
  "wf_key (key_bytes ''I'')" "wf_key (key_bytes ''O'')" "wf_key (key_bytes ''C'')" "wf_key (key_bytes ''R'')"
  "wf_key (key_bytes ''T0'')" "wf_key (key_bytes ''T1'')" "wf_key (key_bytes ''V'')" "wf_key (key_bytes ''0'')" "wf_key (key_bytes ''1'')"
  by (simp_all add: wf_key_def key_bytes_def)

lemma set_int32:
  assumes "binn_object_set_int32 obj key v = Ret obj'" "object_item kvs obj" "wf_key (key_bytes key)"
  shows "object_item (kvs @ [(key_bytes key, word_elem v)]) obj'"
proof -
  have "int_bytes 4 (int_of_bytes (le_bytes 4 (unat v))) = le_bytes 4 (unat v)"
    using int_bytes_int_of_bytes [of "le_bytes 4 (unat v)"] by simp
  moreover have "int_range BINN_INT32 (int_of_bytes (le_bytes 4 (unat v)))" using word_range [of v] by (simp add: int_range_def)
  ultimately show ?thesis
    using assms unfolding word_elem_def by (intro object_set_int) (simp_all add: binn_object_set_int32_def)
qed

lemma get_int32:
  assumes "object_at a kvs" "map_of kvs (key_bytes key) = Some (word_elem v)"
  shows "binn_object_get_int32 a key = Ret v"
proof -
  let ?v = "int_of_bytes (le_bytes 4 (unat v))"
  have r: "int_range BINN_INT32 ?v" using word_range [of v] by (simp add: int_range_def)
  obtain n where "binn_object_get a (key_bytes key) BINN_INT32 = Ret (Scalar (int_bytes 4 ?v), n)"
    using object_get_int [OF assms(1) assms(2) [unfolded word_elem_def] int_type_simps(3) r int_type_simps(3) r] by auto
  moreover have "int_bytes 4 ?v = le_bytes 4 (unat v)" using int_bytes_int_of_bytes [of "le_bytes 4 (unat v)"] by simp
  moreover have "word_of_nat (le_val (le_bytes 4 (unat v))) = v"
    using unsigned_less [of v] by (intro word_of_le_bytes) simp
  ultimately show ?thesis by (simp add: binn_object_get_int32_def got_word_def)
qed

definition bool_elem :: "bool \<Rightarrow> elem" where
  "bool_elem b = Atom (if b then BINN_TRUE else BINN_FALSE) []"

lemma set_bool:
  assumes "binn_object_set_bool obj key b = Ret obj'" "object_item kvs obj" "wf_key (key_bytes key)"
  shows "object_item (kvs @ [(key_bytes key, bool_elem b)]) obj'"
proof -
  let ?t = "if b then BINN_TRUE else BINN_FALSE" and ?p = "le_bytes 4 (of_bool b)"
  have "rd_uint 4 ?p = Ret (of_bool b)" by (simp add: rd_uint_def rdn_0 le_val_le_bytes)
  then have "binn_object_set_raw obj (key_bytes key) ?t (Some ?p) 0 = Ret obj'"
    using assms(1) by (auto simp: binn_object_set_bool_def binn_object_set_def GetWriteConvertedData_def split: if_splits)
  then show ?thesis
    using assms(2,3) unfolding bool_elem_def
  proof (rule object_set)
    fix item item'
    assume "AddValue item ?t (Some ?p) 0 = Ret item'"
    then have "appends item (enc (Atom ?t (rev (take 0 ?p)))) item'"
      by (rule add_value_atom [where st = "?t AND 0xE0"]) (simp_all add: type_family_def storage_width_def)
    then show "appends item (enc (Atom ?t [])) item' \<and> wf_elem (Atom ?t [])" by (simp add: storage_width_def)
  qed
qed

lemma get_bool:
  assumes "object_at a kvs" "map_of kvs (key_bytes key) = Some (bool_elem b)"
  shows "binn_object_get_bool a key = Ret b"
proof -
  obtain q where "binn_object_get_value a (key_bytes key) = Ret (elem_value q (bool_elem b))"
    using object_at_value [OF assms] by blast
  moreover have "elem_value q (bool_elem b) = union_value BINN_BOOL 4 (of_bool b)" by (simp add: bool_elem_def)
  moreover have "le_val (le_bytes 4 (of_bool b)) = of_bool b" by (simp add: le_val_le_bytes)
  ultimately show ?thesis
    by (simp add: binn_object_get_bool_def binn_object_get_def copy_value_def copy_raw_value_def type_family_def
        binn_get_read_storage_def union_value_def Let_def zero_binn_value_def rdn_0 got_word_def)
qed

lemma set_blob:
  assumes "binn_object_set_blob obj key p sz = Ret obj'" "object_item kvs obj" "wf_key (key_bytes key)" "sz \<le> length p"
  shows "object_item (kvs @ [(key_bytes key, Blob (take sz p))]) obj'"
proof -
  have "binn_object_set_raw obj (key_bytes key) BINN_BLOB (Some p) sz = Ret obj'"
    using assms(1) by (simp add: binn_object_set_blob_def binn_object_set_def GetWriteConvertedData_def split: if_splits)
  then show ?thesis
    using assms(2,3) by (rule object_set) (use add_value_blob assms(4) in blast)
qed

lemma get_blob:
  assumes "object_at a kvs" "map_of kvs (key_bytes key) = Some (Blob b)"
  obtains q where "binn_object_get_blob a key = Ret (b @ q, length b)"
proof -
  obtain q where "binn_object_get_value a (key_bytes key) = Ret (elem_value q (Blob b))"
    using object_at_value [OF assms] by blast
  then show ?thesis
    using that [of q] by (simp add: binn_object_get_blob_def binn_object_get_def copy_value_def copy_raw_value_def type_family_def
        binn_get_read_storage_def type_info_short got_pointer_def zero_binn_value_def)
qed

section \<open>Messages between nodes\<close>

datatype p2p_message =
    P2p_hello mdv_msg_p2p_hello
  | P2p_status mdv_msg_p2p_status
  | P2p_linkstate mdv_msg_p2p_linkstate
  | P2p_trlog_sync mdv_uuid
  | P2p_trlog_state mdv_msg_p2p_trlog_state
  | P2p_trlog_data mdv_msg_p2p_trlog_data
  | P2p_broadcast mdv_msg_p2p_broadcast

fun p2p_id :: "p2p_message \<Rightarrow> nat" where
  "p2p_id (P2p_hello _) = 1000"
| "p2p_id (P2p_status _) = 1001"
| "p2p_id (P2p_linkstate _) = 1002"
| "p2p_id (P2p_trlog_sync _) = 1005"
| "p2p_id (P2p_trlog_state _) = 1006"
| "p2p_id (P2p_trlog_data _) = 1007"
| "p2p_id (P2p_broadcast _) = 1008"

fun p2p_write :: "(nat \<Rightarrow> nat \<Rightarrow> bool) \<Rightarrow> p2p_message \<Rightarrow> binn outcome" where
  "p2p_write mem (P2p_hello m) = mdv_binn_p2p_hello (mem 0) m"
| "p2p_write mem (P2p_status m) = mdv_binn_p2p_status (mem 0) m"
| "p2p_write mem (P2p_linkstate m) = mdv_binn_p2p_linkstate (mem 0) m"
| "p2p_write mem (P2p_trlog_sync m) = mdv_binn_p2p_trlog_sync (mem 0) m"
| "p2p_write mem (P2p_trlog_state m) = mdv_binn_p2p_trlog_state (mem 0) m"
| "p2p_write mem (P2p_trlog_data m) = mdv_binn_p2p_trlog_data mem m"
| "p2p_write mem (P2p_broadcast m) = mdv_binn_p2p_broadcast mem m"

text \<open>The reading function for a message identifier, when memory is available.\<close>

definition p2p_read :: "nat \<Rightarrow> binn_arg \<Rightarrow> p2p_message outcome" where
  "p2p_read msg_id obj =
     (if msg_id = 1000 then obind (mdv_unbinn_p2p_hello obj) (Ret \<circ> P2p_hello)
      else if msg_id = 1001 then obind (mdv_unbinn_p2p_status obj) (Ret \<circ> P2p_status)
      else if msg_id = 1002 then obind (mdv_unbinn_p2p_linkstate obj) (Ret \<circ> P2p_linkstate)
      else if msg_id = 1005 then obind (mdv_unbinn_p2p_trlog_sync obj) (Ret \<circ> P2p_trlog_sync)
      else if msg_id = 1006 then obind (mdv_unbinn_p2p_trlog_state obj) (Ret \<circ> P2p_trlog_state)
      else if msg_id = 1007 then obind (mdv_unbinn_p2p_trlog_data (\<lambda>_. True) obj) (Ret \<circ> P2p_trlog_data)
      else if msg_id = 1008 then obind (mdv_unbinn_p2p_broadcast (\<lambda>_. True) obj) (Ret \<circ> P2p_broadcast)
      else Fail)"

definition wf_trlog_row :: "mdv_trlog_data \<Rightarrow> bool" where
  "wf_trlog_row e \<longleftrightarrow> unat (lo_size e) = 8 + length (lo_payload e)"

text \<open>
  The messages that can be carried: no zero in a string, the size of an operation is that of its header and payload, and the
  lists are not empty, because an empty list at the end of a message is shorter than the four bytes the reader looks at.
\<close>

fun wf_p2p :: "p2p_message \<Rightarrow> bool" where
  "wf_p2p (P2p_hello listen) \<longleftrightarrow> 0 \<notin> set listen"
| "wf_p2p (P2p_status m) \<longleftrightarrow> 0 \<notin> set (st_message m)"
| "wf_p2p (P2p_trlog_data m) \<longleftrightarrow> list_all wf_trlog_row (ld_rows m) \<and> ld_rows m \<noteq> []"
| "wf_p2p (P2p_broadcast m) \<longleftrightarrow> distinct (bc_notified m) \<and> bc_notified m \<noteq> []"
| "wf_p2p _ \<longleftrightarrow> True"

definition status_kvs :: "mdv_msg_status \<Rightarrow> (bytes \<times> elem) list" where
  "status_kvs m = [(key_bytes ''E'', word_elem (st_err m)), (key_bytes ''M'', Str (st_message m))]"

abbreviation u64_elem :: "u64 \<Rightarrow> elem" where
  "u64_elem v \<equiv> int_elem BINN_UINT64 (uint v)"

abbreviation u32_elem :: "u32 \<Rightarrow> elem" where
  "u32_elem v \<equiv> int_elem BINN_UINT32 (uint v)"

definition trlog_row_kvs :: "mdv_trlog_data \<Rightarrow> (bytes \<times> elem) list" where
  "trlog_row_kvs e = [(key_bytes ''I'', u64_elem (lo_id e)), (key_bytes ''S'', u32_elem (lo_size e)), (key_bytes ''T'', u32_elem (lo_type e)),
     (key_bytes ''O'', Blob (lo_payload e))]"

definition uuid_kvs :: "string \<Rightarrow> string \<Rightarrow> mdv_uuid \<Rightarrow> (bytes \<times> elem) list" where
  "uuid_kvs k1 k2 u = [(key_bytes k1, u64_elem (uuid_lo u)), (key_bytes k2, u64_elem (uuid_hi u))]"

fun p2p_kvs :: "p2p_message \<Rightarrow> (bytes \<times> elem) list" where
  "p2p_kvs (P2p_hello listen) = [(key_bytes ''L'', Str listen)]"
| "p2p_kvs (P2p_status m) = status_kvs m"
| "p2p_kvs (P2p_linkstate m) =
     uuid_kvs ''U1'' ''U2'' (ls_src m) @ uuid_kvs ''U3'' ''U4'' (ls_dst m) @ [(key_bytes ''F'', bool_elem (ls_connected m))]"
| "p2p_kvs (P2p_trlog_sync u) = uuid_kvs ''U0'' ''U1'' u"
| "p2p_kvs (P2p_trlog_state m) = uuid_kvs ''U0'' ''U1'' (lt_trlog m) @ [(key_bytes ''T'', u64_elem (lt_top m))]"
| "p2p_kvs (P2p_trlog_data m) =
     uuid_kvs ''U0'' ''U1'' (ld_trlog m) @ [(key_bytes ''C'', u32_elem (ld_count m)),
       (key_bytes ''R'', list_elem (map (\<lambda>e. object_elem (trlog_row_kvs e)) (ld_rows m)))]"
| "p2p_kvs (P2p_broadcast m) =
     [(key_bytes ''M'', int_elem BINN_UINT16 (uint (bc_msg_id m))), (key_bytes ''D'', Blob (bc_data m)),
      (key_bytes ''N'', list_elem (map (\<lambda>u. object_elem (uuid_kvs ''U1'' ''U2'' u)) (bc_notified m)))]"

text \<open>The objects in the lists of a message are well-formed; this follows when it has been written.\<close>

fun p2p_readable :: "p2p_message \<Rightarrow> bool" where
  "p2p_readable (P2p_trlog_data m) \<longleftrightarrow> list_all (readable \<circ> trlog_row_kvs) (ld_rows m)"
| "p2p_readable (P2p_broadcast m) \<longleftrightarrow> list_all (readable \<circ> uuid_kvs ''U1'' ''U2'') (bc_notified m)"
| "p2p_readable _ \<longleftrightarrow> True"

lemma created: "binn_create_object mem = Ret obj \<Longrightarrow> object_item [] obj"
  by (simp add: binn_create_object_def create_object)

lemma trlog_row_item:
  assumes "binn_trlog_row mem e = Ret row" "wf_trlog_row e"
  shows "object_item (trlog_row_kvs e) row"
proof -
  have "8 \<le> unat (lo_size e)" using assms(2) by (simp add: wf_trlog_row_def)
  then have n: "unat (lo_size e - 8) = length (lo_payload e)" using assms(2) by (simp add: wf_trlog_row_def unat_sub word_le_nat_alt)
  obtain r0 r1 r2 r3 where r: "binn_create_object mem = Ret r0" "binn_object_set_uint64 r0 ''I'' (lo_id e) = Ret r1"
      "binn_object_set_uint32 r1 ''S'' (lo_size e) = Ret r2" "binn_object_set_uint32 r2 ''T'' (lo_type e) = Ret r3"
      "binn_object_set_blob r3 ''O'' (lo_payload e) (length (lo_payload e)) = Ret row"
    using assms(1) n by (auto simp: binn_trlog_row_def Let_def obind_eq_Ret)
  note set_uint64 [OF r(2) created [OF r(1)] message_keys(5)]
  note set_uint32 [OF r(3) this wf_keys(4)]
  note set_uint32 [OF r(4) this wf_keys(1)]
  note set_blob [OF r(5) this message_keys(6) le_refl]
  then show ?thesis by (simp add: trlog_row_kvs_def)
qed

lemma notified_item:
  assumes "binn_notified u = Ret obj"
  shows "object_item (uuid_kvs ''U1'' ''U2'' u) obj"
proof -
  obtain o0 o1 where o: "binn_create (\<lambda>_. False) BINN_OBJECT 64 True = Ret o0"
      "binn_object_set_uint64 o0 ''U1'' (uuid_lo u) = Ret o1" "binn_object_set_uint64 o1 ''U2'' (uuid_hi u) = Ret obj"
    using assms by (auto simp: binn_notified_def obind_eq_Ret)
  note set_uint64 [OF o(2) create_object [OF o(1)] wf_keys(10)]
  note set_uint64 [OF o(3) this wf_keys(11)]
  then show ?thesis by (simp add: uuid_kvs_def)
qed

lemma add_trlog_rows_items:
  assumes "add_trlog_rows mem i es l = Ret l'" "list_item xs l" "list_all wf_trlog_row es"
  shows "list_item (xs @ map (\<lambda>e. object_elem (trlog_row_kvs e)) es) l' \<and> list_all (readable \<circ> trlog_row_kvs) es"
  using assms
proof (induction es arbitrary: i l xs)
  case (Cons e es)
  then obtain row l1 where 1: "binn_trlog_row (mem i) e = Ret row" "binn_list_add_object l row = Ret l1"
      "add_trlog_rows mem (i + 1) es l1 = Ret l'"
    by (auto simp: obind_eq_Ret)
  have r: "object_item (trlog_row_kvs e) row" using 1(1) Cons.prems(3) by (intro trlog_row_item) auto
  from Cons.IH [OF 1(3) list_add_object [OF 1(2) Cons.prems(2) r]] show ?case
    using readable_item [OF r] Cons.prems(3) by simp
qed simp

lemma add_notified_items:
  assumes "add_notified us l = Ret l'" "list_item xs l"
  shows "list_item (xs @ map (\<lambda>u. object_elem (uuid_kvs ''U1'' ''U2'' u)) us) l' \<and> list_all (readable \<circ> uuid_kvs ''U1'' ''U2'') us"
  using assms
proof (induction us arbitrary: l xs)
  case (Cons u us)
  then obtain obj l1 where 1: "binn_notified u = Ret obj" "binn_list_add_object l obj = Ret l1" "add_notified us l1 = Ret l'"
    by (auto simp: obind_eq_Ret)
  have r: "object_item (uuid_kvs ''U1'' ''U2'' u) obj" using 1(1) by (rule notified_item)
  from Cons.IH [OF 1(3) list_add_object [OF 1(2) Cons.prems(2) r]] show ?case using readable_item [OF r] by simp
qed simp

lemma status_item:
  assumes "mdv_binn_p2p_status mem m = Ret obj" "0 \<notin> set (st_message m)"
  shows "object_item (status_kvs m) obj"
proof -
  obtain o0 o1 where o: "binn_create_object mem = Ret o0" "binn_object_set_int32 o0 ''E'' (st_err m) = Ret o1"
      "binn_object_set_str o1 ''M'' (st_message m) = Ret obj"
    using assms(1) by (auto simp: mdv_binn_p2p_status_def obind_eq_Ret)
  note set_int32 [OF o(2) created [OF o(1)] message_keys(1)]
  note set_str [OF o(3) this message_keys(2) assms(2)]
  then show ?thesis by (simp add: status_kvs_def)
qed

lemma linkstate_item:
  assumes "mdv_binn_p2p_linkstate mem m = Ret obj"
  shows "object_item (p2p_kvs (P2p_linkstate m)) obj"
proof -
  obtain o0 o1 o2 o3 o4 where o: "binn_create_object mem = Ret o0" "binn_object_set_uint64 o0 ''U1'' (uuid_lo (ls_src m)) = Ret o1"
      "binn_object_set_uint64 o1 ''U2'' (uuid_hi (ls_src m)) = Ret o2" "binn_object_set_uint64 o2 ''U3'' (uuid_lo (ls_dst m)) = Ret o3"
      "binn_object_set_uint64 o3 ''U4'' (uuid_hi (ls_dst m)) = Ret o4" "binn_object_set_bool o4 ''F'' (ls_connected m) = Ret obj"
    using assms by (auto simp: mdv_binn_p2p_linkstate_def obind_eq_Ret)
  note set_uint64 [OF o(2) created [OF o(1)] wf_keys(10)]
  note set_uint64 [OF o(3) this wf_keys(11)]
  note set_uint64 [OF o(4) this message_keys(3)]
  note set_uint64 [OF o(5) this message_keys(4)]
  note set_bool [OF o(6) this wf_keys(5)]
  then show ?thesis by (simp add: uuid_kvs_def)
qed

lemma trlog_data_item:
  assumes "mdv_binn_p2p_trlog_data mem m = Ret obj" "list_all wf_trlog_row (ld_rows m)"
  shows "object_item (p2p_kvs (P2p_trlog_data m)) obj \<and> p2p_readable (P2p_trlog_data m)"
proof -
  obtain l0 l1 o0 o1 o2 o3 where o: "binn_create_list (mem 0) = Ret l0" "add_trlog_rows mem 2 (ld_rows m) l0 = Ret l1"
      "binn_create_object (mem 1) = Ret o0" "binn_object_set_uint64 o0 ''U0'' (uuid_lo (ld_trlog m)) = Ret o1"
      "binn_object_set_uint64 o1 ''U1'' (uuid_hi (ld_trlog m)) = Ret o2" "binn_object_set_uint32 o2 ''C'' (ld_count m) = Ret o3"
      "binn_object_set_list o3 ''R'' l1 = Ret obj"
    using assms(1) by (auto simp: mdv_binn_p2p_trlog_data_def obind_eq_Ret)
  have rows: "list_item (map (\<lambda>e. object_elem (trlog_row_kvs e)) (ld_rows m)) l1" "list_all (readable \<circ> trlog_row_kvs) (ld_rows m)"
    using add_trlog_rows_items [OF o(2) create_list [OF o(1)] assms(2)] by simp_all
  note set_uint64 [OF o(4) created [OF o(3)] wf_keys(9)]
  note set_uint64 [OF o(5) this wf_keys(10)]
  note set_uint32 [OF o(6) this message_keys(7)]
  note set_list [OF o(7) this message_keys(8) rows(1)]
  then show ?thesis using rows(2) by (simp add: uuid_kvs_def)
qed

lemma broadcast_item:
  assumes "mdv_binn_p2p_broadcast mem m = Ret obj"
  shows "object_item (p2p_kvs (P2p_broadcast m)) obj \<and> p2p_readable (P2p_broadcast m)"
proof -
  obtain l0 l1 o0 o1 o2 where o: "binn_create_list (mem 0) = Ret l0" "add_notified (bc_notified m) l0 = Ret l1"
      "binn_create_object (mem 1) = Ret o0" "binn_object_set_uint16 o0 ''M'' (bc_msg_id m) = Ret o1"
      "binn_object_set_blob o1 ''D'' (bc_data m) (length (bc_data m)) = Ret o2" "binn_object_set_list o2 ''N'' l1 = Ret obj"
    using assms by (auto simp: mdv_binn_p2p_broadcast_def obind_eq_Ret)
  have us: "list_item (map (\<lambda>u. object_elem (uuid_kvs ''U1'' ''U2'' u)) (bc_notified m)) l1"
      "list_all (readable \<circ> uuid_kvs ''U1'' ''U2'') (bc_notified m)"
    using add_notified_items [OF o(2) create_list [OF o(1)]] by simp_all
  note set_uint16 [OF o(4) created [OF o(3)] message_keys(2)]
  note set_blob [OF o(5) this wf_keys(6) le_refl]
  note set_list [OF o(6) this wf_keys(3) us(1)]
  then show ?thesis using us(2) by simp
qed

lemma p2p_item:
  assumes "p2p_write mem msg = Ret obj" "wf_p2p msg"
  shows "object_item (p2p_kvs msg) obj \<and> p2p_readable msg"
proof (cases msg)
  case (P2p_hello listen)
  then obtain o0 where o: "binn_create_object (mem 0) = Ret o0" "binn_object_set_str o0 ''L'' listen = Ret obj"
    using assms(1) by (auto simp: mdv_binn_p2p_hello_def obind_eq_Ret)
  from set_str [OF o(2) created [OF o(1)] wf_keys(2)] show ?thesis using assms(2) P2p_hello by simp
next
  case (P2p_status m)
  then show ?thesis using assms status_item by simp
next
  case (P2p_linkstate m)
  then show ?thesis using assms linkstate_item by simp
next
  case (P2p_trlog_sync u)
  then obtain o0 o1 where o: "binn_create_object (mem 0) = Ret o0" "binn_object_set_uint64 o0 ''U0'' (uuid_lo u) = Ret o1"
      "binn_object_set_uint64 o1 ''U1'' (uuid_hi u) = Ret obj"
    using assms(1) by (auto simp: mdv_binn_p2p_trlog_sync_def obind_eq_Ret)
  from set_uint64 [OF o(3) set_uint64 [OF o(2) created [OF o(1)] wf_keys(9)] wf_keys(10)] show ?thesis
    using P2p_trlog_sync by (simp add: uuid_kvs_def)
next
  case (P2p_trlog_state m)
  then obtain o0 o1 o2 where o: "binn_create_object (mem 0) = Ret o0" "binn_object_set_uint64 o0 ''U0'' (uuid_lo (lt_trlog m)) = Ret o1"
      "binn_object_set_uint64 o1 ''U1'' (uuid_hi (lt_trlog m)) = Ret o2" "binn_object_set_uint64 o2 ''T'' (lt_top m) = Ret obj"
    using assms(1) by (auto simp: mdv_binn_p2p_trlog_state_def obind_eq_Ret)
  note set_uint64 [OF o(3) set_uint64 [OF o(2) created [OF o(1)] wf_keys(9)] wf_keys(10)]
  from set_uint64 [OF o(4) this wf_keys(1)] show ?thesis using P2p_trlog_state by (simp add: uuid_kvs_def)
next
  case (P2p_trlog_data m)
  then show ?thesis using assms trlog_data_item by simp
next
  case (P2p_broadcast m)
  then show ?thesis using assms broadcast_item by simp
qed

lemma read_str:
  assumes "object_at a kvs" "map_of kvs (key_bytes key) = Some (Str s)" "0 \<notin> set s"
  shows "obind (binn_object_get_str a key) cstr = Ret s"
proof -
  from get_str [OF assms(1,2)] obtain q where "binn_object_get_str a key = Ret (s @ 0 # q)" .
  then show ?thesis using cstr_terminated [OF assms(3)] by simp
qed

lemma trlog_row_lookup:
  "map_of (trlog_row_kvs e) (key_bytes ''I'') = Some (u64_elem (lo_id e))"
  "map_of (trlog_row_kvs e) (key_bytes ''S'') = Some (u32_elem (lo_size e))"
  "map_of (trlog_row_kvs e) (key_bytes ''T'') = Some (u32_elem (lo_type e))"
  "map_of (trlog_row_kvs e) (key_bytes ''O'') = Some (Blob (lo_payload e))"
  by (simp_all add: trlog_row_kvs_def key_bytes_def)

lemma notified_lookup:
  "map_of (uuid_kvs ''U1'' ''U2'' u) (key_bytes ''U1'') = Some (u64_elem (uuid_lo u))"
  "map_of (uuid_kvs ''U1'' ''U2'' u) (key_bytes ''U2'') = Some (u64_elem (uuid_hi u))"
  by (simp_all add: uuid_kvs_def key_bytes_def)

lemma trlog_rows_loop:
  assumes "list_all wf_trlog_row es" "list_all (readable \<circ> trlog_row_kvs) es"
  shows "fold_elems (unbinn_trlog_row (\<lambda>_. True)) post (map (\<lambda>e. object_elem (trlog_row_kvs e)) es) rows = Ret (rows @ es)"
  using assms
proof (induction es arbitrary: rows)
  case (Cons e es)
  have "unbinn_trlog_row (\<lambda>_. True) (elem_value q (object_elem (trlog_row_kvs e))) rows = Ret (rows @ [e])" for q
  proof -
    let ?v = "elem_value q (object_elem (trlog_row_kvs e))"
    have at: "object_at (Struct ?v) (trlog_row_kvs e)" using Cons.prems(2) by (intro readable_at) simp
    from get_blob [OF at trlog_row_lookup(4)] obtain r where r: "binn_object_get_blob (Struct ?v) ''O'' = Ret (lo_payload e @ r, length (lo_payload e))" .
    have "8 + length (lo_payload e) = unat (lo_size e)" using Cons.prems(1) by (simp add: wf_trlog_row_def)
    then show ?thesis
      using r get_uint64 [OF at trlog_row_lookup(1)] get_uint32 [OF at trlog_row_lookup(2)] get_uint32 [OF at trlog_row_lookup(3)]
      by (simp add: unbinn_trlog_row_def source_bytes_def rdn_0)
  qed
  then show ?case using Cons.IH Cons.prems by simp
qed simp

lemma notified_loop:
  assumes "list_all (readable \<circ> uuid_kvs ''U1'' ''U2'') us" "distinct (done @ us)"
  shows "fold_elems (unbinn_notified (\<lambda>_. True)) post (map (\<lambda>u. object_elem (uuid_kvs ''U1'' ''U2'' u)) us) (i, rev done)
           = Ret (i + length us, rev (done @ us))"
  using assms
proof (induction us arbitrary: i "done")
  case (Cons u us)
  have "unbinn_notified (\<lambda>_. True) (elem_value q (object_elem (uuid_kvs ''U1'' ''U2'' u))) (i, rev done) = Ret (i + 1, rev (done @ [u]))" for q
  proof -
    have at: "object_at (Struct (elem_value q (object_elem (uuid_kvs ''U1'' ''U2'' u)))) (uuid_kvs ''U1'' ''U2'' u)"
      using Cons.prems(1) by (intro readable_at) simp
    show ?thesis
      using get_uint64 [OF at notified_lookup(1)] get_uint64 [OF at notified_lookup(2)] Cons.prems(2) by (simp add: unbinn_notified_def)
  qed
  then show ?case using Cons.IH [of "done @ [u]" "i + 1"] Cons.prems by simp
qed simp

text \<open>The order of the notified nodes does not matter.\<close>

fun p2p_same :: "p2p_message \<Rightarrow> p2p_message \<Rightarrow> bool" where
  "p2p_same (P2p_broadcast m) (P2p_broadcast m') \<longleftrightarrow>
     bc_msg_id m' = bc_msg_id m \<and> bc_data m' = bc_data m \<and> distinct (bc_notified m') \<and> set (bc_notified m') = set (bc_notified m)"
| "p2p_same m m' \<longleftrightarrow> m = m'"

lemma trlog_data_at:
  assumes "object_at a (p2p_kvs (P2p_trlog_data m))" "wf_p2p (P2p_trlog_data m)" "p2p_readable (P2p_trlog_data m)"
  shows "mdv_unbinn_p2p_trlog_data (\<lambda>_. True) a = Ret m"
proof -
  let ?es = "map (\<lambda>e. object_elem (trlog_row_kvs e)) (ld_rows m)"
  have lookup: "map_of (p2p_kvs (P2p_trlog_data m)) (key_bytes ''U0'') = Some (u64_elem (uuid_lo (ld_trlog m)))"
    "map_of (p2p_kvs (P2p_trlog_data m)) (key_bytes ''U1'') = Some (u64_elem (uuid_hi (ld_trlog m)))"
    "map_of (p2p_kvs (P2p_trlog_data m)) (key_bytes ''C'') = Some (u32_elem (ld_count m))"
    "map_of (p2p_kvs (P2p_trlog_data m)) (key_bytes ''R'') = Some (list_elem ?es)"
    by (simp_all add: uuid_kvs_def key_bytes_def)
  have "list_all wf_elem ?es" "?es \<noteq> []" using assms(2,3) by (auto simp: list_all_iff readable_def)
  from get_list [OF assms(1) lookup(4) this] obtain l where l: "binn_object_get_list a ''R'' = Ret l" "list_at l ?es" .
  from list_at_foreach [OF l(2)] obtain p where
    "binn_list_foreach (Ret zero_binn_iter) (unbinn_trlog_row (\<lambda>_. True)) l [] = fold_elems (unbinn_trlog_row (\<lambda>_. True)) p ?es []" .
  then have "binn_list_foreach (Ret zero_binn_iter) (unbinn_trlog_row (\<lambda>_. True)) l [] = Ret (ld_rows m)"
    using trlog_rows_loop [of "ld_rows m" p "[]"] assms(2,3) by simp
  then show ?thesis
    using l(1) get_uint64 [OF assms(1) lookup(1)] get_uint64 [OF assms(1) lookup(2)] get_uint32 [OF assms(1) lookup(3)]
    by (simp add: mdv_unbinn_p2p_trlog_data_def)
qed

lemma broadcast_at:
  assumes "object_at a (p2p_kvs (P2p_broadcast m))" "wf_p2p (P2p_broadcast m)" "p2p_readable (P2p_broadcast m)"
  shows "mdv_unbinn_p2p_broadcast (\<lambda>_. True) a = Ret (m\<lparr>bc_notified := rev (bc_notified m)\<rparr>)"
proof -
  let ?es = "map (\<lambda>u. object_elem (uuid_kvs ''U1'' ''U2'' u)) (bc_notified m)"
  have lookup: "map_of (p2p_kvs (P2p_broadcast m)) (key_bytes ''M'') = Some (int_elem BINN_UINT16 (uint (bc_msg_id m)))"
    "map_of (p2p_kvs (P2p_broadcast m)) (key_bytes ''D'') = Some (Blob (bc_data m))"
    "map_of (p2p_kvs (P2p_broadcast m)) (key_bytes ''N'') = Some (list_elem ?es)"
    by (simp_all add: key_bytes_def)
  have "list_all wf_elem ?es" "?es \<noteq> []" using assms(2,3) by (auto simp: list_all_iff readable_def)
  from get_list [OF assms(1) lookup(3) this] obtain l where l: "binn_object_get_list a ''N'' = Ret l" "list_at l ?es" .
  from get_blob [OF assms(1) lookup(2)] obtain q where q: "binn_object_get_blob a ''D'' = Ret (bc_data m @ q, length (bc_data m))" .
  from list_at_foreach [OF l(2)] obtain p where
    "binn_list_foreach (Ret zero_binn_iter) (unbinn_notified (\<lambda>_. True)) l (0, []) = fold_elems (unbinn_notified (\<lambda>_. True)) p ?es (0, [])" .
  then have "binn_list_foreach (Ret zero_binn_iter) (unbinn_notified (\<lambda>_. True)) l (0, []) = Ret (length (bc_notified m), rev (bc_notified m))"
    using notified_loop [of "bc_notified m" "[]" p 0] assms(2,3) by simp
  then show ?thesis
    using l(1) q get_uint16 [OF assms(1) lookup(1)]
    by (simp add: mdv_unbinn_p2p_broadcast_def source_bytes_def rdn_0)
qed

lemma p2p_at:
  assumes "object_at a (p2p_kvs msg)" "wf_p2p msg" "p2p_readable msg"
  shows "\<exists>msg'. p2p_read (p2p_id msg) a = Ret msg' \<and> p2p_same msg msg'"
proof (cases msg)
  case (P2p_hello listen)
  then show ?thesis using read_str [OF assms(1), of "''L''" listen] assms(2) by (simp add: p2p_read_def mdv_unbinn_p2p_hello_def)
next
  case (P2p_status m)
  have lookup: "map_of (p2p_kvs msg) (key_bytes ''E'') = Some (word_elem (st_err m))"
    "map_of (p2p_kvs msg) (key_bytes ''M'') = Some (Str (st_message m))"
    by (simp_all add: P2p_status status_kvs_def key_bytes_def)
  show ?thesis
    using get_int32 [OF assms(1) lookup(1)] read_str [OF assms(1) lookup(2)] assms(2) P2p_status
    by (simp add: p2p_read_def mdv_unbinn_p2p_status_def)
next
  case (P2p_linkstate m)
  have lookup: "map_of (p2p_kvs msg) (key_bytes ''U1'') = Some (u64_elem (uuid_lo (ls_src m)))"
    "map_of (p2p_kvs msg) (key_bytes ''U2'') = Some (u64_elem (uuid_hi (ls_src m)))"
    "map_of (p2p_kvs msg) (key_bytes ''U3'') = Some (u64_elem (uuid_lo (ls_dst m)))"
    "map_of (p2p_kvs msg) (key_bytes ''U4'') = Some (u64_elem (uuid_hi (ls_dst m)))"
    "map_of (p2p_kvs msg) (key_bytes ''F'') = Some (bool_elem (ls_connected m))"
    by (simp_all add: P2p_linkstate uuid_kvs_def key_bytes_def)
  show ?thesis
    using get_uint64 [OF assms(1) lookup(1)] get_uint64 [OF assms(1) lookup(2)] get_uint64 [OF assms(1) lookup(3)]
      get_uint64 [OF assms(1) lookup(4)] get_bool [OF assms(1) lookup(5)] P2p_linkstate
    by (simp add: p2p_read_def mdv_unbinn_p2p_linkstate_def)
next
  case (P2p_trlog_sync u)
  have lookup: "map_of (p2p_kvs msg) (key_bytes ''U0'') = Some (u64_elem (uuid_lo u))"
    "map_of (p2p_kvs msg) (key_bytes ''U1'') = Some (u64_elem (uuid_hi u))"
    by (simp_all add: P2p_trlog_sync uuid_kvs_def key_bytes_def)
  show ?thesis
    using get_uint64 [OF assms(1) lookup(1)] get_uint64 [OF assms(1) lookup(2)] P2p_trlog_sync
    by (simp add: p2p_read_def mdv_unbinn_p2p_trlog_sync_def)
next
  case (P2p_trlog_state m)
  have lookup: "map_of (p2p_kvs msg) (key_bytes ''U0'') = Some (u64_elem (uuid_lo (lt_trlog m)))"
    "map_of (p2p_kvs msg) (key_bytes ''U1'') = Some (u64_elem (uuid_hi (lt_trlog m)))"
    "map_of (p2p_kvs msg) (key_bytes ''T'') = Some (u64_elem (lt_top m))"
    by (simp_all add: P2p_trlog_state uuid_kvs_def key_bytes_def)
  show ?thesis
    using get_uint64 [OF assms(1) lookup(1)] get_uint64 [OF assms(1) lookup(2)] get_uint64 [OF assms(1) lookup(3)] P2p_trlog_state
    by (simp add: p2p_read_def mdv_unbinn_p2p_trlog_state_def)
next
  case (P2p_trlog_data m)
  then show ?thesis using assms trlog_data_at by (simp add: p2p_read_def)
next
  case (P2p_broadcast m)
  then show ?thesis using assms broadcast_at by (simp add: p2p_read_def)
qed

lemma p2p_loaded:
  assumes "p2p_write mem msg = Ret obj" "wf_p2p msg"
  obtains v where "binn_load (fst (binn_serialized obj)) = Ret v" "object_at (Struct v) (p2p_kvs msg)" "p2p_readable msg"
proof -
  have i: "object_item (p2p_kvs msg) obj" "p2p_readable msg" using p2p_item [OF assms] by simp_all
  have "p2p_kvs msg \<noteq> []" by (cases msg) (simp_all add: status_kvs_def uuid_kvs_def)
  from load_object [OF i(1) this] obtain v where v: "binn_load (fst (binn_serialized obj)) = Ret v" "object_at (Struct v) (p2p_kvs msg)" .
  then show ?thesis using i(2) by (rule that)
qed


definition sample_trlog_data :: p2p_message where
  "sample_trlog_data = P2p_trlog_data \<lparr>ld_trlog = Uuid 1 2, ld_count = 2,
     ld_rows = [\<lparr>lo_id = 5, lo_size = 10, lo_type = 1, lo_payload = [7, 8]\<rparr>, \<lparr>lo_id = 6, lo_size = 8, lo_type = 0, lo_payload = []\<rparr>]\<rparr>"


end
