(* ===== verification/Mdv_Client_Codec.thy ===== *)
theory Mdv_Client_Codec
  imports Mdv_Message_Codec
begin

text \<open>
  Round trips of the messages between a client and a node, and the path of the rows from the client's row set through the
  message to the row set of the node.
\<close>

section \<open>Requests and answers\<close>

datatype client_message =
    Msg_status mdv_msg_status
  | Msg_get_table mdv_uuid
  | Msg_table_info mdv_uuid
  | Msg_select mdv_msg_select
  | Msg_view u32
  | Msg_fetch u32
  | Msg_delete_from mdv_msg_delete_from

fun client_id :: "client_message \<Rightarrow> nat" where
  "client_id (Msg_status _) = 1"
| "client_id (Msg_get_table _) = 4"
| "client_id (Msg_table_info _) = 5"
| "client_id (Msg_select _) = 10"
| "client_id (Msg_view _) = 11"
| "client_id (Msg_fetch _) = 12"
| "client_id (Msg_delete_from _) = 14"

fun client_write :: "(nat \<Rightarrow> nat \<Rightarrow> bool) \<Rightarrow> client_message \<Rightarrow> binn outcome" where
  "client_write mem (Msg_status m) = mdv_msg_status_binn (mem 0) m"
| "client_write mem (Msg_get_table u) = mdv_msg_get_table_binn (mem 0) u"
| "client_write mem (Msg_table_info u) = mdv_msg_table_info_binn (mem 0) u"
| "client_write mem (Msg_select m) = mdv_msg_select_binn mem m"
| "client_write mem (Msg_view v) = mdv_msg_view_binn (mem 0) v"
| "client_write mem (Msg_fetch v) = mdv_msg_fetch_binn (mem 0) v"
| "client_write mem (Msg_delete_from m) = mdv_msg_delete_from_binn (mem 0) m"

text \<open>The reading function for a message identifier, when memory is available.\<close>

definition client_read :: "nat \<Rightarrow> binn_arg \<Rightarrow> client_message outcome" where
  "client_read msg_id obj =
     (if msg_id = 1 then obind (mdv_msg_status_unbinn obj) (Ret \<circ> Msg_status)
      else if msg_id = 4 then obind (mdv_msg_get_table_unbinn obj) (Ret \<circ> Msg_get_table)
      else if msg_id = 5 then obind (mdv_msg_table_info_unbinn obj) (Ret \<circ> Msg_table_info)
      else if msg_id = 10 then obind (mdv_msg_select_unbinn True obj) (Ret \<circ> Msg_select)
      else if msg_id = 11 then obind (mdv_msg_view_unbinn obj) (Ret \<circ> Msg_view)
      else if msg_id = 12 then obind (mdv_msg_fetch_unbinn obj) (Ret \<circ> Msg_fetch)
      else if msg_id = 14 then obind (mdv_msg_delete_from_unbinn obj) (Ret \<circ> Msg_delete_from)
      else Fail)"

fun wf_client :: "client_message \<Rightarrow> bool" where
  "wf_client (Msg_status m) \<longleftrightarrow> 0 \<notin> set (st_message m)"
| "wf_client (Msg_select m) \<longleftrightarrow> 0 \<notin> set (sl_filter m) \<and> bs_bits (sl_fields m) \<noteq> [] \<and>
     length (bs_bits (sl_fields m)) = mdv_bitset_capacity (sl_fields m) div 32"
| "wf_client (Msg_delete_from m) \<longleftrightarrow> 0 \<notin> set (df_filter m)"
| "wf_client _ \<longleftrightarrow> True"

text \<open>The set of the selected columns comes back with the same bits; its size is rounded up to whole words.\<close>

fun client_same :: "client_message \<Rightarrow> client_message \<Rightarrow> bool" where
  "client_same (Msg_select m) (Msg_select m') \<longleftrightarrow>
     sl_table m' = sl_table m \<and> sl_filter m' = sl_filter m \<and> bs_bits (sl_fields m') = bs_bits (sl_fields m)"
| "client_same m m' \<longleftrightarrow> m = m'"

fun client_kvs :: "client_message \<Rightarrow> (bytes \<times> elem) list" where
  "client_kvs (Msg_status m) = status_kvs m"
| "client_kvs (Msg_get_table u) = uuid_kvs ''0'' ''1'' u"
| "client_kvs (Msg_table_info u) = uuid_kvs ''0'' ''1'' u"
| "client_kvs (Msg_select m) =
     uuid_kvs ''T0'' ''T1'' (sl_table m) @ [(key_bytes ''F'', list_elem (map word_elem (bs_bits (sl_fields m)))), (key_bytes ''S'', Str (sl_filter m))]"
| "client_kvs (Msg_view v) = [(key_bytes ''V'', u32_elem v)]"
| "client_kvs (Msg_fetch v) = [(key_bytes ''V'', u32_elem v)]"
| "client_kvs (Msg_delete_from m) = uuid_kvs ''T0'' ''T1'' (df_table m) @ [(key_bytes ''F'', Str (df_filter m))]"

lemma uuid_item:
  assumes "binn_create_object mem = Ret o0" "binn_object_set_uint64 o0 k1 (uuid_lo u) = Ret o1" "binn_object_set_uint64 o1 k2 (uuid_hi u) = Ret o2"
    "wf_key (key_bytes k1)" "wf_key (key_bytes k2)"
  shows "object_item (uuid_kvs k1 k2 u) o2"
  using set_uint64 [OF assms(3) set_uint64 [OF assms(2) created [OF assms(1)] assms(4)] assms(5)] by (simp add: uuid_kvs_def)

lemma select_item:
  assumes "mdv_msg_select_binn mem m = Ret obj" "wf_client (Msg_select m)"
  shows "object_item (client_kvs (Msg_select m)) obj"
proof -
  obtain l o0 o1 o2 o3 where o: "mdv_binn_bitset (mem 0) (sl_fields m) = Ret l" "binn_create_object (mem 1) = Ret o0"
      "binn_object_set_uint64 o0 ''T0'' (uuid_lo (sl_table m)) = Ret o1" "binn_object_set_uint64 o1 ''T1'' (uuid_hi (sl_table m)) = Ret o2"
      "binn_object_set_list o2 ''F'' l = Ret o3" "binn_object_set_str o3 ''S'' (sl_filter m) = Ret obj"
    using assms(1) by (auto simp: mdv_msg_select_binn_def obind_eq_Ret)
  have "list_item (map word_elem (bs_bits (sl_fields m))) l" using binn_bitset_item [OF o(1)] assms(2) by simp
  note set_list [OF o(5) uuid_item [OF o(2-4) message_keys(9,10)] wf_keys(5) this]
  note set_str [OF o(6) this wf_keys(4)]
  then show ?thesis using assms(2) by simp
qed

lemma client_item:
  assumes "client_write mem msg = Ret obj" "wf_client msg"
  shows "object_item (client_kvs msg) obj"
proof (cases msg)
  case (Msg_status m)
  then have "mdv_binn_p2p_status (mem 0) m = Ret obj" using assms(1) by (simp add: mdv_msg_status_binn_def mdv_binn_p2p_status_def)
  then show ?thesis using status_item Msg_status assms(2) by simp
next
  case (Msg_get_table u)
  then show ?thesis using assms(1) by (auto simp: mdv_msg_get_table_binn_def obind_eq_Ret intro: uuid_item)
next
  case (Msg_table_info u)
  then show ?thesis using assms(1) by (auto simp: mdv_msg_table_info_binn_def obind_eq_Ret intro: uuid_item)
next
  case (Msg_select m)
  then show ?thesis using assms select_item by simp
next
  case (Msg_view v)
  then show ?thesis using assms(1) set_uint32 [OF _ created message_keys(11)] by (fastforce simp: mdv_msg_view_binn_def obind_eq_Ret)
next
  case (Msg_fetch v)
  then show ?thesis using assms(1) set_uint32 [OF _ created message_keys(11)] by (fastforce simp: mdv_msg_fetch_binn_def obind_eq_Ret)
next
  case (Msg_delete_from m)
  then obtain o0 o1 o2 where o: "binn_create_object (mem 0) = Ret o0" "binn_object_set_uint64 o0 ''T0'' (uuid_lo (df_table m)) = Ret o1"
      "binn_object_set_uint64 o1 ''T1'' (uuid_hi (df_table m)) = Ret o2" "binn_object_set_str o2 ''F'' (df_filter m) = Ret obj"
    using assms(1) by (auto simp: mdv_msg_delete_from_binn_def obind_eq_Ret)
  from set_str [OF o(4) uuid_item [OF o(1-3) message_keys(9,10)] wf_keys(5)] show ?thesis using Msg_delete_from assms(2) by simp
qed

lemma uuid_at:
  assumes "object_at a kvs" "map_of kvs (key_bytes k1) = Some (u64_elem (uuid_lo u))" "map_of kvs (key_bytes k2) = Some (u64_elem (uuid_hi u))"
  shows "binn_object_get_uint64 a k1 = Ret (uuid_lo u)" "binn_object_get_uint64 a k2 = Ret (uuid_hi u)"
  using get_uint64 [OF assms(1,2)] get_uint64 [OF assms(1,3)] by simp_all

lemma select_at:
  assumes "object_at a (client_kvs (Msg_select m))" "wf_client (Msg_select m)"
  obtains m' where "mdv_msg_select_unbinn True a = Ret m'" "client_same (Msg_select m) (Msg_select m')"
proof -
  let ?kvs = "client_kvs (Msg_select m)" and ?es = "map word_elem (bs_bits (sl_fields m))"
  have lookup: "map_of ?kvs (key_bytes ''T0'') = Some (u64_elem (uuid_lo (sl_table m)))"
    "map_of ?kvs (key_bytes ''T1'') = Some (u64_elem (uuid_hi (sl_table m)))"
    "map_of ?kvs (key_bytes ''F'') = Some (list_elem ?es)" "map_of ?kvs (key_bytes ''S'') = Some (Str (sl_filter m))"
    by (simp_all add: uuid_kvs_def key_bytes_def)
  have "wf_elem (word_elem w)" for w unfolding word_elem_def using word_range [of w] by (intro wf_int_elem) (simp_all add: int_range_def)
  then have "list_all wf_elem ?es" "?es \<noteq> []" using assms(2) by (auto simp: list_all_iff)
  from get_list [OF assms(1) lookup(3) this] obtain l where l: "binn_object_get_list a ''F'' = Ret l" "list_at l ?es" .
  from unbinn_bitset_at [OF l(2)] obtain b where "mdv_unbinn_bitset True l = Ret b" "bs_bits b = bs_bits (sl_fields m)" .
  then show ?thesis
    using that l(1) uuid_at [OF assms(1) lookup(1,2)] read_str [OF assms(1) lookup(4)] assms(2) by (simp add: mdv_msg_select_unbinn_def)
qed

lemma client_at:
  assumes "object_at a (client_kvs msg)" "wf_client msg"
  shows "\<exists>msg'. client_read (client_id msg) a = Ret msg' \<and> client_same msg msg'"
proof (cases msg)
  case (Msg_status m)
  have lookup: "map_of (client_kvs msg) (key_bytes ''E'') = Some (word_elem (st_err m))"
    "map_of (client_kvs msg) (key_bytes ''M'') = Some (Str (st_message m))"
    by (simp_all add: Msg_status status_kvs_def key_bytes_def)
  show ?thesis
    using get_int32 [OF assms(1) lookup(1)] read_str [OF assms(1) lookup(2)] assms(2) Msg_status
    by (simp add: client_read_def mdv_msg_status_unbinn_def)
next
  case (Msg_get_table u)
  then show ?thesis using uuid_at [OF assms(1), of "''0''" u "''1''"]
    by (simp add: client_read_def mdv_msg_get_table_unbinn_def uuid_kvs_def key_bytes_def)
next
  case (Msg_table_info u)
  then show ?thesis using uuid_at [OF assms(1), of "''0''" u "''1''"]
    by (simp add: client_read_def mdv_msg_table_info_unbinn_def uuid_kvs_def key_bytes_def)
next
  case (Msg_select m)
  then show ?thesis using assms select_at [of a m] by (fastforce simp: client_read_def)
next
  case (Msg_view v)
  then show ?thesis using get_uint32 [OF assms(1), of "''V''" v] by (simp add: client_read_def mdv_msg_view_unbinn_def)
next
  case (Msg_fetch v)
  then show ?thesis using get_uint32 [OF assms(1), of "''V''" v] by (simp add: client_read_def mdv_msg_fetch_unbinn_def)
next
  case (Msg_delete_from m)
  then show ?thesis using uuid_at [OF assms(1), of "''T0''" "df_table m" "''T1''"] read_str [OF assms(1), of "''F''" "df_filter m"] assms(2)
    by (simp add: client_read_def mdv_msg_delete_from_unbinn_def uuid_kvs_def key_bytes_def)
qed


definition sample_delete :: client_message where
  "sample_delete = Msg_delete_from \<lparr>df_table = Uuid 7 9, df_filter = [0x49, 0x64, 0x3D, 0x31]\<rparr>"


section \<open>Rows\<close>

lemma rows_list_at:
  assumes "object_at a kvs" "map_of kvs (key_bytes ''R'') = Some (list_elem (map (row_elem fds) rows))" "rows \<noteq> []"
    "list_all (row_written fds) rows"
  obtains l where "binn_object_get_list a ''R'' = Ret l" "list_at l (map (row_elem fds) rows)"
proof -
  have "list_all wf_elem (map (row_elem fds) rows)" using assms(4) by (auto simp: list_all_iff row_written_def)
  from get_list [OF assms(1,2) this] show ?thesis using that assms(3) by blast
qed



section \<open>Sizes in received messages\<close>

text \<open>
  C37. The loader is not told how many bytes have been received and trusts the size and the length of the key in the message: four
  bytes that announce more make it read behind them.
\<close>

theorem announced_size_overread:
  assumes "4 + unat key_len \<le> unat sz" "sz < 128"
  shows "binn_load [0xE2, sz, 1, key_len] = UB"
proof -
  let ?buf = "[0xE2, sz, 1, key_len]"
  have "unat sz < 128" using assms(2) by (simp add: word_less_nat_alt)
  then have "IsValidBinnHeader ?buf 0 = Ret (BINN_OBJECT, 1, unat sz, 3)"
    using assms(1) by (simp add: IsValidBinnHeader_def limited_size_def and_128 rd_def)
  moreover have "AdvanceDataPos ?buf (unat sz) (4 + unat key_len) = UB"
    using assms(1) by (simp add: AdvanceDataPos_def rd_def)
  ultimately show ?thesis
    by (simp add: binn_load_def binn_is_valid_def binn_ptr_def rdn_def rd_def)
qed

theorem announced_size_overread_witness: "binn_load [0xE2, 100, 1, 2] = UB"
  using announced_size_overread [of 2 100] by simp

end
