(* ===== verification/Mdv_Nodes.thy ===== *)
theory Mdv_Nodes
  imports Mdv_Message_Codec Mdv_Lmdb
begin

text \<open>
  The nodes of the cluster of src/mdv_core/mdv_node.c and their storage of src/mdv_core/storage/mdv_nodes.c: a map of LMDB
  from the UUID of a node to its local identifier and address in the binary form of binn. \<open>ok i\<close> is the outcome of the
  call number \<open>i\<close> of LMDB, \<open>mem\<close> the schedule of the allocations for the container.
\<close>

section \<open>The code\<close>

definition MDV_ADDR_LEN_MAX :: nat where
  "MDV_ADDR_LEN_MAX = 256"

definition MDV_MAP_NODES :: string where
  "MDV_MAP_NODES = ''NODES''"

text \<open>The address is the string without its terminating zero.\<close>

record mdv_node =
  nd_uuid :: mdv_uuid
  nd_id :: u32
  nd_addr :: bytes

definition mdv_node_init :: "mdv_uuid \<Rightarrow> u32 \<Rightarrow> bytes \<Rightarrow> mdv_node option" where
  "mdv_node_init uuid node_id addr =
     (if MDV_ADDR_LEN_MAX \<le> length addr then None else Some \<lparr>nd_uuid = uuid, nd_id = node_id, nd_addr = addr\<rparr>)"

definition mdv_binn_node :: "(nat \<Rightarrow> bool) \<Rightarrow> mdv_node \<Rightarrow> binn outcome" where
  "mdv_binn_node mem node =
     obind (binn_create_object mem) (\<lambda>obj.
     obind (binn_object_set_uint32 obj ''I'' (nd_id node)) (\<lambda>obj. binn_object_set_str obj ''A'' (nd_addr node)))"

definition mdv_unbinn_node :: "binn_arg \<Rightarrow> mdv_uuid \<Rightarrow> mdv_node outcome" where
  "mdv_unbinn_node obj uuid =
     obind (binn_object_get_uint32 obj ''I'') (\<lambda>node_id.
     obind (obind (binn_object_get_str obj ''A'') cstr) (\<lambda>addr.
       if MDV_ADDR_LEN_MAX \<le> length addr then Fail else Ret \<lparr>nd_uuid = uuid, nd_id = node_id, nd_addr = addr\<rparr>))"

text \<open>One entry of the map: an entry that cannot be read is skipped. A key shorter than a UUID is read beyond its end.\<close>

definition nodes_entry :: "('a \<Rightarrow> mdv_node \<Rightarrow> 'a) \<Rightarrow> bytes \<times> bytes \<Rightarrow> 'a \<Rightarrow> 'a outcome" where
  "nodes_entry fn kv arg =
     (if length (fst kv) < 16 then UB
      else case binn_load (snd kv) of
        UB \<Rightarrow> UB
      | Fail \<Rightarrow> Ret arg
      | Ret obj \<Rightarrow>
          (case mdv_unbinn_node (Struct obj) (uuid_of_u8 (fst kv)) of UB \<Rightarrow> UB | Fail \<Rightarrow> Ret arg | Ret node \<Rightarrow> Ret (fn arg node)))"

text \<open>The loop from the entry at the cursor; \<open>None\<close> when it does not end.\<close>

partial_function (option) nodes_loop :: "'d mdb \<Rightarrow> ('a \<Rightarrow> mdv_node \<Rightarrow> 'a) \<Rightarrow> bytes \<times> bytes \<Rightarrow> 'd txn \<Rightarrow> 'a \<Rightarrow> 'a outcome option" where
  "nodes_loop eng fn kv t arg =
     (case nodes_entry fn kv arg of
        UB \<Rightarrow> Some UB
      | Fail \<Rightarrow> Some Fail
      | Ret arg \<Rightarrow>
          (case mdv_cursor_get eng MDV_MAP_NODES MDV_CURSOR_NEXT (fst kv) t of
             None \<Rightarrow> Some (Ret arg)
           | Some kv \<Rightarrow> nodes_loop eng fn kv t arg))"

definition mdv_nodes_foreach ::
  "'d mdb \<Rightarrow> (nat \<Rightarrow> bool) \<Rightarrow> 'd mdv_lmdb \<Rightarrow> 'a \<Rightarrow> ('a \<Rightarrow> mdv_node \<Rightarrow> 'a) \<Rightarrow> (mdv_errno \<times> 'a \<times> 'd mdv_lmdb) outcome option" where
  "mdv_nodes_foreach eng ok storage arg fn =
     (let finish = (\<lambda>m t arg.
        case mdv_transaction_commit (ok 3) t of
          (False, t) \<Rightarrow> Ret (MDV_FAILED, arg, fst (mdv_transaction_abort (mdv_map_close m t)))
        | (True, t) \<Rightarrow> Ret (MDV_OK, arg, fst (mdv_map_close m t)))
      in case mdv_transaction_start (ok 0) storage of
        (db, None) \<Rightarrow> Some (Ret (MDV_FAILED, arg, db))
      | t \<Rightarrow>
          (case mdv_map_open eng (ok 1) True MDV_MAP_NODES t of
             (None, t) \<Rightarrow> Some (Ret (MDV_FAILED, arg, fst (mdv_transaction_abort t)))
           | (m, t) \<Rightarrow>
               (case mdv_cursor_open_explicit eng (ok 2) MDV_MAP_NODES MDV_CURSOR_FIRST [] t of
                  (None, t) \<Rightarrow> Some (finish m t arg)
                | (Some kv, t) \<Rightarrow>
                    map_option (\<lambda>r. obind r (finish m (mdv_cursor_close t))) (nodes_loop eng fn kv t arg))))"

definition mdv_nodes_store :: "'d mdb \<Rightarrow> (nat \<Rightarrow> bool) \<Rightarrow> (nat \<Rightarrow> bool) \<Rightarrow> 'd mdv_lmdb \<Rightarrow> mdv_node \<Rightarrow> (mdv_errno \<times> 'd mdv_lmdb) outcome" where
  "mdv_nodes_store eng ok mem storage node =
     (case mdv_transaction_start (ok 0) storage of
        (db, None) \<Rightarrow> Ret (MDV_FAILED, db)
      | t \<Rightarrow>
          (case mdv_map_open eng (ok 1) True MDV_MAP_NODES t of
             (None, t) \<Rightarrow> Ret (MDV_FAILED, fst (mdv_transaction_abort t))
           | (m, t) \<Rightarrow>
               (case mdv_binn_node mem node of
                  UB \<Rightarrow> UB
                | Fail \<Rightarrow> Ret (MDV_FAILED, fst (mdv_transaction_abort (mdv_map_close m t)))
                | Ret obj \<Rightarrow>
                    (case mdv_map_put eng (ok 2) MDV_MAP_NODES (uuid_u8 (nd_uuid node)) (fst (binn_serialized obj)) t of
                       (False, t) \<Rightarrow> Ret (MDV_FAILED, fst (mdv_transaction_abort (mdv_map_close m t)))
                     | (True, t) \<Rightarrow>
                         (case mdv_transaction_commit (ok 3) t of
                            (False, t) \<Rightarrow> Ret (MDV_FAILED, fst (mdv_transaction_abort (mdv_map_close m t)))
                          | (True, t) \<Rightarrow> Ret (MDV_OK, fst (mdv_map_close m t)))))))"

section \<open>What the storage holds\<close>

text \<open>The documented order of a cursor: from the first item each step leads to the next one, through all items of a database.\<close>

definition walks :: "'d mdb \<Rightarrow> 'd \<Rightarrow> string \<Rightarrow> (bytes \<times> bytes) list \<Rightarrow> bool" where
  "walks eng d db kvs \<longleftrightarrow>
     distinct (map fst kvs) \<and> mdb_get eng d db = map_of kvs \<and>
     mdb_cursor_get eng d db MDV_CURSOR_FIRST [] = (case kvs of [] \<Rightarrow> None | kv # _ \<Rightarrow> Some kv) \<and>
     (\<forall>i < length kvs. mdb_cursor_get eng d db MDV_CURSOR_NEXT (fst (kvs ! i)) = (if Suc i < length kvs then Some (kvs ! Suc i) else None))"

definition walk_laws :: "'d mdb \<Rightarrow> string \<Rightarrow> bool" where
  "walk_laws eng db \<longleftrightarrow> (\<forall>d n. (\<forall>k \<in> mdb_keys eng d db. length k = n) \<longrightarrow> (\<exists>kvs. walks eng d db kvs))"

text \<open>The map of nodes that a content represents, and the contents without unreadable entries.\<close>

definition nodes_in :: "'d mdb \<Rightarrow> 'd \<Rightarrow> mdv_uuid \<Rightarrow> mdv_node option" where
  "nodes_in eng d u =
     (case mdb_get eng d MDV_MAP_NODES (uuid_u8 u) of
        None \<Rightarrow> None
      | Some v \<Rightarrow>
          (case binn_load v of
             Ret obj \<Rightarrow> (case mdv_unbinn_node (Struct obj) u of Ret node \<Rightarrow> Some node | _ \<Rightarrow> None)
           | _ \<Rightarrow> None))"

definition nodes_ok :: "'d mdb \<Rightarrow> 'd \<Rightarrow> bool" where
  "nodes_ok eng d \<longleftrightarrow> (\<forall>k \<in> mdb_keys eng d MDV_MAP_NODES. length k = 16 \<and> nodes_in eng d (uuid_of_u8 k) \<noteq> None)"

definition wf_node :: "mdv_node \<Rightarrow> bool" where
  "wf_node node \<longleftrightarrow> 0 \<notin> set (nd_addr node) \<and> length (nd_addr node) < MDV_ADDR_LEN_MAX"

definition node_kvs :: "mdv_node \<Rightarrow> (bytes \<times> elem) list" where
  "node_kvs node = [(key_bytes ''I'', u32_elem (nd_id node)), (key_bytes ''A'', Str (nd_addr node))]"

lemma node_item:
  assumes "mdv_binn_node mem node = Ret obj" "wf_node node"
  shows "object_item (node_kvs node) obj"
proof -
  obtain o0 o1 where o: "binn_create_object mem = Ret o0" "binn_object_set_uint32 o0 ''I'' (nd_id node) = Ret o1"
      "binn_object_set_str o1 ''A'' (nd_addr node) = Ret obj"
    using assms(1) by (auto simp: mdv_binn_node_def obind_eq_Ret)
  from set_str [OF o(3) set_uint32 [OF o(2) created [OF o(1)] message_keys(5)] wf_keys(7)] show ?thesis
    using assms(2) by (simp add: node_kvs_def wf_node_def)
qed

lemma node_at:
  assumes "object_at a (node_kvs node)" "wf_node node"
  shows "mdv_unbinn_node a (nd_uuid node) = Ret node"
proof -
  have lookup: "map_of (node_kvs node) (key_bytes ''I'') = Some (u32_elem (nd_id node))"
    "map_of (node_kvs node) (key_bytes ''A'') = Some (Str (nd_addr node))"
    by (simp_all add: node_kvs_def key_bytes_def)
  show ?thesis
    using get_uint32 [OF assms(1) lookup(1)] read_str [OF assms(1) lookup(2)] assms(2) by (simp add: mdv_unbinn_node_def wf_node_def)
qed

lemma node_stored:
  assumes "mdv_binn_node mem node = Ret obj" "wf_node node"
  shows "\<exists>v. binn_load (fst (binn_serialized obj)) = Ret v \<and> mdv_unbinn_node (Struct v) (nd_uuid node) = Ret node"
proof -
  from load_object [OF node_item [OF assms]] obtain v where
    v: "binn_load (fst (binn_serialized obj)) = Ret v" "object_at (Struct v) (node_kvs node)"
    by (auto simp: node_kvs_def)
  with node_at [OF v(2) assms(2)] show ?thesis by blast
qed

lemma uuid_u8_inverse [simp]: "uuid_of_u8 (uuid_u8 u) = u" "length (uuid_u8 u) = 16"
proof -
  have "unat (uuid_lo u) < 256 ^ 8" "unat (uuid_hi u) < 256 ^ 8" using unsigned_less [of "uuid_lo u"] unsigned_less [of "uuid_hi u"] by simp_all
  then show "uuid_of_u8 (uuid_u8 u) = u" by (simp add: uuid_of_u8_def uuid_u8_def le_val_le_bytes)
qed (simp add: uuid_u8_def)

lemma u8_of_uuid_of_u8: "length k = 16 \<Longrightarrow> uuid_u8 (uuid_of_u8 k) = k"
proof -
  assume "length k = 16"
  then have l: "length (take 8 k) = 8" "length (take 8 (drop 8 k)) = 8" by simp_all
  have "take 8 (drop 8 k) = drop 8 k" using \<open>length k = 16\<close> by (intro take_all) simp
  then have k: "k = take 8 k @ take 8 (drop 8 k)" by simp
  have "le_bytes 8 (unat (word_of_nat (le_val xs) :: u64)) = xs" if "length xs = 8" for xs
    using le_val_bound [of xs] that le_bytes_le_val [of 8 xs] by (simp add: unat_of_nat)
  with l have "uuid_u8 (uuid_of_u8 k) = take 8 k @ take 8 (drop 8 k)" by (simp add: uuid_u8_def uuid_of_u8_def)
  then show ?thesis using k by simp
qed

lemma nodes_loop_walk:
  assumes "walks eng d MDV_MAP_NODES kvs" "\<And>kv. kv \<in> set kvs \<Longrightarrow> length (fst kv) = 16 \<and> nodes_in eng d (uuid_of_u8 (fst kv)) \<noteq> None" "i < length kvs"
  shows "nodes_loop eng fn (kvs ! i) (db, Some d) arg
           = Some (Ret (foldl fn arg (map (\<lambda>kv. the (nodes_in eng d (uuid_of_u8 (fst kv)))) (drop i kvs))))"
  using assms(3)
proof (induction "length kvs - i" arbitrary: i arg)
  case (Suc n)
  let ?node = "\<lambda>kv. the (nodes_in eng d (uuid_of_u8 (fst kv)))"
  have kv: "length (fst (kvs ! i)) = 16" "nodes_in eng d (uuid_of_u8 (fst (kvs ! i))) \<noteq> None"
    using assms(2) [of "kvs ! i"] Suc.prems by simp_all
  have "mdb_get eng d MDV_MAP_NODES (fst (kvs ! i)) = Some (snd (kvs ! i))"
    using assms(1) Suc.prems by (simp add: walks_def map_of_eq_Some_iff)
  then have entry: "nodes_entry fn (kvs ! i) arg = Ret (fn arg (?node (kvs ! i)))"
    using kv by (auto simp: nodes_in_def nodes_entry_def u8_of_uuid_of_u8 split: outcome.splits)
  have next_kv: "mdv_cursor_get eng MDV_MAP_NODES MDV_CURSOR_NEXT (fst (kvs ! i)) (db, Some d) = (if Suc i < length kvs then Some (kvs ! Suc i) else None)"
    using assms(1) Suc.prems by (simp add: walks_def mdv_cursor_get_def)
  show ?case
  proof (cases "Suc i < length kvs")
    case True
    then show ?thesis using Suc.hyps entry next_kv Suc.prems by (subst nodes_loop.simps) (simp add: Cons_nth_drop_Suc [symmetric])
  next
    case False
    then have "drop i kvs = [kvs ! i]" using Suc.prems by (simp add: Cons_nth_drop_Suc [symmetric])
    then show ?thesis using False entry next_kv by (subst nodes_loop.simps) simp
  qed
qed simp

text \<open>The nodes of the storage, each once.\<close>

definition node_list :: "(mdv_uuid \<Rightarrow> mdv_node option) \<Rightarrow> mdv_node list \<Rightarrow> bool" where
  "node_list m nodes \<longleftrightarrow> distinct (map nd_uuid nodes) \<and> (\<forall>u node. m u = Some node \<longleftrightarrow> node \<in> set nodes \<and> nd_uuid node = u)"

lemma nodes_in_uuid: "nodes_in eng d u = Some node \<Longrightarrow> nd_uuid node = u"
  by (auto simp: nodes_in_def mdv_unbinn_node_def obind_eq_Ret split: option.splits outcome.splits if_splits)

lemma walk_node_list:
  assumes "walks eng d MDV_MAP_NODES kvs" "nodes_ok eng d"
  shows "node_list (nodes_in eng d) (map (\<lambda>kv. the (nodes_in eng d (uuid_of_u8 (fst kv)))) kvs)" (is "node_list _ (map ?node kvs)")
proof -
  have get: "mdb_get eng d MDV_MAP_NODES = map_of kvs" and dist: "distinct (map fst kvs)" using assms(1) by (simp_all add: walks_def)
  have ok: "length (fst kv) = 16 \<and> nodes_in eng d (uuid_of_u8 (fst kv)) \<noteq> None" if "kv \<in> set kvs" for kv
    using assms(2) that dist unfolding nodes_ok_def mdb_keys_def get by (cases kv) force
  have uuid: "nd_uuid (?node kv) = uuid_of_u8 (fst kv)" if "kv \<in> set kvs" for kv using ok [OF that] nodes_in_uuid by fastforce
  have "inj_on uuid_of_u8 (fst ` set kvs)"
    using ok u8_of_uuid_of_u8 by (metis (no_types, lifting) imageE inj_onI)
  then have "distinct (map nd_uuid (map ?node kvs))"
    using dist uuid by (simp add: distinct_map comp_def inj_on_def)
  moreover have "nodes_in eng d u = Some node \<longleftrightarrow> node \<in> set (map ?node kvs) \<and> nd_uuid node = u" for u node
  proof
    assume n: "nodes_in eng d u = Some node"
    then obtain v where "(uuid_u8 u, v) \<in> set kvs" unfolding nodes_in_def get by (auto split: option.splits dest: map_of_SomeD)
    then have "node \<in> set (map ?node kvs)" using n by (auto simp: image_iff intro!: bexI [of _ "(uuid_u8 u, v)"])
    then show "node \<in> set (map ?node kvs) \<and> nd_uuid node = u" using nodes_in_uuid [OF n] by simp
  qed (use ok uuid in force)
  ultimately show ?thesis unfolding node_list_def by blast
qed

lemma nodes_in_open: "lmdb_laws ints eng \<Longrightarrow> nodes_in eng (mdb_dbi_open eng d db) = nodes_in eng d"
  by (simp add: fun_eq_iff nodes_in_def lmdb_laws_simps(2) split: option.splits)

lemma nodes_ok_open: "lmdb_laws ints eng \<Longrightarrow> nodes_ok eng (mdb_dbi_open eng d db) = nodes_ok eng d"
  by (simp add: nodes_ok_def mdb_keys_def nodes_in_open lmdb_laws_simps(2))

lemma foreach_ok:
  assumes "lmdb_laws ints eng" "walk_laws eng MDV_MAP_NODES" "nodes_ok eng (lm_env storage)"
  obtains nodes where "node_list (nodes_in eng (lm_env storage)) nodes"
    "mdv_nodes_foreach eng (\<lambda>_. True) storage arg fn
       = Some (Ret (MDV_OK, foldl fn arg nodes, storage\<lparr>lm_env := mdb_dbi_open eng (lm_env storage) MDV_MAP_NODES\<rparr>))"
proof -
  let ?d = "mdb_dbi_open eng (lm_env storage) MDV_MAP_NODES"
  have ok: "nodes_ok eng ?d" using assms(1,3) by (simp add: nodes_ok_open)
  then have "\<forall>k \<in> mdb_keys eng ?d MDV_MAP_NODES. length k = 16" by (simp add: nodes_ok_def)
  then obtain kvs where w: "walks eng ?d MDV_MAP_NODES kvs" using assms(2) unfolding walk_laws_def by blast
  have each: "length (fst kv) = 16 \<and> nodes_in eng ?d (uuid_of_u8 (fst kv)) \<noteq> None" if "kv \<in> set kvs" for kv
    using ok w that unfolding nodes_ok_def mdb_keys_def walks_def by (cases kv) force
  let ?nodes = "map (\<lambda>kv. the (nodes_in eng ?d (uuid_of_u8 (fst kv)))) kvs"
  have list: "node_list (nodes_in eng (lm_env storage)) ?nodes" using walk_node_list [OF w ok] nodes_in_open [OF assms(1)] by simp
  have first: "mdv_cursor_get eng MDV_MAP_NODES MDV_CURSOR_FIRST [] (db, Some ?d) = (case kvs of [] \<Rightarrow> None | kv # _ \<Rightarrow> Some kv)" for db
    using w by (simp add: mdv_cursor_get_def walks_def)
  show ?thesis
  proof (rule that [OF list], cases kvs)
    case Nil
    then show "mdv_nodes_foreach eng (\<lambda>_. True) storage arg fn = Some (Ret (MDV_OK, foldl fn arg ?nodes, storage\<lparr>lm_env := ?d\<rparr>))"
      using first by (simp add: mdv_nodes_foreach_def mdv_transaction_start_def mdv_map_open_def mdv_cursor_open_explicit_def txn_simps Let_def)
  next
    case (Cons kv kvs')
    have "nodes_loop eng fn kv (db, Some ?d) arg = Some (Ret (foldl fn arg ?nodes))" for db
      using nodes_loop_walk [OF w each, of 0] Cons by simp
    then show "mdv_nodes_foreach eng (\<lambda>_. True) storage arg fn = Some (Ret (MDV_OK, foldl fn arg ?nodes, storage\<lparr>lm_env := ?d\<rparr>))"
      using first Cons by (simp add: mdv_nodes_foreach_def mdv_transaction_start_def mdv_map_open_def mdv_cursor_open_explicit_def txn_simps Let_def)
  qed
qed

lemma store_ok:
  assumes "lmdb_laws ints eng" "nodes_ok eng (lm_env storage)" "wf_node node" "mdv_nodes_store eng ok mem storage node = Ret (err, storage')"
  shows "lm_ref_counter storage' = lm_ref_counter storage \<and> nodes_ok eng (lm_env storage') \<and>
    nodes_in eng (lm_env storage') = (if err = MDV_OK then (nodes_in eng (lm_env storage))(nd_uuid node \<mapsto> node) else nodes_in eng (lm_env storage))"
proof (cases "err = MDV_OK")
  case False
  then have "storage' = storage"
    using assms(4) by (auto simp: mdv_nodes_store_def mdv_transaction_start_def mdv_map_open_def mdv_map_put_def mdv_map_put_impl_def txn_simps
        split: if_splits outcome.splits prod.splits)
  then show ?thesis using False assms(2) by simp
next
  case True
  let ?d = "mdb_dbi_open eng (lm_env storage) MDV_MAP_NODES"
  obtain obj where obj: "mdv_binn_node mem node = Ret obj"
      "storage' = storage\<lparr>lm_env := mdb_put eng ?d MDV_MAP_NODES (uuid_u8 (nd_uuid node)) (fst (binn_serialized obj))\<rparr>"
    using True assms(4) by (auto simp: mdv_nodes_store_def mdv_transaction_start_def mdv_map_open_def mdv_map_put_def mdv_map_put_impl_def txn_simps
        split: if_splits outcome.splits prod.splits)
  have get: "mdb_get eng (lm_env storage') MDV_MAP_NODES k =
      (if k = uuid_u8 (nd_uuid node) then Some (fst (binn_serialized obj)) else mdb_get eng (lm_env storage) MDV_MAP_NODES k)" for k
    using lmdb_laws_simps [OF assms(1)] by (simp add: obj(2))
  obtain v where v: "binn_load (fst (binn_serialized obj)) = Ret v" "mdv_unbinn_node (Struct v) (nd_uuid node) = Ret node"
    using node_stored [OF obj(1) assms(3)] by blast
  have "uuid_u8 u = uuid_u8 (nd_uuid node) \<longleftrightarrow> u = nd_uuid node" for u using uuid_u8_inverse(1) by metis
  then have m: "nodes_in eng (lm_env storage') = (nodes_in eng (lm_env storage))(nd_uuid node \<mapsto> node)"
    using v by (auto simp: fun_eq_iff nodes_in_def get)
  have "nodes_ok eng (lm_env storage')"
    using assms(2) unfolding nodes_ok_def m mdb_keys_def get by auto
  then show ?thesis using True m obj(2) by simp
qed

section \<open>An environment with the documented order\<close>

lemma find_end_sorted:
  assumes "xs \<noteq> []" "sorted (map le_val xs)" "inj_on le_val (set xs)" "set ks = set xs"
  shows "find_end (\<le>) ks = Some (hd xs)"
proof -
  have e: "case find_end (\<le>) ks of None \<Rightarrow> ks = [] | Some k \<Rightarrow> k \<in> set ks \<and> (\<forall>k' \<in> set ks. le_val k \<le> le_val k')"
    by (rule find_end_at) auto
  moreover have "ks \<noteq> []" using assms(1,4) by auto
  ultimately obtain k where k: "find_end (\<le>) ks = Some k" "k \<in> set ks" "\<forall>k' \<in> set ks. le_val k \<le> le_val k'" by (auto split: option.splits)
  have "le_val (hd xs) \<le> le_val k" using assms(1,2,4) k(2) by (cases xs) auto
  moreover have "le_val k \<le> le_val (hd xs)" using k(3) assms(1,4) by simp
  ultimately have "le_val k = le_val (hd xs)" by simp
  then have "k = hd xs" using assms(1,3,4) k(2) by (auto dest: inj_onD)
  then show ?thesis using k(1) by simp
qed

lemma alist_walks: "walk_laws alist_mdb db"
  unfolding walk_laws_def
proof (intro allI impI)
  fix d n
  assume len: "\<forall>k \<in> mdb_keys alist_mdb d db. length k = n"
  define m where "m = content d db"
  define xs where "xs = sort_key le_val (remdups (map fst m))"
  have keys: "mdb_keys alist_mdb d db = fst ` set m" by (auto simp: mdb_keys_def alist_mdb_def m_def map_of_eq_None_iff)
  have xs: "set xs = fst ` set m" "distinct xs" "sorted (map le_val xs)" by (simp_all add: xs_def)
  have "length k = n" if "k \<in> set xs" for k using that len unfolding keys xs(1) by blast
  then have inj: "inj_on le_val (set xs)" by (intro inj_onI le_bytes_inj) simp_all
  have item: "item_at m (Some k) = Some (k, the (map_of m k))" if "k \<in> set xs" for k
    using that xs(1) by (force simp: item_at_def map_of_eq_None_iff image_iff)
  let ?kvs = "map (\<lambda>k. (k, the (map_of m k))) xs"
  have "map_of ?kvs k = map_of m k" for k
  proof (cases "k \<in> set xs")
    case True
    then show ?thesis using xs(1) by (auto simp: map_of_map_restrict restrict_map_def map_of_eq_None_iff image_iff intro: sym)
  next
    case False
    then have "map_of m k = None" using xs(1) by (simp add: map_of_eq_None_iff)
    then show ?thesis using False by (simp add: map_of_map_restrict restrict_map_def)
  qed
  then have get: "mdb_get alist_mdb d db = map_of ?kvs" by (simp add: alist_mdb_def m_def fun_eq_iff)
  have first: "mdb_cursor_get alist_mdb d db MDV_CURSOR_FIRST [] = (case ?kvs of [] \<Rightarrow> None | kv # _ \<Rightarrow> Some kv)"
  proof (cases xs)
    case Nil
    then have "m = []" using xs(1) by simp
    then show ?thesis using Nil by (simp add: alist_mdb_def m_def item_at_def)
  next
    case (Cons k ks)
    have "find_end (\<le>) (map fst m) = Some (hd xs)" by (rule find_end_sorted [OF _ xs(3) inj]) (use Cons xs(1) in simp_all)
    then have "find_end (\<le>) (map fst m) = Some k" using Cons by simp
    then show ?thesis using Cons item [of k] by (simp add: alist_mdb_def m_def)
  qed
  have strict: "sorted_wrt (\<lambda>a b. le_val a < le_val b) xs"
    using strict_sorted_iff [of "map le_val xs"] xs(2,3) inj by (simp add: sorted_wrt_map distinct_map)
  have "mdb_cursor_get alist_mdb d db MDV_CURSOR_NEXT (xs ! i) = (if Suc i < length xs then Some (?kvs ! Suc i) else None)" if i: "i < length xs" for i
  proof -
    let ?ks = "filter (\<lambda>k'. le_val (xs ! i) < le_val k') (map fst m)" and ?zs = "drop (Suc i) xs"
    have split: "xs = take i xs @ xs ! i # ?zs" using i by (simp add: id_take_nth_drop)
    have "sorted_wrt (\<lambda>a b. le_val a < le_val b) (take i xs @ xs ! i # ?zs)" using strict unfolding split [symmetric] .
    then have "{k \<in> set (take i xs @ xs ! i # ?zs). le_val (xs ! i) < le_val k} = set ?zs"
      by (auto simp: sorted_wrt_append)
    then have ks: "set ?ks = set ?zs" unfolding split [symmetric] using xs(1) by auto
    show ?thesis
    proof (cases "Suc i < length xs")
      case True
      have "sorted (map le_val ?zs)" using sorted_wrt_drop [OF xs(3), of "Suc i"] by (simp add: drop_map)
      moreover have "inj_on le_val (set ?zs)" by (rule inj_on_subset [OF inj set_drop_subset])
      ultimately have "find_end (\<le>) ?ks = Some (xs ! Suc i)"
        using find_end_sorted [of ?zs ?ks] True ks by (simp add: hd_drop_conv_nth)
      then show ?thesis using True item [of "xs ! Suc i"] by (simp add: alist_mdb_def m_def)
    next
      case False
      then have "?ks = []" using ks by simp
      then show ?thesis using False by (simp add: alist_mdb_def m_def item_at_def)
    qed
  qed
  then show "\<exists>kvs. walks alist_mdb d db kvs"
    using get first xs(2) by (intro exI [of _ ?kvs]) (simp add: walks_def comp_def)
qed

section \<open>Properties\<close>

text \<open>
  C38. The storage of the nodes is persistent: \<open>mdv_nodes_store\<close> either binds the UUID to the node or reports an error and
  changes nothing, and gives all references back; afterwards \<open>mdv_nodes_foreach\<close> ends and calls its function for every node
  that has been stored, with its last identifier and address, exactly once.
\<close>

theorem nodes_persistent:
  assumes "lmdb_laws ints eng" "walk_laws eng MDV_MAP_NODES" "nodes_ok eng (lm_env storage)" "wf_node node"
    "mdv_nodes_store eng ok mem storage node = Ret (err, storage')"
  shows "lm_ref_counter storage' = lm_ref_counter storage \<and> nodes_ok eng (lm_env storage') \<and>
    nodes_in eng (lm_env storage') = (if err = MDV_OK then (nodes_in eng (lm_env storage))(nd_uuid node \<mapsto> node) else nodes_in eng (lm_env storage)) \<and>
    (\<exists>nodes storage''. distinct (map nd_uuid nodes) \<and>
       (\<forall>u n. nodes_in eng (lm_env storage') u = Some n \<longleftrightarrow> n \<in> set nodes \<and> nd_uuid n = u) \<and>
       mdv_nodes_foreach eng (\<lambda>_. True) storage' arg fn = Some (Ret (MDV_OK, foldl fn arg nodes, storage'')) \<and>
       nodes_in eng (lm_env storage'') = nodes_in eng (lm_env storage'))"
proof -
  have s: "lm_ref_counter storage' = lm_ref_counter storage \<and> nodes_ok eng (lm_env storage') \<and>
    nodes_in eng (lm_env storage') = (if err = MDV_OK then (nodes_in eng (lm_env storage))(nd_uuid node \<mapsto> node) else nodes_in eng (lm_env storage))"
    using store_ok [OF assms(1,3,4,5)] .
  then have "nodes_ok eng (lm_env storage')" by blast
  from foreach_ok [OF assms(1,2) this, of arg fn] obtain nodes where "node_list (nodes_in eng (lm_env storage')) nodes"
    "mdv_nodes_foreach eng (\<lambda>_. True) storage' arg fn
       = Some (Ret (MDV_OK, foldl fn arg nodes, storage'\<lparr>lm_env := mdb_dbi_open eng (lm_env storage') MDV_MAP_NODES\<rparr>))" .
  then show ?thesis using s nodes_in_open [OF assms(1)] unfolding node_list_def by (auto intro!: exI [of _ nodes])
qed

definition sample_node :: mdv_node where
  "sample_node = \<lparr>nd_uuid = Uuid 1 2, nd_id = 1, nd_addr = [0x61, 0x3A, 0x31]\<rparr>"

theorem nodes_persistent_witness:
  "\<exists>storage nodes storage''. mdv_nodes_store alist_mdb (\<lambda>_. True) (\<lambda>_. True) \<lparr>lm_ref_counter = 1, lm_env = Map.empty\<rparr> sample_node = Ret (MDV_OK, storage) \<and>
     mdv_nodes_foreach alist_mdb (\<lambda>_. True) storage [] (\<lambda>xs n. n # xs) = Some (Ret (MDV_OK, nodes, storage'')) \<and> sample_node \<in> set nodes"
proof -
  let ?s = "\<lparr>lm_ref_counter = 1, lm_env = Map.empty\<rparr> :: alists mdv_lmdb"
  have "case mdv_nodes_store alist_mdb (\<lambda>_. True) (\<lambda>_. True) ?s sample_node of Ret (err, s) \<Rightarrow> err = MDV_OK | _ \<Rightarrow> False" by code_simp
  then obtain storage where 1: "mdv_nodes_store alist_mdb (\<lambda>_. True) (\<lambda>_. True) ?s sample_node = Ret (MDV_OK, storage)"
    by (auto split: outcome.splits)
  have 2: "nodes_ok alist_mdb (lm_env ?s)" by (simp add: nodes_ok_def mdb_keys_def alist_mdb_def content_def)
  have 3: "wf_node sample_node" by code_simp
  have fold: "foldl (\<lambda>xs n. n # xs) ys nodes = rev nodes @ ys" for ys nodes :: "mdv_node list" by (induction nodes arbitrary: ys) auto
  from nodes_persistent [OF alist_laws alist_walks 2 3 1, of "[]" "\<lambda>xs n. n # xs"]
  obtain nodes storage'' where "nodes_in alist_mdb (lm_env storage) (nd_uuid sample_node) = Some sample_node"
      "\<forall>u n. nodes_in alist_mdb (lm_env storage) u = Some n \<longleftrightarrow> n \<in> set nodes \<and> nd_uuid n = u"
      "mdv_nodes_foreach alist_mdb (\<lambda>_. True) storage [] (\<lambda>xs n. n # xs) = Some (Ret (MDV_OK, rev nodes, storage''))"
    by (auto simp: fold)
  then show ?thesis using 1 by fastforce
qed

end
