(* ===== verification/Mdv_Tracker.thy ===== *)
theory Mdv_Tracker
  imports Mdv_Nodes "HOL-Library.Multiset"
begin

text \<open>
  The tracker of src/mdv_core/mdv_tracker.c: the known nodes, the links between them, and the handlers of the events about
  links, topologies and broadcasts.

  A hash map is the list of its items; an iteration goes through them in an unknown order, which is a parameter. The functions
  run under the mutexes of the tracker; locking a mutex that has been created succeeds. Events that are published are part of
  the result. Outcomes of allocations and of calls of LMDB are parameters.
\<close>

section \<open>The code\<close>

definition MDV_LOCAL_ID :: u32 where
  "MDV_LOCAL_ID = 0"

record mdv_tracker_link =
  lk_id0 :: u32
  lk_id1 :: u32
  lk_weight :: u32

text \<open>The map \<open>ids\<close> has pointers to entries of the map \<open>nodes\<close>, named here by the key of the entry.\<close>

record 'd mdv_tracker =
  tr_rc :: u32
  tr_uuid :: mdv_uuid
  tr_max_id :: u32
  tr_storage :: "'d mdv_lmdb"
  tr_nodes :: "mdv_node list"
  tr_ids :: "(u32 \<times> mdv_uuid) list"
  tr_links :: "mdv_tracker_link list"

text \<open>The orders in which the hash maps are iterated.\<close>

record hash_orders =
  ho_nodes :: "mdv_node list \<Rightarrow> mdv_node list"
  ho_index :: "(u32 \<times> mdv_node) list \<Rightarrow> (u32 \<times> mdv_node) list"
  ho_links :: "mdv_tracker_link list \<Rightarrow> mdv_tracker_link list"

text \<open>The outcomes of the calls of LMDB, of the allocations of a container and of those of the hash maps.\<close>

record schedule =
  sc_lmdb :: "nat \<Rightarrow> bool"
  sc_binn :: "nat \<Rightarrow> bool"
  sc_hash :: "nat \<Rightarrow> bool"

text \<open>
  \<open>mdv_hashmap_insert\<close> as the clients see it: the map may have to grow, then the item with the same key is removed and the new
  one is allocated. A failed allocation loses the old item.
\<close>

definition hash_put :: "(nat \<Rightarrow> bool) \<Rightarrow> nat \<Rightarrow> ('a \<Rightarrow> 'k) \<Rightarrow> 'a \<Rightarrow> 'a list \<Rightarrow> 'a list \<times> bool" where
  "hash_put mem i key x xs =
     (if \<not> mem i then (xs, False)
      else let xs = filter (\<lambda>y. key y \<noteq> key x) xs in if mem (i + 1) then (xs @ [x], True) else (xs, False))"

definition hash_erase :: "('a \<Rightarrow> 'k) \<Rightarrow> 'k \<Rightarrow> 'a list \<Rightarrow> 'a list" where
  "hash_erase key k xs = filter (\<lambda>y. key y \<noteq> k) xs"

definition hash_find :: "('a \<Rightarrow> 'k) \<Rightarrow> 'k \<Rightarrow> 'a list \<Rightarrow> 'a option" where
  "hash_find key k xs = List.find (\<lambda>y. key y = k) xs"

text \<open>Links are compared by the unordered pair of their ends.\<close>

definition link_ends :: "mdv_tracker_link \<Rightarrow> u32 \<times> u32" where
  "link_ends link = (if lk_id0 link < lk_id1 link then (lk_id0 link, lk_id1 link) else (lk_id1 link, lk_id0 link))"

definition mdv_tracker_link_cmp :: "mdv_tracker_link \<Rightarrow> mdv_tracker_link \<Rightarrow> int" where
  "mdv_tracker_link_cmp link1 link2 =
     (case (link_ends link1, link_ends link2) of ((a1, b1), (a2, b2)) \<Rightarrow>
        if a1 < a2 then -1 else if a1 > a2 then 1 else if b1 < b2 then -1 else if b1 > b2 then 1 else 0)"

definition mdv_tracker_link_hash :: "mdv_tracker_link \<Rightarrow> u64" where
  "mdv_tracker_link_hash link =
     (case link_ends link of (a, b) \<Rightarrow>
        let FNV_offset_basis = 0x811c9dc5; FNV_prime = 0x01000193;
            hash = (FNV_offset_basis * FNV_prime) XOR ucast a
        in (hash * FNV_prime) XOR ucast b)"

definition mdv_tracker_insert :: "(nat \<Rightarrow> bool) \<Rightarrow> 'd mdv_tracker \<Rightarrow> mdv_node \<Rightarrow> 'd mdv_tracker \<times> bool" where
  "mdv_tracker_insert mem tracker node =
     (case hash_put mem 0 nd_uuid node (tr_nodes tracker) of
        (nodes, False) \<Rightarrow> (tracker\<lparr>tr_nodes := nodes\<rparr>, False)
      | (nodes, True) \<Rightarrow>
          (case hash_put mem 2 fst (nd_id node, nd_uuid node) (tr_ids tracker) of
             (ids, True) \<Rightarrow> (tracker\<lparr>tr_nodes := nodes, tr_ids := ids\<rparr>, True)
           | (ids, False) \<Rightarrow> (tracker\<lparr>tr_nodes := hash_erase nd_uuid (nd_uuid node) nodes, tr_ids := ids\<rparr>, False)))"

definition mdv_tracker_erase :: "'d mdv_tracker \<Rightarrow> mdv_node \<Rightarrow> 'd mdv_tracker" where
  "mdv_tracker_erase tracker node =
     tracker\<lparr>tr_ids := hash_erase fst (nd_id node) (tr_ids tracker), tr_nodes := hash_erase nd_uuid (nd_uuid node) (tr_nodes tracker)\<rparr>"

definition mdv_tracker_find :: "'d mdv_tracker \<Rightarrow> mdv_uuid \<Rightarrow> mdv_node option" where
  "mdv_tracker_find tracker uuid = hash_find nd_uuid uuid (tr_nodes tracker)"

definition mdv_tracker_new_id :: "'d mdv_tracker \<Rightarrow> u32 \<times> 'd mdv_tracker" where
  "mdv_tracker_new_id tracker = (tr_max_id tracker + 1, tracker\<lparr>tr_max_id := tr_max_id tracker + 1\<rparr>)"

definition mdv_tracker_id_maximize :: "'d mdv_tracker \<Rightarrow> u32 \<Rightarrow> 'd mdv_tracker" where
  "mdv_tracker_id_maximize tracker node_id = (if node_id > tr_max_id tracker then tracker\<lparr>tr_max_id := node_id\<rparr> else tracker)"

text \<open>
  Loading: the node itself with the configured address, then the nodes of the storage; \<open>mem i\<close> serves the insertion number
  \<open>i\<close>.
\<close>

definition load_node :: "(nat \<Rightarrow> nat \<Rightarrow> bool) \<Rightarrow> nat \<times> 'd mdv_tracker \<Rightarrow> mdv_node \<Rightarrow> nat \<times> 'd mdv_tracker" where
  "load_node mem arg node = (case arg of (i, tracker) \<Rightarrow> (i + 1, fst (mdv_tracker_insert (mem i) tracker node)))"

definition mdv_tracker_load ::
  "'d mdb \<Rightarrow> (nat \<Rightarrow> bool) \<Rightarrow> (nat \<Rightarrow> nat \<Rightarrow> bool) \<Rightarrow> bytes \<Rightarrow> 'd mdv_tracker \<Rightarrow> (mdv_errno \<times> 'd mdv_tracker) outcome option" where
  "mdv_tracker_load eng ok mem listen tracker =
     (case mdv_node_init (tr_uuid tracker) MDV_LOCAL_ID listen of
        None \<Rightarrow> Some (Ret (MDV_FAILED, tracker))
      | Some node \<Rightarrow>
          (case mdv_tracker_insert (mem 0) (mdv_tracker_id_maximize tracker (nd_id node)) node of
             (tracker, False) \<Rightarrow> Some (Ret (MDV_FAILED, tracker))
           | (tracker, True) \<Rightarrow>
               map_option (\<lambda>r. obind r (\<lambda>(err, (_, tracker), storage). Ret (err, tracker\<lparr>tr_storage := storage\<rparr>)))
                 (mdv_nodes_foreach eng ok (tr_storage tracker) (1, tracker) (load_node mem))))"

text \<open>
  \<open>al\<close> are the outcomes of the allocations of the tracker, of its three maps and its two mutexes, and of the subscription to
  the bus. On failure everything is given back; the storage is part of the result.
\<close>

definition mdv_tracker_create ::
  "'d mdb \<Rightarrow> (nat \<Rightarrow> bool) \<Rightarrow> (nat \<Rightarrow> bool) \<Rightarrow> (nat \<Rightarrow> nat \<Rightarrow> bool) \<Rightarrow> bytes \<Rightarrow> mdv_uuid \<Rightarrow> 'd mdv_lmdb \<Rightarrow>
     ('d mdv_tracker option \<times> 'd mdv_lmdb) outcome option" where
  "mdv_tracker_create eng al ok mem listen uuid storage =
     (if \<not> (al 0 \<and> al 1 \<and> al 2 \<and> al 3 \<and> al 4 \<and> al 5) then Some (Ret (None, storage))
      else map_option (\<lambda>r. obind r (\<lambda>(err, tracker).
             if err \<noteq> MDV_OK \<or> \<not> al 6 then Ret (None, storage_released (tr_storage tracker)) else Ret (Some tracker, tr_storage tracker)))
        (mdv_tracker_load eng ok mem listen \<lparr>tr_rc = 1, tr_uuid = uuid, tr_max_id = 0, tr_storage = mdv_storage_retain storage,
           tr_nodes = [], tr_ids = [], tr_links = []\<rparr>))"

definition mdv_tracker_retain :: "'d mdv_tracker \<Rightarrow> 'd mdv_tracker" where
  "mdv_tracker_retain tracker = tracker\<lparr>tr_rc := tr_rc tracker + 1\<rparr>"

text \<open>The tracker after the call, unless it has been freed, and the storage.\<close>

definition mdv_tracker_release :: "'d mdv_tracker \<Rightarrow> 'd mdv_tracker option \<times> 'd mdv_lmdb" where
  "mdv_tracker_release tracker =
     (if tr_rc tracker = 1 then (None, storage_released (tr_storage tracker))
      else (Some (tracker\<lparr>tr_rc := tr_rc tracker - 1\<rparr>), tr_storage tracker))"

text \<open>An error when the new address of a known node is stored is ignored.\<close>

definition mdv_tracker_register ::
  "'d mdb \<Rightarrow> schedule \<Rightarrow> 'd mdv_tracker \<Rightarrow> mdv_uuid \<Rightarrow> bytes \<Rightarrow> (mdv_errno \<times> 'd mdv_tracker) outcome" where
  "mdv_tracker_register eng s tracker uuid addr =
     (let insert_node = (\<lambda>tracker node.
        case mdv_tracker_insert (sc_hash s) tracker node of (tracker, ok) \<Rightarrow> Ret (if ok then MDV_OK else MDV_FAILED, tracker))
      in case mdv_tracker_find tracker uuid of
        Some node \<Rightarrow>
          if addr \<noteq> nd_addr node then
            (case mdv_node_init uuid (nd_id node) addr of
               None \<Rightarrow> Ret (MDV_FAILED, tracker)
             | Some new_node \<Rightarrow>
                 obind (mdv_nodes_store eng (sc_lmdb s) (sc_binn s) (tr_storage tracker) new_node) (\<lambda>(_, storage).
                   insert_node (tracker\<lparr>tr_storage := storage\<rparr>) new_node))
          else Ret (MDV_OK, tracker)
      | None \<Rightarrow>
          (case mdv_tracker_new_id tracker of (node_id, tracker) \<Rightarrow>
             (case mdv_node_init uuid node_id addr of
                None \<Rightarrow> Ret (MDV_FAILED, tracker)
              | Some new_node \<Rightarrow>
                  obind (mdv_nodes_store eng (sc_lmdb s) (sc_binn s) (tr_storage tracker) new_node) (\<lambda>(err, storage).
                    if err = MDV_OK then insert_node (tracker\<lparr>tr_storage := storage\<rparr>) new_node
                    else Ret (err, tracker\<lparr>tr_storage := storage\<rparr>)))))"

definition mdv_tracker_linkstate2 :: "(nat \<Rightarrow> bool) \<Rightarrow> 'd mdv_tracker \<Rightarrow> mdv_tracker_link \<Rightarrow> bool \<Rightarrow> mdv_errno \<times> 'd mdv_tracker" where
  "mdv_tracker_linkstate2 mem tracker link conn =
     (if conn then
        (case hash_put mem 0 link_ends link (tr_links tracker) of (links, ok) \<Rightarrow>
           (if ok then MDV_OK else MDV_NO_MEM, tracker\<lparr>tr_links := links\<rparr>))
      else (MDV_OK, tracker\<lparr>tr_links := hash_erase link_ends (link_ends link) (tr_links tracker)\<rparr>))"

definition mdv_tracker_node_identifiers :: "'d mdv_tracker \<Rightarrow> mdv_uuid \<Rightarrow> mdv_uuid \<Rightarrow> (u32 \<times> u32) option" where
  "mdv_tracker_node_identifiers tracker peer_1 peer_2 =
     (let ident = (\<lambda>peer. if mdv_uuid_cmp peer (tr_uuid tracker) \<noteq> 0 then map_option nd_id (mdv_tracker_find tracker peer) else Some MDV_LOCAL_ID)
      in case ident peer_1 of None \<Rightarrow> None | Some id0 \<Rightarrow> map_option (Pair id0) (ident peer_2))"

definition mdv_tracker_linkstate_add ::
  "(nat \<Rightarrow> bool) \<Rightarrow> 'd mdv_tracker \<Rightarrow> mdv_uuid \<Rightarrow> mdv_uuid \<Rightarrow> bool \<Rightarrow> u32 \<Rightarrow> mdv_errno \<times> 'd mdv_tracker" where
  "mdv_tracker_linkstate_add mem tracker peer_1 peer_2 conn weight =
     (case mdv_tracker_node_identifiers tracker peer_1 peer_2 of
        None \<Rightarrow> (MDV_FAILED, tracker)
      | Some (id0, id1) \<Rightarrow> mdv_tracker_linkstate2 mem tracker \<lparr>lk_id0 = id0, lk_id1 = id1, lk_weight = weight\<rparr> conn)"

definition mdv_tracker_linkstate_get :: "'d mdv_tracker \<Rightarrow> mdv_uuid \<Rightarrow> mdv_uuid \<Rightarrow> mdv_errno \<times> bool" where
  "mdv_tracker_linkstate_get tracker peer_1 peer_2 =
     (case mdv_tracker_node_identifiers tracker peer_1 peer_2 of
        None \<Rightarrow> (MDV_OK, False)
      | Some (id0, id1) \<Rightarrow>
          (MDV_OK, hash_find link_ends (link_ends \<lparr>lk_id0 = id0, lk_id1 = id1, lk_weight = 0\<rparr>) (tr_links tracker) \<noteq> None))"

text \<open>
  Registration of the nodes and links of a difference; \<open>s i\<close> are the outcomes for node \<open>i\<close>, \<open>mem i\<close> those for link \<open>i\<close>.
  The loops stop at the first failure.
\<close>

fun register_nodes ::
  "'d mdb \<Rightarrow> (nat \<Rightarrow> schedule) \<Rightarrow> nat \<Rightarrow> mdv_toponode list \<Rightarrow> 'd mdv_tracker \<Rightarrow> (bool \<times> 'd mdv_tracker) outcome" where
  "register_nodes eng s i [] tracker = Ret (True, tracker)"
| "register_nodes eng s i (toponode # nodes) tracker =
     obind (mdv_tracker_register eng (s i) tracker (tn_uuid toponode) (key_bytes (tn_addr toponode))) (\<lambda>(err, tracker).
       if err \<noteq> MDV_OK then Ret (False, tracker) else register_nodes eng s (i + 1) nodes tracker)"

fun register_links ::
  "(nat \<Rightarrow> nat \<Rightarrow> bool) \<Rightarrow> nat \<Rightarrow> mdv_toponode list \<Rightarrow> mdv_topolink list \<Rightarrow> 'd mdv_tracker \<Rightarrow> bool \<times> 'd mdv_tracker" where
  "register_links mem i nodes [] tracker = (True, tracker)"
| "register_links mem i nodes (topolink # links) tracker =
     (if tl_node0 topolink < length nodes \<and> tl_node1 topolink < length nodes then
        (case mdv_tracker_linkstate_add (mem i) tracker (tn_uuid (nodes ! tl_node0 topolink)) (tn_uuid (nodes ! tl_node1 topolink))
                True (tl_weight topolink) of
           (err, tracker) \<Rightarrow> if err \<noteq> MDV_OK then (False, tracker) else register_links mem (i + 1) nodes links tracker)
      else (False, tracker))"

definition mdv_tracker_topodiff_add ::
  "'d mdb \<Rightarrow> (nat \<Rightarrow> schedule) \<Rightarrow> (nat \<Rightarrow> nat \<Rightarrow> bool) \<Rightarrow> 'd mdv_tracker \<Rightarrow> mdv_topology \<Rightarrow> (mdv_errno \<times> 'd mdv_tracker) outcome" where
  "mdv_tracker_topodiff_add eng s mem tracker diff =
     obind (register_nodes eng s 0 (tp_nodes diff) tracker) (\<lambda>(ok, tracker).
       if \<not> ok then Ret (MDV_FAILED, tracker)
       else case register_links mem 0 (tp_nodes diff) (tp_links diff) tracker of (ok, tracker) \<Rightarrow>
         Ret (if ok then MDV_OK else MDV_FAILED, tracker))"

definition mdv_tracker_links_count :: "'d mdv_tracker \<Rightarrow> nat" where
  "mdv_tracker_links_count tracker = length (tr_links tracker)"

text \<open>The vector of the links; null when it cannot be allocated.\<close>

definition mdv_tracker_links :: "hash_orders \<Rightarrow> bool \<Rightarrow> 'd mdv_tracker \<Rightarrow> mdv_tracker_link list option" where
  "mdv_tracker_links orders mem tracker = (if tr_links tracker = [] \<or> mem then Some (ho_links orders (tr_links tracker)) else None)"

text \<open>
  The nodes by their local identifiers. A node that cannot be inserted is only reported in the log. The capacity of the map is
  the largest identifier plus one in 32 bits; inserting into a map of capacity zero divides by zero.
\<close>

fun index_loop :: "(nat \<Rightarrow> bool) \<Rightarrow> nat \<Rightarrow> mdv_node list \<Rightarrow> (u32 \<times> mdv_node) list \<Rightarrow> (u32 \<times> mdv_node) list" where
  "index_loop mem i [] index = index"
| "index_loop mem i (node # nodes) index = index_loop mem (i + 2) nodes (fst (hash_put mem i fst (nd_id node, node) index))"

definition mdv_tracker_nodes :: "hash_orders \<Rightarrow> (nat \<Rightarrow> bool) \<Rightarrow> 'd mdv_tracker \<Rightarrow> (u32 \<times> mdv_node) list option outcome" where
  "mdv_tracker_nodes orders mem tracker =
     (if \<not> mem 0 then Ret None
      else if tr_max_id tracker + 1 = 0 \<and> tr_nodes tracker \<noteq> [] then UB
      else Ret (Some (index_loop mem 1 (ho_nodes orders (tr_nodes tracker)) [])))"

definition mdv_topology_extra_size :: "(u32 \<times> mdv_node) list \<Rightarrow> nat" where
  "mdv_topology_extra_size nodes = sum_list (map (\<lambda>(_, node). length (nd_addr node) + 1) nodes)"

definition topology_node :: "u32 \<times> mdv_node \<Rightarrow> mdv_toponode" where
  "topology_node entry = \<lparr>tn_uuid = nd_uuid (snd entry), tn_id = unat (fst entry), tn_addr = bytes_string (nd_addr (snd entry))\<rparr>"

fun node_idx :: "(u32 \<times> mdv_node) list \<Rightarrow> u32 \<Rightarrow> nat option" where
  "node_idx [] node_id = None"
| "node_idx (entry # nodes) node_id = (if fst entry = node_id then Some 0 else map_option Suc (node_idx nodes node_id))"

text \<open>A link to a node that is not in the map is read through a null pointer.\<close>

definition tracker_topolink :: "(u32 \<times> mdv_node) list \<Rightarrow> mdv_tracker_link \<Rightarrow> mdv_topolink option" where
  "tracker_topolink nodes link =
     (case (node_idx nodes (lk_id0 link), node_idx nodes (lk_id1 link)) of
        (Some i, Some j) \<Rightarrow> Some \<lparr>tl_node0 = i, tl_node1 = j, tl_weight = lk_weight link\<rparr>
      | _ \<Rightarrow> None)"

definition mdv_tracker_topology :: "hash_orders \<Rightarrow> (nat \<Rightarrow> bool) \<Rightarrow> (nat \<Rightarrow> bool) \<Rightarrow> 'd mdv_tracker \<Rightarrow> topology_ptr outcome" where
  "mdv_tracker_topology orders mem imem tracker =
     obind (mdv_tracker_nodes orders imem tracker) (\<lambda>r.
       case r of None \<Rightarrow> Ret Null_topology
       | Some nodes \<Rightarrow>
           (case mdv_tracker_links orders (mem 0) tracker of None \<Rightarrow> Ret Null_topology
            | Some links \<Rightarrow>
                let nodes = ho_index orders nodes in
                if (nodes \<noteq> [] \<and> \<not> mem 1) \<or> (links \<noteq> [] \<and> \<not> mem 2) \<or> (mdv_topology_extra_size nodes \<noteq> 0 \<and> \<not> mem 3) then Ret Null_topology
                else
                  let toponodes = map topology_node nodes;
                      extradata = concat (map (\<lambda>node. tn_addr node @ [CHR 0x00]) toponodes)
                  in case those (map (tracker_topolink nodes) links) of None \<Rightarrow> UB
                     | Some topolinks \<Rightarrow>
                         (case mdv_topology_create (\<lambda>i. mem (i + 4)) toponodes topolinks extradata of
                            None \<Rightarrow> UB
                          | Some topology \<Rightarrow> Ret topology)))"

section \<open>Events\<close>

record mdv_evt_link_state =
  el_from :: mdv_uuid
  el_src :: mdv_uuid
  el_src_addr :: bytes
  el_dst :: mdv_uuid
  el_dst_addr :: bytes
  el_connected :: bool

record mdv_evt_topology_sync =
  es_from :: mdv_uuid
  es_to :: mdv_uuid
  es_topology :: mdv_topology

record mdv_evt_broadcast =
  eb_from :: mdv_uuid
  eb_msg_id :: u16
  eb_data :: bytes
  eb_notified :: "mdv_uuid list"

record mdv_evt_broadcast_post =
  ep_msg_id :: u16
  ep_data :: bytes
  ep_notified :: "mdv_uuid list"
  ep_peers :: "mdv_uuid list"

datatype tracker_evt =
    Evt_topology mdv_topology
  | Evt_topology_sync mdv_evt_topology_sync
  | Evt_broadcast_post mdv_evt_broadcast_post

text \<open>Creating and publishing an event: no memory for it (\<open>None\<close>), or the result of the bus.\<close>

definition publish :: "mdv_errno option \<Rightarrow> 'e \<Rightarrow> mdv_errno \<times> 'e list" where
  "publish r evt = (case r of None \<Rightarrow> (MDV_NO_MEM, []) | Some err \<Rightarrow> (err, if err = MDV_OK then [evt] else []))"

text \<open>The outcomes of the allocations for a topology and its index, for its neighbours, and for a message.\<close>

record topology_mem =
  tm_topology :: "nat \<Rightarrow> bool"
  tm_index :: "nat \<Rightarrow> bool"
  tm_peers :: "nat \<Rightarrow> bool"
  tm_binn :: "nat \<Rightarrow> nat \<Rightarrow> bool"
  tm_hash :: "nat \<Rightarrow> bool"

text \<open>A topology that was computed, and the notification about it; a failure to notify is not reported.\<close>

definition mdv_tracker_topology_changed ::
  "hash_orders \<Rightarrow> topology_mem \<Rightarrow> mdv_errno option \<Rightarrow> 'd mdv_tracker \<Rightarrow> (mdv_topology \<times> tracker_evt list) option outcome" where
  "mdv_tracker_topology_changed orders m pub tracker =
     obind (mdv_tracker_topology orders (tm_topology m) (tm_index m) tracker) (\<lambda>p.
       case p of Topology topology \<Rightarrow> Ret (Some (topology, snd (publish pub (Evt_topology topology)))) | _ \<Rightarrow> Ret None)"

definition mdv_tracker_linkstate_broadcast ::
  "topology_mem \<Rightarrow> mdv_errno option \<Rightarrow> 'd mdv_tracker \<Rightarrow> mdv_topology \<Rightarrow> mdv_uuid \<Rightarrow> mdv_uuid \<Rightarrow> bool \<Rightarrow> (mdv_errno \<times> tracker_evt list) outcome" where
  "mdv_tracker_linkstate_broadcast m pub tracker topology src dst conn =
     (case mdv_topology_peers (tm_peers m) topology (tr_uuid tracker) of
        None \<Rightarrow> UB
      | Some None \<Rightarrow> Ret (MDV_FAILED, [])
      | Some (Some peers) \<Rightarrow>
          (case mdv_binn_p2p_linkstate (tm_binn m 0) \<lparr>ls_src = src, ls_dst = dst, ls_connected = conn\<rparr> of
             UB \<Rightarrow> UB
           | Fail \<Rightarrow> Ret (MDV_FAILED, [])
           | Ret obj \<Rightarrow>
               Ret (publish pub (Evt_broadcast_post \<lparr>ep_msg_id = 1002, ep_data = fst (binn_serialized obj), ep_notified = peers, ep_peers = peers\<rparr>))))"

text \<open>
  The handler of a link state: both nodes are registered, then the link, and the topology is announced. When the link is one
  of this node, a new neighbour gets the topology, and a lost one is broadcast.
\<close>

definition announce_link ::
  "hash_orders \<Rightarrow> topology_mem \<Rightarrow> (nat \<Rightarrow> mdv_errno option) \<Rightarrow> 'd mdv_tracker \<Rightarrow> mdv_evt_link_state \<Rightarrow> (mdv_errno \<times> tracker_evt list) outcome" where
  "announce_link orders m pub tracker evt =
     obind (mdv_tracker_topology_changed orders m (pub 0) tracker) (\<lambda>r.
       case r of None \<Rightarrow> Ret (MDV_FAILED, [])
       | Some (topology, evts) \<Rightarrow>
           if mdv_uuid_cmp (tr_uuid tracker) (el_from evt) = 0 \<and> mdv_uuid_cmp (tr_uuid tracker) (el_src evt) = 0 then
             if el_connected evt then
               (case publish (pub 1) (Evt_topology_sync \<lparr>es_from = tr_uuid tracker, es_to = el_dst evt, es_topology = topology\<rparr>) of
                  (err, sync) \<Rightarrow> Ret (if err = MDV_OK then MDV_OK else MDV_FAILED, evts @ sync))
             else
               obind (mdv_tracker_linkstate_broadcast m (pub 1) tracker topology (el_src evt) (el_dst evt) (el_connected evt)) (\<lambda>(err, post).
                 Ret (err, evts @ post))
           else Ret (MDV_OK, evts))"

definition mdv_tracker_evt_link_state ::
  "'d mdb \<Rightarrow> hash_orders \<Rightarrow> (nat \<Rightarrow> schedule) \<Rightarrow> topology_mem \<Rightarrow> (nat \<Rightarrow> mdv_errno option) \<Rightarrow> 'd mdv_tracker \<Rightarrow> mdv_evt_link_state \<Rightarrow>
     (mdv_errno \<times> 'd mdv_tracker \<times> tracker_evt list) outcome" where
  "mdv_tracker_evt_link_state eng orders s m pub tracker evt =
     obind (mdv_tracker_register eng (s 0) tracker (el_src evt) (el_src_addr evt)) (\<lambda>(err, tracker).
     if err \<noteq> MDV_OK then Ret (err, tracker, []) else
     obind (mdv_tracker_register eng (s 1) tracker (el_dst evt) (el_dst_addr evt)) (\<lambda>(err, tracker).
     if err \<noteq> MDV_OK then Ret (err, tracker, []) else
     case mdv_tracker_linkstate_add (sc_hash (s 2)) tracker (el_src evt) (el_dst evt) (el_connected evt) 1 of (err, tracker) \<Rightarrow>
     if err \<noteq> MDV_OK then Ret (err, tracker, []) else
     obind (announce_link orders m pub tracker evt) (\<lambda>(err, evts). Ret (err, tracker, evts))))"

definition mdv_tracker_evt_link_check :: "'d mdv_tracker \<Rightarrow> mdv_uuid \<Rightarrow> mdv_uuid \<Rightarrow> mdv_errno \<times> bool" where
  "mdv_tracker_evt_link_check tracker src dst = mdv_tracker_linkstate_get tracker src dst"

text \<open>The insertion of UUIDs into a hash set; \<open>False\<close> when an allocation fails.\<close>

fun insert_uuids :: "(nat \<Rightarrow> bool) \<Rightarrow> nat \<Rightarrow> mdv_uuid list \<Rightarrow> mdv_uuid list \<Rightarrow> mdv_uuid list \<times> bool" where
  "insert_uuids mem i [] hs = (hs, True)"
| "insert_uuids mem i (uuid # uuids) hs =
     (case hash_put mem i id uuid hs of (hs, False) \<Rightarrow> (hs, False) | (hs, True) \<Rightarrow> insert_uuids mem (i + 2) uuids hs)"

text \<open>A difference is sent to the neighbours in the own segment, or to the node at the other end of the new link.\<close>

definition mdv_tracker_topology_broadcast ::
  "topology_mem \<Rightarrow> mdv_errno option \<Rightarrow> mdv_uuid \<Rightarrow> bool \<Rightarrow> mdv_topology \<Rightarrow> mdv_uuid list \<Rightarrow> (mdv_errno \<times> tracker_evt list) outcome" where
  "mdv_tracker_topology_broadcast m pub segment_gw current_segment diff peers =
     (if \<not> tm_hash m 0 then Ret (MDV_NO_MEM, [])
      else case insert_uuids (tm_hash m) 1 (if current_segment then filter (\<lambda>u. mdv_uuid_cmp u segment_gw \<noteq> 0) peers else [segment_gw]) [] of
        (dst, False) \<Rightarrow> Ret (MDV_NO_MEM, [])
      | (dst, True) \<Rightarrow>
          (case mdv_binn_p2p_topodiff (tm_binn m) diff of
             UB \<Rightarrow> UB
           | Fail \<Rightarrow> Ret (MDV_FAILED, [])
           | Ret obj \<Rightarrow>
               Ret (publish pub (Evt_broadcast_post \<lparr>ep_msg_id = 1004, ep_data = fst (binn_serialized obj), ep_notified = peers, ep_peers = dst\<rparr>))))"

text \<open>
  The handler of the topology of a new neighbour: the own segment gets the difference with the other one, and the neighbour
  the difference the other way round. \<open>md i\<close> are the allocations of difference \<open>i\<close>, \<open>m i\<close> those of its broadcast.
\<close>

definition sync_difference ::
  "(nat \<Rightarrow> bool) \<Rightarrow> topology_mem \<Rightarrow> mdv_errno option \<Rightarrow> mdv_topology \<Rightarrow> mdv_uuid \<Rightarrow> mdv_topology \<Rightarrow> mdv_uuid \<Rightarrow>
     mdv_uuid \<Rightarrow> bool \<Rightarrow> mdv_uuid list \<Rightarrow> (mdv_errno \<times> tracker_evt list) outcome" where
  "sync_difference md m pub a nodea b nodeb segment_gw current_segment peers =
     (case mdv_topology_diff md a nodea b nodeb of
        None \<Rightarrow> UB
      | Some (Topology diff) \<Rightarrow> mdv_tracker_topology_broadcast m pub segment_gw current_segment diff peers
      | Some _ \<Rightarrow> Ret (MDV_OK, []))"

definition mdv_tracker_evt_topology_sync ::
  "hash_orders \<Rightarrow> (nat \<Rightarrow> nat \<Rightarrow> bool) \<Rightarrow> (nat \<Rightarrow> topology_mem) \<Rightarrow> (nat \<Rightarrow> mdv_errno option) \<Rightarrow> 'd mdv_tracker \<Rightarrow> mdv_evt_topology_sync \<Rightarrow>
     (mdv_errno \<times> tracker_evt list) outcome" where
  "mdv_tracker_evt_topology_sync orders md m pub tracker evt =
     (if mdv_uuid_cmp (tr_uuid tracker) (es_to evt) \<noteq> 0 then Ret (MDV_OK, [])
      else obind (mdv_tracker_topology orders (tm_topology (m 0)) (tm_index (m 0)) tracker) (\<lambda>p.
        case p of
          Topology topology \<Rightarrow>
            (case mdv_topology_peers (tm_peers (m 0)) topology (tr_uuid tracker) of
               None \<Rightarrow> UB
             | Some None \<Rightarrow> Ret (MDV_FAILED, [])
             | Some (Some peers) \<Rightarrow>
                 (case hash_put (tm_hash (m 0)) 0 id (tr_uuid tracker) peers of
                    (peers, False) \<Rightarrow> Ret (MDV_FAILED, [])
                  | (peers, True) \<Rightarrow>
                      obind (sync_difference (md 1) (m 1) (pub 0) (es_topology evt) (es_from evt) topology (es_to evt) (es_from evt) True peers) (\<lambda>(err1, evts1).
                      obind (sync_difference (md 2) (m 2) (pub 1) topology (es_to evt) (es_topology evt) (es_from evt) (es_from evt) False peers) (\<lambda>(err2, evts2).
                        Ret (if err2 \<noteq> MDV_OK then err2 else err1, evts1 @ evts2)))))
        | _ \<Rightarrow> Ret (MDV_FAILED, [])))"

text \<open>The application of a broadcast message, and whether the topology has changed by it.\<close>

definition apply_broadcast ::
  "'d mdb \<Rightarrow> (nat \<Rightarrow> schedule) \<Rightarrow> (nat \<Rightarrow> nat \<Rightarrow> bool) \<Rightarrow> (nat \<Rightarrow> bool) \<Rightarrow> 'd mdv_tracker \<Rightarrow> mdv_evt_broadcast \<Rightarrow> ('d mdv_tracker \<times> bool) outcome" where
  "apply_broadcast eng s mem dmem tracker evt =
     (case binn_load (eb_data evt) of
        UB \<Rightarrow> UB
      | Fail \<Rightarrow> Ret (tracker, False)
      | Ret binn_msg \<Rightarrow>
          if eb_msg_id evt = 1004 then
            (case mdv_unbinn_p2p_topodiff dmem (Struct binn_msg) of
               UB \<Rightarrow> UB
             | Fail \<Rightarrow> Ret (tracker, False)
             | Ret Null_topology \<Rightarrow> Ret (tracker, False)
             | Ret p \<Rightarrow>
                 obind (mdv_tracker_topodiff_add eng s mem tracker (case p of Topology diff \<Rightarrow> diff | _ \<Rightarrow> mdv_empty_topology)) (\<lambda>(err, tracker).
                   Ret (tracker, err = MDV_OK)))
          else if eb_msg_id evt = 1002 then
            (case mdv_unbinn_p2p_linkstate (Struct binn_msg) of
               UB \<Rightarrow> UB
             | Fail \<Rightarrow> Ret (tracker, False)
             | Ret linkstate \<Rightarrow>
                 (case mdv_tracker_linkstate_add (mem 0) tracker (ls_src linkstate) (ls_dst linkstate) (ls_connected linkstate) 1 of
                    (err, tracker) \<Rightarrow> Ret (tracker, err = MDV_OK)))
          else Ret (tracker, False))"

text \<open>
  The handler of a broadcast: the message is applied and goes on to the neighbours that have not been notified; they are added
  to the notified nodes.
\<close>

definition forward_broadcast ::
  "topology_mem \<Rightarrow> mdv_errno option \<Rightarrow> 'd mdv_tracker \<Rightarrow> mdv_topology \<Rightarrow> mdv_evt_broadcast \<Rightarrow> (mdv_errno \<times> tracker_evt list) outcome" where
  "forward_broadcast m pub tracker topology evt =
     (case mdv_topology_peers (tm_peers m) topology (tr_uuid tracker) of
        None \<Rightarrow> UB
      | Some None \<Rightarrow> Ret (MDV_FAILED, [])
      | Some (Some peers) \<Rightarrow>
          let peers = fold (hash_erase id) (eb_notified evt) peers in
          if peers = [] then Ret (MDV_OK, [])
          else case insert_uuids (tm_hash m) 0 peers (eb_notified evt) of
            (_, False) \<Rightarrow> Ret (MDV_NO_MEM, [])
          | (notified, True) \<Rightarrow>
              Ret (publish pub (Evt_broadcast_post \<lparr>ep_msg_id = eb_msg_id evt, ep_data = eb_data evt, ep_notified = notified, ep_peers = peers\<rparr>)))"

definition mdv_tracker_evt_broadcast ::
  "'d mdb \<Rightarrow> hash_orders \<Rightarrow> (nat \<Rightarrow> schedule) \<Rightarrow> (nat \<Rightarrow> nat \<Rightarrow> bool) \<Rightarrow> (nat \<Rightarrow> bool) \<Rightarrow> topology_mem \<Rightarrow> (nat \<Rightarrow> mdv_errno option) \<Rightarrow>
     'd mdv_tracker \<Rightarrow> mdv_evt_broadcast \<Rightarrow> (mdv_errno \<times> 'd mdv_tracker \<times> tracker_evt list) outcome" where
  "mdv_tracker_evt_broadcast eng orders s mem dmem m pub tracker evt =
     obind (apply_broadcast eng s mem dmem tracker evt) (\<lambda>(tracker, changed).
     obind (if changed then mdv_tracker_topology_changed orders m (pub 0) tracker
            else obind (mdv_tracker_topology orders (tm_topology m) (tm_index m) tracker) (\<lambda>p.
              case p of Topology topology \<Rightarrow> Ret (Some (topology, [])) | _ \<Rightarrow> Ret None)) (\<lambda>r.
       case r of None \<Rightarrow> Ret (MDV_FAILED, tracker, [])
       | Some (topology, evts) \<Rightarrow>
           obind (forward_broadcast m (pub 1) tracker topology evt) (\<lambda>(err, post). Ret (err, tracker, evts @ post))))"

section \<open>The invariant\<close>

definition node_ids :: "mdv_node list \<Rightarrow> (u32 \<times> mdv_uuid) set" where
  "node_ids nodes = (\<lambda>node. (nd_id node, nd_uuid node)) ` set nodes"

definition tracker_ok :: "'d mdb \<Rightarrow> 'd mdv_tracker \<Rightarrow> bool" where
  "tracker_ok eng tracker \<longleftrightarrow>
     distinct (map nd_uuid (tr_nodes tracker)) \<and> distinct (map nd_id (tr_nodes tracker)) \<and>
     (\<forall>node \<in> set (tr_nodes tracker). nd_id node \<le> tr_max_id tracker \<and> wf_node node) \<and>
     (MDV_LOCAL_ID, tr_uuid tracker) \<in> node_ids (tr_nodes tracker) \<and>
     distinct (map fst (tr_ids tracker)) \<and> set (tr_ids tracker) = node_ids (tr_nodes tracker) \<and>
     (\<forall>link \<in> set (tr_links tracker). {lk_id0 link, lk_id1 link} \<subseteq> nd_id ` set (tr_nodes tracker)) \<and>
     distinct (map link_ends (tr_links tracker)) \<and> nodes_ok eng (lm_env (tr_storage tracker))"

text \<open>The links between UUIDs that a tracker knows.\<close>

definition linked :: "'d mdv_tracker \<Rightarrow> mdv_uuid \<Rightarrow> mdv_uuid \<Rightarrow> bool" where
  "linked tracker u v \<longleftrightarrow>
     (\<exists>a \<in> set (tr_nodes tracker). \<exists>b \<in> set (tr_nodes tracker). nd_uuid a = u \<and> nd_uuid b = v \<and>
        link_ends \<lparr>lk_id0 = nd_id a, lk_id1 = nd_id b, lk_weight = 0\<rparr> \<in> link_ends ` set (tr_links tracker))"

lemma hash_put_True: "(\<And>i. mem i) \<Longrightarrow> hash_put mem i key x xs = (filter (\<lambda>y. key y \<noteq> key x) xs @ [x], True)"
  by (simp add: hash_put_def Let_def)

lemma hash_find_Some:
  assumes "distinct (map key xs)"
  shows "hash_find key k xs = Some x \<longleftrightarrow> x \<in> set xs \<and> key x = k"
  using assms unfolding hash_find_def by (induction xs) (auto simp: image_iff)

lemma hash_find_None: "hash_find key k xs = None \<longleftrightarrow> k \<notin> key ` set xs"
  by (auto simp: hash_find_def find_None_iff image_iff)

lemma link_ends_iff:
  "link_ends l = link_ends l' \<longleftrightarrow> (lk_id0 l = lk_id0 l' \<and> lk_id1 l = lk_id1 l') \<or> (lk_id0 l = lk_id1 l' \<and> lk_id1 l = lk_id0 l')"
  by (auto simp: link_ends_def not_less)

lemma link_cmp_zero: "mdv_tracker_link_cmp l l' = 0 \<longleftrightarrow> link_ends l = link_ends l'"
  by (auto simp: mdv_tracker_link_cmp_def split: prod.splits)

lemma find_same:
  assumes "distinct (map key xs)" "a \<in> set xs" "b \<in> set xs" "key a = key b"
  shows "a = b"
  using assms by (simp add: distinct_map inj_on_def)

lemma node_identifiers_ok:
  assumes "tracker_ok eng tracker"
  shows "mdv_tracker_node_identifiers tracker p q = Some (i, j) \<longleftrightarrow>
    (\<exists>a \<in> set (tr_nodes tracker). \<exists>b \<in> set (tr_nodes tracker). nd_uuid a = p \<and> nd_uuid b = q \<and> nd_id a = i \<and> nd_id b = j)"
proof -
  have dist: "distinct (map nd_uuid (tr_nodes tracker))" using assms by (simp add: tracker_ok_def)
  obtain self where self: "self \<in> set (tr_nodes tracker)" "nd_uuid self = tr_uuid tracker" "nd_id self = MDV_LOCAL_ID"
    using assms by (auto simp: tracker_ok_def node_ids_def)
  have find: "mdv_tracker_find tracker u = Some n \<longleftrightarrow> n \<in> set (tr_nodes tracker) \<and> nd_uuid n = u" for u n
    unfolding mdv_tracker_find_def by (rule hash_find_Some [OF dist])
  define ident where "ident peer = (if mdv_uuid_cmp peer (tr_uuid tracker) \<noteq> 0 then map_option nd_id (mdv_tracker_find tracker peer) else Some MDV_LOCAL_ID)" for peer
  have ident: "ident u = Some k \<longleftrightarrow> (\<exists>n \<in> set (tr_nodes tracker). nd_uuid n = u \<and> nd_id n = k)" for u k
  proof (cases "u = tr_uuid tracker")
    case True
    have "n = self" if "n \<in> set (tr_nodes tracker)" "nd_uuid n = tr_uuid tracker" for n
      using find_same [OF dist that(1) self(1)] that(2) self(2) by simp
    then have "(\<exists>n \<in> set (tr_nodes tracker). nd_uuid n = u \<and> nd_id n = k) \<longleftrightarrow> k = MDV_LOCAL_ID" using True self by blast
    moreover have "ident u = Some MDV_LOCAL_ID" using True by (simp add: ident_def uuid_cmp_zero)
    ultimately show ?thesis by auto
  next
    case False
    then show ?thesis by (auto simp: ident_def uuid_cmp_zero find)
  qed
  have "mdv_tracker_node_identifiers tracker p q = (case ident p of None \<Rightarrow> None | Some id0 \<Rightarrow> map_option (Pair id0) (ident q))"
    unfolding mdv_tracker_node_identifiers_def Let_def ident_def by (rule refl)
  then have "mdv_tracker_node_identifiers tracker p q = Some (i, j) \<longleftrightarrow> ident p = Some i \<and> ident q = Some j"
    by (cases "ident p"; cases "ident q") auto
  then show ?thesis unfolding ident by blast
qed

lemma ends_uuids:
  assumes "distinct (map nd_uuid nodes)" "distinct (map nd_id nodes)" "a \<in> set nodes" "b \<in> set nodes" "c \<in> set nodes" "d \<in> set nodes"
  shows "link_ends \<lparr>lk_id0 = nd_id a, lk_id1 = nd_id b, lk_weight = w\<rparr> = link_ends \<lparr>lk_id0 = nd_id c, lk_id1 = nd_id d, lk_weight = w'\<rparr>
           \<longleftrightarrow> {nd_uuid a, nd_uuid b} = {nd_uuid c, nd_uuid d}"
proof -
  have "nd_id x = nd_id y \<longleftrightarrow> nd_uuid x = nd_uuid y" if "x \<in> set nodes" "y \<in> set nodes" for x y
    using find_same [OF assms(1) that] find_same [OF assms(2) that] by blast
  then show ?thesis using assms(3-6) by (simp add: link_ends_iff doubleton_eq_iff)
qed

lemma linkstate_ok:
  assumes ok: "tracker_ok eng tracker" and mem: "\<And>i. mem i"
    and r: "mdv_tracker_linkstate_add mem tracker p q conn w = (err, tracker')"
  shows "tracker_ok eng tracker' \<and> tr_nodes tracker' = tr_nodes tracker \<and> tr_uuid tracker' = tr_uuid tracker \<and>
    tr_max_id tracker' = tr_max_id tracker \<and> (err = MDV_OK \<longleftrightarrow> {p, q} \<subseteq> nd_uuid ` set (tr_nodes tracker)) \<and>
    (\<forall>u v. linked tracker' u v \<longleftrightarrow> (if err = MDV_OK \<and> {u, v} = {p, q} then conn else linked tracker u v))"
proof (cases "mdv_tracker_node_identifiers tracker p q")
  case None
  then have "\<not> {p, q} \<subseteq> nd_uuid ` set (tr_nodes tracker)" using node_identifiers_ok [OF ok, of p q] by fastforce
  then show ?thesis using None r ok by (simp add: mdv_tracker_linkstate_add_def)
next
  case (Some ij)
  then obtain a b where ab: "a \<in> set (tr_nodes tracker)" "b \<in> set (tr_nodes tracker)" "nd_uuid a = p" "nd_uuid b = q" "ij = (nd_id a, nd_id b)"
    using node_identifiers_ok [OF ok, of p q "fst ij" "snd ij"] by auto
  let ?link = "\<lparr>lk_id0 = nd_id a, lk_id1 = nd_id b, lk_weight = w\<rparr>"
  define links where "links = filter (\<lambda>y. link_ends y \<noteq> link_ends ?link) (tr_links tracker) @ (if conn then [?link] else [])"
  have t': "tracker' = tracker\<lparr>tr_links := links\<rparr>" "err = MDV_OK"
    using r Some ab(5)
    by (auto simp: mdv_tracker_linkstate_add_def mdv_tracker_linkstate2_def hash_put_True [OF mem] hash_erase_def links_def split: if_splits)
  have "distinct (map link_ends links)"
    using ok by (auto simp: tracker_ok_def links_def distinct_map inj_on_def)
  moreover have "{lk_id0 l, lk_id1 l} \<subseteq> nd_id ` set (tr_nodes tracker)" if "l \<in> set links" for l
    using that ok ab(1,2) by (auto simp: tracker_ok_def links_def split: if_splits)
  ultimately have "tracker_ok eng tracker'" using ok by (simp add: tracker_ok_def t'(1))
  moreover have "linked tracker' u v \<longleftrightarrow> (if {u, v} = {p, q} then conn else linked tracker u v)" for u v
  proof -
    have ends: "link_ends ` set links = (if conn then insert (link_ends ?link) else (\<lambda>S. S - {link_ends ?link})) (link_ends ` set (tr_links tracker))"
      by (auto simp: links_def)
    have eq: "link_ends \<lparr>lk_id0 = nd_id c, lk_id1 = nd_id d, lk_weight = 0\<rparr> = link_ends ?link \<longleftrightarrow> {nd_uuid c, nd_uuid d} = {p, q}"
      if "c \<in> set (tr_nodes tracker)" "d \<in> set (tr_nodes tracker)" for c d
      using ends_uuids [OF _ _ that ab(1,2), of 0 w] ok ab(3,4) by (simp add: tracker_ok_def)
    let ?E = "\<lambda>c d. link_ends \<lparr>lk_id0 = nd_id c, lk_id1 = nd_id d, lk_weight = 0\<rparr>" and ?N = "set (tr_nodes tracker)"
    have "?E c d \<in> link_ends ` set links \<longleftrightarrow> (if {nd_uuid c, nd_uuid d} = {p, q} then conn else ?E c d \<in> link_ends ` set (tr_links tracker))"
      if "c \<in> ?N" "d \<in> ?N" for c d
      unfolding ends using eq [OF that] by (cases "{nd_uuid c, nd_uuid d} = {p, q}"; cases conn) simp_all
    then have "linked tracker' u v \<longleftrightarrow>
        (\<exists>c \<in> ?N. \<exists>d \<in> ?N. nd_uuid c = u \<and> nd_uuid d = v \<and> (if {u, v} = {p, q} then conn else ?E c d \<in> link_ends ` set (tr_links tracker)))"
      unfolding linked_def t'(1) by (simp cong: bex_cong conj_cong)
    moreover have "\<exists>c \<in> ?N. \<exists>d \<in> ?N. nd_uuid c = u \<and> nd_uuid d = v" if "{u, v} = {p, q}"
      using that ab unfolding doubleton_eq_iff by blast
    moreover have "linked tracker u v \<longleftrightarrow> (\<exists>c \<in> ?N. \<exists>d \<in> ?N. nd_uuid c = u \<and> nd_uuid d = v \<and> ?E c d \<in> link_ends ` set (tr_links tracker))"
      by (simp only: linked_def)
    ultimately show ?thesis
      by (cases "{u, v} = {p, q}") (simp_all only: if_True if_False simp_thms, blast)
  qed
  ultimately show ?thesis using t' ab by auto
qed

lemma linked_ids:
  "linked tracker u v \<longleftrightarrow> (\<exists>i j. (i, u) \<in> node_ids (tr_nodes tracker) \<and> (j, v) \<in> node_ids (tr_nodes tracker) \<and>
     link_ends \<lparr>lk_id0 = i, lk_id1 = j, lk_weight = 0\<rparr> \<in> link_ends ` set (tr_links tracker))"
  unfolding linked_def node_ids_def by blast

lemma tracker_insert_ok:
  assumes ok: "tracker_ok eng tracker" and mem: "\<And>i. mem i" and node: "wf_node node" "nd_id node \<le> tr_max_id tracker"
    and same: "\<And>n. n \<in> set (tr_nodes tracker) \<Longrightarrow> nd_id n = nd_id node \<longleftrightarrow> nd_uuid n = nd_uuid node"
  obtains tracker' where "mdv_tracker_insert mem tracker node = (tracker', True)" "tracker_ok eng tracker'"
    "node_ids (tr_nodes tracker') = insert (nd_id node, nd_uuid node) (node_ids (tr_nodes tracker))" "linked tracker' = linked tracker"
    "tr_uuid tracker' = tr_uuid tracker" "tr_max_id tracker' = tr_max_id tracker" "tr_storage tracker' = tr_storage tracker"
    "tr_links tracker' = tr_links tracker"
proof -
  define nodes where "nodes = filter (\<lambda>y. nd_uuid y \<noteq> nd_uuid node) (tr_nodes tracker) @ [node]"
  define ids where "ids = filter (\<lambda>y. fst y \<noteq> nd_id node) (tr_ids tracker) @ [(nd_id node, nd_uuid node)]"
  let ?t = "tracker\<lparr>tr_nodes := nodes, tr_ids := ids\<rparr>"
  have node_ids: "node_ids nodes = insert (nd_id node, nd_uuid node) (node_ids (tr_nodes tracker))"
    using same by (auto simp: nodes_def node_ids_def)
  have old: "set (tr_ids tracker) = node_ids (tr_nodes tracker)" using ok by (simp add: tracker_ok_def)
  have set_ids: "set ids = node_ids nodes" unfolding node_ids using same by (auto simp: ids_def old node_ids_def)
  have "nd_id node \<notin> nd_id ` {n \<in> set (tr_nodes tracker). nd_uuid n \<noteq> nd_uuid node}"
  proof
    assume "nd_id node \<in> nd_id ` {n \<in> set (tr_nodes tracker). nd_uuid n \<noteq> nd_uuid node}"
    then obtain n where "nd_id node = nd_id n" "n \<in> set (tr_nodes tracker)" "nd_uuid n \<noteq> nd_uuid node" by blast
    then show False using same [of n] by simp
  qed
  then have dist: "distinct (map nd_uuid nodes)" "distinct (map nd_id nodes)" "distinct (map fst ids)"
    using ok by (simp_all add: tracker_ok_def nodes_def ids_def distinct_map_filter) auto
  have mono: "nd_id ` set (tr_nodes tracker) \<subseteq> nd_id ` set nodes" using same by (auto simp: nodes_def)
  have "\<forall>n \<in> set nodes. nd_id n \<le> tr_max_id tracker \<and> wf_node n" using ok node by (auto simp: tracker_ok_def nodes_def)
  moreover have "(MDV_LOCAL_ID, tr_uuid tracker) \<in> node_ids nodes" using ok unfolding node_ids tracker_ok_def by blast
  moreover have "\<forall>link \<in> set (tr_links tracker). {lk_id0 link, lk_id1 link} \<subseteq> nd_id ` set nodes" using ok mono unfolding tracker_ok_def by blast
  moreover have "distinct (map link_ends (tr_links tracker))" "nodes_ok eng (lm_env (tr_storage tracker))" using ok by (simp_all add: tracker_ok_def)
  ultimately have "tracker_ok eng ?t" using dist set_ids unfolding tracker_ok_def by simp
  moreover have "linked ?t u v = linked tracker u v" for u v
  proof -
    have "i \<in> nd_id ` set (tr_nodes tracker) \<and> j \<in> nd_id ` set (tr_nodes tracker)"
      if "link_ends \<lparr>lk_id0 = i, lk_id1 = j, lk_weight = 0\<rparr> \<in> link_ends ` set (tr_links tracker)" for i j
      using that ok by (auto simp: tracker_ok_def link_ends_iff)
    moreover have "(i, w) \<in> node_ids nodes \<longleftrightarrow> (i, w) \<in> node_ids (tr_nodes tracker)" if "i \<in> nd_id ` set (tr_nodes tracker)" for i w
      unfolding node_ids using that same by (auto simp: node_ids_def)
    ultimately have "(i, u) \<in> node_ids nodes \<and> (j, v) \<in> node_ids nodes \<longleftrightarrow> (i, u) \<in> node_ids (tr_nodes tracker) \<and> (j, v) \<in> node_ids (tr_nodes tracker)"
      if "link_ends \<lparr>lk_id0 = i, lk_id1 = j, lk_weight = 0\<rparr> \<in> link_ends ` set (tr_links tracker)" for i j
      using that by blast
    then show ?thesis unfolding linked_ids by simp blast
  qed
  moreover have "mdv_tracker_insert mem tracker node = (?t, True)"
    by (simp add: mdv_tracker_insert_def hash_put_True [OF mem] nodes_def ids_def)
  ultimately show ?thesis using that [of ?t] node_ids by (simp add: fun_eq_iff)
qed

text \<open>What registration keeps: the invariant, the links and all local identifiers that have been given.\<close>

definition registered :: "'d mdb \<Rightarrow> 'd mdv_tracker \<Rightarrow> mdv_uuid \<Rightarrow> mdv_errno \<Rightarrow> 'd mdv_tracker \<Rightarrow> bool" where
  "registered eng tracker uuid err tracker' \<longleftrightarrow>
     tracker_ok eng tracker' \<and> linked tracker' = linked tracker \<and> tr_uuid tracker' = tr_uuid tracker \<and>
     node_ids (tr_nodes tracker) \<subseteq> node_ids (tr_nodes tracker') \<and> unat (tr_max_id tracker') \<le> unat (tr_max_id tracker) + 1 \<and>
     tr_links tracker' = tr_links tracker \<and> (err = MDV_OK \<longrightarrow> uuid \<in> snd ` node_ids (tr_nodes tracker'))"

lemma stored_ok:
  assumes "lmdb_laws ints eng" "tracker_ok eng tracker" "mdv_nodes_store eng ok mem (tr_storage tracker) node = Ret (err, storage)" "wf_node node"
  shows "nodes_ok eng (lm_env storage)"
  using store_ok [OF assms(1) _ assms(4,3)] assms(2) by (simp add: tracker_ok_def)

lemma register_known:
  assumes laws: "lmdb_laws ints eng" and ok: "tracker_ok eng tracker" and mem: "\<And>i. sc_hash s i"
    and addr: "0 \<notin> set addr" and r: "mdv_tracker_register eng s tracker uuid addr = Ret (err, tracker')"
    and found: "mdv_tracker_find tracker uuid = Some node"
  shows "registered eng tracker uuid err tracker'"
proof -
  have dist: "distinct (map nd_uuid (tr_nodes tracker))" "distinct (map nd_id (tr_nodes tracker))" using ok by (simp_all add: tracker_ok_def)
  have node: "node \<in> set (tr_nodes tracker)" "nd_uuid node = uuid" using found by (simp_all add: mdv_tracker_find_def hash_find_Some [OF dist(1)])
  have known: "uuid \<in> snd ` node_ids (tr_nodes tracker)" using node by (auto simp: node_ids_def image_iff)
  show ?thesis
  proof (cases "addr = nd_addr node \<or> mdv_node_init uuid (nd_id node) addr = None")
    case True
    then have "tracker' = tracker" using r found by (auto simp: mdv_tracker_register_def split: if_splits)
    then show ?thesis using ok known by (simp add: registered_def)
  next
    case False
    then obtain new where new: "mdv_node_init uuid (nd_id node) addr = Some new" by blast
    then have n: "new = \<lparr>nd_uuid = uuid, nd_id = nd_id node, nd_addr = addr\<rparr>" "wf_node new"
      using addr by (auto simp: mdv_node_init_def wf_node_def split: if_splits)
    obtain e storage where st: "mdv_nodes_store eng (sc_lmdb s) (sc_binn s) (tr_storage tracker) new = Ret (e, storage)"
        "(case mdv_tracker_insert (sc_hash s) (tracker\<lparr>tr_storage := storage\<rparr>) new of (t, ok) \<Rightarrow> Ret (if ok then MDV_OK else MDV_FAILED, t)) = Ret (err, tracker')"
      using r found False new by (auto simp: mdv_tracker_register_def obind_eq_Ret)
    have "tracker_ok eng (tracker\<lparr>tr_storage := storage\<rparr>)" using ok stored_ok [OF laws ok st(1) n(2)] by (simp add: tracker_ok_def)
    moreover have "nd_id new \<le> tr_max_id tracker" using n(1) node(1) ok by (simp add: tracker_ok_def)
    moreover have "nd_id m = nd_id new \<longleftrightarrow> nd_uuid m = nd_uuid new" if "m \<in> set (tr_nodes tracker)" for m
      using find_same [OF dist(1) that node(1)] find_same [OF dist(2) that node(1)] n(1) node(2) by auto
    ultimately obtain t where "mdv_tracker_insert (sc_hash s) (tracker\<lparr>tr_storage := storage\<rparr>) new = (t, True)" "tracker_ok eng t"
        "node_ids (tr_nodes t) = insert (nd_id new, nd_uuid new) (node_ids (tr_nodes tracker))" "linked t = linked (tracker\<lparr>tr_storage := storage\<rparr>)"
        "tr_uuid t = tr_uuid tracker" "tr_max_id t = tr_max_id tracker" "tr_links t = tr_links tracker"
      using tracker_insert_ok [of eng "tracker\<lparr>tr_storage := storage\<rparr>" "sc_hash s" new, OF _ mem n(2)] by auto
    moreover have "linked (tracker\<lparr>tr_storage := storage\<rparr>) = linked tracker" by (simp add: fun_eq_iff linked_def)
    ultimately show ?thesis using st(2) known by (auto simp: registered_def)
  qed
qed

lemma register_new:
  assumes laws: "lmdb_laws ints eng" and ok: "tracker_ok eng tracker" and mem: "\<And>i. sc_hash s i"
    and addr: "0 \<notin> set addr" and r: "mdv_tracker_register eng s tracker uuid addr = Ret (err, tracker')"
    and found: "mdv_tracker_find tracker uuid = None" and max: "tr_max_id tracker + 1 \<noteq> 0"
  shows "registered eng tracker uuid err tracker'"
proof -
  have fresh: "uuid \<notin> nd_uuid ` set (tr_nodes tracker)" using found by (simp add: mdv_tracker_find_def hash_find_None)
  let ?id = "tr_max_id tracker + 1" and ?t = "tracker\<lparr>tr_max_id := tr_max_id tracker + 1\<rparr>"
  have id: "unat ?id = unat (tr_max_id tracker) + 1" using unatSuc [of "tr_max_id tracker"] max by (simp add: add.commute)
  have gt: "n \<le> ?id \<and> n \<noteq> ?id" if "n \<le> tr_max_id tracker" for n using that id by (auto simp: word_le_nat_alt)
  have okt: "tracker_ok eng ?t" using ok gt by (auto simp: tracker_ok_def)
  have lt: "linked (?t\<lparr>tr_storage := x\<rparr>) = linked tracker" "linked ?t = linked tracker" for x by (simp_all add: fun_eq_iff linked_def)
  show ?thesis
  proof (cases "mdv_node_init uuid ?id addr")
    case None
    then have "tracker' = ?t" "err = MDV_FAILED" using r found None by (auto simp: mdv_tracker_register_def mdv_tracker_new_id_def)
    then show ?thesis using okt lt id by (simp add: registered_def)
  next
    case (Some new)
    then have n: "new = \<lparr>nd_uuid = uuid, nd_id = ?id, nd_addr = addr\<rparr>" "wf_node new"
      using addr by (auto simp: mdv_node_init_def wf_node_def split: if_splits)
    obtain e storage where st: "mdv_nodes_store eng (sc_lmdb s) (sc_binn s) (tr_storage tracker) new = Ret (e, storage)"
        "(if e = MDV_OK then case mdv_tracker_insert (sc_hash s) (?t\<lparr>tr_storage := storage\<rparr>) new of (t, ok) \<Rightarrow> Ret (if ok then MDV_OK else MDV_FAILED, t)
          else Ret (e, ?t\<lparr>tr_storage := storage\<rparr>)) = Ret (err, tracker')"
      using r found Some by (auto simp: mdv_tracker_register_def mdv_tracker_new_id_def obind_eq_Ret)
    have ok2: "tracker_ok eng (?t\<lparr>tr_storage := storage\<rparr>)" using okt stored_ok [OF laws ok st(1) n(2)] by (simp add: tracker_ok_def)
    show ?thesis
    proof (cases "e = MDV_OK")
      case False
      then show ?thesis using st(2) ok2 lt id by (auto simp: registered_def)
    next
      case True
      have "nd_id n = nd_id new \<longleftrightarrow> nd_uuid n = nd_uuid new" if "n \<in> set (tr_nodes tracker)" for n
        using that fresh gt [of "nd_id n"] ok n(1) by (auto simp: tracker_ok_def)
      with tracker_insert_ok [of eng "?t\<lparr>tr_storage := storage\<rparr>" "sc_hash s" new, OF ok2 mem n(2)]
        obtain t where "mdv_tracker_insert (sc_hash s) (?t\<lparr>tr_storage := storage\<rparr>) new = (t, True)" "tracker_ok eng t"
        "node_ids (tr_nodes t) = insert (nd_id new, nd_uuid new) (node_ids (tr_nodes tracker))" "linked t = linked (?t\<lparr>tr_storage := storage\<rparr>)"
        "tr_uuid t = tr_uuid tracker" "tr_max_id t = ?id" "tr_links t = tr_links tracker"
        using n(1) by auto
      then show ?thesis using st(2) True lt id n(1) by (auto simp: registered_def)
    qed
  qed
qed

lemma register_ok:
  assumes laws: "lmdb_laws ints eng" and ok: "tracker_ok eng tracker" and mem: "\<And>i. sc_hash s i"
    and addr: "0 \<notin> set addr" and r: "mdv_tracker_register eng s tracker uuid addr = Ret (err, tracker')"
    and max: "tr_max_id tracker + 1 \<noteq> 0"
  shows "registered eng tracker uuid err tracker'"
  using register_known [OF laws ok mem addr r] register_new [OF laws ok mem addr r _ max] by (cases "mdv_tracker_find tracker uuid") auto

section \<open>The topology of a tracker\<close>

definition orders_ok :: "hash_orders \<Rightarrow> bool" where
  "orders_ok orders \<longleftrightarrow>
     (\<forall>xs. mset (ho_nodes orders xs) = mset xs) \<and> (\<forall>xs. mset (ho_index orders xs) = mset xs) \<and> (\<forall>xs. mset (ho_links orders xs) = mset xs)"

lemma index_loop_ok:
  assumes "\<And>i. mem i" "distinct (map fst acc @ map nd_id nodes)"
  shows "index_loop mem i nodes acc = acc @ map (\<lambda>node. (nd_id node, node)) nodes"
  using assms(2)
proof (induction nodes arbitrary: i acc)
  case (Cons node nodes)
  then have "filter (\<lambda>y. fst y \<noteq> nd_id node) acc = acc" by (auto simp: filter_id_conv image_iff)
  then show ?case using Cons by (simp add: hash_put_True [OF assms(1)])
qed simp

lemma node_idx_at:
  assumes "distinct (map fst index)" "k < length index"
  shows "node_idx index (fst (index ! k)) = Some k"
  using assms by (induction index arbitrary: k) (auto simp: nth_Cons' nth_mem)

lemma node_idx_member:
  assumes "distinct (map fst index)" "(i, node) \<in> set index"
  obtains k where "node_idx index i = Some k" "k < length index" "index ! k = (i, node)"
proof -
  from assms(2) obtain k where "k < length index" "index ! k = (i, node)" by (meson in_set_conv_nth)
  then show ?thesis using that node_idx_at [OF assms(1), of k] by simp
qed

lemma mset_perm: "mset xs = mset ys \<Longrightarrow> set xs = set ys \<and> (distinct (map f ys) \<longrightarrow> distinct (map f xs))"
  by (metis mset_eq_imp_distinct_iff mset_eq_setD mset_map)

text \<open>The index of the nodes, and the links over it.\<close>

lemma index_ok:
  assumes "tracker_ok eng tracker" "orders_ok orders" "tr_max_id tracker + 1 \<noteq> 0"
  obtains index where "mdv_tracker_nodes orders (\<lambda>_. True) tracker = Ret (Some index)"
    "set (ho_index orders index) = (\<lambda>node. (nd_id node, node)) ` set (tr_nodes tracker)"
    "distinct (map fst (ho_index orders index))" "distinct (map (nd_uuid \<circ> snd) (ho_index orders index))"
proof -
  let ?nodes = "ho_nodes orders (tr_nodes tracker)" and ?index = "map (\<lambda>node. (nd_id node, node)) (ho_nodes orders (tr_nodes tracker))"
  have "distinct (map nd_id (tr_nodes tracker))" "distinct (map nd_uuid (tr_nodes tracker))" using assms(1) by (simp_all add: tracker_ok_def)
  moreover have "mset ?nodes = mset (tr_nodes tracker)" using assms(2) by (simp add: orders_ok_def)
  ultimately have nodes: "set ?nodes = set (tr_nodes tracker)" "distinct (map nd_id ?nodes)" "distinct (map nd_uuid ?nodes)"
    using mset_perm [of ?nodes "tr_nodes tracker"] by blast+
  have index: "mset (ho_index orders ?index) = mset ?index" using assms(2) by (simp add: orders_ok_def)
  have "mdv_tracker_nodes orders (\<lambda>_. True) tracker = Ret (Some ?index)"
    using assms(3) nodes(2) index_loop_ok [of "\<lambda>_. True" "[]" ?nodes 1] by (simp add: mdv_tracker_nodes_def)
  moreover have "distinct (map fst ?index)" "distinct (map (nd_uuid \<circ> snd) ?index)" using nodes(2,3) by (simp_all add: comp_def)
  moreover have "set ?index = (\<lambda>node. (nd_id node, node)) ` set (tr_nodes tracker)" using nodes(1) by simp
  ultimately show ?thesis
    using that [of ?index] mset_perm [OF index, of fst] mset_perm [OF index, of "nd_uuid \<circ> snd"] by (simp only: simp_thms)
qed

lemma topolinks_ok:
  assumes "tracker_ok eng tracker" "set index = (\<lambda>node. (nd_id node, node)) ` set (tr_nodes tracker)" "distinct (map fst index)"
    "set links = set (tr_links tracker)"
  obtains topolinks where "those (map (tracker_topolink index) links) = Some topolinks" "list_all (link_ok (map topology_node index)) topolinks"
    "length topolinks = length links"
    "\<forall>k < length links. \<exists>a \<in> set (tr_nodes tracker). \<exists>b \<in> set (tr_nodes tracker). nd_id a = lk_id0 (links ! k) \<and> nd_id b = lk_id1 (links ! k) \<and>
       ulink (map topology_node index) (topolinks ! k) = ((nd_uuid a, nd_uuid b), lk_weight (links ! k))"
proof -
  define P where "P link tl \<longleftrightarrow> link_ok (map topology_node index) tl \<and> (\<exists>a \<in> set (tr_nodes tracker). \<exists>b \<in> set (tr_nodes tracker).
      nd_id a = lk_id0 link \<and> nd_id b = lk_id1 link \<and> ulink (map topology_node index) tl = ((nd_uuid a, nd_uuid b), lk_weight link))" for link :: mdv_tracker_link and tl
  have "\<exists>tl. tracker_topolink index link = Some tl \<and> P link tl" if "link \<in> set links" for link
  proof -
    have "link \<in> set (tr_links tracker)" using that assms(4) by simp
    moreover have "\<forall>link \<in> set (tr_links tracker). {lk_id0 link, lk_id1 link} \<subseteq> nd_id ` set (tr_nodes tracker)"
      using assms(1) unfolding tracker_ok_def by (elim conjE)
    ultimately have "lk_id0 link \<in> nd_id ` set (tr_nodes tracker)" "lk_id1 link \<in> nd_id ` set (tr_nodes tracker)" by simp_all
    then obtain a b where ab: "a \<in> set (tr_nodes tracker)" "lk_id0 link = nd_id a" "b \<in> set (tr_nodes tracker)" "lk_id1 link = nd_id b"
      by (elim imageE) blast
    then have in_index: "(lk_id0 link, a) \<in> set index" "(lk_id1 link, b) \<in> set index" unfolding assms(2) by blast+
    obtain i where i: "node_idx index (lk_id0 link) = Some i" "i < length index" "index ! i = (lk_id0 link, a)"
      by (rule node_idx_member [OF assms(3) in_index(1)])
    obtain j where j: "node_idx index (lk_id1 link) = Some j" "j < length index" "index ! j = (lk_id1 link, b)"
      by (rule node_idx_member [OF assms(3) in_index(2)])
    then show ?thesis using i ab by (auto simp: tracker_topolink_def P_def link_ok_def ulink_def topology_node_def)
  qed
  then obtain f where f: "\<forall>link \<in> set links. tracker_topolink index link = Some (f link) \<and> P link (f link)"
    using bchoice [of "set links" "\<lambda>link tl. tracker_topolink index link = Some tl \<and> P link tl"] by blast
  then have "those (map (tracker_topolink index) links) = Some (map f links)" by (intro those_map) simp
  then show ?thesis using that f unfolding P_def by (simp add: list_all_iff)
qed

lemma links_linked:
  assumes "tracker_ok eng tracker" "set links = set (tr_links tracker)" "length us = length links"
    "\<forall>k < length links. \<exists>a \<in> set (tr_nodes tracker). \<exists>b \<in> set (tr_nodes tracker). nd_id a = lk_id0 (links ! k) \<and> nd_id b = lk_id1 (links ! k) \<and>
       us ! k = ((nd_uuid a, nd_uuid b), lk_weight (links ! k))"
  shows "(\<exists>w. ((u, v), w) \<in> set us \<or> ((v, u), w) \<in> set us) \<longleftrightarrow> linked tracker u v"
proof
  assume "\<exists>w. ((u, v), w) \<in> set us \<or> ((v, u), w) \<in> set us"
  then obtain k w where k: "k < length links" "us ! k = ((u, v), w) \<or> us ! k = ((v, u), w)"
    using assms(3) by (metis in_set_conv_nth)
  then obtain a b where ab: "a \<in> set (tr_nodes tracker)" "b \<in> set (tr_nodes tracker)" "nd_id a = lk_id0 (links ! k)" "nd_id b = lk_id1 (links ! k)"
      "nd_uuid a = u \<and> nd_uuid b = v \<or> nd_uuid a = v \<and> nd_uuid b = u"
    using assms(4) by fastforce
  have "links ! k \<in> set (tr_links tracker)" using k(1) assms(2) nth_mem by blast
  moreover have "link_ends \<lparr>lk_id0 = nd_id a, lk_id1 = nd_id b, lk_weight = 0\<rparr> = link_ends (links ! k)"
    "link_ends \<lparr>lk_id0 = nd_id b, lk_id1 = nd_id a, lk_weight = 0\<rparr> = link_ends (links ! k)"
    using ab(3,4) by (simp_all add: link_ends_iff)
  ultimately show "linked tracker u v" using ab(1,2,5) unfolding linked_def by (metis image_eqI)
next
  assume "linked tracker u v"
  then obtain a b link where ab: "a \<in> set (tr_nodes tracker)" "b \<in> set (tr_nodes tracker)" "nd_uuid a = u" "nd_uuid b = v"
      "link \<in> set (tr_links tracker)" "link_ends \<lparr>lk_id0 = nd_id a, lk_id1 = nd_id b, lk_weight = 0\<rparr> = link_ends link"
    unfolding linked_def by blast
  then obtain k where k: "k < length links" "links ! k = link" using assms(2) by (metis in_set_conv_nth)
  then obtain c d where cd: "c \<in> set (tr_nodes tracker)" "d \<in> set (tr_nodes tracker)" "nd_id c = lk_id0 link" "nd_id d = lk_id1 link"
      "us ! k = ((nd_uuid c, nd_uuid d), lk_weight link)"
    using assms(4) by blast
  have "distinct (map nd_id (tr_nodes tracker))" using assms(1) by (simp add: tracker_ok_def)
  note same = find_same [OF this]
  have "us ! k \<in> set us" using k(1) assms(3) by simp
  moreover have "a = c \<and> b = d \<or> a = d \<and> b = c"
    using ab(6) cd(3,4) same [OF ab(1) cd(1)] same [OF ab(1) cd(2)] same [OF ab(2) cd(1)] same [OF ab(2) cd(2)] by (auto simp: link_ends_iff)
  ultimately show "\<exists>w. ((u, v), w) \<in> set us \<or> ((v, u), w) \<in> set us" using cd(5) ab(3,4) by auto
qed

lemma tracker_topology_ok:
  assumes ok: "tracker_ok eng tracker" and orders: "orders_ok orders" and max: "tr_max_id tracker + 1 \<noteq> 0"
  obtains t where "mdv_tracker_topology orders (\<lambda>_. True) (\<lambda>_. True) tracker = Ret (Topology t)" "topology_ok t"
    "tn_uuid ` set (tp_nodes t) = nd_uuid ` set (tr_nodes tracker)"
    "\<forall>u v. (\<exists>w. ((u, v), w) \<in> set (ulinks t) \<or> ((v, u), w) \<in> set (ulinks t)) \<longleftrightarrow> linked tracker u v"
proof -
  obtain index where index: "mdv_tracker_nodes orders (\<lambda>_. True) tracker = Ret (Some index)"
      "set (ho_index orders index) = (\<lambda>node. (nd_id node, node)) ` set (tr_nodes tracker)"
      "distinct (map fst (ho_index orders index))" "distinct (map (nd_uuid \<circ> snd) (ho_index orders index))"
    by (rule index_ok [OF ok orders max])
  let ?nodes = "map topology_node (ho_index orders index)" and ?links = "ho_links orders (tr_links tracker)"
  have "mset ?links = mset (tr_links tracker)" using orders by (simp add: orders_ok_def)
  then have links: "set ?links = set (tr_links tracker)" by (rule mset_eq_setD)
  obtain topolinks where tl: "those (map (tracker_topolink (ho_index orders index)) ?links) = Some topolinks"
      "list_all (link_ok ?nodes) topolinks" "length topolinks = length ?links"
      "\<forall>k < length ?links. \<exists>a \<in> set (tr_nodes tracker). \<exists>b \<in> set (tr_nodes tracker). nd_id a = lk_id0 (?links ! k) \<and>
         nd_id b = lk_id1 (?links ! k) \<and> ulink ?nodes (topolinks ! k) = ((nd_uuid a, nd_uuid b), lk_weight (?links ! k))"
    by (rule topolinks_ok [OF ok index(2,3) links])
  have uuids: "map tn_uuid ?nodes = map (nd_uuid \<circ> snd) (ho_index orders index)" "map tn_id ?nodes = map (unat \<circ> fst) (ho_index orders index)"
    by (simp_all add: topology_node_def)
  have "distinct (map tn_id ?nodes)"
    unfolding uuids(2) using index(3) by (simp add: distinct_map inj_on_def word_unat_eq_iff)
  from create_ok [of "\<lambda>_. True", OF _ tl(2) this] obtain t where t:
      "mdv_topology_create (\<lambda>_. True) ?nodes topolinks (concat (map (\<lambda>node. tn_addr node @ [CHR 0x00]) ?nodes)) = Some (Topology t)"
      "tp_nodes t = sort_key tn_uuid ?nodes" "ulinks t = map (ulink ?nodes) topolinks" "list_all (link_ok (tp_nodes t)) (tp_links t)"
    by blast
  have "mdv_tracker_topology orders (\<lambda>_. True) (\<lambda>_. True) tracker = Ret (Topology t)"
    using index(1) tl(1) t(1) by (simp add: mdv_tracker_topology_def mdv_tracker_links_def)
  moreover have "topology_ok t"
    using t(2,4) \<open>distinct (map tn_id ?nodes)\<close> index(4) mset_perm [of "sort_key tn_uuid ?nodes" ?nodes tn_id] mset_perm [of "sort_key tn_uuid ?nodes" ?nodes tn_uuid]
    unfolding uuids(1) [symmetric] by (simp add: topology_ok_def)
  moreover have "tn_uuid ` set (tp_nodes t) = nd_uuid ` set (tr_nodes tracker)"
    using index(2) by (simp add: t(2) topology_node_def image_image)
  moreover have "(\<exists>w. ((u, v), w) \<in> set (ulinks t) \<or> ((v, u), w) \<in> set (ulinks t)) \<longleftrightarrow> linked tracker u v" for u v
    using links_linked [OF ok links, of "ulinks t"] tl(3,4) by (simp add: t(3))
  ultimately show ?thesis using that by blast
qed

lemma peers_linked:
  assumes "topology_ok t" "\<forall>u v. (\<exists>w. ((u, v), w) \<in> set (ulinks t) \<or> ((v, u), w) \<in> set (ulinks t)) \<longleftrightarrow> R u v"
  obtains ps where "mdv_topology_peers (\<lambda>_. True) t node = Some (Some ps)" "set ps = {v. R node v}"
proof -
  have "list_all (link_ok (tp_nodes t)) (tp_links t)" using assms(1) by (simp add: topology_ok_def)
  from peers_loop_ok [of "\<lambda>_. True", OF _ this, of 1 node "[]"] obtain ps where ps: "mdv_topology_peers (\<lambda>_. True) t node = Some (Some ps)"
    "set ps = {v. \<exists>x \<in> set (tp_links t). fst (ulink (tp_nodes t) x) = (node, v) \<or> fst (ulink (tp_nodes t) x) = (v, node)}"
    by (auto simp: mdv_topology_peers_def)
  have "(\<exists>x \<in> set (tp_links t). fst (ulink (tp_nodes t) x) = (node, v) \<or> fst (ulink (tp_nodes t) x) = (v, node)) \<longleftrightarrow>
      (\<exists>w. ((node, v), w) \<in> set (ulinks t) \<or> ((v, node), w) \<in> set (ulinks t))" for v
    unfolding ulinks_def set_map image_iff by (metis fst_conv prod.collapse)
  then show ?thesis using that ps assms(2) by simp
qed

lemma link_check_ok:
  assumes "tracker_ok eng tracker"
  shows "mdv_tracker_linkstate_get tracker p q = (MDV_OK, linked tracker p q)"
proof (cases "mdv_tracker_node_identifiers tracker p q")
  case None
  then have "\<not> linked tracker p q" using node_identifiers_ok [OF assms, of p q] unfolding linked_def by fastforce
  then show ?thesis using None by (simp add: mdv_tracker_linkstate_get_def)
next
  case (Some ij)
  obtain i j where ij: "ij = (i, j)" by (cases ij)
  have ids: "(i', p) \<in> node_ids (tr_nodes tracker) \<and> (j', q) \<in> node_ids (tr_nodes tracker) \<longleftrightarrow> i' = i \<and> j' = j" for i' j'
    using node_identifiers_ok [OF assms, of p q i' j'] Some ij by (auto simp: node_ids_def)
  have "linked tracker p q \<longleftrightarrow> link_ends \<lparr>lk_id0 = i, lk_id1 = j, lk_weight = 0\<rparr> \<in> link_ends ` set (tr_links tracker)"
    unfolding linked_ids conj_assoc [symmetric] ids by simp
  then show ?thesis using Some ij by (simp add: mdv_tracker_linkstate_get_def hash_find_None)
qed

text \<open>The part of the handler that changes the tracker.\<close>

lemma link_state_changes:
  assumes "mdv_tracker_evt_link_state eng orders s m pub tracker evt = Ret (err, tracker', evts)"
  obtains (src) "mdv_tracker_register eng (s 0) tracker (el_src evt) (el_src_addr evt) = Ret (err, tracker')" "err \<noteq> MDV_OK"
  | (dst) t1 where "mdv_tracker_register eng (s 0) tracker (el_src evt) (el_src_addr evt) = Ret (MDV_OK, t1)"
      "mdv_tracker_register eng (s 1) t1 (el_dst evt) (el_dst_addr evt) = Ret (err, tracker')" "err \<noteq> MDV_OK"
  | (link) t1 t2 e where "mdv_tracker_register eng (s 0) tracker (el_src evt) (el_src_addr evt) = Ret (MDV_OK, t1)"
      "mdv_tracker_register eng (s 1) t1 (el_dst evt) (el_dst_addr evt) = Ret (MDV_OK, t2)"
      "mdv_tracker_linkstate_add (sc_hash (s 2)) t2 (el_src evt) (el_dst evt) (el_connected evt) 1 = (e, tracker')" "e \<noteq> MDV_OK \<longrightarrow> err \<noteq> MDV_OK"
proof -
  obtain e1 t1 where 1: "mdv_tracker_register eng (s 0) tracker (el_src evt) (el_src_addr evt) = Ret (e1, t1)"
    using assms by (auto simp: mdv_tracker_evt_link_state_def obind_eq_Ret)
  show ?thesis
  proof (cases "e1 = MDV_OK")
    case False
    then show ?thesis using assms 1 src by (simp add: mdv_tracker_evt_link_state_def)
  next
    case True
    then obtain e2 t2 where 2: "mdv_tracker_register eng (s 1) t1 (el_dst evt) (el_dst_addr evt) = Ret (e2, t2)"
      using assms 1 by (auto simp: mdv_tracker_evt_link_state_def obind_eq_Ret)
    show ?thesis
    proof (cases "e2 = MDV_OK")
      case False
      then show ?thesis using assms 1 2 True dst by (simp add: mdv_tracker_evt_link_state_def)
    next
      case e2: True
      obtain e3 t3 where 3: "mdv_tracker_linkstate_add (sc_hash (s 2)) t2 (el_src evt) (el_dst evt) (el_connected evt) 1 = (e3, t3)" by fastforce
      have "tracker' = t3" "e3 \<noteq> MDV_OK \<longrightarrow> err \<noteq> MDV_OK"
        using assms 1 2 3 True e2 by (auto simp: mdv_tracker_evt_link_state_def obind_eq_Ret split: if_splits option.splits prod.splits)
      then show ?thesis using link 1 2 3 True e2 by simp
    qed
  qed
qed

lemma id_room: "unat (w :: u32) + 1 < 2 ^ 32 \<Longrightarrow> w + 1 \<noteq> 0"
proof
  assume "unat w + 1 < 2 ^ 32" "w + 1 = 0"
  then have "w = - 1" by (simp add: eq_neg_iff_add_eq_0)
  with \<open>unat w + 1 < 2 ^ 32\<close> show False by (simp add: unsigned_minus_1_eq_mask mask_eq_exp_minus_1)
qed

lemma node_uuids: "snd ` node_ids nodes = nd_uuid ` set nodes"
  by (simp add: node_ids_def image_image)

section \<open>Properties\<close>



definition sample_tracker :: "alists mdv_tracker" where
  "sample_tracker = \<lparr>tr_rc = 1, tr_uuid = Uuid 1 0, tr_max_id = 1, tr_storage = \<lparr>lm_ref_counter = 1, lm_env = Map.empty\<rparr>,
     tr_nodes = [\<lparr>nd_uuid = Uuid 1 0, nd_id = 0, nd_addr = [0x61]\<rparr>, \<lparr>nd_uuid = Uuid 2 0, nd_id = 1, nd_addr = [0x62]\<rparr>],
     tr_ids = [(0, Uuid 1 0), (1, Uuid 2 0)], tr_links = [\<lparr>lk_id0 = 0, lk_id1 = 1, lk_weight = 1\<rparr>]\<rparr>"

definition insertion_orders :: hash_orders where
  "insertion_orders = \<lparr>ho_nodes = id, ho_index = id, ho_links = id\<rparr>"

lemma sample_ok: "tracker_ok alist_mdb sample_tracker" "orders_ok insertion_orders" "tr_max_id sample_tracker + 1 \<noteq> 0"
  by (simp_all add: tracker_ok_def sample_tracker_def node_ids_def wf_node_def MDV_ADDR_LEN_MAX_def MDV_LOCAL_ID_def nodes_ok_def mdb_keys_def
      alist_mdb_def content_def orders_ok_def insertion_orders_def)


definition all_succeed :: schedule where
  "all_succeed = \<lparr>sc_lmdb = (\<lambda>_. True), sc_binn = (\<lambda>_. True), sc_hash = (\<lambda>_. True)\<rparr>"

definition all_memory :: topology_mem where
  "all_memory = \<lparr>tm_topology = (\<lambda>_. True), tm_index = (\<lambda>_. True), tm_peers = (\<lambda>_. True), tm_binn = (\<lambda>_ _. True), tm_hash = (\<lambda>_. True)\<rparr>"

definition sample_link :: mdv_evt_link_state where
  "sample_link = \<lparr>el_from = Uuid 1 0, el_src = Uuid 2 0, el_src_addr = [0x62], el_dst = Uuid 3 0, el_dst_addr = [0x63], el_connected = True\<rparr>"


end
