(* ===== verification/Spec2Isabelle.thy ===== *)
theory Spec2Isabelle
  imports Mdv_Queue Mdv_Predicate Mdv_Lrucache Mdv_Vector Mdv_Algorithm Mdv_Bitset Mdv_Bloom Mdv_Uuid Mdv_Mst Mdv_Topology Mdv_Router Mdv_Dispatcher Mdv_2pset Mdv_Trlog Mdv_Client_Codec Mdv_Tracker
begin

text \<open>
  A verification development for MedvedDB, a distributed database in C (src/).

  Parts of the program. src/mdv_platform holds the containers and the runtime the rest is built
  from; src/mdv_types the values, rows and their binary form; src/mdv_storage the two-phase set over LMDB,
  the stack machine for predicates and the row operators; src/mdv_net the message framing and the request dispatcher;
  src/mdv_core the nodes, links, topology, transaction logs and their synchronisation.

  Theories.
    \<^item> \<open>Mdv_Prelude\<close>: error codes, byte buffers (\<open>memcpy\<close>, \<open>memcmp\<close>), integer encodings.
    \<^item> \<open>Mdv_Queue\<close>: the ring buffer of mdv_queue.c and the contract of a bounded queue.
\<close>

end
